(* ===== verification/Prelude.thy ===== *)
theory Prelude
  imports Complex_Main "HOL-Library.Word"
begin

text \<open>
  Shared vocabulary of the development: the fixed-width integer types of the C
  sources, little-endian loads and stores on byte buffers, population counts,
  rotations and C's truncating division, with the lemmas the component
  theories use about them.

  A memory region (a shared-memory segment, a bitmap, a NUL-terminated string)
  is a list of bytes.  Reading a wider integer from it is \<open>le_word\<close> of the
  bytes (the sources run on little-endian machines), storing one is
  \<open>le_bytes\<close>.
\<close>

unbundle bit_operations_syntax

type_synonym u8 = "8 word"
type_synonym u16 = "16 word"
type_synonym u32 = "32 word"
type_synonym u64 = "64 word"

named_theorems bytes_simps \<open>equations that turn wide loads and stores into bytes\<close>

section \<open>Little-endian loads and stores\<close>

primrec le_word :: "u8 list \<Rightarrow> 'a::len word" where
  "le_word [] = 0"
| "le_word (b # bs) = ucast b OR push_bit 8 (le_word bs)"

definition le_bytes :: "nat \<Rightarrow> 'a::len word \<Rightarrow> u8 list" where
  "le_bytes n w = map (\<lambda>i. ucast (drop_bit (8 * i) w)) [0..<n]"

lemma length_le_bytes [simp]: "length (le_bytes n w) = n"
  by (simp add: le_bytes_def)

lemma bit_le_word:
  "bit (le_word bs :: 'a::len word) i \<longleftrightarrow>
     i < LENGTH('a) \<and> i div 8 < length bs \<and> bit (bs ! (i div 8)) (i mod 8)"
proof (induction bs arbitrary: i)
  case Nil
  then show ?case by simp
next
  case (Cons b bs)
  show ?case
  proof (cases "i < 8")
    case True
    then show ?thesis by (auto simp: bit_simps)
  next
    case False
    then obtain j where j: "i = j + 8"
      by (metis add.commute le_iff_add linorder_not_less)
    have "\<not> bit b i" using False by (auto dest: bit_imp_le_length)
    then show ?thesis
      using False Cons.IH [of j] by (auto simp: j bit_simps div_add_self2)
  qed
qed

lemma bit_nth_le_bytes:
  "i < n \<Longrightarrow> bit (le_bytes n w ! i) j \<longleftrightarrow> j < 8 \<and> bit w (8 * i + j)"
  by (auto simp: le_bytes_def bit_simps)

lemma le_bytes_le_word [bytes_simps]:
  "8 * length bs \<le> LENGTH('a) \<Longrightarrow> le_bytes (length bs) (le_word bs :: 'a::len word) = bs"
  by (rule nth_equalityI, simp, rule bit_word_eqI)
    (auto simp: bit_nth_le_bytes bit_le_word)

lemma le_word_le_bytes [bytes_simps]:
  "LENGTH('a) = 8 * n \<Longrightarrow> le_word (le_bytes n w) = (w :: 'a::len word)"
  by (rule bit_word_eqI) (auto simp: bit_nth_le_bytes bit_le_word)

lemma le_bytes_0 [simp]: "le_bytes n 0 = replicate n 0"
  by (simp add: le_bytes_def map_replicate_const)

lemma le_word_eq_0_iff:
  assumes "8 * length bs \<le> LENGTH('a)"
  shows "(le_word bs :: 'a::len word) = 0 \<longleftrightarrow> (\<forall>b\<in>set bs. b = 0)"
proof
  assume "(le_word bs :: 'a word) = 0"
  then have "bs = le_bytes (length bs) (0 :: 'a word)"
    using le_bytes_le_word [OF assms] by simp
  then have "bs = replicate (length bs) 0" by (simp only: le_bytes_0)
  then show "\<forall>b\<in>set bs. b = 0" by (metis in_set_replicate)
next
  assume "\<forall>b\<in>set bs. b = 0"
  then show "(le_word bs :: 'a word) = 0"
    by (induction bs) auto
qed

section \<open>Population count\<close>

definition popcount :: "'a::len word \<Rightarrow> nat" where
  "popcount w = length (filter (bit w) [0..<LENGTH('a)])"

lemma popcount_card: "popcount (w :: 'a::len word) = card {i. bit w i}"
proof -
  have "{i. bit w i} = set (filter (bit w) [0..<LENGTH('a)])"
    by (auto dest: bit_imp_le_length)
  moreover have "distinct (filter (bit w) [0..<LENGTH('a)])" by simp
  ultimately show ?thesis
    unfolding popcount_def by (metis distinct_card)
qed

lemma popcount_le: "popcount (w :: 'a::len word) \<le> LENGTH('a)"
  unfolding popcount_def by (metis diff_zero length_filter_le length_upt)

section \<open>The one bits of a byte buffer\<close>

definition bit_ones :: "u8 list \<Rightarrow> nat set" where
  "bit_ones bs = {i. i < 8 * length bs \<and> bit (bs ! (i div 8)) (i mod 8)}"

lemma bit_ones_bound: "i \<in> bit_ones bs \<Longrightarrow> i < 8 * length bs"
  by (simp add: bit_ones_def)

lemma finite_bit_ones [simp]: "finite (bit_ones bs)"
  by (rule finite_subset [of _ "{..<8 * length bs}"]) (auto simp: bit_ones_def)

lemma bit_ones_replicate_0 [simp]: "bit_ones (replicate n 0) = {}"
  by (auto simp: bit_ones_def)

lemma bit_ones_set:
  assumes "i < 8 * length bs"
  shows "bit_ones (bs[i div 8 := bs ! (i div 8) OR push_bit (i mod 8) 1]) = insert i (bit_ones bs)"
proof -
  have len: "i div 8 < length bs" using assms by auto
  show ?thesis
  proof (rule set_eqI)
    fix j
    show "j \<in> bit_ones (bs[i div 8 := bs ! (i div 8) OR push_bit (i mod 8) 1]) \<longleftrightarrow>
      j \<in> insert i (bit_ones bs)"
    proof (cases "j div 8 = i div 8")
      case True
      have "i mod 8 = j mod 8 \<longleftrightarrow> i = j"
        using True by (metis div_mult_mod_eq)
      with True len assms show ?thesis
        by (auto simp: bit_ones_def bit_simps)
    next
      case False
      with len show ?thesis
        by (auto simp: bit_ones_def)
    qed
  qed
qed

lemma bit_ones_append:
  "bit_ones (xs @ ys) = bit_ones xs \<union> (+) (8 * length xs) ` bit_ones ys"
proof (rule set_eqI)
  fix i
  show "i \<in> bit_ones (xs @ ys) \<longleftrightarrow>
      i \<in> bit_ones xs \<union> (+) (8 * length xs) ` bit_ones ys"
  proof (cases "i < 8 * length xs")
    case True
    then have "i div 8 < length xs" by auto
    with True show ?thesis by (auto simp: bit_ones_def nth_append)
  next
    case False
    then obtain j where j: "i = 8 * length xs + j" by (metis le_iff_add linorder_not_less)
    then have "i div 8 = length xs + j div 8" "i mod 8 = j mod 8" by simp_all
    with j show ?thesis by (auto simp: bit_ones_def nth_append image_iff)
  qed
qed

lemma card_bit_ones_append:
  "card (bit_ones (xs @ ys)) = card (bit_ones xs) + card (bit_ones ys)"
proof -
  have "bit_ones xs \<inter> (+) (8 * length xs) ` bit_ones ys = {}"
    by (auto dest: bit_ones_bound)
  moreover have "card ((+) (8 * length xs) ` bit_ones ys) = card (bit_ones ys)"
    by (rule card_image) simp
  ultimately show ?thesis
    by (simp add: bit_ones_append card_Un_disjoint)
qed

lemma popcount_load:
  assumes "8 * length bs \<le> LENGTH('a)"
  shows "popcount (le_word bs :: 'a::len word) = card (bit_ones bs)"
proof -
  have "{i. bit (le_word bs :: 'a word) i} = bit_ones bs"
    using assms by (auto simp: bit_le_word bit_ones_def)
  then show ?thesis by (simp add: popcount_card)
qed

section \<open>Rotation and C division\<close>

definition rotl :: "nat \<Rightarrow> 'a::len word \<Rightarrow> 'a word" where
  "rotl r w = push_bit r w OR drop_bit (LENGTH('a) - r) w"

definition cdiv :: "int \<Rightarrow> int \<Rightarrow> int" where
  "cdiv a b = sgn a * sgn b * (\<bar>a\<bar> div \<bar>b\<bar>)"

lemma cdiv_nonneg [simp]: "0 \<le> a \<Longrightarrow> 0 < b \<Longrightarrow> cdiv a b = a div b"
  by (cases "a = 0") (auto simp: cdiv_def)

section \<open>Sixteen-bit lookup tables\<close>

text \<open>
  Both the daemon and AFL++ widen a byte table to a table of 65536 entries with
  the same double loop,
  \<open>t16[(b1 << 8) + b2] = (t8[b1] << 8) | t8[b2]\<close>, and apply it to the two
  halves of a word at once.
\<close>

definition fill_lookup16 :: "(u8 \<Rightarrow> u8) \<Rightarrow> (nat \<Rightarrow> u16) \<Rightarrow> nat \<Rightarrow> nat \<Rightarrow> (nat \<Rightarrow> u16)" where
  "fill_lookup16 t8 t16 b1 b2 =
     t16(b1 * 256 + b2 := push_bit 8 (ucast (t8 (of_nat b1))) OR ucast (t8 (of_nat b2)))"

definition init_lookup16 :: "(u8 \<Rightarrow> u8) \<Rightarrow> (nat \<Rightarrow> u16)" where
  "init_lookup16 t8 =
     fold (\<lambda>b1 t. fold (\<lambda>b2 t. fill_lookup16 t8 t b1 b2) [0..<256] t) [0..<256] (\<lambda>_. 0)"

lemma fill_lookup16_row:
  "fold (\<lambda>b2 t. fill_lookup16 t8 t b1 b2) [0..<n] t =
     (\<lambda>i. if b1 * 256 \<le> i \<and> i < b1 * 256 + n
          then push_bit 8 (ucast (t8 (of_nat b1))) OR ucast (t8 (of_nat (i - b1 * 256))) else t i)"
  by (induction n) (auto simp: fill_lookup16_def fun_eq_iff)

lemma init_lookup16_rows:
  "fold (\<lambda>b1 t. fold (\<lambda>b2 t. fill_lookup16 t8 t b1 b2) [0..<256] t) [0..<m] t =
     (\<lambda>i. if i < m * 256
          then push_bit 8 (ucast (t8 (of_nat (i div 256)))) OR ucast (t8 (of_nat (i mod 256))) else t i)"
proof (induction m)
  case 0
  then show ?case by simp
next
  case (Suc m)
  have "i div 256 = m \<and> i mod 256 = i - m * 256" if "m * 256 \<le> i" "i < m * 256 + 256" for i :: nat
  proof -
    have "i div 256 = m" by (rule div_nat_eqI) (use that in auto)
    then show ?thesis by (simp add: modulo_nat_def)
  qed
  then show ?case
    by (auto simp: Suc.IH [unfolded fill_lookup16_row] fill_lookup16_row fun_eq_iff)
qed

lemma init_lookup16_nth:
  "i < 65536 \<Longrightarrow> init_lookup16 t8 i =
     push_bit 8 (ucast (t8 (of_nat (i div 256)))) OR ucast (t8 (of_nat (i mod 256)))"
  unfolding init_lookup16_def init_lookup16_rows by simp

lemma unat_ucast_u8_u16 [simp]: "unat (ucast (x :: u8) :: u16) = unat x"
proof -
  have "unat x < 2 ^ 16" using unsigned_less [of x, where 'a = nat] by simp
  then show ?thesis by (simp add: unsigned_ucast_eq take_bit_nat_eq_self)
qed

lemma unat_le_word2: "unat (le_word [a, b] :: u16) = unat b * 256 + unat a"
proof -
  have ab: "unat a < 256" "unat b < 256"
    using unsigned_less [of a, where 'a = nat] unsigned_less [of b, where 'a = nat] by simp_all
  have disj: "(ucast a :: u16) AND push_bit 8 (ucast b) = 0"
    by (rule bit_word_eqI) (auto simp: bit_simps dest: bit_imp_le_length)
  have "unat (push_bit 8 (ucast b :: u16)) = unat b * 256"
    using ab by (simp add: push_bit_eq_mult unat_word_ariths)
  moreover have "(le_word [a, b] :: u16) = ucast a + push_bit 8 (ucast b)"
    using disj by (simp add: disjunctive_add_eq_or)
  ultimately show ?thesis
    using ab by (simp add: unat_word_ariths)
qed

lemma lookup16_le_word [bytes_simps]:
  "init_lookup16 t8 (unat (le_word [a, b] :: u16)) = le_word [t8 a, t8 b]"
proof -
  have ab: "unat a < 256" "unat b < 256"
    using unsigned_less [of a, where 'a = nat] unsigned_less [of b, where 'a = nat] by simp_all
  then have "unat b * 256 + unat a < 65536" by simp
  then show ?thesis
    using ab unfolding unat_le_word2 by (simp add: init_lookup16_nth or.commute)
qed

text \<open>The four statements \<open>dest16[j] = t16[mem16[j]]\<close> on the eight bytes of a word.\<close>

definition lookup16_4 :: "(nat \<Rightarrow> u16) \<Rightarrow> u8 list \<Rightarrow> u8 list" where
  "lookup16_4 t16 bs =
     concat (map (\<lambda>j. le_bytes 2 (t16 (unat (le_word (take 2 (drop (2 * j) bs)) :: u16)))) [0, 1, 2, 3])"

lemma list8_cases:
  assumes "length bs = 8"
  obtains a b c d e f g h where "bs = [a, b, c, d, e, f, g, h]"
  using assms by (auto simp: numeral_eq_Suc length_Suc_conv)

lemma le_bytes2_le_word: "le_bytes 2 (le_word [a, b] :: u16) = [a, b]"
  using le_bytes_le_word [of "[a, b]", where 'a = 16] by (simp add: numeral_2_eq_2)

lemma lookup16_4_bytes [bytes_simps]:
  assumes "length bs = 8"
  shows "lookup16_4 (init_lookup16 t8) bs = map t8 bs"
proof -
  obtain a b c d e f g h where "bs = [a, b, c, d, e, f, g, h]"
    using assms by (rule list8_cases)
  then show ?thesis
    by (simp add: lookup16_4_def lookup16_le_word le_bytes2_le_word del: le_word.simps)
qed

lemma load64_zero_iff:
  "length bs = 8 \<Longrightarrow> (le_word bs :: u64) = 0 \<longleftrightarrow> (\<forall>b\<in>set bs. b = 0)"
  by (rule le_word_eq_0_iff) simp

lemma map_zero_bytes: "\<forall>b\<in>set bs. b = 0 \<Longrightarrow> map f bs = replicate (length bs) (f 0)"
  by (induction bs) auto

section \<open>Bytewise operations on words\<close>

lemma le_word_and:
  "length xs = length ys \<Longrightarrow>
   (le_word xs AND le_word ys :: 'a::len word) = le_word (map2 (AND) xs ys)"
  by (rule bit_word_eqI) (auto simp: bit_le_word bit_simps)

lemma le_word_andnot:
  "length xs = length ys \<Longrightarrow>
   (le_word xs AND NOT (le_word ys) :: 'a::len word) = le_word (map2 (\<lambda>x y. x AND NOT y) xs ys)"
  by (rule bit_word_eqI) (auto simp: bit_le_word bit_simps)

lemma le_word_Cons_plus: "(le_word (b # bs) :: 'a::len word) = ucast b + 256 * le_word bs"
proof -
  have disj: "(ucast b :: 'a word) AND push_bit 8 (le_word bs) = 0"
    by (rule bit_word_eqI) (auto simp: bit_simps dest: bit_imp_le_length)
  have "(le_word (b # bs) :: 'a word) = ucast b + push_bit 8 (le_word bs)"
    using disj by (simp add: disjunctive_add_eq_or)
  then show ?thesis by (simp add: push_bit_eq_mult mult.commute)
qed

lemma ucast_plus_u8:
  fixes x y :: u8
  assumes "unat x + unat y < 256"
  shows "(ucast (x + y) :: 'a::len word) = ucast x + ucast y"
proof -
  have "unat (x + y) = unat x + unat y" using assms by (simp add: unat_word_ariths)
  then have "(of_nat (unat (x + y)) :: 'a word) = of_nat (unat x) + of_nat (unat y)" by simp
  then show ?thesis by (simp only: of_nat_unat)
qed

lemma le_word_plus:
  "length xs = length ys \<Longrightarrow> \<forall>i<length xs. unat (xs ! i) + unat (ys ! i) < 256 \<Longrightarrow>
   (le_word xs + le_word ys :: 'a::len word) = le_word (map2 (+) xs ys)"
proof (induction xs ys rule: list_induct2)
  case Nil
  then show ?case by simp
next
  case (Cons x xs y ys)
  have "(le_word xs + le_word ys :: 'a word) = le_word (map2 (+) xs ys)"
    by (rule Cons.IH) (use Cons.prems in force)
  moreover have "(ucast (x + y) :: 'a word) = ucast x + ucast y"
    by (rule ucast_plus_u8) (use Cons.prems in force)
  ultimately show ?case
    by (simp only: le_word_Cons_plus list.map zip_Cons_Cons split) (metis (no_types, lifting) add.assoc add.left_commute distrib_left)
qed

lemma byte_all:
  assumes "list_all (\<lambda>n. P (word_of_int n :: u8)) [0..255]"
  shows "P x"
proof -
  have "0 \<le> uint x \<and> uint x \<le> 255" using uint_lt2p [of x] by simp
  then have "P (word_of_int (uint x))" using assms by (auto simp only: list_all_iff set_upto atLeastAtMost_iff)
  then show ?thesis by simp
qed

lemma byte_forall: "list_all (\<lambda>n. P (word_of_int n :: u8)) [0..255] \<Longrightarrow> \<forall>x. P x"
  using byte_all by blast

lemma le_word_minus:
  assumes "length xs = length ys" "\<forall>i<length xs. unat (ys ! i) \<le> unat (xs ! i)"
  shows "(le_word xs - le_word ys :: 'a::len word) = le_word (map2 (-) xs ys)"
proof -
  have "unat (xs ! i - ys ! i) = unat (xs ! i) - unat (ys ! i)" if "i < length xs" for i
    using assms(2) that by (simp add: unat_sub word_le_nat_alt)
  then have "\<forall>i<length xs. unat (map2 (-) xs ys ! i) + unat (ys ! i) < 256"
    using assms by (auto intro: le_less_trans [OF _ unsigned_less [of "_ :: u8", where 'a = nat, simplified]])
  then have "(le_word (map2 (-) xs ys) + le_word ys :: 'a word) = le_word (map2 (+) (map2 (-) xs ys) ys)"
    using assms(1) by (intro le_word_plus) simp_all
  also have "map2 (+) (map2 (-) xs ys) ys = xs"
    using assms(1) by (auto intro: nth_equalityI)
  finally show ?thesis by (simp add: algebra_simps)
qed

lemma le_word_shift_and:
  assumes "length ms = length xs" "8 * length xs \<le> LENGTH('a)" "\<And>m j. m \<in> set ms \<Longrightarrow> bit m j \<Longrightarrow> k + j < 8"
  shows "(drop_bit k (le_word xs) AND le_word ms :: 'a::len word) =
     le_word (map2 (\<lambda>x m. drop_bit k x AND m) xs ms)"
proof (rule bit_word_eqI)
  fix i assume i: "i < LENGTH('a)"
  show "bit (drop_bit k (le_word xs) AND le_word ms :: 'a word) i \<longleftrightarrow>
     bit (le_word (map2 (\<lambda>x m. drop_bit k x AND m) xs ms) :: 'a word) i"
  proof (cases "i div 8 < length xs \<and> bit (ms ! (i div 8)) (i mod 8)")
    case True
    then have lt: "k + i mod 8 < 8" using assms(1,3) by force
    obtain q r where qr: "i = 8 * q + r" "r < 8"
      by (metis mult_div_mod_eq mod_less_divisor zero_less_numeral)
    have "(k + i) div 8 = i div 8" "(k + i) mod 8 = k + i mod 8"
      using qr lt by (auto simp: add.left_commute [of k])
    moreover from this(1) True assms(2) have "k + i < LENGTH('a)"
      by (metis div_less_iff_less_mult mult.commute order_less_le_trans zero_less_numeral)
    ultimately show ?thesis
      using True i assms(1) by (auto simp: bit_le_word bit_simps)
  next
    case False
    with i assms(1) show ?thesis by (auto simp: bit_le_word bit_simps)
  qed
qed

lemma popcount_byte: "popcount (b :: u8) = card (bit_ones [b])"
proof -
  have "bit b i \<longleftrightarrow> i \<in> bit_ones [b]" for i
    by (cases "i < 8") (auto simp: bit_ones_def dest: bit_imp_le_length)
  then have "{i. bit b i} = bit_ones [b]" by blast
  then show ?thesis by (simp add: popcount_card)
qed

lemma card_bit_ones_Cons: "card (bit_ones (b # bs)) = popcount b + card (bit_ones bs)"
  using card_bit_ones_append [of "[b]" bs] by (simp add: popcount_byte)

lemma list4_cases:
  assumes "length bs = 4"
  obtains a b c d where "bs = [a, b, c, d]"
  using assms by (auto simp: numeral_eq_Suc length_Suc_conv)

section \<open>Encodings\<close>

text \<open>
  The contract of an encoder and its decoder: what is encoded can be read back, so
  that different values have different encodings.
\<close>

locale codec =
  fixes valid :: "'x \<Rightarrow> bool"
    and enc :: "'x \<Rightarrow> 'b list"
    and dec :: "'b list \<Rightarrow> 'x option"
  assumes dec_enc: "valid x \<Longrightarrow> dec (enc x) = Some x"
begin

lemma enc_inj: "valid x \<Longrightarrow> valid y \<Longrightarrow> enc x = enc y \<Longrightarrow> x = y"
  by (metis dec_enc option.inject)

end

text \<open>A decoder that reads one value from the front of a stream.\<close>

locale stream_codec =
  fixes valid :: "'x \<Rightarrow> bool"
    and enc :: "'x \<Rightarrow> 'b list"
    and dec1 :: "'b list \<Rightarrow> ('x \<times> 'b list) option"
  assumes dec1_enc: "valid x \<Longrightarrow> dec1 (enc x @ r) = Some (x, r)"
    and dec1_Nil: "dec1 [] = None"
begin

lemma enc_nonempty: "valid x \<Longrightarrow> enc x \<noteq> []"
  using dec1_enc [of x "[]"] dec1_Nil by auto

lemma stream_inj:
  "list_all valid xs \<Longrightarrow> list_all valid ys \<Longrightarrow> concat (map enc xs) = concat (map enc ys) \<Longrightarrow> xs = ys"
proof (induction xs arbitrary: ys)
  case Nil
  then show ?case using enc_nonempty by (cases ys) auto
next
  case (Cons x xs)
  then obtain y ys' where ys: "ys = y # ys'" using enc_nonempty [of x] by (cases ys) auto
  have "enc x @ concat (map enc xs) = enc y @ concat (map enc ys')" using Cons.prems(3) ys by simp
  then have "dec1 (enc x @ concat (map enc xs)) = dec1 (enc y @ concat (map enc ys'))" by (rule arg_cong)
  then have "x = y" "concat (map enc xs) = concat (map enc ys')" using dec1_enc Cons.prems(1,2) ys by simp_all
  then show ?case using Cons.IH [of ys'] Cons.prems(1,2) ys by simp
qed

end

sublocale stream_codec \<subseteq> single: codec valid enc "\<lambda>b. map_option fst (dec1 b)"
  by unfold_locales (use dec1_enc [of _ "[]"] in simp)

section \<open>Array elements\<close>

text \<open>A read of an array; outside it is undefined.\<close>

definition slot :: "'e list \<Rightarrow> nat \<Rightarrow> 'e option" where
  "slot T i = (if i < length T then Some (T ! i) else None)"

section \<open>Signed values\<close>

lemma sint_small: "uint w < 2147483648 \<Longrightarrow> sint (w :: u32) = uint w"
proof -
  assume lt: "uint w < 2147483648"
  have "- (2 ^ 31) \<le> uint w" by (rule order_trans [OF _ unsigned_greater_eq]) simp
  then have "signed_take_bit 31 (uint w) = uint w" using lt by (intro signed_take_bit_int_eq_self) simp_all
  then show ?thesis by (simp add: sint_uint)
qed

section \<open>Simulation\<close>

text \<open>
  Sequences of operations on a concrete state, which may fault, and what a specification on
  an abstract state allows of their results.
\<close>

fun run_ops :: "('op \<Rightarrow> 't \<Rightarrow> ('r \<times> 't) option) \<Rightarrow> 'op list \<Rightarrow> 't \<Rightarrow> ('r list \<times> 't) option" where
  "run_ops run [] t = Some ([], t)"
| "run_ops run (x # xs) t =
     (case run x t of
        None \<Rightarrow> None
      | Some (r, t) \<Rightarrow> map_option (\<lambda>(rs, t). (r # rs, t)) (run_ops run xs t))"

fun spec_ops :: "('op \<Rightarrow> 'a \<Rightarrow> 'r \<Rightarrow> 'a \<Rightarrow> bool) \<Rightarrow> 'op list \<Rightarrow> 'a \<Rightarrow> 'r list \<Rightarrow> 'a \<Rightarrow> bool" where
  "spec_ops spec [] a rs a' \<longleftrightarrow> rs = [] \<and> a' = a"
| "spec_ops spec (x # xs) a rs a' \<longleftrightarrow> (\<exists>r rs' b. rs = r # rs' \<and> spec x a r b \<and> spec_ops spec xs b rs' a')"

locale simulation =
  fixes run :: "'op \<Rightarrow> 't \<Rightarrow> ('r \<times> 't) option" and inv :: "'t \<Rightarrow> bool" and pre :: "'op \<Rightarrow> bool"
    and abs :: "'t \<Rightarrow> 'a" and spec :: "'op \<Rightarrow> 'a \<Rightarrow> 'r \<Rightarrow> 'a \<Rightarrow> bool"
  assumes step: "inv t \<Longrightarrow> pre x \<Longrightarrow> \<exists>r t'. run x t = Some (r, t') \<and> inv t' \<and> spec x (abs t) r (abs t')"
begin

lemma run_ops_spec:
  "inv t \<Longrightarrow> list_all pre xs \<Longrightarrow> \<exists>rs t'. run_ops run xs t = Some (rs, t') \<and> inv t' \<and> spec_ops spec xs (abs t) rs (abs t')"
proof (induction xs arbitrary: t)
  case (Cons x xs)
  then obtain r t1 where 1: "run x t = Some (r, t1)" "inv t1" "spec x (abs t) r (abs t1)" using step [of t x] by auto
  obtain rs t' where "run_ops run xs t1 = Some (rs, t')" "inv t'" "spec_ops spec xs (abs t1) rs (abs t')"
    using Cons.IH [OF 1(2)] Cons.prems(2) by auto
  then show ?case using 1 by auto
qed simp

end

end
