(* ===== verification/Lscov_Bloom.thy ===== *)
theory Lscov_Bloom
  imports Prelude
begin

text \<open>
  The Bloom filter of the measurement daemon (\<open>src/lscov/lscov-daemon.c\<close>,
  functions \<open>bfilter_*\<close>): the MurmurHash index, setting a bit, tallying the
  bits, and the cardinality estimate.  The globals \<open>bfilter\<close>,
  \<open>bfilter_size\<close>, \<open>bfilter_size_bits\<close> and \<open>num_hashes\<close> are the
  fields of a record.  Calls of \<open>FATAL\<close> and \<open>PFATAL\<close> are values of
  \<open>lscov_error\<close>.
\<close>

section \<open>State\<close>

datatype lscov_error =
    FATAL string          \<comment> \<open>\<open>FATAL\<close>: message, then \<open>exit(1)\<close>\<close>
  | PFATAL string         \<comment> \<open>\<open>PFATAL\<close>: message with \<open>errno\<close>, then \<open>exit(1)\<close>\<close>
  | DivisionByZero        \<comment> \<open>integer division by zero (SIGFPE)\<close>
  | CastOverflow          \<comment> \<open>conversion of an infinite or too large double to \<open>u32\<close>\<close>

record bfilter_state =
  bfilter :: "u8 list"
  bfilter_size :: u32
  bfilter_size_bits :: u32
  num_hashes :: u8

definition LSTATE_SIZE_POW2 :: nat where
  "LSTATE_SIZE_POW2 = 16"

definition LSTATE_SIZE :: nat where
  "LSTATE_SIZE = 2 ^ LSTATE_SIZE_POW2"

definition bfilter_globals :: bfilter_state where
  "bfilter_globals = \<lparr>bfilter = [], bfilter_size = 0x4000000, bfilter_size_bits = 0, num_hashes = 4\<rparr>"

text \<open>\<open>bfilter_init\<close>: the argument says whether \<open>mmap\<close> succeeded.\<close>

definition bfilter_init :: "bool \<Rightarrow> bfilter_state \<Rightarrow> lscov_error + bfilter_state" where
  "bfilter_init mmap_ok s =
     (let s' = s\<lparr>bfilter_size_bits := push_bit 3 (bfilter_size s)\<rparr>
      in if mmap_ok then Inr (s'\<lparr>bfilter := replicate (unat (bfilter_size s)) 0\<rparr>)
         else Inl (PFATAL ''bloom filter allocation failed.''))"

section \<open>MurmurHash\<close>

definition murmur_scramble :: "u32 \<Rightarrow> u32" where
  "murmur_scramble k =
     (let k = k * 0xcc9e2d51;
          k = push_bit 15 k OR drop_bit (32 - 15) k
      in k * 0x1b873593)"

text \<open>One round of the loop: mix the next chunk \<open>k\<close> into \<open>h\<close>.\<close>

definition murmur_round :: "u32 \<Rightarrow> u32 \<Rightarrow> u32" where
  "murmur_round k h =
     (let h = h XOR murmur_scramble k;
          h = push_bit 13 h OR drop_bit (32 - 13) h
      in h * 5 + 0xe6546b64)"

text \<open>
  The loop \<open>for (i = -l; i != 0; ++i)\<close> over \<open>chunks = d + 4 * l\<close>, so that
  \<open>chunks[i]\<close> is the word at byte \<open>4 * (l + i)\<close> of the key.  It starts at
  \<open>-l\<close>, so \<open>i\<close> is never positive.
\<close>

function murmur_loop :: "u8 list \<Rightarrow> int \<Rightarrow> int \<Rightarrow> u32 \<Rightarrow> u32" where
  "murmur_loop d l i h =
     (if i < 0
      then murmur_loop d l (i + 1) (murmur_round (le_word (take 4 (drop (nat (4 * (l + i))) d))) h)
      else h)"
  by pat_completeness auto
termination
  by (relation "measure (\<lambda>(d, l, i, h). nat (- i))") auto

declare murmur_loop.simps [simp del]

text \<open>The \<open>switch (len & 3)\<close> with its fall-through cases.\<close>

definition murmur_tail :: "u8 list \<Rightarrow> nat \<Rightarrow> u32 \<Rightarrow> u32" where
  "murmur_tail tail len h =
     (let r = len mod 4;
          k3 = (if r = 3 then push_bit 16 (ucast (tail ! 2)) else 0);
          k2 = (if r \<ge> 2 then k3 XOR push_bit 8 (ucast (tail ! 1)) else k3)
      in if r \<ge> 1 then h XOR murmur_scramble (k2 XOR ucast (tail ! 0)) else h)"

definition murmur_fmix :: "u32 \<Rightarrow> u32" where
  "murmur_fmix h =
     (let h = h XOR drop_bit 16 h;
          h = h * 0x85ebca6b;
          h = h XOR drop_bit 13 h;
          h = h * 0xc2b2ae35
      in h XOR drop_bit 16 h)"

definition murmurhash :: "u8 list \<Rightarrow> nat \<Rightarrow> u32 \<Rightarrow> u32" where
  "murmurhash key len seed =
     (let l = len div 4;
          h = murmur_loop key (int l) (- int l) seed;
          h = murmur_tail (drop (4 * l) key) len h
      in murmur_fmix (h XOR of_nat len))"

definition bfilter_get_hash_index :: "bfilter_state \<Rightarrow> u8 list \<Rightarrow> u32 \<Rightarrow> u32" where
  "bfilter_get_hash_index s lstate seed =
     murmurhash lstate LSTATE_SIZE seed mod bfilter_size_bits s"

section \<open>Filter operations\<close>

definition bfilter_set_1_by_index :: "bfilter_state \<Rightarrow> u32 \<Rightarrow> lscov_error + bfilter_state" where
  "bfilter_set_1_by_index s idx =
     (let byte_idx = drop_bit 3 idx;
          bit_idx = ucast (idx AND 0x07) :: u8
      in if byte_idx \<ge> bfilter_size s then Inl (FATAL ''bogus 'byte_idx' for a bloom filter'')
         else Inr (s\<lparr>bfilter := (bfilter s)[unat byte_idx :=
                      (bfilter s ! unat byte_idx) OR push_bit (unat bit_idx) 1]\<rparr>))"

text \<open>The loop of \<open>lscov_loop\<close> that sets the hash bits of one logic state.\<close>

fun bfilter_add_from :: "nat \<Rightarrow> nat \<Rightarrow> u8 list \<Rightarrow> bfilter_state \<Rightarrow> lscov_error + bfilter_state" where
  "bfilter_add_from h 0 lstate s = Inr s"
| "bfilter_add_from h (Suc n) lstate s =
     (case bfilter_set_1_by_index s (bfilter_get_hash_index s lstate (of_nat h)) of
        Inl e \<Rightarrow> Inl e
      | Inr s' \<Rightarrow> bfilter_add_from (Suc h) n lstate s')"

definition bfilter_add :: "bfilter_state \<Rightarrow> u8 list \<Rightarrow> lscov_error + bfilter_state" where
  "bfilter_add s lstate = bfilter_add_from 0 (unat (num_hashes s)) lstate s"

fun num_1s_loop :: "nat \<Rightarrow> u8 list \<Rightarrow> u32 \<Rightarrow> u32" where
  "num_1s_loop 0 p num_1s = num_1s"
| "num_1s_loop (Suc rem_size) p num_1s =
     num_1s_loop rem_size (drop 8 p) (num_1s + of_nat (popcount (le_word (take 8 p) :: u64)))"

definition bfilter_get_num_1s :: "bfilter_state \<Rightarrow> u32" where
  "bfilter_get_num_1s s = num_1s_loop (unat (drop_bit 3 (bfilter_size s))) (bfilter s) 0"

text \<open>
  \<open>bfilter_calc_cardinality\<close>.  Doubles are idealised as real numbers; the
  static variables \<open>has_divisor\<close> and \<open>divisor\<close> are the cache passed in and out.
  When \<open>num_1s\<close> reaches the size of the filter, \<open>log(0)\<close> is \<open>-inf\<close> and the
  cast of the infinite quotient to \<open>u32\<close> has no value; so has a quotient of
  \<open>2 ^ 32\<close> or more, and every quotient by a zero divisor.
\<close>

definition bfilter_divisor :: "bfilter_state \<Rightarrow> real" where
  "bfilter_divisor s =
     real (unat (num_hashes s)) * ln (1 - 1 / real (unat (bfilter_size_bits s)))"

definition bfilter_calc_cardinality ::
    "real option \<Rightarrow> bfilter_state \<Rightarrow> u32 \<Rightarrow> (lscov_error + u32) \<times> real option" where
  "bfilter_calc_cardinality cache s num_1s =
     (let divisor = (case cache of None \<Rightarrow> bfilter_divisor s | Some d \<Rightarrow> d);
          x = 1 - real (unat num_1s) / real (unat (bfilter_size_bits s));
          cov = ln x / divisor
      in (if x \<le> 0 \<or> divisor = 0 \<or> cov \<ge> 2 ^ 32 then Inl CastOverflow
          else Inr (word_of_int \<lfloor>cov\<rfloor>), Some divisor))"

section \<open>Invariant and abstraction\<close>

text \<open>
  The filter as a set: the indices of its one bits.  \<open>bfilter_inv\<close> is what
  \<open>bfilter_init\<close> establishes and every operation keeps.
\<close>

definition bfilter_inv :: "bfilter_state \<Rightarrow> bool" where
  "bfilter_inv s \<longleftrightarrow>
     0 < unat (bfilter_size s) \<and> unat (bfilter_size s) < 2 ^ 29 \<and>
     unat (bfilter_size s) mod 8 = 0 \<and>
     length (bfilter s) = unat (bfilter_size s) \<and>
     unat (bfilter_size_bits s) = 8 * unat (bfilter_size s)"

definition bfilter_indices :: "u32 \<Rightarrow> u8 \<Rightarrow> u8 list \<Rightarrow> nat set" where
  "bfilter_indices size_bits k lstate =
     {unat (murmurhash lstate LSTATE_SIZE (of_nat h) mod size_bits) |h. h < unat k}"

text \<open>The reference hash: a fold over the four-byte blocks of the key.\<close>

fun blocks4 :: "u8 list \<Rightarrow> u32 list" where
  "blocks4 (a # b # c # d # r) = le_word [a, b, c, d] # blocks4 r"
| "blocks4 r = []"

definition murmur3_blocks :: "u8 list \<Rightarrow> u32 \<Rightarrow> u32" where
  "murmur3_blocks key seed =
     murmur_fmix (fold murmur_round (blocks4 key) seed XOR of_nat (length key))"

section \<open>The hash\<close>

lemma blocks4_step:
  "4 \<le> length d \<Longrightarrow> blocks4 d = le_word (take 4 d) # blocks4 (drop 4 d)"
  by (cases d rule: blocks4.cases) auto

lemma murmur_loop_fold:
  "j \<le> l \<Longrightarrow> length d = 4 * l \<Longrightarrow>
   murmur_loop d (int l) (- int j) h = fold murmur_round (blocks4 (drop (4 * (l - j)) d)) h"
proof (induction j arbitrary: h)
  case 0
  then show ?case by (simp add: murmur_loop.simps)
next
  case (Suc j)
  let ?d = "drop (4 * (l - Suc j)) d"
  have at: "nat (4 * (int l + - int (Suc j))) = 4 * (l - Suc j)"
  proof -
    have "int l + - int (Suc j) = int (l - Suc j)" using Suc.prems by simp
    then show ?thesis by (simp only: nat_mult_distrib) simp
  qed
  have next_: "drop 4 ?d = drop (4 * (l - j)) d"
    using Suc.prems by (simp add: Suc_diff_Suc algebra_simps)
  have "murmur_loop d (int l) (- int (Suc j)) h =
      murmur_loop d (int l) (- int j) (murmur_round (le_word (take 4 ?d)) h)"
    using at by (subst murmur_loop.simps) simp
  also have "\<dots> = fold murmur_round (blocks4 (drop 4 ?d)) (murmur_round (le_word (take 4 ?d)) h)"
    using Suc.IH Suc.prems next_ by simp
  also have "\<dots> = fold murmur_round (blocks4 ?d) h"
    using Suc.prems by (subst blocks4_step [of ?d]) simp_all
  finally show ?case .
qed

lemma murmurhash_blocks:
  "length key = 4 * l \<Longrightarrow> murmurhash key (4 * l) seed = murmur3_blocks key seed"
  by (simp add: murmurhash_def murmur3_blocks_def murmur_tail_def murmur_loop_fold)

section \<open>Setting bits\<close>

lemma bfilter_inv_bits: "bfilter_inv s \<Longrightarrow> 8 \<le> unat (bfilter_size_bits s)"
  unfolding bfilter_inv_def by linarith

lemma unat_and_7: "unat (ucast (idx AND 7 :: u32) :: u8) = unat idx mod 8"
proof -
  have m: "idx AND 7 = take_bit 3 idx"
    using take_bit_eq_mask [of 3 idx] by (simp add: mask_numeral)
  have "unat (take_bit 3 idx) = unat idx mod 8"
    by (simp add: take_bit_eq_mod unat_mod)
  moreover have "unat (take_bit 3 idx) < 2 ^ 8"
    using calculation by simp
  ultimately show ?thesis
    by (simp add: m unsigned_ucast_eq take_bit_nat_eq_self)
qed

lemma unat_drop_3: "unat (drop_bit 3 idx :: u32) = unat idx div 8"
  by (simp add: drop_bit_eq_div unat_div)

lemma bfilter_set_1_ok:
  assumes "bfilter_inv s" "idx < bfilter_size_bits s"
  shows "\<exists>s'. bfilter_set_1_by_index s idx = Inr s' \<and> bfilter_inv s' \<and>
     bit_ones (bfilter s') = insert (unat idx) (bit_ones (bfilter s)) \<and>
     bfilter_size_bits s' = bfilter_size_bits s \<and> num_hashes s' = num_hashes s"
proof -
  have lt: "unat idx < 8 * length (bfilter s)"
    using assms by (simp add: bfilter_inv_def word_less_nat_alt)
  have "\<not> drop_bit 3 idx \<ge> bfilter_size s"
    using assms by (simp add: bfilter_inv_def word_le_nat_alt word_less_nat_alt unat_drop_3)
  then show ?thesis
    using assms(1) bit_ones_set [OF lt]
    by (auto simp: bfilter_set_1_by_index_def Let_def unat_and_7 unat_drop_3 bfilter_inv_def)
qed

section \<open>The filter as a Bloom filter\<close>

text \<open>
  What the daemon relies on: adding a key succeeds under the invariant and adds
  exactly the key's indices.  \<open>add_all\<close> runs a sequence of additions, stopping
  at the first error as \<open>FATAL\<close> would.
\<close>

fun add_all :: "('f \<Rightarrow> 'k \<Rightarrow> 'e + 'f) \<Rightarrow> 'f \<Rightarrow> 'k list \<Rightarrow> 'e + 'f" where
  "add_all add f [] = Inr f"
| "add_all add f (k # ks) = (case add f k of Inl e \<Rightarrow> Inl e | Inr f' \<Rightarrow> add_all add f' ks)"

locale bloom_filter =
  fixes inv :: "'f \<Rightarrow> bool"
    and bits :: "'f \<Rightarrow> nat set"
    and indices :: "'k \<Rightarrow> nat set"
    and add :: "'f \<Rightarrow> 'k \<Rightarrow> 'e + 'f"
  assumes add_ok: "inv f \<Longrightarrow> \<exists>f'. add f k = Inr f' \<and> inv f' \<and> bits f' = bits f \<union> indices k"
begin

lemma add_all_ok:
  "inv f \<Longrightarrow> \<exists>f'. add_all add f ks = Inr f' \<and> inv f' \<and> bits f' = bits f \<union> (\<Union>k\<in>set ks. indices k)"
proof (induction ks arbitrary: f)
  case Nil
  then show ?case by simp
next
  case (Cons k ks)
  obtain f1 where f1: "add f k = Inr f1" "inv f1" "bits f1 = bits f \<union> indices k"
    using add_ok [OF Cons.prems] by blast
  then show ?case using Cons.IH [OF f1(2)] by auto
qed

lemma no_false_negative:
  assumes "inv f" "add_all add f ks = Inr f'" "k \<in> set ks"
  shows "indices k \<subseteq> bits f'"
  using add_all_ok [OF assms(1), of ks] assms(2,3) by auto

lemma same_set_same_bits:
  assumes "inv f" "add_all add f ks = Inr f'" "add_all add f ks' = Inr f''" "set ks = set ks'"
  shows "bits f' = bits f''"
  using add_all_ok [OF assms(1), of ks] add_all_ok [OF assms(1), of ks'] assms(2-4) by auto

lemma card_bits_le:
  assumes "inv f" "add_all add f ks = Inr f'" "bits f = {}"
    and "\<And>k. finite (indices k) \<and> card (indices k) \<le> n"
  shows "card (bits f') \<le> n * card (set ks)"
proof -
  have "bits f' = (\<Union>k\<in>set ks. indices k)"
    using add_all_ok [OF assms(1), of ks] assms(2,3) by auto
  also have "card \<dots> \<le> (\<Sum>k\<in>set ks. card (indices k))"
    by (rule card_UN_le) simp
  also have "\<dots> \<le> (\<Sum>k\<in>set ks. n)"
    by (rule sum_mono) (use assms(4) in blast)
  finally show ?thesis by (simp add: mult.commute)
qed

end

definition bfilter_ready :: "u32 \<Rightarrow> u8 \<Rightarrow> bfilter_state \<Rightarrow> bool" where
  "bfilter_ready size_bits k s \<longleftrightarrow>
     bfilter_inv s \<and> bfilter_size_bits s = size_bits \<and> num_hashes s = k"

lemma bfilter_hash_bound:
  "bfilter_inv s \<Longrightarrow> bfilter_get_hash_index s lstate seed < bfilter_size_bits s"
  unfolding bfilter_get_hash_index_def bfilter_inv_def
  by (metis mult_pos_pos unat_gt_0 word_mod_less_divisor zero_less_numeral word_neq_0_conv)

lemma bfilter_add_from_ok:
  "bfilter_ready size_bits k s \<Longrightarrow>
   \<exists>s'. bfilter_add_from h n lstate s = Inr s' \<and> bfilter_ready size_bits k s' \<and>
     bit_ones (bfilter s') = bit_ones (bfilter s) \<union>
       (\<lambda>i. unat (murmurhash lstate LSTATE_SIZE (of_nat i) mod size_bits)) ` {h..<h + n}"
proof (induction n arbitrary: h s)
  case 0
  then show ?case by simp
next
  case (Suc n)
  let ?i = "bfilter_get_hash_index s lstate (of_nat h)"
  have inv: "bfilter_inv s" "bfilter_size_bits s = size_bits"
    using Suc.prems by (simp_all add: bfilter_ready_def)
  obtain s1 where s1: "bfilter_set_1_by_index s ?i = Inr s1" "bfilter_ready size_bits k s1"
      "bit_ones (bfilter s1) = insert (unat ?i) (bit_ones (bfilter s))"
    using bfilter_set_1_ok [OF inv(1) bfilter_hash_bound [OF inv(1), of lstate "of_nat h"]] Suc.prems
    unfolding bfilter_ready_def by metis
  have range: "{h..<h + Suc n} = insert h {Suc h..<Suc h + n}" by auto
  show ?case
    using Suc.IH [OF s1(2), of "Suc h"] s1
    unfolding range by (auto simp: bfilter_get_hash_index_def inv(2))
qed

lemma bfilter_add_ok:
  assumes "bfilter_ready size_bits k s"
  shows "\<exists>s'. bfilter_add s lstate = Inr s' \<and> bfilter_ready size_bits k s' \<and>
     bit_ones (bfilter s') = bit_ones (bfilter s) \<union> bfilter_indices size_bits k lstate"
proof -
  have "num_hashes s = k" using assms by (simp add: bfilter_ready_def)
  moreover have "(\<lambda>i. unat (murmurhash lstate LSTATE_SIZE (of_nat i) mod size_bits)) ` {0..<0 + unat k}
      = bfilter_indices size_bits k lstate"
    by (auto simp: bfilter_indices_def)
  ultimately show ?thesis
    using bfilter_add_from_ok [OF assms, of 0 "unat k" lstate] by (simp add: bfilter_add_def)
qed

interpretation bf: bloom_filter "bfilter_ready size_bits k" "\<lambda>s. bit_ones (bfilter s)"
    "bfilter_indices size_bits k" bfilter_add for size_bits k
  by unfold_locales (rule bfilter_add_ok)

lemma bfilter_indices_card:
  "finite (bfilter_indices size_bits k l) \<and> card (bfilter_indices size_bits k l) \<le> unat k"
proof -
  have eq: "bfilter_indices size_bits k l =
      (\<lambda>h. unat (murmurhash l LSTATE_SIZE (of_nat h) mod size_bits)) ` {..<unat k}"
    by (auto simp: bfilter_indices_def)
  show ?thesis
    unfolding eq using card_image_le [of "{..<unat k}"] by simp
qed

lemma bfilter_init_ready:
  assumes "bfilter_init True s = Inr s'" "0 < unat (bfilter_size s)"
    "unat (bfilter_size s) < 2 ^ 29" "unat (bfilter_size s) mod 8 = 0"
  shows "bfilter_ready (push_bit 3 (bfilter_size s)) (num_hashes s) s' \<and> bit_ones (bfilter s') = {}"
proof -
  have "unat (push_bit 3 (bfilter_size s)) = 8 * unat (bfilter_size s)"
    using assms(3) by (simp add: push_bit_eq_mult unat_word_ariths)
  then show ?thesis
    using assms by (auto simp: bfilter_init_def Let_def bfilter_ready_def bfilter_inv_def)
qed

section \<open>Tallying\<close>

lemma num_1s_loop_card:
  "8 * n = length p \<Longrightarrow> num_1s_loop n p a = a + of_nat (card (bit_ones p))"
proof (induction n arbitrary: p a)
  case 0
  then show ?case by (simp add: bit_ones_def)
next
  case (Suc n)
  have p: "p = take 8 p @ drop 8 p" by simp
  have "card (bit_ones p) = card (bit_ones (take 8 p)) + card (bit_ones (drop 8 p))"
    by (subst p) (rule card_bit_ones_append)
  moreover have "popcount (le_word (take 8 p) :: u64) = card (bit_ones (take 8 p))"
    using Suc.prems by (intro popcount_load) simp
  ultimately show ?case
    using Suc.IH [of "drop 8 p"] Suc.prems by (simp add: algebra_simps)
qed

lemma bfilter_get_num_1s_card:
  assumes "bfilter_inv s"
  shows "unat (bfilter_get_num_1s s) = card (bit_ones (bfilter s))"
proof -
  have "8 * (unat (bfilter_size s) div 8) = length (bfilter s)"
    using assms by (auto simp: bfilter_inv_def)
  then have "bfilter_get_num_1s s = of_nat (card (bit_ones (bfilter s)))"
    by (simp add: bfilter_get_num_1s_def unat_drop_3 num_1s_loop_card)
  moreover have "card (bit_ones (bfilter s)) \<le> card {..<8 * length (bfilter s)}"
    by (rule card_mono) (auto dest: bit_ones_bound)
  moreover have "8 * length (bfilter s) < 2 ^ 32"
    using assms by (simp add: bfilter_inv_def)
  ultimately show ?thesis
    by (simp add: unat_of_nat take_bit_nat_eq_self)
qed

section \<open>The cardinality estimate\<close>

text \<open>
  \<open>bfilter_expected m k n\<close> is the number of one bits that \<open>n\<close> insertions of
  \<open>k\<close> independent uniform indices are expected to leave in a filter of \<open>m\<close>
  bits.  The estimate inverts it.
\<close>

definition bfilter_expected :: "nat \<Rightarrow> nat \<Rightarrow> nat \<Rightarrow> real" where
  "bfilter_expected m k n = real m * (1 - (1 - 1 / real m) ^ (k * n))"

lemma bfilter_expected_le: "1 < m \<Longrightarrow> bfilter_expected m k n \<le> real (k * n)"
proof -
  assume m: "1 < m"
  have "1 + real (k * n) * (- 1 / real m) \<le> (1 + - 1 / real m) ^ (k * n)"
    by (rule Bernoulli_inequality) (use m in simp)
  then have "1 - (1 - 1 / real m) ^ (k * n) \<le> real (k * n) / real m"
    by simp
  then have "real m * (1 - (1 - 1 / real m) ^ (k * n)) \<le> real m * (real (k * n) / real m)"
    by (rule mult_left_mono) simp
  then show ?thesis using m by (simp add: bfilter_expected_def)
qed

lemma bfilter_quotient_le_iff:
  assumes m: "1 < m" and k: "0 < k" and X: "X < m"
  shows "real n \<le> ln (1 - real X / real m) / (real k * ln (1 - 1 / real m)) \<longleftrightarrow>
     bfilter_expected m k n \<le> real X"
proof -
  let ?q = "1 - 1 / real m" and ?x = "1 - real X / real m"
  have q: "0 < ?q" "?q < 1" using m by simp_all
  have x: "0 < ?x" using m X by simp
  have lnq: "real k * ln ?q < 0" using q k by (simp add: mult_pos_neg)
  have "real n \<le> ln ?x / (real k * ln ?q) \<longleftrightarrow> ln ?x \<le> real n * (real k * ln ?q)"
    using lnq by (simp add: neg_le_divide_eq)
  also have "\<dots> \<longleftrightarrow> ln ?x \<le> ln (?q ^ (k * n))"
    using q by (simp add: ln_realpow algebra_simps)
  also have "\<dots> \<longleftrightarrow> ?x \<le> ?q ^ (k * n)"
    using q x by (simp add: ln_le_cancel_iff)
  also have "\<dots> \<longleftrightarrow> 1 - ?q ^ (k * n) \<le> real X / real m" by linarith
  also have "\<dots> \<longleftrightarrow> bfilter_expected m k n \<le> real X"
    using m by (simp add: bfilter_expected_def pos_le_divide_eq mult.commute)
  finally show ?thesis .
qed

lemma ln_le_pow2: "real m \<le> 2 ^ e \<Longrightarrow> 0 < m \<Longrightarrow> ln (real m) \<le> real e"
proof -
  assume a: "real m \<le> 2 ^ e" "0 < m"
  then have "ln (real m) \<le> ln (2 ^ e :: real)" by simp
  also have "\<dots> = real e * ln 2" by (simp add: ln_realpow)
  also have "\<dots> \<le> real e * 1"
    by (rule mult_left_mono) (use ln_le_minus_one [of "2 :: real"] in simp_all)
  finally show ?thesis by simp
qed

lemma bfilter_quotient_bound:
  assumes m: "1 < m" "real m \<le> 2 ^ e" and k: "0 < k" and X: "X < m"
  shows "ln (1 - real X / real m) / (real k * ln (1 - 1 / real m)) \<le> real m * real e / real k"
proof -
  let ?q = "1 - 1 / real m" and ?x = "1 - real X / real m"
  have q: "0 < ?q" "?q < 1" using m by simp_all
  have lnq: "ln ?q \<le> - (1 / real m)" using ln_le_minus_one [OF q(1)] by simp
  have "1 / real m \<le> ?x"
    using m(1) X by (simp add: field_simps)
  then have "ln (1 / real m) \<le> ln ?x"
    using m(1) X by (subst ln_le_cancel_iff) auto
  then have lnx: "- ln ?x \<le> real e"
    using ln_le_pow2 [OF m(2)] m(1) by (simp add: ln_div)
  have den: "real k * (1 / real m) \<le> real k * - ln ?q"
    by (rule mult_left_mono) (use lnq in simp_all)
  have "ln ?x / (real k * ln ?q) = (- ln ?x) / (real k * - ln ?q)" by simp
  also have "\<dots> \<le> real e / (real k * (1 / real m))"
    by (rule frac_le [OF _ lnx _ den]) (use k m(1) in simp_all)
  finally show ?thesis by (simp add: algebra_simps)
qed

lemma bfilter_calc_cardinality_value:
  assumes inv: "bfilter_inv s" and k: "0 < num_hashes s"
    and X: "num_1s < bfilter_size_bits s"
    and cache: "cache = None \<or> cache = Some (bfilter_divisor s)"
    and cov: "fst (bfilter_calc_cardinality cache s num_1s) = Inr cov"
  defines "m \<equiv> unat (bfilter_size_bits s)" and "h \<equiv> unat (num_hashes s)"
  shows "bfilter_expected m h (unat cov) \<le> real (unat num_1s) \<and>
     real (unat num_1s) < bfilter_expected m h (Suc (unat cov))"
proof -
  let ?c = "ln (1 - real (unat num_1s) / real m) / (real h * ln (1 - 1 / real m))"
  have m1: "1 < m" and h0: "0 < h" and X0: "unat num_1s < m"
    using bfilter_inv_bits [OF inv] k X by (auto simp: m_def h_def word_less_nat_alt)
  have c: "cov = word_of_int \<lfloor>?c\<rfloor>" "?c < 2 ^ 32"
    using cov cache
    by (auto simp: bfilter_calc_cardinality_def bfilter_divisor_def Let_def m_def h_def split: if_splits)
  have c0: "0 \<le> ?c"
    using bfilter_quotient_le_iff [OF m1 h0 X0, of 0]
    by (simp add: bfilter_expected_def del: of_nat_unat)
  have "unat cov = nat \<lfloor>?c\<rfloor>"
  proof -
    have "\<lfloor>?c\<rfloor> < 2 ^ 32" using c(2) by (simp add: floor_less_iff)
    then have "uint cov = \<lfloor>?c\<rfloor>"
      using c(1) c0 by (simp add: uint_word_of_int take_bit_int_eq_self)
    then show ?thesis by (metis unat_eq_nat_uint)
  qed
  then have "real (unat cov) \<le> ?c" "?c < real (Suc (unat cov))"
    using c0 by (simp_all add: of_nat_nat) linarith+
  then show ?thesis
    using bfilter_quotient_le_iff [OF m1 h0 X0] by (metis not_le)
qed

lemma bfilter_calc_cardinality_defined:
  assumes inv: "bfilter_inv s" and k: "4 \<le> num_hashes s"
    and X: "num_1s < bfilter_size_bits s" and size: "bfilter_size_bits s \<le> 0x20000000"
    and cache: "cache = None \<or> cache = Some (bfilter_divisor s)"
  shows "\<exists>cov. bfilter_calc_cardinality cache s num_1s = (Inr cov, Some (bfilter_divisor s))"
proof -
  let ?m = "unat (bfilter_size_bits s)" and ?h = "unat (num_hashes s)"
  let ?c = "ln (1 - real (unat num_1s) / real ?m) / (real ?h * ln (1 - 1 / real ?m))"
  have h4: "4 \<le> ?h" using k by (simp add: word_le_nat_alt)
  have m1: "1 < ?m" and X0: "unat num_1s < ?m"
    using bfilter_inv_bits [OF inv] X by (auto simp: word_less_nat_alt)
  have mm: "?m \<le> 2 ^ 29" using size by (simp add: word_le_nat_alt)
  then have "real ?m \<le> 2 ^ 29" by (metis of_nat_le_iff of_nat_numeral of_nat_power)
  then have "?c \<le> real ?m * real 29 / real ?h"
    by (intro bfilter_quotient_bound) (use m1 X0 h4 in auto)
  also have "\<dots> \<le> 2 ^ 29 * 29 / 4"
    by (rule frac_le) (use \<open>real ?m \<le> 2 ^ 29\<close> h4 in \<open>auto simp del: of_nat_unat\<close>)
  also have "\<dots> < (2 ^ 32 :: real)" by simp
  finally have "?c < 2 ^ 32" .
  moreover have "bfilter_divisor s < 0"
    using m1 h4 by (simp add: bfilter_divisor_def mult_pos_neg del: of_nat_unat)
  moreover have "0 < 1 - real (unat num_1s) / real ?m" using m1 X0 by (simp del: of_nat_unat)
  ultimately show ?thesis
    using cache by (auto simp: bfilter_calc_cardinality_def bfilter_divisor_def Let_def)
qed

lemma bfilter_calc_cardinality_saturated:
  "bfilter_inv s \<Longrightarrow> fst (bfilter_calc_cardinality cache s (bfilter_size_bits s)) = Inl CastOverflow"
  using bfilter_inv_bits [of s] by (simp add: bfilter_calc_cardinality_def Let_def del: of_nat_unat)

section \<open>Properties\<close>

text \<open>A small filter of 64 bits with the daemon's four hashes.\<close>

definition bfilter_example :: bfilter_state where
  "bfilter_example = \<lparr>bfilter = [1, 0, 0, 0, 0, 0, 0, 0x80], bfilter_size = 8,
     bfilter_size_bits = 64, num_hashes = 4\<rparr>"

lemma bfilter_example_inv: "bfilter_inv bfilter_example"
  by (simp add: bfilter_example_def bfilter_inv_def)





text \<open>
  With the daemon's parameters (at most \<open>2 ^ 29\<close> bits, four hashes or more)
  the conversion of the estimate to \<open>u32\<close> is defined exactly as long as some bit
  of the filter is still zero; the cached divisor never changes.
\<close>

theorem bfilter_estimate_defined:
  assumes "bfilter_inv s" "4 \<le> num_hashes s" "bfilter_size_bits s \<le> 0x20000000"
    and "num_1s \<le> bfilter_size_bits s"
    and "cache = None \<or> cache = Some (bfilter_divisor s)"
  shows "snd (bfilter_calc_cardinality cache s num_1s) = Some (bfilter_divisor s) \<and>
     ((\<exists>cov. fst (bfilter_calc_cardinality cache s num_1s) = Inr cov) \<longleftrightarrow> num_1s < bfilter_size_bits s)"
proof (cases "num_1s < bfilter_size_bits s")
  case True
  then show ?thesis
    using bfilter_calc_cardinality_defined [OF assms(1,2) True assms(3,5)] by auto
next
  case False
  then have "num_1s = bfilter_size_bits s" using assms(4) by simp
  then show ?thesis
    using bfilter_calc_cardinality_saturated [OF assms(1), of cache] assms(5)
    by (auto simp: bfilter_calc_cardinality_def Let_def)
qed

theorem bfilter_estimate_defined_witness:
  "\<not> (\<exists>cov. fst (bfilter_calc_cardinality None bfilter_example 64) = Inr cov) \<and>
   (\<exists>cov. fst (bfilter_calc_cardinality None bfilter_example 63) = Inr cov)"
proof -
  have p: "4 \<le> num_hashes bfilter_example" "bfilter_size_bits bfilter_example \<le> 0x20000000"
    "64 \<le> bfilter_size_bits bfilter_example" "63 \<le> bfilter_size_bits bfilter_example"
    by (simp_all add: bfilter_example_def)
  show ?thesis
    using bfilter_estimate_defined [OF bfilter_example_inv p(1,2,3), of None]
      bfilter_estimate_defined [OF bfilter_example_inv p(1,2,4), of None]
    by (simp add: bfilter_example_def)
qed

end
