(* ===== verification/Lscov_Hcount.thy ===== *)
theory Lscov_Hcount
  imports Lscov_Bloom
begin

text \<open>
  Hit counts and bucketing (\<open>src/lscov/lscov-daemon.c\<close>,
  \<open>count_bucket_lookup8\<close>, \<open>count_bucket_lookup16\<close> and
  \<open>hcount_bucket_to_lstate\<close>).  The preprocessor choices \<open>LSCOV_BUCKET\<close> and
  \<open>BUCKET_*\<close> of \<open>stuff.h\<close> are a value of type \<open>bucketing\<close>: \<open>None\<close> when
  \<open>LSCOV_BUCKET\<close> is not defined, as in the checked-in \<open>stuff.h\<close>.
\<close>

datatype bucketing = BUCKET_1 | BUCKET_LOG2_LOG3p2 | BUCKET_LOG2_LOG4p1_p1 | BUCKET_LOG2

fun count_bucket_lookup8 :: "bucketing \<Rightarrow> u8 \<Rightarrow> u8" where
  "count_bucket_lookup8 BUCKET_1 c = (if c = 0 then 0 else 1)"
| "count_bucket_lookup8 BUCKET_LOG2_LOG3p2 c =
     (if c = 0 then 0 else if c \<le> 8 then 1 else 2)"
| "count_bucket_lookup8 BUCKET_LOG2_LOG4p1_p1 c =
     (if c = 0 then 0 else if c \<le> 3 then 1 else if c \<le> 63 then 2 else 4)"
| "count_bucket_lookup8 BUCKET_LOG2 c =
     (if c = 0 then 0 else if c = 1 then 1 else if c \<le> 3 then 2 else if c \<le> 7 then 4
      else if c \<le> 15 then 8 else if c \<le> 31 then 16 else if c \<le> 63 then 32
      else if c \<le> 127 then 64 else 128)"

text \<open>The table \<open>hcount_init\<close> fills.\<close>

definition count_bucket_lookup16 :: "bucketing \<Rightarrow> nat \<Rightarrow> u16" where
  "count_bucket_lookup16 b = init_lookup16 (count_bucket_lookup8 b)"

text \<open>The loop over 64-bit words: a zero word is copied without a lookup.\<close>

fun bucket_loop :: "bucketing \<Rightarrow> nat \<Rightarrow> u8 list \<Rightarrow> u8 list" where
  "bucket_loop b 0 mem = []"
| "bucket_loop b (Suc i) mem =
     (if (le_word (take 8 mem) :: u64) \<noteq> 0
      then lookup16_4 (count_bucket_lookup16 b) (take 8 mem)
      else le_bytes 8 (0 :: u64)) @ bucket_loop b i (drop 8 mem)"

definition hcount_bucket_to_lstate :: "bucketing option \<Rightarrow> u8 list \<Rightarrow> u8 list" where
  "hcount_bucket_to_lstate cfg hit_counts =
     (case cfg of
        Some b \<Rightarrow> bucket_loop b (LSTATE_SIZE div 8) hit_counts
      | None \<Rightarrow> take LSTATE_SIZE hit_counts)"

lemma count_bucket_lookup8_0 [simp]: "count_bucket_lookup8 b 0 = 0"
  by (cases b) simp_all

lemma count_bucket_lookup8_eq_0 [simp]: "count_bucket_lookup8 b c = 0 \<longleftrightarrow> c = 0"
  by (cases b) auto

lemma bucket_loop_map:
  "length mem = 8 * n \<Longrightarrow> bucket_loop b n mem = map (count_bucket_lookup8 b) mem"
proof (induction n arbitrary: mem)
  case 0
  then show ?case by simp
next
  case (Suc n)
  have len: "length (take 8 mem) = 8" using Suc.prems by simp
  have head: "(if (le_word (take 8 mem) :: u64) \<noteq> 0
      then lookup16_4 (count_bucket_lookup16 b) (take 8 mem) else le_bytes 8 (0 :: u64)) =
      map (count_bucket_lookup8 b) (take 8 mem)"
    using len map_zero_bytes [of "take 8 mem" "count_bucket_lookup8 b"]
    by (auto simp: count_bucket_lookup16_def lookup16_4_bytes load64_zero_iff)
  have "map (count_bucket_lookup8 b) mem =
      map (count_bucket_lookup8 b) (take 8 mem) @ map (count_bucket_lookup8 b) (drop 8 mem)"
    by (metis append_take_drop_id map_append)
  then show ?case
    using Suc head by simp
qed

section \<open>Properties\<close>

text \<open>
  C30 Bucketing by 16-bit table lookups on 64-bit words, with the shortcut for
  zero words, is the 8-bit bucket table applied to every hit count; without
  \<open>LSCOV_BUCKET\<close> the logic state is the hit counts.  A hit count is zero in the
  logic state only if the edge was not hit.
\<close>

theorem hcount_bucket_bytewise:
  assumes "length hit_counts = LSTATE_SIZE"
  shows "hcount_bucket_to_lstate cfg hit_counts =
       map (case cfg of None \<Rightarrow> id | Some b \<Rightarrow> count_bucket_lookup8 b) hit_counts \<and>
     (\<forall>i<LSTATE_SIZE. hcount_bucket_to_lstate cfg hit_counts ! i = 0 \<longleftrightarrow> hit_counts ! i = 0)"
proof -
  have l: "LSTATE_SIZE = 8 * (LSTATE_SIZE div 8)"
    by (simp add: LSTATE_SIZE_def LSTATE_SIZE_POW2_def)
  have "hcount_bucket_to_lstate cfg hit_counts =
      map (case cfg of None \<Rightarrow> id | Some b \<Rightarrow> count_bucket_lookup8 b) hit_counts"
    using assms l by (auto simp: hcount_bucket_to_lstate_def bucket_loop_map split: option.split)
  then show ?thesis
    using assms by (auto split: option.split)
qed

theorem hcount_bucket_bytewise_witness:
  "hcount_bucket_to_lstate (Some BUCKET_LOG2) (replicate LSTATE_SIZE 200) = replicate LSTATE_SIZE 128"
  using hcount_bucket_bytewise [of "replicate LSTATE_SIZE 200" "Some BUCKET_LOG2"]
  by (simp add: map_replicate)

end
