(* ===== verification/Lscov_Tally.thy ===== *)
theory Lscov_Tally
  imports Lscov_Hcount
begin

text \<open>
  Tallying and reporting (\<open>src/lscov/lscov-daemon.c\<close>, \<open>tally_*\<close>,
  \<open>out_*\<close>, \<open>lscov_report\<close>, \<open>lscov_stop\<close>, \<open>lscov_loop\<close>).  Times are Unix
  seconds in \<open>int\<close> (\<open>time_t\<close> is 64 bits wide); every \<open>u32\<close> of the source is a
  32-bit word and wraps.  Floats are exact rationals except for the two IEEE
  values a division by zero yields.  The value of \<open>time(NULL)\<close> is an argument.
\<close>

section \<open>The tallying clock\<close>

definition tallying_period :: int where
  "tallying_period = 10"

record tally =
  start_time :: int
  next_tallying_time :: int
  loop_timeout_sec :: int

definition tally_is_next_time :: "tally \<Rightarrow> int \<Rightarrow> bool" where
  "tally_is_next_time t now \<longleftrightarrow> next_tallying_time t < now"

text \<open>Returns the new clock and the next tallying time before the call.\<close>

definition tally_update_next_time :: "tally \<Rightarrow> tally \<times> int" where
  "tally_update_next_time t =
     (let prev_next_time = next_tallying_time t;
          cur = (if next_tallying_time t = 0 then start_time t else next_tallying_time t);
          prev_iter_num = word_of_int (cdiv (cur - start_time t) tallying_period) :: u32;
          nxt = start_time t + uint (prev_iter_num + 1) * tallying_period
      in (t\<lparr>next_tallying_time := nxt, loop_timeout_sec := nxt\<rparr>, prev_next_time))"

definition tally_init :: "int \<Rightarrow> tally \<Rightarrow> tally" where
  "tally_init now t = fst (tally_update_next_time (t\<lparr>start_time := now\<rparr>))"

definition tally_zero :: tally where
  "tally_zero = \<lparr>start_time = 0, next_tallying_time = 0, loop_timeout_sec = 0\<rparr>"

text \<open>The clock is at the \<open>n\<close>-th tallying time after the start.\<close>

definition tally_at :: "nat \<Rightarrow> tally \<Rightarrow> bool" where
  "tally_at n t \<longleftrightarrow> 0 < start_time t \<and>
     next_tallying_time t = start_time t + int n * tallying_period"

lemma tally_update_at:
  assumes "tally_at n t" "Suc n < 2 ^ 32"
  shows "tally_at (Suc n) (fst (tally_update_next_time t)) \<and>
     snd (tally_update_next_time t) = start_time t + int n * tallying_period \<and>
     start_time (fst (tally_update_next_time t)) = start_time t"
proof -
  have nz: "next_tallying_time t \<noteq> 0"
    using assms by (simp add: tally_at_def tallying_period_def)
  have "cdiv (next_tallying_time t - start_time t) tallying_period = int n"
    using assms(1) by (simp add: tally_at_def tallying_period_def)
  moreover have "uint (word_of_int (int n) + 1 :: u32) = int (Suc n)"
  proof -
    have "word_of_int (int n) + 1 = (of_nat (Suc n) :: u32)" by simp
    moreover have "uint (of_nat (Suc n) :: u32) = int (Suc n)"
      using assms(2) by (simp only: uint_nat unat_of_nat) (simp add: take_bit_nat_eq_self)
    ultimately show ?thesis by metis
  qed
  ultimately show ?thesis
    using assms(1) nz by (simp add: tally_update_next_time_def Let_def tally_at_def)
qed

lemma tally_init_at: "0 < now \<Longrightarrow> tally_at 1 (tally_init now tally_zero)"
  by (simp add: tally_at_def tally_init_def tally_zero_def tally_update_next_time_def Let_def
      tallying_period_def)

section \<open>Output\<close>

datatype fval = Fin real | PInf | NaN

definition fdiv :: "u32 \<Rightarrow> u32 \<Rightarrow> fval" where
  "fdiv a b = (if b \<noteq> 0 then Fin (real (unat a) / real (unat b)) else if a = 0 then NaN else PInf)"

fun fmul100 :: "fval \<Rightarrow> fval" where
  "fmul100 (Fin x) = Fin (x * 100)"
| "fmul100 PInf = PInf"
| "fmul100 NaN = NaN"

datatype field = U u32 | F fval

definition out_init :: "u8 \<Rightarrow> string list" where
  "out_init error_percent =
     [''Time'', ''Coverage''] @
     (if error_percent > 0 then [''(Lower)'', ''(Upper)''] else []) @
     [''Density'', ''RateS(ins)'', ''RateE(per)'', ''RateS(avg)'', ''RateE(avg)'']"

definition out_append ::
    "u8 \<Rightarrow> u32 \<Rightarrow> u32 \<Rightarrow> u32 \<Rightarrow> u32 \<Rightarrow> fval \<Rightarrow> u32 \<Rightarrow> fval \<Rightarrow> u32 \<Rightarrow> fval \<Rightarrow> field list" where
  "out_append error_percent time cov lower_err upper_err density rate_ins rate_per rate_avg rate_per_avg =
     [U time, U cov] @
     (if error_percent > 0 then [U lower_err, U upper_err] else []) @
     [U time, U cov, F density, U rate_ins, F rate_per, U rate_avg, F rate_per_avg]"

section \<open>Reports\<close>

record daemon =
  d_filter :: bfilter_state
  d_tally :: tally
  d_divisor :: "real option"
  error_percent :: u8
  prev_cov :: u32
  exec_count :: u32
  exec_count_in_period :: u32
  stop_soon :: bool
  d_out :: "field list list"

definition rate_per_of :: "u32 \<Rightarrow> u32 \<Rightarrow> fval" where
  "rate_per_of cov execs = (if execs = 0 then fmul100 (fdiv cov execs) else Fin 0)"

definition lscov_report :: "int \<Rightarrow> daemon \<Rightarrow> lscov_error + daemon" where
  "lscov_report now d =
     (if start_time (d_tally d) = 0 then Inr d
      else
        let (tally', prev_next) = tally_update_next_time (d_tally d);
            prev_next_time = (if stop_soon d then now else prev_next);
            prev_time = word_of_int (prev_next_time - start_time (d_tally d)) :: u32;
            num_1s = bfilter_get_num_1s (d_filter d);
            (card, divisor') = bfilter_calc_cardinality (d_divisor d) (d_filter d) num_1s
        in case card of
             Inl e \<Rightarrow> Inl e
           | Inr cov \<Rightarrow>
               let density = fmul100 (fdiv num_1s (bfilter_size_bits (d_filter d)));
                   rate_ins = word_of_int (cdiv (uint (cov - prev_cov d)) tallying_period);
                   rate_per = rate_per_of (cov - prev_cov d) (exec_count_in_period d)
               in if prev_time = 0 then Inl DivisionByZero
                  else
                    let rate_avg = cov div prev_time;
                        rate_per_avg = rate_per_of cov (exec_count d);
                        row = out_append (error_percent d) prev_time cov 0 0 density
                                rate_ins rate_per rate_avg rate_per_avg
                    in Inr (d\<lparr>d_tally := tally', d_divisor := divisor', d_out := d_out d @ [row],
                             exec_count_in_period := 0, prev_cov := cov\<rparr>))"

text \<open>\<open>lscov_stop\<close>, the signal handler: a last report, then \<open>exit(0)\<close>.\<close>

definition lscov_stop :: "int \<Rightarrow> daemon \<Rightarrow> lscov_error + daemon" where
  "lscov_stop now d = lscov_report now (d\<lparr>stop_soon := True\<rparr>)"

section \<open>The main loop\<close>

text \<open>
  One iteration of \<open>lscov_loop\<close> after \<open>hcount_wait_until_ready\<close> returned
  \<open>sem_rd_ret\<close> (0 on success): the new daemon, and whether a report thread was
  created.  The handshake with the runtime is modelled in \<open>Lscov_Protocol\<close>.
\<close>

definition lscov_loop_body ::
    "bucketing option \<Rightarrow> int \<Rightarrow> u8 list \<Rightarrow> int \<Rightarrow> daemon \<Rightarrow> lscov_error + daemon \<times> bool" where
  "lscov_loop_body cfg sem_rd_ret hit_counts now d =
     (if sem_rd_ret = 0
      then case bfilter_add (d_filter d) (hcount_bucket_to_lstate cfg hit_counts) of
             Inl e \<Rightarrow> Inl e
           | Inr f \<Rightarrow> Inr (d\<lparr>exec_count := exec_count d + 1,
                            exec_count_in_period := exec_count_in_period d + 1, d_filter := f\<rparr>,
                          tally_is_next_time (d_tally d) now)
      else Inr (d, tally_is_next_time (d_tally d) now))"

text \<open>
  The loop and the report threads it creates, interleaved: an iteration, or a
  pending report running.  The number is the count of threads created and not
  yet run; \<open>lscov_report\<close> runs atomically here.
\<close>

datatype loop_event = Iterate "u8 list" int | Report int

fun lscov_run ::
    "bucketing option \<Rightarrow> loop_event list \<Rightarrow> daemon \<times> nat \<Rightarrow> lscov_error + daemon \<times> nat" where
  "lscov_run cfg [] dn = Inr dn"
| "lscov_run cfg (Iterate hc now # es) (d, n) =
     (case lscov_loop_body cfg 0 hc now d of
        Inl e \<Rightarrow> Inl e
      | Inr (d', spawn) \<Rightarrow> lscov_run cfg es (d', if spawn then Suc n else n))"
| "lscov_run cfg (Report now # es) (d, n) =
     (case n of
        0 \<Rightarrow> lscov_run cfg es (d, n)
      | Suc m \<Rightarrow> (case lscov_report now d of Inl e \<Rightarrow> Inl e | Inr d' \<Rightarrow> lscov_run cfg es (d', m)))"

fun iterated :: "loop_event list \<Rightarrow> u8 list list" where
  "iterated [] = []"
| "iterated (Iterate hc now # es) = hc # iterated es"
| "iterated (Report now # es) = iterated es"

section \<open>Invariant of the daemon\<close>

text \<open>
  The filter is ready, the cached divisor is the filter's own, and the last
  reported coverage is still supported by the bits set.
\<close>

definition daemon_inv :: "u32 \<Rightarrow> u8 \<Rightarrow> daemon \<Rightarrow> bool" where
  "daemon_inv size_bits k d \<longleftrightarrow>
     0 < k \<and> bfilter_ready size_bits k (d_filter d) \<and>
     (d_divisor d = None \<or> d_divisor d = Some (bfilter_divisor (d_filter d))) \<and>
     bfilter_expected (unat size_bits) (unat k) (unat (prev_cov d))
       \<le> real (card (bit_ones (bfilter (d_filter d))))"

lemma bfilter_expected_mono:
  assumes "1 < m" "a \<le> b"
  shows "bfilter_expected m k a \<le> bfilter_expected m k b"
proof -
  have "(1 - 1 / real m) ^ (k * b) \<le> (1 - 1 / real m) ^ (k * a)"
    by (rule power_decreasing) (use assms in auto)
  then show ?thesis
    unfolding bfilter_expected_def by (intro mult_left_mono) simp_all
qed

lemma bfilter_divisor_ready:
  "bfilter_ready sb k s \<Longrightarrow> bfilter_ready sb k s' \<Longrightarrow> bfilter_divisor s = bfilter_divisor s'"
  by (simp add: bfilter_ready_def bfilter_divisor_def)

lemma calc_cardinality_in_range:
  "bfilter_inv s \<Longrightarrow> fst (bfilter_calc_cardinality c s x) = Inr cov \<Longrightarrow> x < bfilter_size_bits s"
  using bfilter_inv_bits [of s]
  by (auto simp: bfilter_calc_cardinality_def Let_def word_less_nat_alt simp del: of_nat_unat
      split: if_splits)

lemma snd_calc_cardinality:
  "c = None \<or> c = Some (bfilter_divisor s) \<Longrightarrow>
   snd (bfilter_calc_cardinality c s x) = Some (bfilter_divisor s)"
  by (auto simp: bfilter_calc_cardinality_def Let_def)

text \<open>What a report that writes a row did.\<close>

lemma lscov_reportE:
  assumes "lscov_report now d = Inr d'" "start_time (d_tally d) \<noteq> 0"
  obtains cov where
    "fst (bfilter_calc_cardinality (d_divisor d) (d_filter d) (bfilter_get_num_1s (d_filter d))) = Inr cov"
    "prev_cov d' = cov" "d_filter d' = d_filter d"
    "d_divisor d' = snd (bfilter_calc_cardinality (d_divisor d) (d_filter d) (bfilter_get_num_1s (d_filter d)))"
    "d_tally d' = fst (tally_update_next_time (d_tally d))"
    "exec_count d' = exec_count d" "exec_count_in_period d' = 0"
  using assms
  by (auto simp: lscov_report_def Let_def split: prod.splits sum.splits if_splits)

lemma lscov_report_filter: "lscov_report now d = Inr d' \<Longrightarrow> d_filter d' = d_filter d"
  by (cases "start_time (d_tally d) = 0", simp add: lscov_report_def, metis lscov_reportE)

lemma lscov_report_exec_count: "lscov_report now d = Inr d' \<Longrightarrow> exec_count d' = exec_count d"
  by (cases "start_time (d_tally d) = 0", simp add: lscov_report_def, metis lscov_reportE)

lemma lscov_report_inv:
  assumes inv: "daemon_inv sb k d" and r: "lscov_report now d = Inr d'"
  shows "daemon_inv sb k d' \<and> prev_cov d \<le> prev_cov d'"
proof (cases "start_time (d_tally d) = 0")
  case True
  then show ?thesis using inv r by (simp add: lscov_report_def)
next
  case False
  let ?s = "d_filter d" and ?X = "bfilter_get_num_1s (d_filter d)"
  have rdy: "bfilter_ready sb k ?s" and bi: "bfilter_inv ?s" and k0: "0 < num_hashes ?s"
    and c: "d_divisor d = None \<or> d_divisor d = Some (bfilter_divisor ?s)"
    and m: "bfilter_size_bits ?s = sb" "num_hashes ?s = k"
    using inv by (auto simp: daemon_inv_def bfilter_ready_def)
  have m1: "1 < unat sb" using bfilter_inv_bits [OF bi] m by simp
  have X: "unat ?X = card (bit_ones (bfilter ?s))"
    by (rule bfilter_get_num_1s_card [OF bi])
  obtain cov where cov:
    "fst (bfilter_calc_cardinality (d_divisor d) ?s ?X) = Inr cov" "prev_cov d' = cov"
    "d_filter d' = ?s" "d_divisor d' = snd (bfilter_calc_cardinality (d_divisor d) ?s ?X)"
    using r False by (rule lscov_reportE) blast
  have br: "bfilter_expected (unat sb) (unat k) (unat cov) \<le> real (unat ?X) \<and>
     real (unat ?X) < bfilter_expected (unat sb) (unat k) (Suc (unat cov))"
    using bfilter_calc_cardinality_value [OF bi k0 calc_cardinality_in_range [OF bi cov(1)] c cov(1)] m
    by simp
  have "unat (prev_cov d) < Suc (unat cov)"
  proof (rule ccontr)
    assume "\<not> ?thesis"
    then have "bfilter_expected (unat sb) (unat k) (Suc (unat cov))
        \<le> bfilter_expected (unat sb) (unat k) (unat (prev_cov d))"
      by (intro bfilter_expected_mono [OF m1]) simp
    with br inv X show False by (simp add: daemon_inv_def del: of_nat_unat)
  qed
  then have "prev_cov d \<le> prev_cov d'" by (simp add: cov word_le_nat_alt)
  moreover have "daemon_inv sb k d'"
    using inv br X snd_calc_cardinality [OF c, of ?X]
    by (simp add: daemon_inv_def cov del: of_nat_unat)
  ultimately show ?thesis by blast
qed

lemma lscov_loop_body_inv:
  assumes inv: "daemon_inv sb k d" and r: "lscov_loop_body cfg rt hc now d = Inr (d', sp)"
  shows "daemon_inv sb k d'"
proof (cases "rt = 0")
  case False
  then show ?thesis using inv r by (simp add: lscov_loop_body_def)
next
  case True
  let ?l = "hcount_bucket_to_lstate cfg hc"
  have rdy: "bfilter_ready sb k (d_filter d)" using inv by (simp add: daemon_inv_def)
  obtain f where f: "bfilter_add (d_filter d) ?l = Inr f" "bfilter_ready sb k f"
      "bit_ones (bfilter f) = bit_ones (bfilter (d_filter d)) \<union> bfilter_indices sb k ?l"
    using bf.add_ok [OF rdy] by blast
  have d': "d_filter d' = f" "d_divisor d' = d_divisor d" "prev_cov d' = prev_cov d"
    using r True f(1) by (auto simp: lscov_loop_body_def)
  have "card (bit_ones (bfilter (d_filter d))) \<le> card (bit_ones (bfilter f))"
    by (rule card_mono) (use f(3) bfilter_indices_card in auto)
  then show ?thesis
    using inv f(2) bfilter_divisor_ready [OF rdy f(2)]
    by (simp add: daemon_inv_def d')
qed

text \<open>The runs of the daemon feed the filter with the observed states, in order.\<close>

lemma lscov_run_add_all:
  "lscov_run cfg es (d, n) = Inr (d', n') \<Longrightarrow>
   add_all bfilter_add (d_filter d) (map (hcount_bucket_to_lstate cfg) (iterated es)) = Inr (d_filter d')"
proof (induction es arbitrary: d n)
  case Nil
  then show ?case by simp
next
  case (Cons e es)
  show ?case
  proof (cases e)
    case (Iterate hc now)
    then show ?thesis
      using Cons.prems by (fastforce simp: lscov_loop_body_def split: sum.splits dest!: Cons.IH)
  next
    case (Report now)
    then show ?thesis
      using Cons.prems
      by (fastforce split: nat.splits sum.splits dest: Cons.IH lscov_report_filter)
  qed
qed

lemma lscov_run_inv:
  "daemon_inv sb k d \<Longrightarrow> lscov_run cfg es (d, n) = Inr (d', n') \<Longrightarrow>
   daemon_inv sb k d' \<and> prev_cov d \<le> prev_cov d' \<and>
   exec_count d' = exec_count d + of_nat (length (iterated es))"
proof (induction es arbitrary: d n)
  case Nil
  then show ?case by simp
next
  case (Cons e es)
  show ?case
  proof (cases e)
    case (Iterate hc now)
    obtain d1 sp where d1: "lscov_loop_body cfg 0 hc now d = Inr (d1, sp)"
        "lscov_run cfg es (d1, if sp then Suc n else n) = Inr (d', n')"
      using Cons.prems(2) Iterate by (auto split: sum.splits)
    have "prev_cov d1 = prev_cov d" "exec_count d1 = exec_count d + 1"
      using d1(1) by (auto simp: lscov_loop_body_def split: sum.splits)
    then show ?thesis
      using Cons.IH [OF lscov_loop_body_inv [OF Cons.prems(1) d1(1)] d1(2)] Iterate
      by (simp add: algebra_simps)
  next
    case (Report now)
    show ?thesis
    proof (cases n)
      case 0
      then show ?thesis using Cons Report by auto
    next
      case (Suc m)
      then obtain d1 where d1: "lscov_report now d = Inr d1" "lscov_run cfg es (d1, m) = Inr (d', n')"
        using Cons.prems(2) Report by (auto split: sum.splits)
      show ?thesis
        using Cons.IH [OF _ d1(2)] lscov_report_inv [OF Cons.prems(1) d1(1)]
          lscov_report_exec_count [OF d1(1)] Report by auto
    qed
  qed
qed

section \<open>Properties\<close>

text \<open>
  The tallying times do not drift: after \<open>tally_init\<close> and any number \<open>n\<close> of
  updates the next tallying time is exactly \<open>n + 1\<close> periods after the start, and
  the loop timeout agrees with it.
\<close>

theorem tally_no_drift:
  assumes "0 < now" "n < 2 ^ 32 - 1"
  shows "let t = ((fst \<circ> tally_update_next_time) ^^ n) (tally_init now tally_zero)
     in start_time t = now \<and> next_tallying_time t = now + int (Suc n) * tallying_period \<and>
        loop_timeout_sec t = next_tallying_time t"
proof -
  have "tally_at (Suc n) (((fst \<circ> tally_update_next_time) ^^ n) (tally_init now tally_zero)) \<and>
      start_time (((fst \<circ> tally_update_next_time) ^^ n) (tally_init now tally_zero)) = now"
    using assms(2)
  proof (induction n)
    case 0
    then show ?case
      using tally_init_at [OF assms(1)] by (simp add: tally_init_def tally_update_next_time_def Let_def)
  next
    case (Suc n)
    then show ?case using tally_update_at [of "Suc n"] by auto
  qed
  moreover have "loop_timeout_sec t = next_tallying_time t"
    if "t = fst (tally_update_next_time t0)" for t t0
    using that by (simp add: tally_update_next_time_def Let_def)
  ultimately show ?thesis
    by (cases n) (auto simp: tally_at_def Let_def tally_init_def)
qed

theorem tally_no_drift_witness:
  "next_tallying_time (((fst \<circ> tally_update_next_time) ^^ 3) (tally_init 1000 tally_zero)) = 1040"
  using tally_no_drift [of 1000 3] by (simp add: Let_def tallying_period_def)

text \<open>
  A periodic report appends one row, stamped with the tallying time it is for
  (\<open>n\<close> periods after the start) and carrying the new coverage, and moves the clock
  to the next period.
\<close>

theorem lscov_report_stamp:
  assumes "lscov_report now d = Inr d'" "\<not> stop_soon d" "tally_at n (d_tally d)"
    and "int n * tallying_period < 2 ^ 32"
  shows "tally_at (Suc n) (d_tally d') \<and>
     (\<exists>row. d_out d' = d_out d @ [row] \<and>
        take 2 row = [U (of_nat (n * 10)), U (prev_cov d')])"
proof -
  have n: "Suc n < 2 ^ 32" using assms(4) by (simp add: tallying_period_def)
  have st: "start_time (d_tally d) \<noteq> 0" using assms(3) by (simp add: tally_at_def)
  have "d_tally d' = fst (tally_update_next_time (d_tally d))"
    using assms(1) st by (rule lscov_reportE)
  then have t: "tally_at (Suc n) (d_tally d')"
    "snd (tally_update_next_time (d_tally d)) = start_time (d_tally d) + int n * 10"
    using tally_update_at [OF assms(3) n] by (simp_all add: tallying_period_def)
  have "(word_of_int (int n * 10) :: u32) = of_nat (n * 10)" by simp
  then show ?thesis
    using assms(1,2) st t
    by (auto simp: lscov_report_def Let_def out_append_def split: prod.splits sum.splits if_splits)
qed

definition example_daemon :: daemon where
  "example_daemon = \<lparr>d_filter = bfilter_example,
     d_tally = \<lparr>start_time = 100, next_tallying_time = 110, loop_timeout_sec = 110\<rparr>,
     d_divisor = None, error_percent = 0, prev_cov = 0, exec_count = 7, exec_count_in_period = 7,
     stop_soon = False, d_out = []\<rparr>"

lemma example_num_1s: "bfilter_get_num_1s bfilter_example < 64"
proof -
  have "bit_ones (bfilter bfilter_example) \<subseteq> {..<64} - {1}"
    by (auto simp: bit_ones_def bfilter_example_def)
  then have "card (bit_ones (bfilter bfilter_example)) \<le> card ({..<64} - {1 :: nat})"
    by (intro card_mono) simp_all
  then show ?thesis
    by (simp add: word_less_nat_alt bfilter_get_num_1s_card [OF bfilter_example_inv])
qed

lemma example_cardinality:
  "\<exists>cov. bfilter_calc_cardinality None bfilter_example (bfilter_get_num_1s bfilter_example) =
     (Inr cov, Some (bfilter_divisor bfilter_example))"
  by (rule bfilter_calc_cardinality_defined [OF bfilter_example_inv])
    (use example_num_1s in \<open>simp_all add: bfilter_example_def\<close>)

lemma example_report:
  "\<exists>d'. lscov_report 111 example_daemon = Inr d'"
proof -
  obtain cov where "bfilter_calc_cardinality None bfilter_example (bfilter_get_num_1s bfilter_example) =
      (Inr cov, Some (bfilter_divisor bfilter_example))"
    using example_cardinality by blast
  then show ?thesis
    by (simp add: lscov_report_def example_daemon_def Let_def tally_update_next_time_def)
qed

theorem lscov_report_stamp_witness:
  "\<exists>d' row. lscov_report 111 example_daemon = Inr d' \<and> d_out d' = [row] \<and>
     take 2 row = [U 10, U (prev_cov d')]"
proof -
  obtain d' where d': "lscov_report 111 example_daemon = Inr d'" using example_report by blast
  have a: "\<not> stop_soon example_daemon" "tally_at 1 (d_tally example_daemon)"
    "int 1 * tallying_period < 2 ^ 32"
    by (simp_all add: example_daemon_def tally_at_def tallying_period_def)
  show ?thesis
    using lscov_report_stamp [OF d' a] d' by (auto simp: example_daemon_def)
qed


lemma example_daemon_inv: "daemon_inv 64 4 example_daemon"
  using bfilter_example_inv
  by (simp add: daemon_inv_def example_daemon_def bfilter_ready_def bfilter_expected_def)
    (simp add: bfilter_example_def)


text \<open>
  No observed logic state is lost: after any interleaving of iterations and
  reports, all filter bits of every logic state the daemon has read are set, and
  no other bits were added.
\<close>

lemma lscov_no_false_negative:
  assumes "daemon_inv size_bits k d" "lscov_run cfg es (d, n) = Inr (d', n')"
  shows "bit_ones (bfilter (d_filter d')) = bit_ones (bfilter (d_filter d)) \<union>
     (\<Union>hc\<in>set (iterated es). bfilter_indices size_bits k (hcount_bucket_to_lstate cfg hc))"
proof -
  have r: "bfilter_ready size_bits k (d_filter d)" using assms(1) by (simp add: daemon_inv_def)
  show ?thesis
    using bf.add_all_ok [OF r, of "map (hcount_bucket_to_lstate cfg) (iterated es)"]
      lscov_run_add_all [OF assms(2)] by auto
qed

text \<open>
  The bits set, and so every later estimate, depend only on the set of logic
  states observed: not on their order, on repetitions, or on when reports ran.
\<close>

lemma lscov_order_insensitive:
  assumes "daemon_inv size_bits k d"
    and "lscov_run cfg es (d, n) = Inr (d1, n1)" "lscov_run cfg es' (d, n') = Inr (d2, n2)"
    and "hcount_bucket_to_lstate cfg ` set (iterated es) = hcount_bucket_to_lstate cfg ` set (iterated es')"
  shows "bfilter_get_num_1s (d_filter d1) = bfilter_get_num_1s (d_filter d2)"
proof -
  have r: "bfilter_ready size_bits k (d_filter d)" using assms(1) by (simp add: daemon_inv_def)
  have "bit_ones (bfilter (d_filter d1)) = bit_ones (bfilter (d_filter d2))"
    by (rule bf.same_set_same_bits [OF r lscov_run_add_all [OF assms(2)] lscov_run_add_all [OF assms(3)]])
      (use assms(4) in simp)
  moreover have "bfilter_inv (d_filter d1)" "bfilter_inv (d_filter d2)"
    using lscov_run_inv [OF assms(1,2)] lscov_run_inv [OF assms(1,3)]
    by (auto simp: daemon_inv_def bfilter_ready_def)
  ultimately show ?thesis
    by (metis bfilter_get_num_1s_card word_unat_eq_iff)
qed

lemma rate_per_inverted:
  "rate_per_of cov execs = (if execs \<noteq> 0 then Fin 0 else if cov = 0 then NaN else PInf)"
  by (simp add: rate_per_of_def fdiv_def)



lemma lscov_stop_divides:
  assumes "daemon_inv size_bits k d" "4 \<le> k" "size_bits \<le> 0x20000000"
    and "bfilter_get_num_1s (d_filter d) < size_bits" "0 < start_time (d_tally d)"
  shows "lscov_stop (start_time (d_tally d)) d = Inl DivisionByZero"
proof -
  have inv: "bfilter_inv (d_filter d)" "bfilter_size_bits (d_filter d) = size_bits"
      "num_hashes (d_filter d) = k" "d_divisor d = None \<or> d_divisor d = Some (bfilter_divisor (d_filter d))"
    using assms(1) by (auto simp: daemon_inv_def bfilter_ready_def)
  obtain cov where "bfilter_calc_cardinality (d_divisor d) (d_filter d) (bfilter_get_num_1s (d_filter d)) =
      (Inr cov, Some (bfilter_divisor (d_filter d)))"
    using bfilter_calc_cardinality_defined [OF inv(1)] assms(2-4) inv(2-4) by metis
  then show ?thesis
    using assms(5) by (simp add: lscov_stop_def lscov_report_def Let_def split: prod.split)
qed

lemma lscov_two_threads:
  assumes "daemon_inv size_bits k d" "tally_is_next_time (d_tally d) now"
  shows "\<exists>d'. lscov_run cfg [Iterate hc now, Iterate hc' now] (d, 0) = Inr (d', 2)"
proof -
  have step: "\<exists>d'. lscov_loop_body cfg 0 hc now d = Inr (d', True) \<and> daemon_inv size_bits k d' \<and>
      tally_is_next_time (d_tally d') now"
    if inv: "daemon_inv size_bits k d" and due: "tally_is_next_time (d_tally d) now" for d hc
  proof -
    have r: "bfilter_ready size_bits k (d_filter d)" using inv by (simp add: daemon_inv_def)
    obtain f where f: "bfilter_add (d_filter d) (hcount_bucket_to_lstate cfg hc) = Inr f"
      using bf.add_ok [OF r] by blast
    then obtain d' where d': "lscov_loop_body cfg 0 hc now d = Inr (d', True)" "d_tally d' = d_tally d"
      using due by (auto simp: lscov_loop_body_def)
    then show ?thesis using lscov_loop_body_inv [OF inv d'(1)] due by simp
  qed
  obtain d1 where d1: "lscov_loop_body cfg 0 hc now d = Inr (d1, True)" "daemon_inv size_bits k d1"
      "tally_is_next_time (d_tally d1) now"
    using step [OF assms] by blast
  then show ?thesis using step [OF d1(2,3), of hc'] by auto
qed

text \<open>
  C37 Two faults of the reports.  Stopping the daemon within the second it
  started divides by zero, since the elapsed time of the last report is 0.  And the
  clock is advanced by the report thread itself, so while it has not run yet the next
  iteration finds the same period due and creates a second thread for it.
\<close>

theorem lscov_report_faults:
  assumes "daemon_inv size_bits k d"
  shows "(4 \<le> k \<and> size_bits \<le> 0x20000000 \<and> bfilter_get_num_1s (d_filter d) < size_bits \<and> 0 < start_time (d_tally d) \<longrightarrow>
      lscov_stop (start_time (d_tally d)) d = Inl DivisionByZero) \<and>
    (tally_is_next_time (d_tally d) now \<longrightarrow> (\<exists>d'. lscov_run cfg [Iterate hc now, Iterate hc' now] (d, 0) = Inr (d', 2)))"
  using lscov_stop_divides [OF assms] lscov_two_threads [OF assms] by blast

theorem lscov_report_faults_witness:
  "lscov_stop 100 example_daemon = Inl DivisionByZero \<and>
   (\<exists>d'. lscov_run None [Iterate [] 111, Iterate [] 111] (example_daemon, 0) = Inr (d', 2))"
proof -
  have "bfilter_get_num_1s (d_filter example_daemon) < 64"
    using example_num_1s by (simp add: example_daemon_def)
  moreover have "tally_is_next_time (d_tally example_daemon) 111"
    by (simp add: tally_is_next_time_def example_daemon_def)
  ultimately show ?thesis
    using lscov_report_faults [OF example_daemon_inv, of 111 None "[]" "[]"] by (simp add: example_daemon_def)
qed

end
