(* ===== verification/Lscov_Instr.thy ===== *)
theory Lscov_Instr
  imports Lscov_Hcount
begin

text \<open>
  The instrumentation pass (\<open>src/lscov/lscov-llvm-pass.so.cc\<close>,
  \<open>LSCovPass::run\<close>) and the code it inserts.  LLVM is not part of the
  repository: a module is reduced to what the pass reads of it, the names of
  its functions and the terminators of their basic blocks.  \<open>random()\<close> is a
  stream of numbers, consumed in the order of the calls.
\<close>

section \<open>The pass\<close>

datatype terminator = NoTerminator | UncondBranch | CondBranch | OtherTerminator

record ir_function =
  fn_name :: string
  fn_blocks :: "terminator list"

fun name_contains :: "string \<Rightarrow> string \<Rightarrow> bool" where
  "name_contains [] p \<longleftrightarrow> p = []"
| "name_contains (c # cs) p \<longleftrightarrow> take (length p) (c # cs) = p \<or> name_contains cs p"

definition RANDOM_LSTATE :: "(nat \<Rightarrow> nat) \<Rightarrow> nat \<Rightarrow> u32" where
  "RANDOM_LSTATE rnd n = of_nat (rnd n mod LSTATE_SIZE)"

text \<open>
  The loop over the blocks of one function: the location given to each block,
  \<open>None\<close> for a block that is skipped, and the number of random numbers drawn
  so far, which is also \<open>inst_blocks\<close>.
\<close>

fun pass_blocks :: "(nat \<Rightarrow> nat) \<Rightarrow> nat \<Rightarrow> terminator list \<Rightarrow> u32 option list \<times> nat" where
  "pass_blocks rnd n [] = ([], n)"
| "pass_blocks rnd n (t # ts) =
     (if t = UncondBranch
      then let (ls, n') = pass_blocks rnd n ts in (None # ls, n')
      else let (ls, n') = pass_blocks rnd (Suc n) ts in (Some (RANDOM_LSTATE rnd n) # ls, n'))"

fun pass_functions :: "(nat \<Rightarrow> nat) \<Rightarrow> nat \<Rightarrow> ir_function list \<Rightarrow> u32 option list list \<times> nat" where
  "pass_functions rnd n [] = ([], n)"
| "pass_functions rnd n (f # fs) =
     (if name_contains (fn_name f) ''sancov''
      then let (lss, n') = pass_functions rnd n fs
           in (map (\<lambda>_. None) (fn_blocks f) # lss, n')
      else let (ls, n1) = pass_blocks rnd n (fn_blocks f);
               (lss, n') = pass_functions rnd n1 fs
           in (ls # lss, n'))"

text \<open>Whether \<open>main\<close> gets the call of \<open>__lscov_main\<close>, the locations, and \<open>inst_blocks\<close>.\<close>

definition LSCovPass_run ::
    "(nat \<Rightarrow> nat) \<Rightarrow> ir_function list \<Rightarrow> bool \<times> u32 option list list \<times> nat" where
  "LSCovPass_run rnd M =
     (''main'' \<in> set (map fn_name M), pass_functions rnd 0 M)"

section \<open>The inserted code\<close>

text \<open>The store to the map: a counter with \<open>LSCOV_BUCKET\<close>, a mark without.\<close>

definition edge_store :: "bucketing option \<Rightarrow> u8 \<Rightarrow> u8" where
  "edge_store cfg c = (case cfg of Some _ \<Rightarrow> c + 1 | None \<Rightarrow> 1)"

record inst_state =
  area_ptr :: "u8 list"
  prev_loc :: u32

definition edge_index :: "u32 \<Rightarrow> u32 \<Rightarrow> nat" where
  "edge_index prev cur = unat (prev XOR cur)"

definition exec_block :: "bucketing option \<Rightarrow> u32 \<Rightarrow> inst_state \<Rightarrow> inst_state" where
  "exec_block cfg cur_loc s =
     (let i = edge_index (prev_loc s) cur_loc
      in s\<lparr>area_ptr := (area_ptr s)[i := edge_store cfg (area_ptr s ! i)],
           prev_loc := drop_bit 1 cur_loc\<rparr>)"

text \<open>The indices a sequence of instrumented blocks writes to.\<close>

fun edge_trace :: "u32 \<Rightarrow> u32 list \<Rightarrow> nat list" where
  "edge_trace prev [] = []"
| "edge_trace prev (c # cs) = edge_index prev c # edge_trace (drop_bit 1 c) cs"

section \<open>Lemmas\<close>

lemma LSTATE_SIZE_eq: "LSTATE_SIZE = 65536"
  by (simp add: LSTATE_SIZE_def LSTATE_SIZE_POW2_def)

lemma LSTATE_SIZE_pos: "0 < LSTATE_SIZE"
  by (simp add: LSTATE_SIZE_eq)

lemma unat_RANDOM_LSTATE: "unat (RANDOM_LSTATE rnd n) < LSTATE_SIZE"
proof -
  have "rnd n mod LSTATE_SIZE < LSTATE_SIZE" by (simp add: LSTATE_SIZE_eq)
  then show ?thesis
    by (simp add: RANDOM_LSTATE_def unat_of_nat LSTATE_SIZE_eq take_bit_nat_eq_self)
qed

lemma pass_blocks_bound:
  "Some c \<in> set (fst (pass_blocks rnd n ts)) \<Longrightarrow> unat c < LSTATE_SIZE"
  by (induction rnd n ts rule: pass_blocks.induct)
    (auto split: if_splits prod.splits simp: unat_RANDOM_LSTATE)

lemma pass_functions_bound:
  "ls \<in> set (fst (pass_functions rnd n M)) \<Longrightarrow> Some c \<in> set ls \<Longrightarrow> unat c < LSTATE_SIZE"
proof (induction rnd n M rule: pass_functions.induct)
  case (2 rnd n f fs)
  show ?case
  proof (cases "name_contains (fn_name f) ''sancov''")
    case True
    with 2 show ?thesis by (auto split: prod.splits)
  next
    case False
    obtain ls0 n1 where b: "pass_blocks rnd n (fn_blocks f) = (ls0, n1)" by fastforce
    obtain lss n2 where r: "pass_functions rnd n1 fs = (lss, n2)" by fastforce
    have "ls = ls0 \<or> ls \<in> set lss" using 2 False b r by auto
    then show ?thesis
      using 2 False b r pass_blocks_bound [of c rnd n "fn_blocks f"] by auto
  qed
qed simp

lemma bits_of_bounded:
  fixes w :: u32
  assumes "unat w < 2 ^ n" "bit w i"
  shows "i < n"
proof (rule ccontr)
  assume "\<not> i < n"
  then have "unat w div 2 ^ i = 0"
    using assms(1) by (simp add: less_le_trans power_increasing)
  moreover have "bit (unat w) i" using assms(2) by (simp add: bit_unsigned_iff)
  ultimately show False by (simp add: bit_iff_odd)
qed

lemma unat_xor_bound:
  fixes a b :: u32
  assumes "unat a < 2 ^ n" "unat b < 2 ^ n" "n \<le> 32"
  shows "unat (a XOR b) < 2 ^ n"
proof -
  have "a XOR b = take_bit n (a XOR b)"
  proof (rule bit_word_eqI)
    fix i
    have "bit a i \<Longrightarrow> i < n" "bit b i \<Longrightarrow> i < n"
      using bits_of_bounded assms(1,2) by blast+
    then show "bit (a XOR b) i = bit (take_bit n (a XOR b)) i"
      by (auto simp: bit_simps)
  qed
  then have "unat (a XOR b) = unat (take_bit n (a XOR b))" by (rule arg_cong)
  also have "\<dots> = take_bit n (unat (a XOR b))" by (rule unsigned_take_bit_eq)
  also have "\<dots> < 2 ^ n" by (rule take_bit_nat_less_exp)
  finally show ?thesis .
qed

lemma edge_index_bound:
  "unat p < LSTATE_SIZE \<Longrightarrow> unat c < LSTATE_SIZE \<Longrightarrow> edge_index p c < LSTATE_SIZE"
  unfolding edge_index_def LSTATE_SIZE_def LSTATE_SIZE_POW2_def by (rule unat_xor_bound) simp_all

lemma unat_shift1: "unat (drop_bit 1 (c :: u32)) = unat c div 2"
  by (simp add: drop_bit_eq_div unat_div)

lemma edge_trace_bound:
  "unat p < LSTATE_SIZE \<Longrightarrow> \<forall>c\<in>set cs. unat c < LSTATE_SIZE \<Longrightarrow>
   \<forall>i\<in>set (edge_trace p cs). i < LSTATE_SIZE"
proof (induction cs arbitrary: p)
  case (Cons c cs)
  have "unat (drop_bit 1 c) < LSTATE_SIZE"
  proof -
    have "unat c < LSTATE_SIZE" using Cons.prems(2) by simp
    then show ?thesis unfolding unat_shift1 by simp
  qed
  then have "\<forall>i\<in>set (edge_trace (drop_bit 1 c) cs). i < LSTATE_SIZE"
    by (rule Cons.IH) (use Cons.prems(2) in simp)
  moreover have "edge_index p c < LSTATE_SIZE"
    by (rule edge_index_bound) (use Cons.prems in simp_all)
  ultimately show ?case unfolding edge_trace.simps list.set by blast
qed simp

lemma exec_blocks_area:
  "area_ptr (fold (exec_block cfg) cs s) =
     fold (\<lambda>i a. a[i := edge_store cfg (a ! i)]) (edge_trace (prev_loc s) cs) (area_ptr s)"
  by (induction cs arbitrary: s) (simp_all add: exec_block_def Let_def)

lemma nth_edge_fold:
  "i < length a \<Longrightarrow> fold (\<lambda>i a. a[i := edge_store cfg (a ! i)]) js a ! i =
     (edge_store cfg ^^ count_list js i) (a ! i)"
proof (induction js arbitrary: a)
  case (Cons j js)
  then show ?case by (simp add: nth_list_update funpow_swap1)
qed simp

section \<open>Properties\<close>

text \<open>
  C33 The code the pass inserts stays inside the map: whatever sequence of
  instrumented blocks runs, every index is below \<open>LSTATE_SIZE\<close>, and the map ends
  up holding for each index the hits of exactly that index.
\<close>

theorem instrumented_run_in_bounds:
  assumes "LSCovPass_run rnd M = (m, lss, n)"
    and "\<forall>c\<in>set cs. \<exists>ls\<in>set lss. Some c \<in> set ls"
  shows "(\<forall>i\<in>set (edge_trace 0 cs). i < LSTATE_SIZE) \<and>
     (\<forall>i<LSTATE_SIZE. area_ptr (fold (exec_block cfg) cs \<lparr>area_ptr = replicate LSTATE_SIZE 0, prev_loc = 0\<rparr>) ! i =
        (edge_store cfg ^^ count_list (edge_trace 0 cs) i) 0)"
proof -
  have "lss = fst (pass_functions rnd 0 M)"
    using assms(1) by (auto simp: LSCovPass_run_def)
  then have "\<forall>c\<in>set cs. unat c < LSTATE_SIZE"
    using assms(2) pass_functions_bound by blast
  then have "\<forall>i\<in>set (edge_trace 0 cs). i < LSTATE_SIZE"
    by (intro edge_trace_bound) (simp_all add: LSTATE_SIZE_pos)
  then show ?thesis
    by (simp add: exec_blocks_area nth_edge_fold)
qed

definition example_module :: "ir_function list" where
  "example_module =
     [\<lparr>fn_name = ''main'', fn_blocks = [CondBranch, UncondBranch, OtherTerminator]\<rparr>,
      \<lparr>fn_name = ''sancov.module_ctor'', fn_blocks = [OtherTerminator]\<rparr>]"

theorem instrumented_run_in_bounds_witness:
  "LSCovPass_run (\<lambda>n. 5 * n) example_module = (True, [[Some 0, None, Some 5], [None]], 2) \<and>
   edge_trace 0 [0, 5] = [0, 5] \<and>
   area_ptr (fold (exec_block None) [0, 5] \<lparr>area_ptr = replicate LSTATE_SIZE 0, prev_loc = 0\<rparr>) ! 5 = 1"
proof -
  have r: "LSCovPass_run (\<lambda>n. 5 * n) example_module = (True, [[Some 0, None, Some 5], [None]], 2)"
    by (simp add: LSCovPass_run_def example_module_def RANDOM_LSTATE_def LSTATE_SIZE_eq)
  have "\<forall>c\<in>set [0, 5]. \<exists>ls\<in>set [[Some 0, None, Some 5], [None]]. Some c \<in> set ls" by simp
  then show ?thesis
    using r instrumented_run_in_bounds [OF r, of "[0, 5]" None]
    by (simp add: edge_index_def edge_store_def LSTATE_SIZE_eq)
qed

end
