(* ===== verification/Lscov_Protocol.thy ===== *)
theory Lscov_Protocol
  imports Lscov_Instr
begin

text \<open>
  The handshake between the instrumentation runtime
  (\<open>src/lscov/lscov-llvm-rt.a.c\<close>) and the daemon
  (\<open>src/lscov/lscov-daemon.c\<close>, \<open>hcount_*\<close>, \<open>lscov_wait\<close> and the
  synchronising part of \<open>lscov_loop\<close>).  The two run concurrently on a shared
  memory segment \<open>area\<close> and two semaphores.  One step of either process is one
  access to shared state, so every interleaving of the source's accesses is an
  interleaving of steps; \<open>memset\<close> and the copy of the hit counts are one step
  each, which is justified by the mutual exclusion proved below.

  \<open>rt_step\<close> and \<open>dm_step\<close> are the next step of the runtime and of the daemon,
  \<open>None\<close> where the process is blocked or has no code to run.  The environment
  starts executions, runs instrumented blocks, and ends executions normally or
  by a crash.  The fields \<open>trace\<close>, \<open>execs\<close> and \<open>reads\<close> are history
  variables: the edges of the current execution, the edges of all ended
  executions, and every logic state the daemon copied with the edges it stands for.
\<close>

section \<open>Program points and state\<close>

datatype rt_pc =
    R_Ctor            \<comment> \<open>\<open>__lscov_init\<close>, attached, before the mark 0x80\<close>
  | R_Idle            \<comment> \<open>no execution is running\<close>
  | R_Main            \<comment> \<open>\<open>__lscov_main\<close>, before the test of the first byte\<close>
  | R_End1 bool       \<comment> \<open>\<open>__lscov_end_exec\<close>, before the mark (called from \<open>__lscov_main\<close>?)\<close>
  | R_End2 bool       \<comment> \<open>before \<open>sem_getvalue\<close>\<close>
  | R_End3 bool       \<comment> \<open>before \<open>sem_post\<close>\<close>
  | R_Check           \<comment> \<open>\<open>__lscov_main\<close>, sanity check of \<open>sema_dr\<close>\<close>
  | R_Start1          \<comment> \<open>\<open>__lscov_start_exec\<close>, before the mark 0x81\<close>
  | R_Start2          \<comment> \<open>before \<open>sem_wait\<close>\<close>
  | R_Start3          \<comment> \<open>before \<open>memset\<close>\<close>
  | R_Sanity          \<comment> \<open>\<open>__lscov_main\<close>, check for tainted hit counts\<close>
  | R_Run             \<comment> \<open>the instrumented program\<close>
  | R_Abort

datatype dm_pc =
    D_Wait            \<comment> \<open>\<open>lscov_wait\<close>\<close>
  | D_Check           \<comment> \<open>\<open>hcount_wait_until_ready\<close>, \<open>sem_getvalue\<close>\<close>
  | D_SemWait         \<comment> \<open>\<open>sem_wait\<close>\<close>
  | D_Copy            \<comment> \<open>\<open>hcount_bucket_to_lstate\<close>\<close>
  | D_GetDr           \<comment> \<open>\<open>hcount_mark_read\<close>, \<open>sem_getvalue\<close>\<close>
  | D_Post            \<comment> \<open>\<open>sem_post\<close>\<close>
  | D_Update          \<comment> \<open>filter update and report, local to the daemon\<close>
  | D_Abort

record hs =
  area :: "u8 list"
  sema_rd :: nat
  sema_dr :: nat
  rt :: rt_pc
  dm :: dm_pc
  trace :: "nat list"
  execs :: "nat list list"
  reads :: "(u8 list \<times> nat list) list"

section \<open>Initialisation\<close>

text \<open>
  \<open>hcount_init\<close>: the arguments are the results of \<open>shmget\<close>, \<open>shmat\<close> and the
  two \<open>sem_open\<close> calls; the result is the zeroed area and the semaphores' values.
\<close>

definition hcount_init :: "int \<Rightarrow> int \<Rightarrow> int \<Rightarrow> int \<Rightarrow> lscov_error + (u8 list \<times> nat \<times> nat)" where
  "hcount_init shm_id shm_ptr sem_rd_ptr sem_dr_ptr =
     (if shm_id < 0 then Inl (PFATAL ''shmget() for hit_count failed'')
      else if shm_ptr = -1 then Inl (PFATAL ''shmat() for hit_count failed'')
      else if sem_rd_ptr = -1 then Inl (PFATAL ''sem_open() for sema_rd failed'')
      else if sem_dr_ptr = -1 then Inl (PFATAL ''sem_open() for sema_dr failed'')
      else Inr (replicate LSTATE_SIZE 0, 0, 1))"

text \<open>
  \<open>__lscov_init\<close>: whether the runtime attached to the segment.  An attached
  runtime goes on with the step of \<open>R_Ctor\<close>.
\<close>

definition lscov_init :: "int \<Rightarrow> int \<Rightarrow> int \<Rightarrow> int \<Rightarrow> lscov_error + bool" where
  "lscov_init shm_id shm_ptr sem_rd_ptr sem_dr_ptr =
     (if shm_id \<ge> 0
      then if shm_ptr = -1 then Inl (PFATAL ''shmat() for hit_count failed'')
           else if sem_rd_ptr = -1 then Inl (PFATAL ''sem_open() for sema_rd failed'')
           else if sem_dr_ptr = -1 then Inl (PFATAL ''sem_open() for sema_dr failed'')
           else Inr True
      else Inr False)"

definition hs_init :: hs where
  "hs_init = \<lparr>area = replicate LSTATE_SIZE 0, sema_rd = 0, sema_dr = 1, rt = R_Ctor, dm = D_Wait,
     trace = [], execs = [], reads = []\<rparr>"

section \<open>The runtime\<close>

text \<open>The loop over every 64th byte of the area.\<close>

definition test_hc :: "u8 list \<Rightarrow> u8" where
  "test_hc a = fold (\<lambda>i acc. acc OR a ! (i * 64)) [1..<LSTATE_SIZE div 64] 0"

definition after_end_exec :: "bool \<Rightarrow> rt_pc" where
  "after_end_exec from_main = (if from_main then R_Check else R_Idle)"

definition rt_step :: "hs \<Rightarrow> hs option" where
  "rt_step s = (case rt s of
     R_Ctor \<Rightarrow> Some (s\<lparr>area := (area s)[0 := 0x80], rt := R_Idle\<rparr>)
   | R_Idle \<Rightarrow> None
   | R_Main \<Rightarrow> Some (s\<lparr>rt := (if area s ! 0 > 0x80 then R_End1 True else R_Check)\<rparr>)
   | R_End1 m \<Rightarrow> Some (s\<lparr>area := (area s)[0 := 0x80], rt := R_End2 m\<rparr>)
   | R_End2 m \<Rightarrow> Some (s\<lparr>rt := (if sema_rd s = 0 then R_End3 m else after_end_exec m)\<rparr>)
   | R_End3 m \<Rightarrow> Some (s\<lparr>sema_rd := Suc (sema_rd s), rt := after_end_exec m\<rparr>)
   | R_Check \<Rightarrow> Some (s\<lparr>rt := (if sema_dr s > 1 then R_Abort else R_Start1)\<rparr>)
   | R_Start1 \<Rightarrow> Some (s\<lparr>area := (area s)[0 := 0x81], rt := R_Start2\<rparr>)
   | R_Start2 \<Rightarrow> (if sema_dr s = 0 then None
                 else Some (s\<lparr>sema_dr := sema_dr s - 1, rt := R_Start3\<rparr>))
   | R_Start3 \<Rightarrow> Some (s\<lparr>area := take 1 (area s) @ replicate (LSTATE_SIZE - 1) 0,
                       trace := [], rt := R_Sanity\<rparr>)
   | R_Sanity \<Rightarrow> Some (s\<lparr>rt := (if test_hc (area s) \<noteq> 0 then R_Abort else R_Run)\<rparr>)
   | R_Run \<Rightarrow> None
   | R_Abort \<Rightarrow> None)"

section \<open>The daemon\<close>

definition dm_step :: "bucketing option \<Rightarrow> hs \<Rightarrow> hs option" where
  "dm_step cfg s = (case dm s of
     D_Wait \<Rightarrow> (if area s ! 0 = 0x80 then Some (s\<lparr>dm := D_Check\<rparr>) else None)
   | D_Check \<Rightarrow> Some (s\<lparr>dm := (if sema_rd s > 1 then D_Abort else D_SemWait)\<rparr>)
   | D_SemWait \<Rightarrow> (if sema_rd s = 0 then None
                  else Some (s\<lparr>sema_rd := sema_rd s - 1, dm := D_Copy\<rparr>))
   | D_Copy \<Rightarrow> Some (s\<lparr>reads := reads s @ [(hcount_bucket_to_lstate cfg (area s), trace s)],
                     dm := D_GetDr\<rparr>)
   | D_GetDr \<Rightarrow> Some (s\<lparr>dm := (if sema_dr s = 0 then D_Post else D_Update)\<rparr>)
   | D_Post \<Rightarrow> Some (s\<lparr>sema_dr := Suc (sema_dr s), dm := D_Update\<rparr>)
   | D_Update \<Rightarrow> Some (s\<lparr>dm := D_Check\<rparr>)
   | D_Abort \<Rightarrow> None)"

section \<open>The system\<close>

text \<open>
  Behaviours of the environment the comments of the source rule out: an edge
  whose map index is 0, a process killed outside the instrumented program, and
  the constructor \<open>__lscov_init\<close> running again for every execution (no fork
  server).  The step relation allows those in the set \<open>F\<close>.
\<close>

datatype fault = ZeroEdge | KillAnywhere | CtorEachExec

inductive hs_step :: "fault set \<Rightarrow> bucketing option \<Rightarrow> hs \<Rightarrow> hs \<Rightarrow> bool" where
  runtime: "rt_step s = Some s' \<Longrightarrow> hs_step F cfg s s'"
| daemon: "dm_step cfg s = Some s' \<Longrightarrow> hs_step F cfg s s'"
| exec: "rt s = R_Idle \<Longrightarrow> hs_step F cfg s (s\<lparr>rt := R_Main\<rparr>)"
| edge: "rt s = R_Run \<Longrightarrow> i < LSTATE_SIZE \<Longrightarrow> 0 < i \<or> ZeroEdge \<in> F \<Longrightarrow>
     hs_step F cfg s (s\<lparr>area := (area s)[i := edge_store cfg (area s ! i)], trace := trace s @ [i]\<rparr>)"
| exit: "rt s = R_Run \<Longrightarrow> hs_step F cfg s (s\<lparr>rt := R_End1 False, execs := execs s @ [trace s]\<rparr>)"
| crash: "rt s = R_Run \<Longrightarrow> hs_step F cfg s (s\<lparr>rt := R_Idle, execs := execs s @ [trace s]\<rparr>)"
| kill: "KillAnywhere \<in> F \<Longrightarrow> rt s \<noteq> R_Ctor \<Longrightarrow> rt s \<noteq> R_Abort \<Longrightarrow>
     hs_step F cfg s (s\<lparr>rt := R_Idle\<rparr>)"
| ctor: "CtorEachExec \<in> F \<Longrightarrow> rt s = R_Idle \<Longrightarrow>
     hs_step F cfg s (s\<lparr>area := (area s)[0 := 0x80], rt := R_Main\<rparr>)"

inductive hs_reach :: "fault set \<Rightarrow> bucketing option \<Rightarrow> hs \<Rightarrow> bool" for F cfg where
  init: "hs_reach F cfg hs_init"
| step: "hs_reach F cfg s \<Longrightarrow> hs_step F cfg s s' \<Longrightarrow> hs_reach F cfg s'"

section \<open>Invariant\<close>

text \<open>
  There is one token.  The runtime holds it from \<open>sem_wait(sema_dr)\<close> to
  \<open>sem_post(sema_rd)\<close>, also through a crash, when the mark 0x81 stays behind in
  the first byte; the daemon holds it from \<open>sem_wait(sema_rd)\<close> to
  \<open>sem_post(sema_dr)\<close>; otherwise one of the semaphores has it.
\<close>

fun rt_holds :: "rt_pc \<Rightarrow> u8 \<Rightarrow> bool" where
  "rt_holds R_Idle b \<longleftrightarrow> b = 0x81"
| "rt_holds R_Main b \<longleftrightarrow> b = 0x81"
| "rt_holds (R_End1 m) b \<longleftrightarrow> True"
| "rt_holds (R_End2 m) b \<longleftrightarrow> True"
| "rt_holds (R_End3 m) b \<longleftrightarrow> True"
| "rt_holds R_Start3 b \<longleftrightarrow> True"
| "rt_holds R_Sanity b \<longleftrightarrow> True"
| "rt_holds R_Run b \<longleftrightarrow> True"
| "rt_holds _ b \<longleftrightarrow> False"

fun dm_holds :: "dm_pc \<Rightarrow> bool" where
  "dm_holds D_Copy \<longleftrightarrow> True"
| "dm_holds D_GetDr \<longleftrightarrow> True"
| "dm_holds D_Post \<longleftrightarrow> True"
| "dm_holds _ \<longleftrightarrow> False"

text \<open>The current execution has ended and its hit counts were not read yet.\<close>

fun rt_pending :: "rt_pc \<Rightarrow> u8 \<Rightarrow> bool" where
  "rt_pending R_Idle b \<longleftrightarrow> b = 0x81"
| "rt_pending R_Main b \<longleftrightarrow> b = 0x81"
| "rt_pending (R_End1 m) b \<longleftrightarrow> True"
| "rt_pending (R_End2 m) b \<longleftrightarrow> True"
| "rt_pending (R_End3 m) b \<longleftrightarrow> True"
| "rt_pending _ b \<longleftrightarrow> False"

definition pending :: "hs \<Rightarrow> bool" where
  "pending s \<longleftrightarrow> sema_rd s = 1 \<or> dm s = D_Copy \<or> rt_pending (rt s) (area s ! 0)"

text \<open>The first byte at each program point.\<close>

fun mark_ok :: "rt_pc \<Rightarrow> u8 \<Rightarrow> bool" where
  "mark_ok R_Ctor b \<longleftrightarrow> b = 0"
| "mark_ok R_Idle b \<longleftrightarrow> b = 0x80 \<or> b = 0x81"
| "mark_ok R_Main b \<longleftrightarrow> b = 0x80 \<or> b = 0x81"
| "mark_ok (R_End1 m) b \<longleftrightarrow> b = 0x81"
| "mark_ok (R_End2 m) b \<longleftrightarrow> b = 0x80"
| "mark_ok (R_End3 m) b \<longleftrightarrow> b = 0x80"
| "mark_ok R_Check b \<longleftrightarrow> b = 0x80"
| "mark_ok R_Start1 b \<longleftrightarrow> b = 0x80"
| "mark_ok R_Abort b \<longleftrightarrow> False"
| "mark_ok _ b \<longleftrightarrow> b = 0x81"

definition hit_value :: "bucketing option \<Rightarrow> nat list \<Rightarrow> nat \<Rightarrow> u8" where
  "hit_value cfg tr i = (edge_store cfg ^^ count_list tr i) 0"

definition area_ok :: "bucketing option \<Rightarrow> hs \<Rightarrow> bool" where
  "area_ok cfg s \<longleftrightarrow> length (area s) = LSTATE_SIZE \<and>
     (\<forall>i. 0 < i \<and> i < LSTATE_SIZE \<longrightarrow> area s ! i = hit_value cfg (trace s) i)"

definition hs_inv :: "bucketing option \<Rightarrow> hs \<Rightarrow> bool" where
  "hs_inv cfg s \<longleftrightarrow>
     of_bool (rt_holds (rt s) (area s ! 0)) + of_bool (dm_holds (dm s)) + sema_rd s + sema_dr s = 1 \<and>
     mark_ok (rt s) (area s ! 0) \<and> dm s \<noteq> D_Abort \<and>
     execs s = map snd (reads s) @ (if pending s then [trace s] else []) \<and>
     (rt s = R_Sanity \<longrightarrow> trace s = []) \<and> (rt s = R_Ctor \<longrightarrow> sema_dr s = 1)"

lemmas hs_defs = hs_inv_def pending_def

section \<open>Preservation\<close>

lemma fold_or_eq_0:
  fixes f :: "'i \<Rightarrow> u8"
  shows "fold (\<lambda>i acc. acc OR f i) js a = 0 \<longleftrightarrow> a = 0 \<and> (\<forall>i\<in>set js. f i = 0)"
proof (induction js arbitrary: a)
  case (Cons i js)
  have "a OR f i = 0 \<longleftrightarrow> a = 0 \<and> f i = 0"
    by (auto simp: bit_eq_iff bit_simps)
  then show ?case using Cons by auto
qed simp

lemma test_hc_clean:
  "area_ok cfg s \<Longrightarrow> trace s = [] \<Longrightarrow> test_hc (area s) = 0"
  by (auto simp: test_hc_def fold_or_eq_0 area_ok_def hit_value_def LSTATE_SIZE_eq)

lemma hit_value_snoc:
  "hit_value cfg (tr @ [i]) j = (if i = j then edge_store cfg (hit_value cfg tr j) else hit_value cfg tr j)"
  by (simp add: hit_value_def)

lemma area_ok_mark: "area_ok cfg s \<Longrightarrow> area_ok cfg (s\<lparr>area := (area s)[0 := b], rt := p\<rparr>)"
  by (simp add: area_ok_def)

lemma rt_step_area:
  assumes "rt_step s = Some s'" "area_ok cfg s"
  shows "area_ok cfg s'"
  using assms
  by (auto simp: rt_step_def area_ok_def hit_value_def LSTATE_SIZE_eq nth_append
      split: rt_pc.splits if_splits)

lemma dm_step_area:
  assumes "dm_step cfg s = Some s'" "area_ok cfg s"
  shows "area_ok cfg s'"
  using assms by (auto simp: dm_step_def area_ok_def split: dm_pc.splits if_splits)

lemma area_ok_step: "hs_step F cfg s s' \<Longrightarrow> area_ok cfg s \<Longrightarrow> area_ok cfg s'"
proof (induction rule: hs_step.induct)
  case (runtime s s' F cfg)
  then show ?case using rt_step_area by blast
next
  case (daemon cfg s s' F)
  then show ?case using dm_step_area by blast
qed (auto simp: area_ok_def hit_value_snoc nth_list_update)

lemma rt_step_inv:
  assumes "rt_step s \<noteq> None" "area_ok cfg s" "hs_inv cfg s"
  shows "hs_inv cfg (the (rt_step s))"
proof -
  have "area s \<noteq> []" using assms(2) by (auto simp: area_ok_def LSTATE_SIZE_eq)
  then show ?thesis
    using assms(1,3) test_hc_clean [OF assms(2)]
    by (cases "rt s"; cases "dm s")
      (auto simp: rt_step_def hs_defs after_end_exec_def nth_append split: if_splits)
qed

lemma dm_step_inv:
  assumes "dm_step cfg s \<noteq> None" "hs_inv cfg s"
  shows "hs_inv cfg (the (dm_step cfg s))"
  using assms by (cases "dm s"; cases "rt s") (auto simp: dm_step_def hs_defs split: if_splits)

lemma hs_inv_step: "hs_step F cfg s s' \<Longrightarrow> F = {} \<Longrightarrow> area_ok cfg s \<Longrightarrow> hs_inv cfg s \<Longrightarrow> hs_inv cfg s'"
proof (induction rule: hs_step.induct)
  case (runtime s s' F cfg)
  then show ?case using rt_step_inv [of s cfg] by simp
next
  case (daemon cfg s s' F)
  then show ?case using dm_step_inv [of cfg s] by simp
qed (auto simp: hs_defs)

lemma hs_reach_area: "hs_reach F cfg s \<Longrightarrow> area_ok cfg s"
proof (induction rule: hs_reach.induct)
  case init
  show ?case by (simp add: hs_init_def area_ok_def hit_value_def)
next
  case (step s s')
  then show ?case using area_ok_step by blast
qed

lemma hs_reach_inv: "hs_reach {} cfg s \<Longrightarrow> hs_inv cfg s"
proof (induction rule: hs_reach.induct)
  case init
  show ?case by (simp add: hs_init_def hs_defs LSTATE_SIZE_eq)
next
  case (step s s')
  then show ?case using hs_inv_step hs_reach_area by blast
qed

section \<open>What the daemon reads\<close>

definition reads_ok :: "bucketing option \<Rightarrow> hs \<Rightarrow> bool" where
  "reads_ok cfg s \<longleftrightarrow> (\<forall>(l, tr)\<in>set (reads s). \<exists>b\<in>{0x80, 0x81}.
     l = hcount_bucket_to_lstate cfg (b # map (hit_value cfg tr) [1..<LSTATE_SIZE]))"

lemma area_decomp:
  assumes "area_ok cfg s"
  shows "area s = area s ! 0 # map (hit_value cfg (trace s)) [1..<LSTATE_SIZE]"
proof (rule nth_equalityI)
  show "length (area s) = length (area s ! 0 # map (hit_value cfg (trace s)) [1..<LSTATE_SIZE])"
    using assms by (simp add: area_ok_def LSTATE_SIZE_eq)
  fix i assume "i < length (area s)"
  then show "area s ! i = (area s ! 0 # map (hit_value cfg (trace s)) [1..<LSTATE_SIZE]) ! i"
    using assms by (cases i) (auto simp: area_ok_def simp del: upt_Suc)
qed

lemma copy_mark: "hs_inv cfg s \<Longrightarrow> dm s = D_Copy \<Longrightarrow> area s ! 0 = 0x80 \<or> area s ! 0 = 0x81"
  by (cases "rt s") (auto simp: hs_inv_def)

lemma rt_step_reads: "rt_step s = Some s' \<Longrightarrow> reads s' = reads s"
  by (auto simp: rt_step_def split: rt_pc.splits if_splits)

lemma dm_step_reads:
  assumes "dm_step cfg s = Some s'" "area_ok cfg s" "hs_inv cfg s" "reads_ok cfg s"
  shows "reads_ok cfg s'"
proof (cases "dm s = D_Copy")
  case True
  then have "reads s' = reads s @ [(hcount_bucket_to_lstate cfg (area s), trace s)]"
    using assms(1) by (auto simp: dm_step_def)
  moreover have "\<exists>b\<in>{0x80, 0x81}. area s = b # map (hit_value cfg (trace s)) [1..<LSTATE_SIZE]"
    using area_decomp [OF assms(2)] copy_mark [OF assms(3) True] by auto
  ultimately show ?thesis
    using assms(4) unfolding reads_ok_def by (metis (mono_tags, lifting) Un_iff case_prod_conv
        empty_iff insert_iff list.set(1) list.set(2) set_append case_prodI2 case_prodD)
next
  case False
  then have "reads s' = reads s"
    using assms(1) by (auto simp: dm_step_def split: dm_pc.splits if_splits)
  then show ?thesis using assms(4) by (simp add: reads_ok_def)
qed

lemma reads_ok_step:
  "hs_step F cfg s s' \<Longrightarrow> area_ok cfg s \<Longrightarrow> hs_inv cfg s \<Longrightarrow> reads_ok cfg s \<Longrightarrow> reads_ok cfg s'"
proof (induction rule: hs_step.induct)
  case (runtime s s' F cfg)
  then show ?case using rt_step_reads [of s s'] by (simp add: reads_ok_def)
next
  case (daemon cfg s s' F)
  then show ?case using dm_step_reads by blast
qed (simp_all add: reads_ok_def)

lemma hs_reach_reads: "hs_reach {} cfg s \<Longrightarrow> reads_ok cfg s"
proof (induction rule: hs_reach.induct)
  case init
  show ?case by (simp add: hs_init_def reads_ok_def)
next
  case (step s s')
  then show ?case using reads_ok_step hs_reach_area hs_reach_inv by blast
qed

section \<open>Progress\<close>

fun dm_steps :: "bucketing option \<Rightarrow> nat \<Rightarrow> hs \<Rightarrow> hs option" where
  "dm_steps cfg 0 s = Some s"
| "dm_steps cfg (Suc n) s = (case dm_step cfg s of None \<Rightarrow> None | Some s' \<Rightarrow> dm_steps cfg n s')"

definition dm_distance :: "dm_pc \<Rightarrow> nat" where
  "dm_distance p = (case p of D_Update \<Rightarrow> 6 | D_Check \<Rightarrow> 5 | D_SemWait \<Rightarrow> 4 | D_Copy \<Rightarrow> 3
     | D_GetDr \<Rightarrow> 2 | D_Post \<Rightarrow> 1 | _ \<Rightarrow> 0)"

lemma dm_step_unblocks:
  assumes "hs_inv cfg s" "rt s = R_Start2" "sema_dr s = 0" "dm s \<noteq> D_Wait"
  shows "\<exists>s'. dm_step cfg s = Some s' \<and> hs_inv cfg s' \<and> rt s' = R_Start2 \<and>
     (0 < sema_dr s' \<or> sema_dr s' = 0 \<and> dm s' \<noteq> D_Wait \<and> dm_distance (dm s) = Suc (dm_distance (dm s')))"
proof -
  have "dm_step cfg s \<noteq> None"
    using assms by (cases "dm s") (auto simp: dm_step_def hs_inv_def)
  then obtain s' where s': "dm_step cfg s = Some s'" by blast
  have "hs_inv cfg s'" using dm_step_inv [of cfg s] assms(1) s' by simp
  then show ?thesis
    using s' assms
    by (cases "dm s") (auto simp: dm_step_def hs_inv_def dm_distance_def split: if_splits)
qed

lemma dm_steps_unblock:
  assumes "hs_inv cfg s" "rt s = R_Start2" "sema_dr s = 0" "dm s \<noteq> D_Wait"
  shows "\<exists>n\<le>dm_distance (dm s). \<exists>s'. dm_steps cfg n s = Some s' \<and> rt s' = R_Start2 \<and> 0 < sema_dr s'"
  using assms
proof (induction "dm_distance (dm s)" arbitrary: s)
  case 0
  then show ?case by (cases "dm s") (auto simp: dm_distance_def hs_inv_def)
next
  case (Suc d)
  obtain s1 where s1: "dm_step cfg s = Some s1" "hs_inv cfg s1" "rt s1 = R_Start2"
      "0 < sema_dr s1 \<or> sema_dr s1 = 0 \<and> dm s1 \<noteq> D_Wait \<and> dm_distance (dm s) = Suc (dm_distance (dm s1))"
    using dm_step_unblocks [OF Suc.prems] by blast
  show ?case
  proof (cases "0 < sema_dr s1")
    case True
    then have "dm_steps cfg 1 s = Some s1" using s1(1) by simp
    moreover have "1 \<le> dm_distance (dm s)" using Suc.hyps(2) by linarith
    ultimately show ?thesis using True s1(3) by blast
  next
    case False
    then obtain n s' where n: "n \<le> dm_distance (dm s1)" "dm_steps cfg n s1 = Some s'"
        "rt s' = R_Start2" "0 < sema_dr s'"
      using Suc.hyps s1 by (metis Suc_inject)
    then have "dm_steps cfg (Suc n) s = Some s'" using s1(1) by simp
    moreover have "Suc n \<le> dm_distance (dm s)" using n(1) s1(4) False by simp
    ultimately show ?thesis using n(3,4) by blast
  qed
qed

lemma dm_distance_le: "dm_distance p \<le> 6"
  by (cases p) (simp_all add: dm_distance_def)

section \<open>Explicit schedules\<close>

text \<open>An interleaving as a list of actions, run by a function.\<close>

datatype act = RT | DM | EXEC | EDGE nat | EXIT | CRASH | KILL | CTOR

fun act_step :: "fault set \<Rightarrow> bucketing option \<Rightarrow> act \<Rightarrow> hs \<Rightarrow> hs option" where
  "act_step F cfg RT s = rt_step s"
| "act_step F cfg DM s = dm_step cfg s"
| "act_step F cfg EXEC s = (if rt s = R_Idle then Some (s\<lparr>rt := R_Main\<rparr>) else None)"
| "act_step F cfg (EDGE i) s =
     (if rt s = R_Run \<and> i < LSTATE_SIZE \<and> (0 < i \<or> ZeroEdge \<in> F)
      then Some (s\<lparr>area := (area s)[i := edge_store cfg (area s ! i)], trace := trace s @ [i]\<rparr>) else None)"
| "act_step F cfg EXIT s =
     (if rt s = R_Run then Some (s\<lparr>rt := R_End1 False, execs := execs s @ [trace s]\<rparr>) else None)"
| "act_step F cfg CRASH s =
     (if rt s = R_Run then Some (s\<lparr>rt := R_Idle, execs := execs s @ [trace s]\<rparr>) else None)"
| "act_step F cfg KILL s =
     (if KillAnywhere \<in> F \<and> rt s \<noteq> R_Ctor \<and> rt s \<noteq> R_Abort then Some (s\<lparr>rt := R_Idle\<rparr>) else None)"
| "act_step F cfg CTOR s =
     (if CtorEachExec \<in> F \<and> rt s = R_Idle
      then Some (s\<lparr>area := (area s)[0 := 0x80], rt := R_Main\<rparr>) else None)"

fun run_acts :: "fault set \<Rightarrow> bucketing option \<Rightarrow> act list \<Rightarrow> hs \<Rightarrow> hs option" where
  "run_acts F cfg [] s = Some s"
| "run_acts F cfg (a # as) s = (case act_step F cfg a s of None \<Rightarrow> None | Some s' \<Rightarrow> run_acts F cfg as s')"

lemma act_step_sound: "act_step F cfg a s = Some s' \<Longrightarrow> hs_step F cfg s s'"
  by (cases a) (auto intro: hs_step.intros split: if_splits)

lemma run_acts_reach: "hs_reach F cfg s \<Longrightarrow> run_acts F cfg as s = Some s' \<Longrightarrow> hs_reach F cfg s'"
  by (induction as arbitrary: s) (auto split: option.splits dest: act_step_sound intro: hs_reach.step)

lemma hs_init_eq:
  "hs_init = \<lparr>area = 0 # replicate (LSTATE_SIZE - Suc 0) 0, sema_rd = 0, sema_dr = 1,
     rt = R_Ctor, dm = D_Wait, trace = [], execs = [], reads = []\<rparr>"
  by (simp add: hs_init_def LSTATE_SIZE_eq flip: replicate_Suc)

lemma test_hc_fresh: "test_hc (b # replicate (LSTATE_SIZE - Suc 0) 0) = 0"
  by (auto simp: test_hc_def fold_or_eq_0 LSTATE_SIZE_eq nth_Cons')

lemma lstate_fresh:
  "hcount_bucket_to_lstate None (b # replicate (LSTATE_SIZE - Suc 0) 0) =
     b # replicate (LSTATE_SIZE - Suc 0) 0"
  by (simp add: hcount_bucket_to_lstate_def LSTATE_SIZE_eq)

text \<open>
  Fragments of schedules: the constructor and a first execution up to the
  instrumented program, its regular end, the entry of the next execution up to
  \<open>sem_wait\<close>, its start, and one iteration of the daemon.
\<close>

definition boot :: "act list" where
  "boot = [RT, EXEC, RT, RT, RT, RT, RT, RT]"

definition finish :: "act list" where
  "finish = [EXIT, RT, RT, RT]"

definition enter :: "act list" where
  "enter = [EXEC, RT, RT, RT]"

definition start :: "act list" where
  "start = [RT, RT, RT]"

definition dm_iteration :: "act list" where
  "dm_iteration = [DM, DM, DM, DM, DM, DM]"

lemmas schedule_defs = boot_def finish_def enter_def start_def dm_iteration_def

lemmas schedule_simps = schedule_defs hs_init_eq rt_step_def dm_step_def after_end_exec_def
  test_hc_fresh lstate_fresh edge_store_def

lemma blocked_deadlock:
  assumes "rt s = R_Start2" "sema_dr s = 0" "dm_step cfg s = None" "KillAnywhere \<notin> F"
  shows "\<not> hs_step F cfg s s'"
  using assms by (auto simp: rt_step_def elim!: hs_step.cases)

lemma two_reads_reach:
  "hs_reach {} None \<lparr>area = 0x81 # replicate (LSTATE_SIZE - Suc 0) 0, sema_rd = 0, sema_dr = 0,
     rt = R_Start2, dm = D_GetDr, trace = [], execs = [[], []],
     reads = [(0x80 # replicate (LSTATE_SIZE - Suc 0) 0, []),
              (0x81 # replicate (LSTATE_SIZE - Suc 0) 0, [])]\<rparr>"
  by (rule run_acts_reach [OF hs_reach.init,
        of _ _ "boot @ finish @ [DM] @ dm_iteration @ enter @ start @ finish @ enter @ [DM, DM, DM]"])
    (simp add: schedule_simps)

section \<open>Properties\<close>









text \<open>
  The start-up race: \<open>lscov_wait\<close> polls for the value 0x80, which the
  runtime shows only between two executions.  If the daemon misses the moments
  before the first and before the second execution, the runtime is blocked, the
  daemon polls forever, and no step of any kind is left.
\<close>

lemma hs_startup_race:
  "\<exists>s. hs_reach {} cfg s \<and> dm s = D_Wait \<and> rt s = R_Start2 \<and> (\<nexists>s'. hs_step {} cfg s s')"
proof -
  let ?s = "\<lparr>area = 0x81 # replicate (LSTATE_SIZE - Suc 0) 0, sema_rd = 1, sema_dr = 0,
     rt = R_Start2, dm = D_Wait, trace = [], execs = [[]], reads = []\<rparr> :: hs"
  have "hs_reach {} cfg ?s"
    by (rule run_acts_reach [OF hs_reach.init, of _ _ "boot @ finish @ enter"])
      (simp add: schedule_simps)
  moreover have "\<not> hs_step {} cfg ?s s'" for s'
    by (rule blocked_deadlock) (simp_all add: dm_step_def)
  ultimately show ?thesis by (intro exI [of _ ?s]) simp
qed

text \<open>
  C38 One logic state, two records: without \<open>LSCOV_BUCKET\<close> the copy includes
  the first byte, and the next execution may have stored 0x81 there before the
  daemon copies it.  Two executions with the same edges are then read as two
  different logic states.
\<close>

theorem hs_first_byte_race:
  "\<exists>s l l' tr. hs_reach {} None s \<and> reads s = [(l, tr), (l', tr)] \<and> l \<noteq> l'"
proof -
  have "(0x80 # replicate (LSTATE_SIZE - Suc 0) 0 :: u8 list) \<noteq> 0x81 # replicate (LSTATE_SIZE - Suc 0) 0"
    by simp
  then show ?thesis using two_reads_reach by (metis hs.select_convs(8))
qed

text \<open>
  The crash recovery relies on the mark in the first byte, but an edge may
  have map index 0 and overwrite it.  If that execution then crashes, the next
  one does not take over its turn and the system is stuck for good, with the
  daemon waiting in \<open>sem_wait\<close>.
\<close>

lemma hs_zero_edge_deadlock:
  "\<exists>s. hs_reach {ZeroEdge} None s \<and> dm s = D_SemWait \<and> rt s = R_Start2 \<and>
     (\<nexists>s'. hs_step {ZeroEdge} None s s')"
proof -
  let ?s = "\<lparr>area = 0x81 # replicate (LSTATE_SIZE - Suc 0) 0, sema_rd = 0, sema_dr = 0,
     rt = R_Start2, dm = D_SemWait, trace = [0], execs = [[0]], reads = []\<rparr> :: hs"
  have "hs_reach {ZeroEdge} None ?s"
    by (rule run_acts_reach [OF hs_reach.init,
          of _ _ "[RT, DM, DM, EXEC, RT, RT, RT] @ start @ [EDGE 0, CRASH] @ enter"])
      (simp add: schedule_simps LSTATE_SIZE_pos)
  moreover have "\<not> hs_step {ZeroEdge} None ?s s'" for s'
    by (rule blocked_deadlock) (simp_all add: dm_step_def)
  ultimately show ?thesis by (intro exI [of _ ?s]) simp
qed

text \<open>
  The recovery also needs the constructor to run once only: when
  \<open>__lscov_init\<close> runs again in the process after a crash, it replaces the mark by 0x80
  and the same deadlock is reached.
\<close>

lemma hs_ctor_deadlock:
  "\<exists>s. hs_reach {CtorEachExec} None s \<and> dm s = D_SemWait \<and> rt s = R_Start2 \<and>
     (\<nexists>s'. hs_step {CtorEachExec} None s s')"
proof -
  let ?s = "\<lparr>area = 0x81 # replicate (LSTATE_SIZE - Suc 0) 0, sema_rd = 0, sema_dr = 0,
     rt = R_Start2, dm = D_SemWait, trace = [], execs = [[]], reads = []\<rparr> :: hs"
  have "hs_reach {CtorEachExec} None ?s"
    by (rule run_acts_reach [OF hs_reach.init,
          of _ _ "[RT, DM, DM, EXEC, RT, RT, RT] @ start @ [CRASH, CTOR, RT, RT, RT]"])
      (simp add: schedule_simps)
  moreover have "\<not> hs_step {CtorEachExec} None ?s s'" for s'
    by (rule blocked_deadlock) (simp_all add: dm_step_def)
  ultimately show ?thesis by (intro exI [of _ ?s]) simp
qed

text \<open>
  C39 The handshake can deadlock at start-up, when the daemon misses the
  moments at which the first byte is 0x80, and after a crash, in two ways: an edge whose
  map index is 0 overwrites the mark in the first byte, or a constructor that runs again
  replaces it.  In each case a state is reachable in which the runtime waits for the
  daemon, the daemon waits for the runtime and no step is left.
\<close>

theorem hs_deadlocks:
  "(\<exists>s. hs_reach {} cfg s \<and> dm s = D_Wait \<and> rt s = R_Start2 \<and> (\<nexists>s'. hs_step {} cfg s s')) \<and>
   (\<exists>s. hs_reach {ZeroEdge} None s \<and> dm s = D_SemWait \<and> rt s = R_Start2 \<and> (\<nexists>s'. hs_step {ZeroEdge} None s s')) \<and>
   (\<exists>s. hs_reach {CtorEachExec} None s \<and> dm s = D_SemWait \<and> rt s = R_Start2 \<and>
      (\<nexists>s'. hs_step {CtorEachExec} None s s'))"
  using hs_startup_race hs_zero_edge_deadlock hs_ctor_deadlock by blast

end
