(* ===== verification/Lscov_Main.thy ===== *)
theory Lscov_Main
  imports Lscov_Tally Lscov_Protocol
begin

text \<open>
  The daemon's \<open>main\<close> (\<open>src/lscov/lscov-daemon.c\<close>): argument parsing and the
  initialisation sequence up to the entry of \<open>lscov_loop\<close>.  It ties the two
  halves of the development together: the state it builds satisfies the
  invariant the reports and the filter rely on (\<open>Lscov_Tally\<close>) and is the state
  the handshake starts from (\<open>Lscov_Protocol\<close>).
\<close>

section \<open>Argument parsing\<close>

text \<open>
  What \<open>getopt(argc, argv, "o:")\<close> returns, call by call: the option character
  with \<open>optarg\<close>.  The loop ends when \<open>getopt\<close> returns -1, here the end of the
  list; \<open>None\<close> is \<open>abort()\<close>.
\<close>

fun arg_parse :: "(char \<times> string) list \<Rightarrow> string \<Rightarrow> string option" where
  "arg_parse [] out_path = Some out_path"
| "arg_parse ((c, optarg) # cs) out_path =
     (if c = CHR ''o'' then arg_parse cs optarg
      else if c = CHR ''?'' then arg_parse cs out_path
      else None)"

section \<open>Start-up\<close>

text \<open>
  The results of the system calls the initialisation makes, in order: the
  arguments of \<open>hcount_init\<close>, whether the filter's \<open>mmap\<close> succeeded, and
  \<open>time(NULL)\<close> when the fuzzer has started.
\<close>

record sys_results =
  r_shmget :: int
  r_shmat :: int
  r_sem_rd :: int
  r_sem_dr :: int
  r_mmap :: bool
  r_time :: int

record started =
  s_out_path :: string
  s_header :: "string list"
  s_shared :: "u8 list \<times> nat \<times> nat"
  s_daemon :: daemon

definition default_out_path :: string where
  "default_out_path = ''lscov.csv''"

definition daemon_globals :: "bfilter_state \<Rightarrow> tally \<Rightarrow> daemon" where
  "daemon_globals f t = \<lparr>d_filter = f, d_tally = t, d_divisor = None, error_percent = 0, prev_cov = 0,
     exec_count = 0, exec_count_in_period = 0, stop_soon = False, d_out = []\<rparr>"

text \<open>
  \<open>main\<close> up to \<open>lscov_loop\<close>; the outer \<open>None\<close> is \<open>abort()\<close> in the argument
  parser.  The busy wait \<open>lscov_wait\<close> between \<open>bfilter_init\<close> and \<open>tally_init\<close>
  is the step \<open>D_Wait\<close> of the handshake.
\<close>

definition lscov_main :: "(char \<times> string) list \<Rightarrow> sys_results \<Rightarrow> (lscov_error + started) option" where
  "lscov_main opts r =
     (case arg_parse opts default_out_path of
        None \<Rightarrow> None
      | Some out_path \<Rightarrow> Some (
          let header = out_init 0
          in case hcount_init (r_shmget r) (r_shmat r) (r_sem_rd r) (r_sem_dr r) of
               Inl e \<Rightarrow> Inl e
             | Inr shared \<Rightarrow>
                 (case bfilter_init (r_mmap r) bfilter_globals of
                    Inl e \<Rightarrow> Inl e
                  | Inr f \<Rightarrow> Inr \<lparr>s_out_path = out_path, s_header = header, s_shared = shared,
                      s_daemon = daemon_globals f (tally_init (r_time r) tally_zero)\<rparr>)))"

lemma arg_parse_defined:
  "\<forall>(c, _) \<in> set opts. c = CHR ''o'' \<or> c = CHR ''?'' \<Longrightarrow> \<exists>p. arg_parse opts out_path = Some p"
  by (induction opts out_path rule: arg_parse.induct) auto

lemma lscov_mainE:
  assumes "lscov_main opts r = Some (Inr st)"
  obtains f where "bfilter_init (r_mmap r) bfilter_globals = Inr f"
    "s_daemon st = daemon_globals f (tally_init (r_time r) tally_zero)"
    "s_shared st = (area hs_init, sema_rd hs_init, sema_dr hs_init)"
    "s_header st = out_init 0"
  using assms
  by (auto simp: lscov_main_def Let_def hcount_init_def hs_init_def split: option.splits sum.splits if_splits)

lemma daemon_globals_inv:
  assumes "bfilter_init ok bfilter_globals = Inr f"
  shows "daemon_inv 0x20000000 4 (daemon_globals f t) \<and> bit_ones (bfilter f) = {}"
proof -
  have ok: "bfilter_init True bfilter_globals = Inr f"
    using assms by (auto simp: bfilter_init_def Let_def split: if_splits)
  have "bfilter_ready 0x20000000 4 f \<and> bit_ones (bfilter f) = {}"
    using bfilter_init_ready [OF ok] by (simp add: bfilter_globals_def)
  then show ?thesis
    by (simp add: daemon_inv_def daemon_globals_def bfilter_expected_def)
qed

section \<open>Properties\<close>


definition example_sys :: sys_results where
  "example_sys = \<lparr>r_shmget = 7, r_shmat = 4096, r_sem_rd = 8192, r_sem_dr = 8224, r_mmap = True,
     r_time = 1700000000\<rparr>"


text \<open>
  C1 What the whole program measures: after start-up and any run of the loop with
  its report threads, the filter holds exactly the bits of the logic states the
  daemon read, their number is at most four per distinct state, and the execution
  counter is the number of executions (modulo \<open>2 ^ 32\<close>).
\<close>

theorem lscov_measures_states:
  assumes "lscov_main opts r = Some (Inr st)" "lscov_run cfg es (s_daemon st, 0) = Inr (d', n')"
  shows "bit_ones (bfilter (d_filter d')) =
       (\<Union>hc\<in>set (iterated es). bfilter_indices 0x20000000 4 (hcount_bucket_to_lstate cfg hc)) \<and>
     unat (bfilter_get_num_1s (d_filter d')) \<le>
       4 * card (hcount_bucket_to_lstate cfg ` set (iterated es)) \<and>
     exec_count d' = of_nat (length (iterated es))"
proof (rule lscov_mainE [OF assms(1)])
  fix f assume f: "bfilter_init (r_mmap r) bfilter_globals = Inr f"
    and d: "s_daemon st = daemon_globals f (tally_init (r_time r) tally_zero)"
  have inv: "daemon_inv 0x20000000 4 (s_daemon st)"
    and empty: "bit_ones (bfilter (d_filter (s_daemon st))) = {}" "exec_count (s_daemon st) = 0"
    using daemon_globals_inv [OF f] by (simp_all add: d daemon_globals_def)
  have rdy: "bfilter_ready 0x20000000 4 (d_filter (s_daemon st))"
    using inv by (simp add: daemon_inv_def)
  note added = lscov_run_add_all [OF assms(2)]
  note inv' = lscov_run_inv [OF inv assms(2)]
  have ones: "unat (bfilter_get_num_1s (d_filter d')) = card (bit_ones (bfilter (d_filter d')))"
    using inv' by (intro bfilter_get_num_1s_card) (simp add: daemon_inv_def bfilter_ready_def)
  have "finite (bfilter_indices 0x20000000 4 l) \<and> card (bfilter_indices 0x20000000 4 l) \<le> 4" for l
    using bfilter_indices_card [of "0x20000000" 4 l] by simp
  then have "card (bit_ones (bfilter (d_filter d'))) \<le>
      4 * card (set (map (hcount_bucket_to_lstate cfg) (iterated es)))"
    using bf.card_bits_le [OF rdy added empty(1)] by blast
  then show ?thesis
    using inv' ones empty bf.add_all_ok [OF rdy, of "map (hcount_bucket_to_lstate cfg) (iterated es)"] added
    by auto
qed

theorem lscov_measures_states_witness:
  "\<exists>st d'. lscov_main [] example_sys = Some (Inr st) \<and>
     lscov_run None [Iterate (replicate LSTATE_SIZE 1) 1700000005] (s_daemon st, 0) = Inr (d', 0) \<and>
     unat (bfilter_get_num_1s (d_filter d')) \<le> 4 \<and> exec_count d' = 1"
proof -
  let ?hc = "replicate LSTATE_SIZE 1 :: u8 list"
  obtain st where st: "lscov_main [] example_sys = Some (Inr st)"
    by (simp add: lscov_main_def Let_def hcount_init_def bfilter_init_def example_sys_def)
  obtain f where f: "bfilter_init True bfilter_globals = Inr f"
      "s_daemon st = daemon_globals f (tally_init 1700000000 tally_zero)"
    using st by (rule lscov_mainE) (auto simp: example_sys_def)
  have rdy: "bfilter_ready 0x20000000 4 (d_filter (s_daemon st))"
    using daemon_globals_inv [OF f(1)] by (simp add: f(2) daemon_inv_def)
  obtain g where g: "bfilter_add (d_filter (s_daemon st)) (hcount_bucket_to_lstate None ?hc) = Inr g"
    using bf.add_ok [OF rdy] by blast
  have late: "\<not> tally_is_next_time (d_tally (s_daemon st)) 1700000005"
    by (simp add: f(2) daemon_globals_def tally_is_next_time_def tally_init_def tally_zero_def
        tally_update_next_time_def Let_def tallying_period_def)
  obtain d' where d': "lscov_run None [Iterate ?hc 1700000005] (s_daemon st, 0) = Inr (d', 0)"
    using g late by (auto simp: lscov_loop_body_def)
  show ?thesis
    using lscov_measures_states [OF st d'] st d' by auto
qed

end
