(* ===== verification/Lscov_Clang.thy ===== *)
theory Lscov_Clang
  imports Main
begin

text \<open>
  The compiler wrapper (\<open>src/lscov/lscov-clang.cc\<close>, \<open>main\<close>): which compiler
  it runs and with which arguments.  The results of \<open>readlink\<close> and \<open>system\<close>
  are arguments; \<open>execvp\<close> is the returned argument vector.
\<close>

datatype clang_error = NoExecutablePath | InvalidWrappedPath | CompilerNotFound

text \<open>\<open>rfind('/')\<close>: the part before the last slash, and the part after it.\<close>

fun split_last_slash :: "string \<Rightarrow> (string \<times> string) option" where
  "split_last_slash [] = None"
| "split_last_slash (c # cs) =
     (case split_last_slash cs of
        Some (d, n) \<Rightarrow> Some (c # d, n)
      | None \<Rightarrow> if c = CHR ''/'' then Some ([], cs) else None)"

text \<open>
  Without a slash \<open>rfind\<close> returns \<open>npos\<close>, so \<open>_name_pos\<close> is \<open>-1\<close>: the name is
  the whole path, and so is \<open>substr(0, -1)\<close>.
\<close>

definition exe_name :: "string \<Rightarrow> string" where
  "exe_name p = (case split_last_slash p of Some (d, n) \<Rightarrow> n | None \<Rightarrow> p)"

definition base_path :: "string \<Rightarrow> string" where
  "base_path p = (case split_last_slash p of Some (d, n) \<Rightarrow> d | None \<Rightarrow> p)"

definition wrap_exepath :: "string \<Rightarrow> string" where
  "wrap_exepath exepath =
     (let exename = exe_name exepath
      in if length exename \<ge> 2 \<and> drop (length exename - 2) exename = ''++''
         then base_path exepath @ ''/wrap-clang++''
         else base_path exepath @ ''/wrap-clang'')"

definition lscov_clang ::
    "string option \<Rightarrow> (string \<Rightarrow> string option) \<Rightarrow> (string \<Rightarrow> bool) \<Rightarrow> string list \<Rightarrow> clang_error + string list" where
  "lscov_clang self readlink found args =
     (case self of
        None \<Rightarrow> Inl NoExecutablePath
      | Some exepath \<Rightarrow>
          (case readlink (wrap_exepath exepath) of
             None \<Rightarrow> Inl InvalidWrappedPath
           | Some real_exepath \<Rightarrow>
               if \<not> found real_exepath then Inl CompilerNotFound
               else Inr (real_exepath # args @
                 [''-Xclang'', ''-fpass-plugin='' @ base_path exepath @ ''/libLSCovPass.so'',
                  base_path exepath @ ''/libLSCovRT.a'', ''-lpthread''])))"

lemma split_last_slash_Some:
  "split_last_slash p = Some (d, n) \<Longrightarrow> p = d @ CHR ''/'' # n \<and> CHR ''/'' \<notin> set n"
proof (induction p arbitrary: d n)
  case (Cons c cs)
  show ?case
  proof (cases "split_last_slash cs")
    case None
    then have "CHR ''/'' \<notin> set cs"
      by (induction cs) (auto split: option.splits if_splits)
    then show ?thesis using Cons.prems None by (auto split: if_splits)
  next
    case (Some dn)
    then show ?thesis using Cons by (cases dn) auto
  qed
qed simp



end
