(* ===== verification/Afl_Bitmap.thy ===== *)
theory Afl_Bitmap
  imports Prelude
begin

text \<open>
  The coverage bitmaps of the fuzzer the test bed runs
  (\<open>src/testbed/aflpp/src/afl-fuzz-bitmap.c\<close> and
  \<open>src/testbed/aflpp/include/coverage-64.h\<close>, the 64-bit build): counting,
  classifying and simplifying a trace, and finding new coverage.  The maps are
  byte lists; a 32- or 64-bit access is \<open>le_word\<close> of the bytes.  A pointer to
  one of the three virgin maps is a value of \<open>virgin_ref\<close>, so the comparison
  \<open>virgin_map == afl->virgin_bits\<close> is the comparison of references.
\<close>

section \<open>State\<close>

datatype afl_error = AflFatal string | AflPfatal string

record afl_state =
  trace_bits :: "u8 list"
  map_size :: u32
  real_map_size :: u32
  virgin_bits :: "u8 list"
  virgin_tmout :: "u8 list"
  virgin_crash :: "u8 list"
  bitmap_changed :: bool

datatype virgin_ref = VirginBits | VirginTmout | VirginCrash

fun virgin_get :: "virgin_ref \<Rightarrow> afl_state \<Rightarrow> u8 list" where
  "virgin_get VirginBits afl = virgin_bits afl"
| "virgin_get VirginTmout afl = virgin_tmout afl"
| "virgin_get VirginCrash afl = virgin_crash afl"

fun virgin_put :: "virgin_ref \<Rightarrow> u8 list \<Rightarrow> afl_state \<Rightarrow> afl_state" where
  "virgin_put VirginBits m afl = afl\<lparr>virgin_bits := m\<rparr>"
| "virgin_put VirginTmout m afl = afl\<lparr>virgin_tmout := m\<rparr>"
| "virgin_put VirginCrash m afl = afl\<lparr>virgin_crash := m\<rparr>"

text \<open>\<open>write_bitmap\<close>: the bytes written, if any; \<open>fd\<close> is the result of \<open>open\<close>.\<close>

definition write_bitmap :: "int \<Rightarrow> afl_state \<Rightarrow> afl_error + (afl_state \<times> u8 list option)" where
  "write_bitmap fd afl =
     (if \<not> bitmap_changed afl then Inr (afl, None)
      else
        let afl' = afl\<lparr>bitmap_changed := False\<rparr>
        in if fd < 0 then Inl (AflPfatal ''Unable to open'')
           else Inr (afl', Some (take (unat (map_size afl)) (virgin_bits afl))))"

section \<open>Counting\<close>

text \<open>The parallel bit count of one 32-bit word.\<close>

definition swar32 :: "u32 \<Rightarrow> u32" where
  "swar32 v0 =
     (let v1 = v0 - (drop_bit 1 v0 AND 0x55555555);
          v2 = (v1 AND 0x33333333) + (drop_bit 2 v1 AND 0x33333333)
      in drop_bit 24 (((v2 + drop_bit 4 v2) AND 0x0F0F0F0F) * 0x01010101))"

fun count_bits_loop :: "nat \<Rightarrow> u8 list \<Rightarrow> u32 \<Rightarrow> u32" where
  "count_bits_loop 0 p ret = ret"
| "count_bits_loop (Suc i) p ret =
     (let v = le_word (take 4 p) :: u32
      in if v = 0xffffffff then count_bits_loop i (drop 4 p) (ret + 32)
         else count_bits_loop i (drop 4 p) (ret + swar32 v))"

definition words32 :: "afl_state \<Rightarrow> nat" where
  "words32 afl = unat (drop_bit 2 (real_map_size afl + 3))"

definition words64 :: "afl_state \<Rightarrow> nat" where
  "words64 afl = unat (drop_bit 3 (real_map_size afl + 7))"

definition count_bits :: "afl_state \<Rightarrow> u8 list \<Rightarrow> u32" where
  "count_bits afl mem = count_bits_loop (words32 afl) mem 0"

fun count_bytes_loop :: "nat \<Rightarrow> u8 list \<Rightarrow> u32 \<Rightarrow> u32" where
  "count_bytes_loop 0 p ret = ret"
| "count_bytes_loop (Suc i) p ret =
     (let v = le_word (take 4 p) :: u32
      in if v = 0 then count_bytes_loop i (drop 4 p) ret
         else
           let ret = (if v AND 0x000000ff \<noteq> 0 then ret + 1 else ret);
               ret = (if v AND 0x0000ff00 \<noteq> 0 then ret + 1 else ret);
               ret = (if v AND 0x00ff0000 \<noteq> 0 then ret + 1 else ret);
               ret = (if v AND 0xff000000 \<noteq> 0 then ret + 1 else ret)
           in count_bytes_loop i (drop 4 p) ret)"

definition count_bytes :: "afl_state \<Rightarrow> u8 list \<Rightarrow> u32" where
  "count_bytes afl mem = count_bytes_loop (words32 afl) mem 0"

fun count_non_255_bytes_loop :: "nat \<Rightarrow> u8 list \<Rightarrow> u32 \<Rightarrow> u32" where
  "count_non_255_bytes_loop 0 p ret = ret"
| "count_non_255_bytes_loop (Suc i) p ret =
     (let v = le_word (take 4 p) :: u32
      in if v = 0xffffffff then count_non_255_bytes_loop i (drop 4 p) ret
         else
           let ret = (if v AND 0x000000ff \<noteq> 0x000000ff then ret + 1 else ret);
               ret = (if v AND 0x0000ff00 \<noteq> 0x0000ff00 then ret + 1 else ret);
               ret = (if v AND 0x00ff0000 \<noteq> 0x00ff0000 then ret + 1 else ret);
               ret = (if v AND 0xff000000 \<noteq> 0xff000000 then ret + 1 else ret)
           in count_non_255_bytes_loop i (drop 4 p) ret)"

definition count_non_255_bytes :: "afl_state \<Rightarrow> u8 list \<Rightarrow> u32" where
  "count_non_255_bytes afl mem = count_non_255_bytes_loop (words32 afl) mem 0"

section \<open>Classifying and simplifying\<close>

definition simplify_lookup :: "u8 \<Rightarrow> u8" where
  "simplify_lookup b = (if b = 0 then 1 else 128)"

definition count_class_lookup8 :: "u8 \<Rightarrow> u8" where
  "count_class_lookup8 b =
     (if b = 0 then 0 else if b = 1 then 1 else if b = 2 then 2 else if b = 3 then 4
      else if b \<le> 7 then 8 else if b \<le> 15 then 16 else if b \<le> 31 then 32
      else if b \<le> 127 then 64 else 128)"

definition init_count_class16 :: "nat \<Rightarrow> u16" where
  "init_count_class16 = init_lookup16 count_class_lookup8"

definition classify_word :: "u64 \<Rightarrow> u64" where
  "classify_word word = le_word (lookup16_4 init_count_class16 (le_bytes 8 word))"

fun classify_loop :: "nat \<Rightarrow> u8 list \<Rightarrow> u8 list" where
  "classify_loop 0 mem = mem"
| "classify_loop (Suc i) mem =
     (let w = le_word (take 8 mem) :: u64
      in (if w \<noteq> 0 then le_bytes 8 (classify_word w) else take 8 mem) @ classify_loop i (drop 8 mem))"

definition classify_counts :: "afl_state \<Rightarrow> afl_state" where
  "classify_counts afl =
     afl\<lparr>trace_bits := classify_loop (unat (drop_bit 3 (map_size afl))) (trace_bits afl)\<rparr>"

fun simplify_loop :: "nat \<Rightarrow> u8 list \<Rightarrow> u8 list" where
  "simplify_loop 0 mem = mem"
| "simplify_loop (Suc i) mem =
     (let w = le_word (take 8 mem) :: u64
      in (if w \<noteq> 0 then map simplify_lookup (take 8 mem) else le_bytes 8 (0x0101010101010101 :: u64))
         @ simplify_loop i (drop 8 mem))"

definition simplify_trace :: "afl_state \<Rightarrow> u8 list \<Rightarrow> u8 list" where
  "simplify_trace afl bytes = simplify_loop (unat (drop_bit 3 (map_size afl))) bytes"

section \<open>New coverage\<close>

text \<open>\<open>discover_word\<close> on the eight bytes of \<open>*current\<close> and \<open>*virgin\<close>.\<close>

definition discover_word :: "u8 \<Rightarrow> u8 list \<Rightarrow> u8 list \<Rightarrow> u8 \<times> u8 list" where
  "discover_word ret cur vir =
     (let current = le_word cur :: u64; virgin = le_word vir :: u64
      in if current AND virgin \<noteq> 0
         then (if ret < 2
               then if list_ex (\<lambda>i. cur ! i \<noteq> 0 \<and> vir ! i = 0xff) [0, 1, 2, 3, 4, 5, 6, 7] then 2 else 1
               else ret,
               le_bytes 8 (virgin AND NOT current))
         else (ret, vir))"

fun new_bits_loop :: "nat \<Rightarrow> u8 \<Rightarrow> u8 list \<Rightarrow> u8 list \<Rightarrow> u8 \<times> u8 list" where
  "new_bits_loop 0 ret current virgin = (ret, virgin)"
| "new_bits_loop (Suc i) ret current virgin =
     (let (ret', v) = (if (le_word (take 8 current) :: u64) \<noteq> 0
                       then discover_word ret (take 8 current) (take 8 virgin)
                       else (ret, take 8 virgin));
          (ret'', vs) = new_bits_loop i ret' (drop 8 current) (drop 8 virgin)
      in (ret'', v @ vs))"

definition has_new_bits :: "afl_state \<Rightarrow> virgin_ref \<Rightarrow> u8 \<times> afl_state" where
  "has_new_bits afl virgin_map =
     (let (ret, v) = new_bits_loop (words64 afl) 0 (trace_bits afl) (virgin_get virgin_map afl);
          afl' = virgin_put virgin_map v afl
      in (ret, if ret \<noteq> 0 \<and> virgin_map = VirginBits then afl'\<lparr>bitmap_changed := True\<rparr> else afl'))"

text \<open>
  \<open>skim\<close>, the portable version: four words per iteration while
  \<open>current < current_end\<close>; \<open>n\<close> is the number of bytes left before \<open>current_end\<close>.
\<close>

definition skim_word :: "u8 list \<Rightarrow> u8 list \<Rightarrow> nat \<Rightarrow> bool" where
  "skim_word virgin current j =
     (let c = le_word (take 8 (drop (8 * j) current)) :: u64
      in c \<noteq> 0 \<and> classify_word c AND le_word (take 8 (drop (8 * j) virgin)) \<noteq> 0)"

function skim :: "u8 list \<Rightarrow> u8 list \<Rightarrow> nat \<Rightarrow> u32" where
  "skim virgin current n =
     (if n = 0 then 0
      else if list_ex (skim_word virgin current) [0, 1, 2, 3] then 1
      else skim (drop 32 virgin) (drop 32 current) (n - 32))"
  by pat_completeness auto
termination by (relation "measure (\<lambda>(_, _, n). n)") auto

declare skim.simps [simp del]

definition has_new_bits_unclassified :: "afl_state \<Rightarrow> virgin_ref \<Rightarrow> u8 \<times> afl_state" where
  "has_new_bits_unclassified afl virgin_map =
     (if skim (virgin_get virgin_map afl) (trace_bits afl) (unat (map_size afl)) = 0 then (0, afl)
      else has_new_bits (classify_counts afl) virgin_map)"

fun minimize_loop :: "nat \<Rightarrow> nat \<Rightarrow> u8 list \<Rightarrow> u8 list \<Rightarrow> u8 list" where
  "minimize_loop 0 i dst src = dst"
| "minimize_loop (Suc k) i dst src =
     minimize_loop k (Suc i)
       (if src ! i \<noteq> 0 then dst[i div 8 := dst ! (i div 8) OR push_bit (i mod 8) 1] else dst) src"

definition minimize_bits :: "afl_state \<Rightarrow> u8 list \<Rightarrow> u8 list \<Rightarrow> u8 list" where
  "minimize_bits afl dst src = minimize_loop (unat (map_size afl)) 0 dst src"

section \<open>The counters\<close>

text \<open>
  The parallel count works on the four bytes independently until the last
  multiplication: \<open>swar_a\<close> and \<open>swar_b\<close> are its first two steps on a byte.
\<close>

definition swar_a :: "u8 \<Rightarrow> u8" where "swar_a x = x - (drop_bit 1 x AND 0x55)"
definition swar_b :: "u8 \<Rightarrow> u8" where "swar_b x = (swar_a x AND 0x33) + (drop_bit 2 (swar_a x) AND 0x33)"

lemma swar_a_fits: "drop_bit 1 x AND 0x55 \<le> (x :: u8)"
  by (rule byte_all) code_simp

lemma swar_b_fits: "uint (swar_a x AND 0x33) + uint (drop_bit 2 (swar_a x) AND 0x33) < 256"
  by (rule byte_all) code_simp

lemma length_filter_sum: "int (length (filter P xs)) = (\<Sum>i\<leftarrow>xs. of_bool (P i))"
  by (induction xs) auto

lemma popcount_u8: "int (popcount (x :: u8)) = (\<Sum>i\<leftarrow>[0, 1, 2, 3, 4, 5, 6, 7]. of_bool (bit x i))"
proof -
  have "[0..<LENGTH(8)] = [0, 1, 2, 3, 4, 5, 6, 7]" by (simp add: upt_rec)
  then show ?thesis by (simp only: popcount_def length_filter_sum)
qed

lemma swar_b_int: "uint (swar_b x) mod 16 \<le> 4 \<and> uint (swar_b x) div 16 \<le> 4 \<and>
    uint (swar_b x) mod 16 + uint (swar_b x) div 16 = (\<Sum>i\<leftarrow>[0, 1, 2, 3, 4, 5, 6, 7]. of_bool (bit x i))"
  by (rule byte_all) code_simp

lemma swar_b_nibbles:
  "unat (swar_b x) mod 16 \<le> 4 \<and> unat (swar_b x) div 16 \<le> 4 \<and>
   unat (swar_b x) mod 16 + unat (swar_b x) div 16 = popcount x"
proof -
  have "int (unat (swar_b x) mod 16) \<le> 4 \<and> int (unat (swar_b x) div 16) \<le> 4 \<and>
      int (unat (swar_b x) mod 16) + int (unat (swar_b x) div 16) = int (popcount x)"
    unfolding popcount_u8 using swar_b_int [of x] by (simp only: zmod_int zdiv_int uint_nat) simp
  then show ?thesis by linarith
qed

lemma unat_le_word4:
  "unat (le_word [a, b, c, d] :: u32) = unat a + 256 * unat b + 65536 * unat c + 16777216 * unat d"
proof -
  have lt: "unat a < 256" "unat b < 256" "unat c < 256" "unat d < 256"
    using unsigned_less [of a, where 'a = nat] unsigned_less [of b, where 'a = nat]
      unsigned_less [of c, where 'a = nat] unsigned_less [of d, where 'a = nat] by simp_all
  have "(le_word [a, b, c, d] :: u32) =
      of_nat (unat a + 256 * (unat b + 256 * (unat c + 256 * unat d)))"
    by (simp only: le_word_Cons_plus le_word.simps(1) of_nat_add of_nat_mult of_nat_unat) simp
  then have "unat (le_word [a, b, c, d] :: u32) =
      (unat a + 256 * (unat b + 256 * (unat c + 256 * unat d))) mod 2 ^ 32"
    by (simp only: unat_of_nat) (simp add: take_bit_eq_mod)
  then show ?thesis using lt by simp
qed

lemma swar_fold_nat:
  assumes "p0 \<le> 8" "p1 \<le> 8" "p2 \<le> 8" "p3 \<le> (8::nat)"
  shows "(p0 + 256 * p1 + 65536 * p2 + 16777216 * p3) * 16843009 mod 4294967296 div 16777216 = p0 + p1 + p2 + p3"
proof -
  let ?r = "p0 + 256 * (p0 + p1) + 65536 * (p0 + p1 + p2) + 16777216 * (p0 + p1 + p2 + p3)"
  have "(p0 + 256 * p1 + 65536 * p2 + 16777216 * p3) * 16843009 =
      ?r + 4294967296 * ((p1 + p2 + p3) + 256 * (p2 + p3) + 65536 * p3)" by simp
  then have "(p0 + 256 * p1 + 65536 * p2 + 16777216 * p3) * 16843009 mod 4294967296 = ?r mod 4294967296"
    by (metis mod_mult_self2)
  also have "\<dots> = ?r" using assms by simp
  finally show ?thesis
    by (simp only:) (rule div_nat_eqI; use assms in simp)
qed

lemma swar_shift_nat:
  assumes "N = l0 + 16 * h0 + 256 * (l1 + 16 * h1) + 65536 * (l2 + 16 * h2) + 16777216 * (l3 + 16 * h3)"
    and "l0 \<le> 4" "l1 \<le> 4" "l2 \<le> 4" "l3 \<le> 4" "h0 \<le> 4" "h1 \<le> 4" "h2 \<le> 4" "h3 \<le> (4::nat)"
  shows "(N + N div 16) mod 4294967296 = ((l0 + h0) + 16 * (h0 + l1)) + 256 * ((l1 + h1) + 16 * (h1 + l2)) +
     65536 * ((l2 + h2) + 16 * (h2 + l3)) + 16777216 * ((l3 + h3) + 16 * h3)"
proof -
  have "N div 16 = h0 + 16 * (l1 + 16 * h1) + 4096 * (l2 + 16 * h2) + 1048576 * (l3 + 16 * h3)"
    by (rule div_nat_eqI) (use assms in simp_all)
  then show ?thesis using assms by simp
qed


lemma unat_and_15: "unat (x AND 0x0F :: u8) = unat x mod 16"
proof -
  have "uint (x AND 0x0F :: u8) = uint x mod 16" by (rule byte_all) code_simp
  then show ?thesis by (metis nat_mod_distrib nat_numeral unat_eq_nat_uint uint_nonnegative zero_le_numeral)
qed

lemma mask_bits: "bit (0x55 :: u8) j \<Longrightarrow> 1 + j < 8" "bit (0x33 :: u8) j \<Longrightarrow> 2 + j < 8"
proof -
  have "j < 8 \<Longrightarrow> j = 0 \<or> j = 1 \<or> j = 2 \<or> j = 3 \<or> j = 4 \<or> j = 5 \<or> j = 6 \<or> j = 7" by arith
  moreover have "bit (m :: u8) j \<Longrightarrow> j < 8" for m by (auto dest: bit_imp_le_length)
  ultimately show "bit (0x55 :: u8) j \<Longrightarrow> 1 + j < 8" "bit (0x33 :: u8) j \<Longrightarrow> 2 + j < 8" by auto
qed
lemma swar_masks:
  "(0x55555555 :: u32) = le_word [0x55, 0x55, 0x55, 0x55]"
  "(0x33333333 :: u32) = le_word [0x33, 0x33, 0x33, 0x33]"
  "(0x0F0F0F0F :: u32) = le_word [0x0F, 0x0F, 0x0F, 0x0F]"
  by simp_all

lemma le_word_mask4:
  fixes a b c d m :: u8
  shows "(le_word [a, b, c, d] AND le_word [m, m, m, m] :: u32) = le_word [a AND m, b AND m, c AND m, d AND m]"
  using le_word_and [of "[a, b, c, d]" "[m, m, m, m]", where 'a = 32] by (simp del: le_word.simps)

lemma le_word_shift4:
  fixes a b c d m :: u8
  assumes "\<And>j. bit m j \<Longrightarrow> k + j < 8"
  shows "(drop_bit k (le_word [a, b, c, d]) AND le_word [m, m, m, m] :: u32) =
    le_word [drop_bit k a AND m, drop_bit k b AND m, drop_bit k c AND m, drop_bit k d AND m]"
  using le_word_shift_and [of "[m, m, m, m]" "[a, b, c, d]" k, where 'a = 32] assms
  by (simp del: le_word.simps)

lemma swar_shifts:
  fixes a b c d :: u8
  shows "(drop_bit 1 (le_word [a, b, c, d]) AND le_word [0x55, 0x55, 0x55, 0x55] :: u32) =
      le_word [drop_bit 1 a AND 0x55, drop_bit 1 b AND 0x55, drop_bit 1 c AND 0x55, drop_bit 1 d AND 0x55]"
    and "(drop_bit 2 (le_word [a, b, c, d]) AND le_word [0x33, 0x33, 0x33, 0x33] :: u32) =
      le_word [drop_bit 2 a AND 0x33, drop_bit 2 b AND 0x33, drop_bit 2 c AND 0x33, drop_bit 2 d AND 0x33]"
  by (rule le_word_shift4, erule mask_bits)+

lemma swar_step_a:
  "(le_word [a, b, c, d] :: u32) - (drop_bit 1 (le_word [a, b, c, d]) AND 0x55555555) =
     le_word [swar_a a, swar_a b, swar_a c, swar_a d]"
proof -
  let ?f = "\<lambda>x :: u8. drop_bit 1 x AND 0x55"
  have "le_word [a, b, c, d] - le_word (map ?f [a, b, c, d]) =
      (le_word (map2 (-) [a, b, c, d] (map ?f [a, b, c, d])) :: u32)"
    by (rule le_word_minus) (auto simp del: One_nat_def simp: less_Suc_eq numeral_eq_Suc nth_Cons' swar_a_fits word_le_nat_alt [symmetric])
  then show ?thesis
    unfolding swar_masks swar_shifts by (simp only: list.map zip_Cons_Cons zip_Nil split swar_a_def)
qed

lemma swar_step_b:
  "((le_word [swar_a a, swar_a b, swar_a c, swar_a d] :: u32) AND 0x33333333) +
    (drop_bit 2 (le_word [swar_a a, swar_a b, swar_a c, swar_a d]) AND 0x33333333) =
     le_word [swar_b a, swar_b b, swar_b c, swar_b d]"
proof -
  let ?f = "\<lambda>x. swar_a x AND 0x33" and ?g = "\<lambda>x. drop_bit 2 (swar_a x) AND 0x33"
  have fits: "unat (?f x) + unat (?g x) < 256" for x
    using swar_b_fits [of x] by (simp only: uint_nat)
  have "le_word (map ?f [a, b, c, d]) + le_word (map ?g [a, b, c, d]) =
      (le_word (map2 (+) (map ?f [a, b, c, d]) (map ?g [a, b, c, d])) :: u32)"
    by (rule le_word_plus) (auto simp only: length_map nth_map fits)
  then show ?thesis
    unfolding swar_masks swar_shifts le_word_mask4
    by (simp only: list.map zip_Cons_Cons zip_Nil split swar_b_def)
qed

lemma swar_step_c:
  fixes a b c d :: u8
  defines "n x \<equiv> unat (swar_b x) mod 16 + unat (swar_b x) div 16"
  defines "v \<equiv> (le_word [swar_b a, swar_b b, swar_b c, swar_b d] :: u32)"
  shows "unat ((v + drop_bit 4 v) AND 0x0F0F0F0F) = n a + 256 * n b + 65536 * n c + 16777216 * n d"
proof -
  let ?l = "\<lambda>x. unat (swar_b x) mod 16" and ?h = "\<lambda>x. unat (swar_b x) div 16"
  define t where "t = (\<lambda>x y. of_nat (?l x + ?h x + 16 * (?h x + y)) :: u8)"
  have le: "?l x \<le> 4" "?h x \<le> 4" for x using swar_b_nibbles [of x] by simp_all
  have t: "unat (t x y) = ?l x + ?h x + 16 * (?h x + y)" if "y \<le> 4" for x y
    unfolding t_def unat_of_nat using le [of x] that by simp
  have "unat v = ?l a + 16 * ?h a + 256 * (?l b + 16 * ?h b) + 65536 * (?l c + 16 * ?h c) +
      16777216 * (?l d + 16 * ?h d)"
    unfolding v_def unat_le_word4 by (simp add: mod_mult_div_eq)
  then have "(unat v + unat v div 16) mod 4294967296 =
      (?l a + ?h a + 16 * (?h a + ?l b)) + 256 * (?l b + ?h b + 16 * (?h b + ?l c)) +
      65536 * (?l c + ?h c + 16 * (?h c + ?l d)) + 16777216 * (?l d + ?h d + 16 * ?h d)"
    by (rule swar_shift_nat) (rule le)+
  also have "\<dots> = unat (le_word [t a (?l b), t b (?l c), t c (?l d), t d 0] :: u32)"
    unfolding unat_le_word4 using t le by simp
  finally have "v + drop_bit 4 v = le_word [t a (?l b), t b (?l c), t c (?l d), t d 0]"
    by (simp add: word_unat_eq_iff unat_word_ariths unat_drop_bit_eq drop_bit_eq_div mod_simps del: le_word.simps)
  moreover have "unat (t x y AND 0x0F) = n x" if "y \<le> 4" for x y
    unfolding unat_and_15 t [OF that] mod_mult_self2 n_def using le [of x] by (intro mod_less) simp
  ultimately show ?thesis
    using le by (simp add: swar_masks le_word_mask4 unat_le_word4 del: le_word.simps)
qed

lemma swar32_popcount: "swar32 v = of_nat (popcount v)"
proof -
  obtain a b c d where v: "v = le_word [a, b, c, d]"
  proof -
    obtain a b c d where "le_bytes 4 v = [a, b, c, d]"
      by (auto simp: le_bytes_def numeral_eq_Suc)
    then have "v = le_word [a, b, c, d]" using le_word_le_bytes [of 4 v] by (simp del: le_word.simps)
    then show thesis by (rule that)
  qed
  let ?n = "\<lambda>x. unat (swar_b x) mod 16 + unat (swar_b x) div 16"
  have n: "?n x = popcount x" "?n x \<le> 8" for x using swar_b_nibbles [of x] by simp_all
  have fold: "unat (drop_bit 24 (x * 0x01010101)) = unat x * 16843009 mod 4294967296 div 16777216" for x :: u32
    by (simp add: unat_drop_bit_eq drop_bit_eq_div unat_word_ariths)
  have "unat (swar32 v) = popcount a + popcount b + popcount c + popcount d"
    unfolding swar32_def Let_def v swar_step_a swar_step_b fold swar_step_c
    by (subst swar_fold_nat) (simp_all add: n popcount_le [of "_ :: u8", simplified])
  also have "\<dots> = popcount v"
    using popcount_load [of "[a, b, c, d]", where 'a = 32]
    by (simp add: v card_bit_ones_Cons del: le_word.simps) (simp add: bit_ones_def)
  finally have "of_nat (unat (swar32 v)) = (of_nat (popcount v) :: u32)" by simp
  then show ?thesis by simp
qed


lemma count_bits_loop_ones:
  "4 * n \<le> length p \<Longrightarrow> count_bits_loop n p ret = ret + of_nat (card (bit_ones (take (4 * n) p)))"
proof (induction n arbitrary: p ret)
  case 0
  then show ?case by (simp add: bit_ones_def)
next
  case (Suc n)
  let ?v = "le_word (take 4 p) :: u32"
  have pc: "popcount ?v = card (bit_ones (take 4 p))"
    using Suc.prems by (intro popcount_load) simp
  have "of_nat (popcount ?v) = (32 :: u32)" if "?v = 0xffffffff"
    unfolding that by (simp only: flip: swar32_popcount) (simp add: swar32_def)
  then have "count_bits_loop (Suc n) p ret =
      count_bits_loop n (drop 4 p) (ret + of_nat (card (bit_ones (take 4 p))))"
    by (cases "?v = 0xffffffff") (simp_all add: swar32_popcount flip: pc)
  also have "\<dots> = ret + of_nat (card (bit_ones (take 4 p)) + card (bit_ones (take (4 * n) (drop 4 p))))"
    using Suc.IH Suc.prems by simp
  also have "card (bit_ones (take 4 p)) + card (bit_ones (take (4 * n) (drop 4 p))) =
      card (bit_ones (take (4 * Suc n) p))"
    by (simp add: take_add flip: card_bit_ones_append)
  finally show ?case .
qed

text \<open>Each byte test of the counting loops reads one byte of the word.\<close>

lemma byte_tests:
  fixes a b c d :: u8
  defines "v \<equiv> (le_word [a, b, c, d] :: u32)"
  shows "v AND 0x000000ff = ucast a" "v AND 0x0000ff00 = push_bit 8 (ucast b)"
    "v AND 0x00ff0000 = push_bit 16 (ucast c)" "v AND 0xff000000 = push_bit 24 (ucast d)"
proof -
  have m: "(0x000000ff :: u32) = le_word [0xff, 0, 0, 0]" "(0x0000ff00 :: u32) = le_word [0, 0xff, 0, 0]"
    "(0x00ff0000 :: u32) = le_word [0, 0, 0xff, 0]" "(0xff000000 :: u32) = le_word [0, 0, 0, 0xff]"
    by simp_all
  have ff: "x AND 0xff = x" for x :: u8 by (rule byte_all) code_simp
  show "v AND 0x000000ff = ucast a" "v AND 0x0000ff00 = push_bit 8 (ucast b)"
    "v AND 0x00ff0000 = push_bit 16 (ucast c)" "v AND 0xff000000 = push_bit 24 (ucast d)"
    unfolding v_def m by (simp_all only: le_word_and list.size zip_Cons_Cons zip_Nil list.map split ff) simp_all
qed

lemma byte_place_inj:
  assumes "k + 8 \<le> 32"
  shows "(push_bit k (ucast (x :: u8)) :: u32) = push_bit k (ucast y) \<longleftrightarrow> x = y"
proof
  assume eq: "(push_bit k (ucast x) :: u32) = push_bit k (ucast y)"
  show "x = y"
  proof (rule bit_word_eqI)
    fix j assume "j < LENGTH(8)"
    then show "bit x j = bit y j"
      using arg_cong [OF eq, of "\<lambda>w. bit w (k + j)"] assms by (simp add: bit_simps)
  qed
qed simp

lemma byte_tests_0:
  fixes a b c d :: u8
  defines "v \<equiv> (le_word [a, b, c, d] :: u32)"
  shows "v AND 0x000000ff = 0 \<longleftrightarrow> a = 0" "v AND 0x0000ff00 = 0 \<longleftrightarrow> b = 0"
    "v AND 0x00ff0000 = 0 \<longleftrightarrow> c = 0" "v AND 0xff000000 = 0 \<longleftrightarrow> d = 0"
  unfolding v_def byte_tests
  using byte_place_inj [of 0 a 0] byte_place_inj [of 8 b 0] byte_place_inj [of 16 c 0] byte_place_inj [of 24 d 0]
  by simp_all

lemma byte_tests_255:
  fixes a b c d :: u8
  defines "v \<equiv> (le_word [a, b, c, d] :: u32)"
  shows "v AND 0x000000ff = 0x000000ff \<longleftrightarrow> a = 0xff" "v AND 0x0000ff00 = 0x0000ff00 \<longleftrightarrow> b = 0xff"
    "v AND 0x00ff0000 = 0x00ff0000 \<longleftrightarrow> c = 0xff" "v AND 0xff000000 = 0xff000000 \<longleftrightarrow> d = 0xff"
  unfolding v_def byte_tests
  using byte_place_inj [of 0 a 255] byte_place_inj [of 8 b 255] byte_place_inj [of 16 c 255]
    byte_place_inj [of 24 d 255]
  by simp_all

text \<open>A counting loop that adds the count of each four-byte group counts the buffer.\<close>

lemma count_loop_filter:
  fixes loop :: "nat \<Rightarrow> u8 list \<Rightarrow> u32 \<Rightarrow> u32"
  assumes "\<And>p ret. loop 0 p ret = ret"
    and step: "\<And>n p ret a b c d. take 4 p = [a, b, c, d] \<Longrightarrow>
      loop (Suc n) p ret = loop n (drop 4 p) (ret + of_nat (length (filter P [a, b, c, d])))"
  shows "4 * n \<le> length p \<Longrightarrow> loop n p ret = ret + of_nat (length (filter P (take (4 * n) p)))"
proof (induction n arbitrary: p ret)
  case 0
  then show ?case by (simp add: assms(1))
next
  case (Suc n)
  have "length (take 4 p) = 4" using Suc.prems by simp
  then obtain a b c d where abcd: "take 4 p = [a, b, c, d]" by (rule list4_cases)
  have "take (4 * Suc n) p = take 4 p @ take (4 * n) (drop 4 p)" by (simp add: take_add)
  then show ?case
    using Suc.IH [of "drop 4 p"] Suc.prems by (simp add: step [OF abcd] abcd)
qed

lemma count_bytes_loop_filter:
  "4 * n \<le> length p \<Longrightarrow>
   count_bytes_loop n p ret = ret + of_nat (length (filter (\<lambda>b. b \<noteq> 0) (take (4 * n) p)))"
proof (rule count_loop_filter)
  fix n p ret a b c d
  assume p: "take 4 p = [a, b, c, d :: u8]"
  have z: "(le_word [a, b, c, d] :: u32) = 0 \<longleftrightarrow> a = 0 \<and> b = 0 \<and> c = 0 \<and> d = 0"
    by (subst le_word_eq_0_iff) auto
  show "count_bytes_loop (Suc n) p ret =
      count_bytes_loop n (drop 4 p) (ret + of_nat (length (filter (\<lambda>b. b \<noteq> 0) [a, b, c, d])))"
    by (simp only: count_bytes_loop.simps p Let_def z byte_tests_0) (simp add: add.assoc)
qed simp_all

lemma count_non_255_bytes_loop_filter:
  "4 * n \<le> length p \<Longrightarrow>
   count_non_255_bytes_loop n p ret = ret + of_nat (length (filter (\<lambda>b. b \<noteq> 0xff) (take (4 * n) p)))"
proof (rule count_loop_filter)
  fix n p ret a b c d
  assume p: "take 4 p = [a, b, c, d :: u8]"
  have ff: "(le_word [a, b, c, d] :: u32) = 0xffffffff \<Longrightarrow> a = 0xff \<and> b = 0xff \<and> c = 0xff \<and> d = 0xff"
    using byte_tests_255 [of a b c d] by simp
  show "count_non_255_bytes_loop (Suc n) p ret =
      count_non_255_bytes_loop n (drop 4 p) (ret + of_nat (length (filter (\<lambda>b. b \<noteq> 0xff) [a, b, c, d])))"
  proof (cases "(le_word [a, b, c, d] :: u32) = 0xffffffff")
    case True
    then show ?thesis using ff by (simp add: p Let_def del: le_word.simps)
  next
    case False
    then show ?thesis
      by (simp only: count_non_255_bytes_loop.simps p Let_def byte_tests_255) (simp add: add.assoc del: le_word.simps)
  qed
qed simp_all

section \<open>Classification, byte by byte\<close>

lemma classify_word_bytes:
  assumes "length bs = 8"
  shows "classify_word (le_word bs) = le_word (map count_class_lookup8 bs)"
proof -
  have "le_bytes 8 (le_word bs :: u64) = bs" using le_bytes_le_word [of bs, where 'a = 64] assms by simp
  then show ?thesis by (simp add: classify_word_def init_count_class16_def lookup16_4_bytes assms)
qed

lemma le_bytes8_le_word: "length bs = 8 \<Longrightarrow> le_bytes 8 (le_word bs :: u64) = bs"
  using le_bytes_le_word [of bs, where 'a = 64] by simp

lemma classify_loop_bytes:
  "8 * n \<le> length mem \<Longrightarrow>
   classify_loop n mem = map count_class_lookup8 (take (8 * n) mem) @ drop (8 * n) mem"
proof (induction n arbitrary: mem)
  case 0
  then show ?case by simp
next
  case (Suc n)
  have len: "length (take 8 mem) = 8" using Suc.prems by simp
  have "(if (le_word (take 8 mem) :: u64) \<noteq> 0 then le_bytes 8 (classify_word (le_word (take 8 mem)))
      else take 8 mem) = map count_class_lookup8 (take 8 mem)"
  proof (cases "(le_word (take 8 mem) :: u64) = 0")
    case True
    then have "\<forall>b\<in>set (take 8 mem). b = 0" by (simp only: load64_zero_iff [OF len])
    then show ?thesis using True by (simp add: count_class_lookup8_def map_idI)
  next
    case False
    then show ?thesis using len by (simp add: classify_word_bytes [OF len] le_bytes8_le_word)
  qed
  moreover have "take (8 * Suc n) mem = take 8 mem @ take (8 * n) (drop 8 mem)" by (simp add: take_add)
  ultimately show ?case
    using Suc.IH [of "drop 8 mem"] Suc.prems by (simp add: Let_def add.commute)
qed

lemma simplify_loop_bytes:
  "8 * n \<le> length mem \<Longrightarrow>
   simplify_loop n mem = map simplify_lookup (take (8 * n) mem) @ drop (8 * n) mem"
proof (induction n arbitrary: mem)
  case 0
  then show ?case by simp
next
  case (Suc n)
  have len: "length (take 8 mem) = 8" using Suc.prems by simp
  have ones: "le_bytes 8 (0x0101010101010101 :: u64) = replicate 8 1"
  proof -
    have "(0x0101010101010101 :: u64) = le_word [1, 1, 1, 1, 1, 1, 1, 1]" by simp
    then show ?thesis
      using le_bytes8_le_word [of "[1, 1, 1, 1, 1, 1, 1, 1]"]
      by (simp add: numeral_eq_Suc del: le_word.simps)
  qed
  have "(if (le_word (take 8 mem) :: u64) \<noteq> 0 then map simplify_lookup (take 8 mem)
      else le_bytes 8 (0x0101010101010101 :: u64)) = map simplify_lookup (take 8 mem)"
  proof (cases "(le_word (take 8 mem) :: u64) = 0")
    case True
    then have "\<forall>b\<in>set (take 8 mem). b = 0" by (simp only: load64_zero_iff [OF len])
    then show ?thesis
      using True map_zero_bytes [of "take 8 mem" simplify_lookup] len
      by (simp add: ones simplify_lookup_def)
  qed simp
  moreover have "take (8 * Suc n) mem = take 8 mem @ take (8 * n) (drop 8 mem)" by (simp add: take_add)
  ultimately show ?case
    using Suc.IH [of "drop 8 mem"] Suc.prems by (simp add: Let_def add.commute)
qed

section \<open>New coverage, byte by byte\<close>

definition new_tuple :: "u8 list \<Rightarrow> u8 list \<Rightarrow> bool" where
  "new_tuple cur vir \<longleftrightarrow> list_ex (\<lambda>(c, v). c \<noteq> 0 \<and> v = 0xff) (zip cur vir)"

definition new_count :: "u8 list \<Rightarrow> u8 list \<Rightarrow> bool" where
  "new_count cur vir \<longleftrightarrow> list_ex (\<lambda>(c, v). c AND v \<noteq> 0) (zip cur vir)"

definition new_bits_level :: "u8 list \<Rightarrow> u8 list \<Rightarrow> u8" where
  "new_bits_level cur vir = (if new_tuple cur vir then 2 else if new_count cur vir then 1 else 0)"

definition virgin_clear :: "u8 list \<Rightarrow> u8 list \<Rightarrow> u8 list" where
  "virgin_clear cur vir = map2 (\<lambda>c v. v AND NOT c) cur vir"

lemma and_ff [simp]: "x AND 0xff = (x :: u8)"
  by (rule byte_all) code_simp

lemma new_tuple_count: "new_tuple cur vir \<Longrightarrow> new_count cur vir"
proof -
  assume "new_tuple cur vir"
  then obtain c where "(c, 0xff) \<in> set (zip cur vir)" "c \<noteq> 0"
    by (auto simp: new_tuple_def list_ex_iff)
  then show "new_count cur vir"
    unfolding new_count_def list_ex_iff by (intro bexI [of _ "(c, 0xff)"]) simp_all
qed

lemma new_count_word:
  assumes "length cur = length vir" "8 * length cur \<le> LENGTH('a)"
  shows "(le_word cur AND le_word vir :: 'a::len word) = 0 \<longleftrightarrow> \<not> new_count cur vir"
  unfolding le_word_and [OF assms(1)] new_count_def
  by (subst le_word_eq_0_iff) (use assms in \<open>auto simp: list_ex_iff\<close>)

lemma new_append:
  assumes "length cur = length vir"
  shows "new_tuple (cur @ cur') (vir @ vir') \<longleftrightarrow> new_tuple cur vir \<or> new_tuple cur' vir'"
    "new_count (cur @ cur') (vir @ vir') \<longleftrightarrow> new_count cur vir \<or> new_count cur' vir'"
    "virgin_clear (cur @ cur') (vir @ vir') = virgin_clear cur vir @ virgin_clear cur' vir'"
  using assms by (simp_all add: new_tuple_def new_count_def virgin_clear_def)

lemma not_new_count_clear:
  "length cur = length vir \<Longrightarrow> \<not> new_count cur vir \<Longrightarrow> virgin_clear cur vir = vir"
proof (induction cur vir rule: list_induct2)
  case Nil
  then show ?case by (simp add: virgin_clear_def)
next
  case (Cons c cur v vir)
  have "v AND NOT c = v"
  proof (rule bit_word_eqI)
    fix n
    have "\<not> bit (c AND v) n" using Cons.prems by (simp add: new_count_def)
    then show "bit (v AND NOT c) n \<longleftrightarrow> bit v n" by (auto simp: bit_simps dest: bit_imp_le_length)
  qed
  then show ?case using Cons by (simp add: virgin_clear_def new_count_def)
qed

lemma le_2_cases: "(r :: u8) \<le> 2 \<Longrightarrow> r = 0 \<or> r = 1 \<or> r = 2"
proof -
  have "r \<le> 2 \<longrightarrow> r = 0 \<or> r = 1 \<or> r = 2" by (rule byte_all) code_simp
  then show "r \<le> 2 \<Longrightarrow> r = 0 \<or> r = 1 \<or> r = 2" by blast
qed

lemma discover_word_spec:
  assumes len: "length cur = 8" "length vir = 8" and ret: "ret \<le> 2"
  shows "discover_word ret cur vir = (max ret (new_bits_level cur vir), virgin_clear cur vir)"
proof -
  have tuple: "list_ex (\<lambda>i. cur ! i \<noteq> 0 \<and> vir ! i = 0xff) [0, 1, 2, 3, 4, 5, 6, 7] \<longleftrightarrow> new_tuple cur vir"
    by (rule list8_cases [OF len(1)], rule list8_cases [OF len(2)]) (simp add: new_tuple_def)
  have clear: "le_bytes 8 (le_word vir AND NOT (le_word cur) :: u64) = virgin_clear cur vir"
  proof -
    have "map2 (\<lambda>x y. x AND NOT y) vir cur = virgin_clear cur vir"
      unfolding virgin_clear_def using len by (intro nth_equalityI) simp_all
    then show ?thesis using len by (simp add: le_word_andnot le_bytes8_le_word virgin_clear_def)
  qed
  have word: "(le_word cur AND le_word vir :: u64) = 0 \<longleftrightarrow> \<not> new_count cur vir"
    using len by (intro new_count_word) simp_all
  have level: "new_tuple cur vir \<Longrightarrow> new_count cur vir" by (rule new_tuple_count)
  have "ret = 0 \<or> ret = 1 \<or> ret = 2"
    using ret by (rule le_2_cases)
  then show ?thesis
    unfolding discover_word_def Let_def tuple clear word new_bits_level_def
    using not_new_count_clear [of cur vir] level len
    by (cases "new_count cur vir"; cases "new_tuple cur vir") auto
qed

lemma zero_word_spec:
  assumes "length cur = 8" "length vir = 8" "(le_word cur :: u64) = 0"
  shows "\<not> new_count cur vir"
proof -
  have "(le_word cur AND le_word vir :: u64) = 0" using assms(3) by simp
  then show ?thesis using new_count_word [of cur vir, where 'a = 64] assms by simp
qed

lemma new_bits_level_append:
  "length cur = length vir \<Longrightarrow>
   new_bits_level (cur @ cur') (vir @ vir') = max (new_bits_level cur vir) (new_bits_level cur' vir')"
  using new_tuple_count [of cur vir] new_tuple_count [of cur' vir']
  by (auto simp: new_bits_level_def new_append)

lemma new_bits_level_le: "new_bits_level cur vir \<le> 2"
  by (simp add: new_bits_level_def)

lemma new_bits_loop_spec:
  "8 * n \<le> length cur \<Longrightarrow> 8 * n \<le> length vir \<Longrightarrow> ret \<le> 2 \<Longrightarrow>
   new_bits_loop n ret cur vir =
     (max ret (new_bits_level (take (8 * n) cur) (take (8 * n) vir)),
      virgin_clear (take (8 * n) cur) (take (8 * n) vir) @ drop (8 * n) vir)"
proof (induction n arbitrary: cur vir ret)
  case 0
  then show ?case by (simp add: new_bits_level_def new_tuple_def new_count_def virgin_clear_def)
next
  case (Suc n)
  let ?c = "take 8 cur" and ?v = "take 8 vir"
  have len: "length ?c = 8" "length ?v = 8" using Suc.prems by simp_all
  have step: "(if (le_word ?c :: u64) \<noteq> 0 then discover_word ret ?c ?v else (ret, ?v)) =
      (max ret (new_bits_level ?c ?v), virgin_clear ?c ?v)"
    using discover_word_spec [OF len Suc.prems(3)] zero_word_spec [OF len] not_new_count_clear [of ?c ?v]
      new_tuple_count [of ?c ?v] len by (auto simp: new_bits_level_def)
  have split: "take (8 * Suc n) xs = take 8 xs @ take (8 * n) (drop 8 xs)" for xs :: "u8 list"
    by (simp add: take_add)
  show ?case
    unfolding new_bits_loop.simps step split
    using Suc.IH [of "drop 8 cur" "drop 8 vir" "max ret (new_bits_level ?c ?v)"] Suc.prems len
    by (simp add: new_bits_level_append new_append new_bits_level_le max.assoc add.commute)
qed

lemma skim_word_spec:
  assumes "32 \<le> length cur" "32 \<le> length vir" "j < 4"
  shows "skim_word vir cur j \<longleftrightarrow>
    new_count (map count_class_lookup8 (take 8 (drop (8 * j) cur))) (take 8 (drop (8 * j) vir))"
proof -
  let ?c = "take 8 (drop (8 * j) cur)" and ?v = "take 8 (drop (8 * j) vir)"
  have len: "length ?c = 8" "length ?v = 8" using assms by simp_all
  have "(le_word (map count_class_lookup8 ?c) AND le_word ?v :: u64) = 0 \<longleftrightarrow>
      \<not> new_count (map count_class_lookup8 ?c) ?v"
    using len by (intro new_count_word) simp_all
  moreover have "(le_word (map count_class_lookup8 ?c) :: u64) = 0" if "(le_word ?c :: u64) = 0"
  proof -
    have "\<forall>b\<in>set ?c. b = 0" using that load64_zero_iff [OF len(1)] by blast
    then have "map count_class_lookup8 ?c = ?c" by (simp add: count_class_lookup8_def map_idI)
    then show ?thesis using that by simp
  qed
  ultimately show ?thesis
    unfolding skim_word_def Let_def classify_word_bytes [OF len(1)] by auto
qed

lemma take_32: "take 32 xs = take 8 xs @ take 8 (drop 8 xs) @ take 8 (drop 16 xs) @ take 8 (drop 24 xs)"
proof -
  have "take (8 + (8 + (8 + 8))) xs = take 8 xs @ take 8 (drop 8 xs) @ take 8 (drop 16 xs) @ take 8 (drop 24 xs)"
    by (simp only: take_add drop_drop) simp
  then show ?thesis by simp
qed

lemma skim_block:
  assumes "32 \<le> length cur" "32 \<le> length vir"
  shows "list_ex (skim_word vir cur) [0, 1, 2, 3] \<longleftrightarrow>
    new_count (map count_class_lookup8 (take 32 cur)) (take 32 vir)"
  unfolding take_32 using assms
  by (simp add: skim_word_spec new_append)

lemma skim_spec:
  "n \<le> length cur \<Longrightarrow> n \<le> length vir \<Longrightarrow> n mod 32 = 0 \<Longrightarrow>
   skim vir cur n = (if new_count (map count_class_lookup8 (take n cur)) (take n vir) then 1 else 0)"
proof (induction vir cur n rule: skim.induct)
  case (1 vir cur n)
  show ?case
  proof (cases "n = 0")
    case True
    then show ?thesis by (subst skim.simps) (simp add: new_count_def)
  next
    case False
    then have n: "32 \<le> n" using 1(4) by (metis mod_less not_less)
    have "take n xs = take 32 xs @ take (n - 32) (drop 32 xs)" for xs :: "u8 list"
      using n by (metis le_add_diff_inverse take_add)
    moreover have "(n - 32) mod 32 = 0" using 1(4) n by (metis mod_add_self2 le_add_diff_inverse2)
    ultimately show ?thesis
      using 1 False n skim_block [of cur vir] by (subst skim.simps) (auto simp: new_append)
  qed
qed

lemma minimize_loop_ones:
  "(i + k + 7) div 8 \<le> length dst \<Longrightarrow>
   bit_ones (minimize_loop k i dst src) = bit_ones dst \<union> {j. i \<le> j \<and> j < i + k \<and> src ! j \<noteq> 0}"
proof (induction k arbitrary: i dst)
  case 0
  then show ?case by auto
next
  case (Suc k)
  let ?d = "if src ! i \<noteq> 0 then dst[i div 8 := dst ! (i div 8) OR push_bit (i mod 8) 1] else dst"
  have "i < 8 * length dst" using Suc.prems by linarith
  then have "bit_ones ?d = (if src ! i \<noteq> 0 then insert i (bit_ones dst) else bit_ones dst)"
    using bit_ones_set by auto
  moreover have "bit_ones (minimize_loop (Suc k) i dst src) =
      bit_ones ?d \<union> {j. Suc i \<le> j \<and> j < Suc i + k \<and> src ! j \<noteq> 0}"
    unfolding minimize_loop.simps by (rule Suc.IH) (use Suc.prems in simp)
  moreover have "{j. i \<le> j \<and> j < i + Suc k \<and> src ! j \<noteq> 0} =
      (if src ! i \<noteq> 0 then {i} else {}) \<union> {j. Suc i \<le> j \<and> j < Suc i + k \<and> src ! j \<noteq> 0}"
    by (auto simp: Suc_le_eq order.order_iff_strict)
  ultimately show ?case by (auto split: if_splits)
qed

lemma virgin_get_put [simp]: "virgin_get m (virgin_put m v afl) = v"
  by (cases m) simp_all

lemma virgin_put_simps [simp]:
  "trace_bits (virgin_put m v afl) = trace_bits afl" "map_size (virgin_put m v afl) = map_size afl"
  "real_map_size (virgin_put m v afl) = real_map_size afl"
  "words64 (virgin_put m v afl) = words64 afl"
  "bitmap_changed (virgin_put m v afl) = bitmap_changed afl"
  by (cases m; simp add: words64_def)+

lemma virgin_get_changed [simp]:
  "virgin_get m (afl\<lparr>bitmap_changed := b\<rparr>) = virgin_get m afl"
  "virgin_get m (afl\<lparr>trace_bits := t\<rparr>) = virgin_get m afl"
  by (cases m; simp)+

lemma virgin_put_same [simp]: "virgin_put m (virgin_get m afl) afl = afl"
  by (cases m) simp_all

lemma words_simps [simp]: "words64 (afl\<lparr>bitmap_changed := b\<rparr>) = words64 afl" "words64 (afl\<lparr>trace_bits := t\<rparr>) = words64 afl"
  "words64 (afl\<lparr>virgin_bits := t\<rparr>) = words64 afl"
  by (simp_all add: words64_def)

lemma virgin_clear_none: "length cur = length vir \<Longrightarrow> \<not> new_count cur (virgin_clear cur vir)"
proof (induction cur vir rule: list_induct2)
  case Nil
  then show ?case by (simp add: virgin_clear_def new_count_def)
next
  case (Cons c cur v vir)
  have "c AND (v AND NOT c) = 0" by (rule bit_word_eqI) (auto simp: bit_simps)
  then show ?case using Cons by (simp add: virgin_clear_def new_count_def)
qed

lemma new_bits_level_0: "new_bits_level cur vir = 0 \<longleftrightarrow> \<not> new_count cur vir"
  using new_tuple_count [of cur vir] by (auto simp: new_bits_level_def)

text \<open>
  The maps as the fuzzer allocates them: all of \<open>map_size\<close> bytes, a multiple of
  the 32 bytes \<open>skim\<close> reads at a time, and the part in use no larger.
\<close>

definition maps_ok :: "afl_state \<Rightarrow> virgin_ref \<Rightarrow> bool" where
  "maps_ok afl m \<longleftrightarrow>
     length (trace_bits afl) = unat (map_size afl) \<and> length (virgin_get m afl) = unat (map_size afl) \<and>
     unat (map_size afl) mod 32 = 0 \<and> real_map_size afl \<le> map_size afl \<and>
     unat (map_size afl) + 7 < 2 ^ 32"

lemma words64_bound:
  assumes "maps_ok afl m"
  shows "words64 afl = (unat (real_map_size afl) + 7) div 8" "8 * words64 afl \<le> unat (map_size afl)"
proof -
  have le: "unat (real_map_size afl) \<le> unat (map_size afl)"
    using assms by (simp add: maps_ok_def word_le_nat_alt)
  then have "unat (real_map_size afl + 7) = unat (real_map_size afl) + 7"
    using assms by (simp add: maps_ok_def unat_word_ariths)
  then show "words64 afl = (unat (real_map_size afl) + 7) div 8"
    by (simp add: words64_def drop_bit_eq_div unat_div)
  moreover have "unat (map_size afl) mod 32 = 0" using assms by (simp add: maps_ok_def)
  ultimately show "8 * words64 afl \<le> unat (map_size afl)" using le by presburger
qed

lemma has_new_bits_parts:
  assumes "maps_ok afl m"
  defines "cur \<equiv> take (8 * words64 afl) (trace_bits afl)" and "vir \<equiv> take (8 * words64 afl) (virgin_get m afl)"
  shows "fst (has_new_bits afl m) = new_bits_level cur vir"
    "virgin_get m (snd (has_new_bits afl m)) = virgin_clear cur vir @ drop (8 * words64 afl) (virgin_get m afl)"
    "bitmap_changed (snd (has_new_bits afl m)) \<longleftrightarrow>
       bitmap_changed afl \<or> m = VirginBits \<and> new_bits_level cur vir \<noteq> 0"
    "trace_bits (snd (has_new_bits afl m)) = trace_bits afl"
    "words64 (snd (has_new_bits afl m)) = words64 afl" "map_size (snd (has_new_bits afl m)) = map_size afl"
    "real_map_size (snd (has_new_bits afl m)) = real_map_size afl"
proof -
  have loop: "new_bits_loop (words64 afl) 0 (trace_bits afl) (virgin_get m afl) =
      (new_bits_level cur vir, virgin_clear cur vir @ drop (8 * words64 afl) (virgin_get m afl))"
    using new_bits_loop_spec [of "words64 afl" "trace_bits afl" "virgin_get m afl" 0] assms(1) words64_bound [OF assms(1)]
    by (simp add: maps_ok_def cur_def vir_def)
  show "fst (has_new_bits afl m) = new_bits_level cur vir"
    "virgin_get m (snd (has_new_bits afl m)) = virgin_clear cur vir @ drop (8 * words64 afl) (virgin_get m afl)"
    "bitmap_changed (snd (has_new_bits afl m)) \<longleftrightarrow>
       bitmap_changed afl \<or> m = VirginBits \<and> new_bits_level cur vir \<noteq> 0"
    "trace_bits (snd (has_new_bits afl m)) = trace_bits afl"
    "words64 (snd (has_new_bits afl m)) = words64 afl" "map_size (snd (has_new_bits afl m)) = map_size afl"
    "real_map_size (snd (has_new_bits afl m)) = real_map_size afl"
    by (simp_all add: has_new_bits_def loop Let_def)
qed

lemma has_new_bits_nothing:
  assumes "maps_ok afl m"
    and "\<not> new_count (take (8 * words64 afl) (trace_bits afl)) (take (8 * words64 afl) (virgin_get m afl))"
  shows "has_new_bits afl m = (0, afl)"
proof -
  have "new_bits_loop (words64 afl) 0 (trace_bits afl) (virgin_get m afl) = (0, virgin_get m afl)"
    using new_bits_loop_spec [of "words64 afl" "trace_bits afl" "virgin_get m afl" 0] assms words64_bound [OF assms(1)]
      not_new_count_clear [OF _ assms(2)] new_bits_level_0 [of "take (8 * words64 afl) (trace_bits afl)"]
    by (simp add: maps_ok_def)
  then show ?thesis by (simp add: has_new_bits_def)
qed

section \<open>Properties\<close>

text \<open>
  The three counters are exact: \<open>count_bits\<close>, with its parallel bit count and
  its shortcut for full words, returns the number of one bits of the buffer,
  \<open>count_bytes\<close> the number of non-zero bytes and \<open>count_non_255_bytes\<close> the number
  of bytes other than 255, for every buffer below the size at which the 32-bit result would wrap.
\<close>

theorem afl_counts_exact:
  assumes "length mem = 4 * words32 afl" "words32 afl < 2 ^ 27"
  shows "unat (count_bits afl mem) = card (bit_ones mem) \<and>
     unat (count_bytes afl mem) = length (filter (\<lambda>b. b \<noteq> 0) mem) \<and>
     unat (count_non_255_bytes afl mem) = length (filter (\<lambda>b. b \<noteq> 0xff) mem)"
proof -
  have small: "unat (of_nat k :: u32) = k" if "k \<le> 8 * length mem" for k
    using that assms by (simp add: unat_of_nat take_bit_nat_eq_self)
  have "card (bit_ones mem) \<le> card {..<8 * length mem}"
    by (rule card_mono) (auto simp: bit_ones_def)
  moreover have "length (filter P mem) \<le> 8 * length mem" for P
    using length_filter_le [of P mem] by linarith
  ultimately show ?thesis
    using assms(1) small
    by (simp add: count_bits_def count_bytes_def count_non_255_bytes_def count_bits_loop_ones
        count_bytes_loop_filter count_non_255_bytes_loop_filter)
qed

definition example_afl :: "u8 list \<Rightarrow> u8 list \<Rightarrow> afl_state" where
  "example_afl t v = \<lparr>trace_bits = t, map_size = 32, real_map_size = 20, virgin_bits = v,
     virgin_tmout = replicate 32 255, virgin_crash = replicate 32 255, bitmap_changed = False\<rparr>"

definition example_trace :: "u8 list" where
  "example_trace = [0, 5, 0, 0, 0, 1, 0, 0] @ replicate 24 0"

definition example_virgin :: "u8 list" where
  "example_virgin = [255, 255, 255, 255, 255, 254, 255, 255] @ replicate 24 255"

theorem afl_counts_exact_witness:
  "unat (count_bytes (example_afl [] []) (take 20 example_trace)) = 2"
  using afl_counts_exact [of "take 20 example_trace" "example_afl [] []"]
  by (simp add: words32_def example_afl_def example_trace_def)

text \<open>
  C32 Classification and simplification act byte by byte: the word-at-a-time loops
  with the 16-bit table and the shortcuts for zero words leave every byte of the map
  with its entry of the 8-bit table, and \<open>classify_counts\<close> touches nothing else.
\<close>

theorem afl_trace_bytewise:
  assumes "length mem = unat (map_size afl)" "unat (map_size afl) mod 8 = 0"
  shows "classify_counts (afl\<lparr>trace_bits := mem\<rparr>) = afl\<lparr>trace_bits := map count_class_lookup8 mem\<rparr> \<and>
     simplify_trace afl mem = map simplify_lookup mem"
proof -
  have "8 * unat (drop_bit 3 (map_size afl)) = length mem"
    using assms by (simp add: drop_bit_eq_div unat_div) presburger
  then show ?thesis
    by (simp add: classify_counts_def simplify_trace_def classify_loop_bytes simplify_loop_bytes)
qed

theorem afl_trace_bytewise_witness:
  "simplify_trace (example_afl [] []) example_trace =
     [1, 128, 1, 1, 1, 128, 1, 1] @ replicate 24 1"
  using afl_trace_bytewise [of example_trace "example_afl [] []"]
  by (simp add: example_afl_def example_trace_def simplify_lookup_def)

text \<open>
  C4 \<open>has_new_bits\<close> reports exactly what is new: 2 when some byte of the trace is
  hit whose virgin byte is untouched, otherwise 1 when some hit count bit is still
  virgin, otherwise 0.  The virgin map loses exactly the bits of the trace, the
  changed flag is raised only for \<open>virgin_bits\<close>, and a second call returns 0 and
  changes nothing.
\<close>

theorem has_new_bits_spec:
  assumes "maps_ok afl m"
    and "cur = take (8 * words64 afl) (trace_bits afl)" "vir = take (8 * words64 afl) (virgin_get m afl)"
    and "has_new_bits afl m = (ret, afl')"
  shows "ret = new_bits_level cur vir \<and>
     virgin_get m afl' = virgin_clear cur vir @ drop (8 * words64 afl) (virgin_get m afl) \<and>
     (bitmap_changed afl' \<longleftrightarrow> bitmap_changed afl \<or> m = VirginBits \<and> ret \<noteq> 0) \<and>
     has_new_bits afl' m = (0, afl')"
proof -
  have parts: "fst (has_new_bits afl m) = ret" "snd (has_new_bits afl m) = afl'" using assms(4) by simp_all
  note spec = has_new_bits_parts [OF assms(1), folded assms(2,3), unfolded parts]
  have len: "length cur = 8 * words64 afl" "length vir = 8 * words64 afl"
    using assms(1-3) words64_bound [OF assms(1)] by (simp_all add: maps_ok_def)
  have lenc: "length (virgin_clear cur vir) = 8 * words64 afl" using len by (simp add: virgin_clear_def)
  have "maps_ok afl' m"
    using assms(1) spec(2,4,6,7) lenc words64_bound [OF assms(1)] by (simp add: maps_ok_def)
  moreover have "take (8 * words64 afl') (virgin_get m afl') = virgin_clear cur vir"
    using spec lenc by simp
  moreover have "\<not> new_count cur (virgin_clear cur vir)" using len by (intro virgin_clear_none) simp
  ultimately have "has_new_bits afl' m = (0, afl')"
    using has_new_bits_nothing [of afl' m] spec(4,5) assms(2) by simp
  then show ?thesis using spec by auto
qed

theorem has_new_bits_spec_witness:
  "fst (has_new_bits (example_afl example_trace example_virgin) VirginBits) = 2 \<and>
   bitmap_changed (snd (has_new_bits (example_afl example_trace example_virgin) VirginBits))"
proof -
  let ?afl = "example_afl example_trace example_virgin"
  have ok: "maps_ok ?afl VirginBits" "words64 ?afl = 3"
    by (simp_all add: maps_ok_def example_afl_def example_trace_def example_virgin_def words64_def)
  obtain ret afl' where r: "has_new_bits ?afl VirginBits = (ret, afl')" by fastforce
  have "new_bits_level (take 24 example_trace) (take 24 example_virgin) = 2"
    by (simp add: new_bits_level_def new_tuple_def example_trace_def example_virgin_def)
  then show ?thesis
    using has_new_bits_spec [OF ok(1) refl refl r] r ok(2) by (simp add: example_afl_def)
qed

text \<open>
  C8 The one-pass check is equivalent to the two-pass one:
  \<open>has_new_bits_unclassified\<close> returns what \<open>classify_counts\<close> followed by
  \<open>has_new_bits\<close> returns, with the same virgin maps and changed flag; only the trace
  itself may be left unclassified, and then nothing was found.
\<close>

theorem unclassified_equivalent:
  assumes "maps_ok afl m"
  shows "fst (has_new_bits_unclassified afl m) = fst (has_new_bits (classify_counts afl) m) \<and>
     (snd (has_new_bits_unclassified afl m))\<lparr>trace_bits := t\<rparr> =
       (snd (has_new_bits (classify_counts afl) m))\<lparr>trace_bits := t\<rparr> \<and>
     (trace_bits (snd (has_new_bits_unclassified afl m)) = map count_class_lookup8 (trace_bits afl) \<or>
      has_new_bits_unclassified afl m = (0, afl))"
proof -
  let ?t = "map count_class_lookup8 (trace_bits afl)" and ?n = "unat (map_size afl)"
  have size: "8 * unat (drop_bit 3 (map_size afl)) = length (trace_bits afl)"
  proof -
    have "unat (map_size afl) mod 32 = 0" "length (trace_bits afl) = unat (map_size afl)"
      using assms by (simp_all add: maps_ok_def)
    then show ?thesis by (simp add: drop_bit_eq_div unat_div) presburger
  qed
  have cls: "classify_counts afl = afl\<lparr>trace_bits := ?t\<rparr>"
    using size by (simp add: classify_counts_def classify_loop_bytes)
  have ok: "maps_ok (afl\<lparr>trace_bits := ?t\<rparr>) m" using assms by (simp add: maps_ok_def)
  have skim: "skim (virgin_get m afl) (trace_bits afl) ?n = (if new_count ?t (virgin_get m afl) then 1 else 0)"
    using assms by (subst skim_spec) (simp_all add: maps_ok_def)
  show ?thesis
  proof (cases "new_count ?t (virgin_get m afl)")
    case True
    then show ?thesis
      using has_new_bits_parts(4) [OF ok]
      by (simp add: has_new_bits_unclassified_def skim cls)
  next
    case False
    let ?k = "8 * words64 afl"
    have "\<not> new_count (take ?k ?t) (take ?k (virgin_get m afl))"
      using False new_append(2) [of "take ?k ?t" "take ?k (virgin_get m afl)" "drop ?k ?t" "drop ?k (virgin_get m afl)"]
        assms by (simp add: maps_ok_def)
    then show ?thesis
      using False has_new_bits_nothing [OF ok] by (simp add: has_new_bits_unclassified_def skim cls)
  qed
qed

theorem unclassified_equivalent_witness:
  "fst (has_new_bits_unclassified (example_afl example_trace example_virgin) VirginBits) =
   fst (has_new_bits (classify_counts (example_afl example_trace example_virgin)) VirginBits)"
proof -
  have "maps_ok (example_afl example_trace example_virgin) VirginBits"
    by (simp add: maps_ok_def example_afl_def example_trace_def example_virgin_def)
  then show ?thesis using unclassified_equivalent [of _ VirginBits "[]"] by blast
qed

text \<open>
  \<open>minimize_bits\<close> sets, in a destination of one bit per map byte, exactly the
  bits of the bytes that are hit, and keeps the bits already set.
\<close>

lemma minimize_bits_ones:
  assumes "(unat (map_size afl) + 7) div 8 \<le> length dst"
  shows "bit_ones (minimize_bits afl dst src) = bit_ones dst \<union> {i. i < unat (map_size afl) \<and> src ! i \<noteq> 0}"
  unfolding minimize_bits_def using assms by (subst minimize_loop_ones) auto

end
