(* ===== verification/Afl_Queue.thy ===== *)
theory Afl_Queue
  imports Afl_Bitmap "HOL-Library.Monad_Syntax"
begin

text \<open>
  The queue of inputs of AFL++ (\<open>src/testbed/aflpp/src/afl-fuzz-queue.c\<close>): adding entries, rating
  them for the bytes of the coverage map (\<open>update_bitmap_score\<close>) and choosing the favored ones
  (\<open>cull_queue\<close>).  \<open>rated\<close> is the invariant of the table of best entries and of the reference
  counts and compressed traces; it is kept by every sequence of operations, and culling leaves
  favored entries that hit every byte the rated inputs hit.  The compressed traces are those
  \<open>minimize_bits\<close> of \<open>Afl_Bitmap\<close> computes.  File names, cached test cases, custom mutators and
  the clock are left out; whether a marker file can be written is a parameter.
\<close>

section \<open>Queue entries and the state of the queue\<close>

text \<open>The power schedules, in the order of the enumeration.\<close>

datatype schedule = EXPLORE | MMOPT | EXPLOIT | FAST | COE | LIN | QUAD | RARE | SEEK

fun schedule_num :: "schedule \<Rightarrow> nat" where
  "schedule_num EXPLORE = 0"
| "schedule_num MMOPT = 1"
| "schedule_num EXPLOIT = 2"
| "schedule_num FAST = 3"
| "schedule_num COE = 4"
| "schedule_num LIN = 5"
| "schedule_num QUAD = 6"
| "schedule_num RARE = 7"
| "schedule_num SEEK = 8"

lemma schedule_num_inj: "schedule_num x = schedule_num y \<longleftrightarrow> x = y"
  by (cases x; cases y) simp_all

instantiation schedule :: linorder
begin

definition less_eq_schedule :: "schedule \<Rightarrow> schedule \<Rightarrow> bool" where
  "less_eq_schedule x y \<longleftrightarrow> schedule_num x \<le> schedule_num y"

definition less_schedule :: "schedule \<Rightarrow> schedule \<Rightarrow> bool" where
  "less_schedule x y \<longleftrightarrow> schedule_num x < schedule_num y"

instance
  by standard (auto simp: less_eq_schedule_def less_schedule_def schedule_num_inj)

end

text \<open>
  \<open>q_trace_mini\<close> is \<open>None\<close> for a null pointer.  The names of the files and the caches of the
  test cases are left out.
\<close>

record queue_entry =
  q_len :: u32
  q_id :: u32
  q_was_fuzzed :: bool
  q_passed_det :: bool
  q_favored :: bool
  q_fs_redundant :: bool
  q_disabled :: bool
  q_bitmap_size :: u32
  q_fuzz_level :: u32
  q_n_fuzz_entry :: u32
  q_exec_us :: u64
  q_handicap :: u64
  q_depth :: u64
  q_trace_mini :: "u8 list option"
  q_tc_ref :: u32
  q_perf_score :: real
  q_weight :: real

text \<open>A pointer to a queue entry is its index in \<open>queue_buf\<close>; \<open>queued_items\<close> is the length of the buffer.\<close>

record queue_state =
  afl_maps :: afl_state
  queue_buf :: "queue_entry list"
  top_rated :: "nat option list"
  n_fuzz :: "u32 list"
  schedule :: schedule
  fixed_seed :: bool
  non_instrumented_mode :: bool
  score_changed :: bool
  reinit_table :: bool
  queued_favored :: u32
  pending_favored :: u32
  smallest_favored :: int
  cur_depth :: u32
  max_depth :: u32
  ready_for_splicing_count :: u32
  active_items :: u32
  pending_not_fuzzed :: u32
  cycles_wo_finds :: u64

section \<open>Adding entries\<close>

definition add_to_queue :: "queue_state \<Rightarrow> u32 \<Rightarrow> bool \<Rightarrow> queue_state" where
  "add_to_queue afl len passed_det =
     (let q = \<lparr>q_len = len, q_id = of_nat (length (queue_buf afl)), q_was_fuzzed = False, q_passed_det = passed_det,
               q_favored = False, q_fs_redundant = False, q_disabled = False, q_bitmap_size = 0, q_fuzz_level = 0,
               q_n_fuzz_entry = 0, q_exec_us = 0, q_handicap = 0, q_depth = ucast (cur_depth afl + 1), q_trace_mini = None,
               q_tc_ref = 0, q_perf_score = 0, q_weight = 0\<rparr>
      in afl\<lparr>queue_buf := queue_buf afl @ [q],
             max_depth := (if q_depth q > ucast (max_depth afl) then ucast (q_depth q) else max_depth afl),
             ready_for_splicing_count := (if len > 4 then ready_for_splicing_count afl + 1 else ready_for_splicing_count afl),
             active_items := active_items afl + 1,
             pending_not_fuzzed := pending_not_fuzzed afl + 1,
             cycles_wo_finds := 0\<rparr>)"

section \<open>The best entry for every byte\<close>

definition next_pow2 :: "u64 \<Rightarrow> u64" where
  "next_pow2 x =
     (let out = x - 1;
          out = out OR drop_bit 1 out;
          out = out OR drop_bit 2 out;
          out = out OR drop_bit 4 out;
          out = out OR drop_bit 8 out;
          out = out OR drop_bit 16 out
      in out + 1)"

definition fuzz_p2 :: "queue_state \<Rightarrow> queue_entry \<Rightarrow> u64 option" where
  "fuzz_p2 afl q =
     (if schedule afl \<ge> FAST \<and> schedule afl < RARE then Some 0
      else if schedule afl = RARE then map_option (\<lambda>n. next_pow2 (ucast n)) (slot (n_fuzz afl) (unat (q_n_fuzz_entry q)))
      else Some (ucast (q_fuzz_level q)))"

definition fav_factor :: "queue_state \<Rightarrow> queue_entry \<Rightarrow> u64" where
  "fav_factor afl q =
     (if schedule afl \<ge> RARE \<or> fixed_seed afl then ucast (push_bit 2 (q_len q)) else q_exec_us q * ucast (q_len q))"

definition modify_entry :: "(queue_entry \<Rightarrow> queue_entry) \<Rightarrow> nat \<Rightarrow> queue_state \<Rightarrow> queue_state" where
  "modify_entry f w afl = afl\<lparr>queue_buf := (queue_buf afl)[w := f (queue_buf afl ! w)]\<rparr>"

text \<open>The previous winner loses a byte.\<close>

definition drop_ref :: "queue_entry \<Rightarrow> queue_entry" where
  "drop_ref e =
     (let e = e\<lparr>q_tc_ref := q_tc_ref e - 1\<rparr>
      in if q_tc_ref e = 0 then e\<lparr>q_trace_mini := None\<rparr> else e)"

text \<open>The new winner.\<close>

definition add_ref :: "afl_state \<Rightarrow> queue_entry \<Rightarrow> queue_entry" where
  "add_ref maps e =
     (let e = e\<lparr>q_tc_ref := q_tc_ref e + 1\<rparr>
      in if q_trace_mini e = None
         then e\<lparr>q_trace_mini := Some (minimize_bits maps (replicate (unat (drop_bit 3 (map_size maps))) 0) (trace_bits maps))\<rparr>
         else e)"

definition score_win :: "queue_state \<Rightarrow> nat \<Rightarrow> nat \<Rightarrow> queue_state" where
  "score_win afl q i =
     (modify_entry (add_ref (afl_maps afl)) q (afl\<lparr>top_rated := (top_rated afl)[i := Some q]\<rparr>))\<lparr>score_changed := True\<rparr>"

definition score_slot :: "nat \<Rightarrow> u64 \<Rightarrow> u64 \<Rightarrow> nat \<Rightarrow> queue_state \<Rightarrow> queue_state option" where
  "score_slot q fuzz fav i afl = do {
     b \<leftarrow> slot (trace_bits (afl_maps afl)) i;
     if b = 0 then Some afl
     else do {
       t \<leftarrow> slot (top_rated afl) i;
       case t of
         None \<Rightarrow> Some (score_win afl q i)
       | Some w \<Rightarrow> do {
           e \<leftarrow> slot (queue_buf afl) w;
           top_fuzz \<leftarrow> fuzz_p2 afl e;
           if fuzz > top_fuzz then Some afl
           else if fav > fav_factor afl e then Some afl
           else Some (score_win (modify_entry drop_ref w afl) q i)
         }
     }
   }"

fun score_loop :: "nat \<Rightarrow> nat \<Rightarrow> nat \<Rightarrow> u64 \<Rightarrow> u64 \<Rightarrow> queue_state \<Rightarrow> queue_state option" where
  "score_loop 0 i q fuzz fav afl = Some afl"
| "score_loop (Suc k) i q fuzz fav afl = do { afl \<leftarrow> score_slot q fuzz fav i afl; score_loop k (Suc i) q fuzz fav afl }"

definition update_bitmap_score :: "queue_state \<Rightarrow> nat \<Rightarrow> queue_state option" where
  "update_bitmap_score afl q = do {
     e \<leftarrow> slot (queue_buf afl) q;
     fuzz \<leftarrow> fuzz_p2 afl e;
     score_loop (unat (map_size (afl_maps afl))) 0 q fuzz (fav_factor afl e) afl
   }"

section \<open>The favored entries\<close>

text \<open>\<open>PFATAL\<close>: the program stops.\<close>

datatype fatal = Unable_To_Create nat | Unable_To_Remove nat

text \<open>\<open>io w st\<close> tells whether the marker file of the entry can be created or removed.\<close>

definition mark_as_redundant :: "(nat \<Rightarrow> bool \<Rightarrow> bool) \<Rightarrow> nat \<Rightarrow> bool \<Rightarrow> queue_state \<Rightarrow> fatal + queue_state" where
  "mark_as_redundant io w st afl =
     (if st = q_fs_redundant (queue_buf afl ! w) then Inr afl
      else let afl = modify_entry (\<lambda>e. e\<lparr>q_fs_redundant := st\<rparr>) w afl
        in if io w st then Inr afl
           else Inl (if st then Unable_To_Create w else Unable_To_Remove w))"

fun redundant_loop :: "(nat \<Rightarrow> bool \<Rightarrow> bool) \<Rightarrow> nat \<Rightarrow> nat \<Rightarrow> queue_state \<Rightarrow> fatal + queue_state" where
  "redundant_loop io 0 i afl = Inr afl"
| "redundant_loop io (Suc k) i afl =
     (if q_disabled (queue_buf afl ! i) then redundant_loop io k (Suc i) afl
      else case mark_as_redundant io i (\<not> q_favored (queue_buf afl ! i)) afl of
             Inl err \<Rightarrow> Inl err
           | Inr afl \<Rightarrow> redundant_loop io k (Suc i) afl)"

fun clear_bits :: "nat \<Rightarrow> u8 list \<Rightarrow> u8 list \<Rightarrow> u8 list option" where
  "clear_bits 0 mini temp_v = Some temp_v"
| "clear_bits (Suc j) mini temp_v = do {
     m \<leftarrow> slot mini j;
     v \<leftarrow> slot temp_v j;
     clear_bits j mini (if m \<noteq> 0 then temp_v[j := v AND NOT m] else temp_v)
   }"

definition favor :: "nat \<Rightarrow> queue_state \<Rightarrow> queue_state" where
  "favor w afl =
     (let e = queue_buf afl ! w
      in if q_favored e then afl
         else let afl = (modify_entry (\<lambda>e. e\<lparr>q_favored := True\<rparr>) w afl)\<lparr>queued_favored := queued_favored afl + 1\<rparr>
           in if q_was_fuzzed e then afl
              else afl\<lparr>pending_favored := pending_favored afl + 1,
                       smallest_favored := (if smallest_favored afl < 0 then uint (q_id e) else smallest_favored afl)\<rparr>)"

definition cull_slot :: "nat \<Rightarrow> nat \<Rightarrow> queue_state \<times> u8 list \<Rightarrow> (queue_state \<times> u8 list) option" where
  "cull_slot len i s = (case s of (afl, temp_v) \<Rightarrow> do {
     t \<leftarrow> slot (top_rated afl) i;
     case t of
       None \<Rightarrow> Some s
     | Some w \<Rightarrow> do {
         v \<leftarrow> slot temp_v (i div 8);
         if v AND push_bit (i mod 8) 1 = 0 then Some s
         else do {
           e \<leftarrow> slot (queue_buf afl) w;
           mini \<leftarrow> q_trace_mini e;
           temp_v \<leftarrow> clear_bits len mini temp_v;
           Some (favor w afl, temp_v)
         }
       }
   })"

fun cull_loop :: "nat \<Rightarrow> nat \<Rightarrow> nat \<Rightarrow> queue_state \<times> u8 list \<Rightarrow> (queue_state \<times> u8 list) option" where
  "cull_loop len 0 i s = Some s"
| "cull_loop len (Suc k) i s = do { s \<leftarrow> cull_slot len i s; cull_loop len k (Suc i) s }"

definition cull_queue :: "(nat \<Rightarrow> bool \<Rightarrow> bool) \<Rightarrow> queue_state \<Rightarrow> (fatal + queue_state) option" where
  "cull_queue io afl =
     (if \<not> score_changed afl \<or> non_instrumented_mode afl then Some (Inr afl)
      else do {
        let len = unat (drop_bit 3 (map_size (afl_maps afl)));
        let afl = afl\<lparr>score_changed := False, queued_favored := 0, pending_favored := 0,
                      queue_buf := map (\<lambda>e. e\<lparr>q_favored := False\<rparr>) (queue_buf afl), smallest_favored := -1\<rparr>;
        (afl, _) \<leftarrow> cull_loop len (unat (map_size (afl_maps afl))) 0 (afl, replicate len 255);
        Some (case redundant_loop io (length (queue_buf afl)) 0 afl of
                Inl err \<Rightarrow> Inl err
              | Inr afl \<Rightarrow> Inr (afl\<lparr>reinit_table := True\<rparr>))
      })"

section \<open>Sequences of operations\<close>

text \<open>
  The end of \<open>fuzz_one_original\<close>: the entry was fuzzed.  \<open>ok\<close>: the fuzzer is not being stopped and the
  calibration of the entry did not fail.
\<close>

definition entry_fuzzed :: "bool \<Rightarrow> nat \<Rightarrow> queue_state \<Rightarrow> queue_state" where
  "entry_fuzzed ok w afl =
     (let e = queue_buf afl ! w;
          afl = (if ok \<and> \<not> q_was_fuzzed e \<and> \<not> q_disabled e
                 then (modify_entry (\<lambda>e. e\<lparr>q_was_fuzzed := True\<rparr>) w afl)
                   \<lparr>pending_not_fuzzed := pending_not_fuzzed afl - 1, reinit_table := True,
                    pending_favored := (if q_favored e then pending_favored afl - 1 else pending_favored afl),
                    smallest_favored := (if q_favored e then -1 else smallest_favored afl)\<rparr>
                 else afl)
      in modify_entry (\<lambda>e. e\<lparr>q_fuzz_level := q_fuzz_level e + 1\<rparr>) w afl)"

text \<open>
  Inputs are added, with the execution time that their calibration measures; executed inputs
  are rated with their trace; entries are fuzzed; and the queue is culled.
\<close>

datatype queue_op = Add u32 bool u64 | Score nat "u8 list" | Fuzz nat bool | Cull

fun queue_step :: "(nat \<Rightarrow> bool \<Rightarrow> bool) \<Rightarrow> queue_op \<Rightarrow> queue_state \<Rightarrow> (fatal + queue_state) option" where
  "queue_step io (Add len passed_det us) afl =
     Some (Inr (modify_entry (\<lambda>e. e\<lparr>q_exec_us := us\<rparr>) (length (queue_buf afl)) (add_to_queue afl len passed_det)))"
| "queue_step io (Score q tr) afl =
     map_option Inr (update_bitmap_score (afl\<lparr>afl_maps := (afl_maps afl)\<lparr>trace_bits := tr\<rparr>\<rparr>) q)"
| "queue_step io (Fuzz w ok) afl = (if w < length (queue_buf afl) then Some (Inr (entry_fuzzed ok w afl)) else None)"
| "queue_step io Cull afl = cull_queue io afl"

fun queue_run :: "(nat \<Rightarrow> bool \<Rightarrow> bool) \<Rightarrow> queue_op list \<Rightarrow> queue_state \<Rightarrow> (fatal + queue_state) option" where
  "queue_run io [] afl = Some (Inr afl)"
| "queue_run io (x # xs) afl = do {
     r \<leftarrow> queue_step io x afl;
     case r of Inl err \<Rightarrow> Some (Inl err) | Inr afl \<Rightarrow> queue_run io xs afl
   }"

section \<open>Rounding to a power of two\<close>

lemma smear:
  assumes "\<forall>j. bit (z :: u64) j \<longleftrightarrow> (\<exists>d<m. bit (y :: u64) (j + d))" "0 < m"
  shows "\<forall>j. bit (z OR drop_bit m z) j \<longleftrightarrow> (\<exists>d<2 * m. bit y (j + d))"
proof
  fix j
  have "bit (drop_bit m z) j \<longleftrightarrow> (\<exists>d<m. bit y (j + m + d))" using assms(1) by (simp add: bit_drop_bit_eq add.commute)
  also have "\<dots> \<longleftrightarrow> (\<exists>d. m \<le> d \<and> d < 2 * m \<and> bit y (j + d))"
  proof
    assume "\<exists>d<m. bit y (j + m + d)"
    then obtain d where "d < m" "bit y (j + m + d)" by blast
    then show "\<exists>d. m \<le> d \<and> d < 2 * m \<and> bit y (j + d)" by (intro exI [of _ "m + d"]) (simp add: add.assoc)
  next
    assume "\<exists>d. m \<le> d \<and> d < 2 * m \<and> bit y (j + d)"
    then obtain d where "m \<le> d" "d < 2 * m" "bit y (j + d)" by blast
    then show "\<exists>d<m. bit y (j + m + d)" by (intro exI [of _ "d - m"]) auto
  qed
  finally show "bit (z OR drop_bit m z) j \<longleftrightarrow> (\<exists>d<2 * m. bit y (j + d))"
    using assms by (auto simp: bit_or_iff) (metis not_le)
qed

lemma next_pow2_bits:
  "next_pow2 x = z + 1 \<Longrightarrow> bit z j \<longleftrightarrow> (\<exists>d<32. bit (x - 1) (j + d))"
proof -
  assume z: "next_pow2 x = z + 1"
  define z1 where "z1 = (x - 1) OR drop_bit 1 (x - 1)"
  define z2 where "z2 = z1 OR drop_bit 2 z1"
  define z3 where "z3 = z2 OR drop_bit 4 z2"
  define z4 where "z4 = z3 OR drop_bit 8 z3"
  define z5 where "z5 = z4 OR drop_bit 16 z4"
  have 1: "\<forall>j. bit z1 j \<longleftrightarrow> (\<exists>d<2. bit (x - 1) (j + d))" unfolding z1_def using smear [of "x - 1" 1 "x - 1"] by simp
  have 2: "\<forall>j. bit z2 j \<longleftrightarrow> (\<exists>d<4. bit (x - 1) (j + d))" unfolding z2_def using smear [OF 1] by simp
  have 3: "\<forall>j. bit z3 j \<longleftrightarrow> (\<exists>d<8. bit (x - 1) (j + d))" unfolding z3_def using smear [OF 2] by simp
  have 4: "\<forall>j. bit z4 j \<longleftrightarrow> (\<exists>d<16. bit (x - 1) (j + d))" unfolding z4_def using smear [OF 3] by simp
  have 5: "\<forall>j. bit z5 j \<longleftrightarrow> (\<exists>d<32. bit (x - 1) (j + d))" unfolding z5_def using smear [OF 4] by simp
  have "next_pow2 x = z5 + 1" unfolding next_pow2_def Let_def z5_def z4_def z3_def z2_def z1_def ..
  then have "z = z5" using z by simp
  then show ?thesis using 5 by blast
qed

text \<open>Rounding up to a power of two is right up to \<open>2 ^ 32\<close>; beyond it the shift by 32 is missing.\<close>

lemma next_pow2_spec:
  assumes "x \<noteq> 0" "x \<le> 2 ^ 32"
  shows "\<exists>n\<le>32. next_pow2 x = 2 ^ n \<and> x \<le> 2 ^ n \<and> (\<forall>m<n. 2 ^ m < x)"
proof -
  define y where "y = x - 1"
  have uy: "unat y = unat x - 1" using assms(1) by (simp add: y_def unat_minus_one)
  have y32: "unat y < 2 ^ 32" using assms uy by (simp add: word_le_nat_alt unat_gt_0)
  have xpos: "0 < unat x" using assms(1) by (simp add: unat_gt_0)
  obtain z where z: "next_pow2 x = z + 1" by (metis diff_add_cancel)
  define n where "n = (LEAST n. unat y < 2 ^ n)"
  have n: "unat y < 2 ^ n" "n \<le> 32" unfolding n_def by (rule LeastI [of "\<lambda>n. unat y < 2 ^ n", OF y32], rule Least_le [of "\<lambda>n. unat y < 2 ^ n", OF y32])
  have least: "2 ^ m \<le> unat y" if "m < n" for m using that not_less_Least [of m "\<lambda>n. unat y < 2 ^ n"] unfolding n_def by (simp add: not_less)
  have ub: "bit y j \<longleftrightarrow> odd (unat y div 2 ^ j)" for j
  proof -
    have "bit y j \<longleftrightarrow> bit (unat y) j" by (simp add: bit_unsigned_iff)
    then show ?thesis by (simp add: bit_iff_odd)
  qed
  have high: "\<not> bit y j" if "n \<le> j" for j
  proof -
    have "unat y < 2 ^ j" using n(1) that by (meson less_le_trans one_le_numeral power_increasing)
    then show ?thesis unfolding ub by simp
  qed
  have top: "bit y (n - 1)" if "n \<noteq> 0"
  proof -
    have "2 ^ (n - 1) \<le> unat y" "unat y < 2 * 2 ^ (n - 1)" using least [of "n - 1"] n(1) that by (simp_all add: power_eq_if)
    then have "unat y div 2 ^ (n - 1) = 1" by (simp add: div_nat_eqI)
    then show ?thesis unfolding ub by simp
  qed
  have "z = mask n"
  proof (rule bit_word_eqI)
    fix j assume "j < LENGTH(64)"
    have "(\<exists>d<32. bit y (j + d)) \<longleftrightarrow> j < n"
    proof
      assume "\<exists>d<32. bit y (j + d)"
      then show "j < n" using high by (meson le_add1 le_trans not_le)
    next
      assume "j < n"
      then show "\<exists>d<32. bit y (j + d)" using top n(2) by (intro exI [of _ "n - 1 - j"]) auto
    qed
    then show "bit z j \<longleftrightarrow> bit (mask n :: u64) j" using next_pow2_bits [OF z, of j] \<open>j < LENGTH(64)\<close> by (simp add: y_def bit_mask_iff)
  qed
  then have eq: "next_pow2 x = 2 ^ n" using z by (simp add: mask_eq_exp_minus_1)
  have un: "unat (2 ^ m :: u64) = 2 ^ m" if "m \<le> 32" for m 
  proof -
    have "unat (of_nat (2 ^ m) :: u64) = 2 ^ m" using that power_strict_increasing [of m 64 "2 :: nat"]
      by (simp add: unsigned_of_nat take_bit_nat_eq_self del: of_nat_power)
    then show ?thesis by simp
  qed
  have "x \<le> 2 ^ n" using n un [OF n(2)] uy xpos by (simp add: word_le_nat_alt)
  moreover have "2 ^ m < x" if "m < n" for m using least [OF that] un [of m] that n(2) uy xpos by (simp add: word_less_nat_alt)
  ultimately show ?thesis using eq n(2) by blast
qed

lemma next_pow2_wrong: "next_pow2 (2 ^ 40 + 1) = 2 ^ 41 - 511"
  by (simp add: next_pow2_def)


section \<open>Ratings\<close>

definition refs :: "nat option list \<Rightarrow> nat \<Rightarrow> nat set" where
  "refs tops w = {i. i < length tops \<and> tops ! i = Some w}"

lemma finite_refs [simp]: "finite (refs tops w)"
  by (rule finite_subset [of _ "{..<length tops}"]) (auto simp: refs_def)

lemma card_refs: "card (refs tops w) \<le> length tops"
  by (rule order_trans [OF card_mono [of "{..<length tops}"]]) (auto simp: refs_def)

lemma refs_update:
  assumes "i < length tops"
  shows "refs (tops[i := t]) w = (if t = Some w then insert i (refs tops w) else refs tops w - {i})"
  using assms by (auto simp: refs_def nth_list_update split: if_splits)

text \<open>
  \<open>T w\<close> are the bytes the input of entry \<open>w\<close> hits.  The reference count of an entry is the number
  of bytes it is rated best for, and the compressed trace is kept exactly while there are any.
\<close>

definition entry_rated :: "(nat \<Rightarrow> nat set) \<Rightarrow> nat option list \<Rightarrow> nat \<Rightarrow> queue_entry \<Rightarrow> bool" where
  "entry_rated T tops w e \<longleftrightarrow> unat (q_tc_ref e) = card (refs tops w) \<and>
     (case q_trace_mini e of
        None \<Rightarrow> q_tc_ref e = 0
      | Some m \<Rightarrow> q_tc_ref e \<noteq> 0 \<and> length m = length tops div 8 \<and> bit_ones m = T w)"

lemma entry_rated_other:
  assumes "i < length tops" "tops ! i \<noteq> Some w" "t \<noteq> Some w"
  shows "entry_rated T (tops[i := t]) w e \<longleftrightarrow> entry_rated T tops w e"
proof -
  have "refs (tops[i := t]) w = refs tops w" using assms refs_update [OF assms(1)] by (auto simp: refs_def)
  then show ?thesis by (simp add: entry_rated_def cong: option.case_cong)
qed

lemma drop_ref_rated:
  assumes e: "entry_rated T tops w e" and i: "i < length tops" "tops ! i = Some w"
  shows "entry_rated T (tops[i := None]) w (drop_ref e)"
proof -
  have mem: "i \<in> refs tops w" using i by (simp add: refs_def)
  then have pos: "0 < card (refs tops w)" by (metis card_gt_0_iff empty_iff finite_refs)
  have card: "card (refs (tops[i := None]) w) = card (refs tops w) - 1" using mem i(1) by (simp add: refs_update)
  have u: "unat (q_tc_ref e - 1) = unat (q_tc_ref e) - 1"
    using e pos by (metis entry_rated_def gr_implies_not0 unat_eq_zero unat_minus_one)
  obtain m where m: "q_trace_mini e = Some m" "length m = length tops div 8" "bit_ones m = T w"
    using e pos by (cases "q_trace_mini e") (auto simp: entry_rated_def)
  show ?thesis using e m u card by (auto simp: entry_rated_def drop_ref_def Let_def)
qed

lemma minimize_loop_length: "length (minimize_loop k i dst src) = length dst"
  by (induction k arbitrary: i dst) simp_all

lemma add_ref_rated:
  assumes e: "entry_rated T tops w e" and i: "i < length tops" "tops ! i = None"
    and maps: "unat (map_size maps) = length tops" "length tops mod 8 = 0" "{j. j < length tops \<and> trace_bits maps ! j \<noteq> 0} = T w"
  shows "entry_rated T (tops[i := Some w]) w (add_ref maps e)"
proof -
  have mem: "i \<notin> refs tops w" using i by (simp add: refs_def)
  then have card: "card (refs (tops[i := Some w]) w) = card (refs tops w) + 1" using i(1) by (simp add: refs_update)
  have "card (refs (tops[i := Some w]) w) \<le> length tops" using card_refs [of "tops[i := Some w]" w] by simp
  moreover have "length tops < 2 ^ 32" using maps(1) unsigned_less [of "map_size maps", where 'a = nat] by simp
  ultimately have u: "unat (q_tc_ref e + 1) = unat (q_tc_ref e) + 1"
    using e card by (simp add: entry_rated_def unat_word_ariths)
  then have nz: "q_tc_ref e + 1 \<noteq> 0" by (metis add_is_0 one_neq_zero unsigned_0)
  let ?len = "unat (drop_bit 3 (map_size maps))"
  have len: "?len = length tops div 8" using maps(1) by (simp add: drop_bit_eq_div unat_div)
  have "(length tops + 7) div 8 \<le> ?len" unfolding len using maps(2) by presburger
  then have "bit_ones (minimize_bits maps (replicate ?len 0) (trace_bits maps)) = T w"
    using minimize_loop_ones [of 0 "length tops" "replicate ?len 0" "trace_bits maps"] maps(1,3) by (simp add: minimize_bits_def)
  moreover have "length (minimize_bits maps (replicate ?len 0) (trace_bits maps)) = ?len" by (simp add: minimize_bits_def minimize_loop_length)
  ultimately show ?thesis
    using e card u nz len by (cases "q_trace_mini e") (auto simp: entry_rated_def add_ref_def Let_def)
qed


text \<open>
  \<open>R\<close> are the pairs of a byte and an entry that hits it that have been rated: the table has
  an entry exactly for the bytes of \<open>R\<close>, and it is one of them.
\<close>

definition rated :: "(nat \<Rightarrow> nat set) \<Rightarrow> (nat \<times> nat) set \<Rightarrow> queue_state \<Rightarrow> bool" where
  "rated T R afl \<longleftrightarrow>
     length (top_rated afl) = unat (map_size (afl_maps afl)) \<and> length (top_rated afl) mod 8 = 0 \<and>
     (\<forall>w<length (queue_buf afl). entry_rated T (top_rated afl) w (queue_buf afl ! w)) \<and>
     (\<forall>i<length (top_rated afl). (top_rated afl ! i = None \<longleftrightarrow> i \<notin> Domain R) \<and> (\<forall>w. top_rated afl ! i = Some w \<longrightarrow> (i, w) \<in> R)) \<and>
     R \<subseteq> {(i, w). i < length (top_rated afl) \<and> w < length (queue_buf afl) \<and> i \<in> T w}"

lemma ratedD:
  assumes "rated T R afl"
  shows "length (top_rated afl) = unat (map_size (afl_maps afl))" "length (top_rated afl) mod 8 = 0"
    "w < length (queue_buf afl) \<Longrightarrow> entry_rated T (top_rated afl) w (queue_buf afl ! w)"
    "i < length (top_rated afl) \<Longrightarrow> top_rated afl ! i = None \<longleftrightarrow> i \<notin> Domain R"
    "i < length (top_rated afl) \<Longrightarrow> top_rated afl ! i = Some w \<Longrightarrow> (i, w) \<in> R"
    "(i, w) \<in> R \<Longrightarrow> i < length (top_rated afl) \<and> w < length (queue_buf afl) \<and> i \<in> T w"
  using assms unfolding rated_def by (blast | auto)+

lemma modify_entry_simps [simp]:
  "top_rated (modify_entry f w afl) = top_rated afl" "afl_maps (modify_entry f w afl) = afl_maps afl"
  "queue_buf (modify_entry f w afl) = (queue_buf afl)[w := f (queue_buf afl ! w)]"
  "schedule (modify_entry f w afl) = schedule afl" "fixed_seed (modify_entry f w afl) = fixed_seed afl"
  "n_fuzz (modify_entry f w afl) = n_fuzz afl"
  "non_instrumented_mode (modify_entry f w afl) = non_instrumented_mode afl"
  "score_changed (modify_entry f w afl) = score_changed afl" "reinit_table (modify_entry f w afl) = reinit_table afl"
  "queued_favored (modify_entry f w afl) = queued_favored afl" "pending_favored (modify_entry f w afl) = pending_favored afl"
  "smallest_favored (modify_entry f w afl) = smallest_favored afl"
  by (simp_all add: modify_entry_def)

lemma score_win_simps [simp]:
  "top_rated (score_win afl q i) = (top_rated afl)[i := Some q]" "afl_maps (score_win afl q i) = afl_maps afl"
  "queue_buf (score_win afl q i) = (queue_buf afl)[q := add_ref (afl_maps afl) (queue_buf afl ! q)]"
  "schedule (score_win afl q i) = schedule afl" "fixed_seed (score_win afl q i) = fixed_seed afl" "n_fuzz (score_win afl q i) = n_fuzz afl"
  "non_instrumented_mode (score_win afl q i) = non_instrumented_mode afl" "score_changed (score_win afl q i) = True"
  by (simp_all add: score_win_def)

definition traced :: "(nat \<Rightarrow> nat set) \<Rightarrow> nat \<Rightarrow> queue_state \<Rightarrow> bool" where
  "traced T q afl \<longleftrightarrow> q < length (queue_buf afl) \<and> length (top_rated afl) \<le> length (trace_bits (afl_maps afl)) \<and>
     {j. j < length (top_rated afl) \<and> trace_bits (afl_maps afl) ! j \<noteq> 0} = T q"

lemma rated_win_free:
  assumes r: "rated T R afl" and tr: "traced T q afl" and i: "i < length (top_rated afl)" "i \<in> T q" "top_rated afl ! i = None"
  shows "rated T (insert (i, q) R) (score_win afl q i)"
proof -
  let ?tops = "top_rated afl"
  have q: "q < length (queue_buf afl)" using tr by (simp add: traced_def)
  have "entry_rated T (?tops[i := Some q]) w (queue_buf (score_win afl q i) ! w)" if "w < length (queue_buf afl)" for w
  proof (cases "w = q")
    case True
    have "entry_rated T (?tops[i := Some q]) q (add_ref (afl_maps afl) (queue_buf afl ! q))"
      by (rule add_ref_rated [OF ratedD(3) [OF r q] i(1,3)]) (use ratedD(1,2) [OF r] tr in \<open>simp_all add: traced_def\<close>)
    then show ?thesis using True q by simp
  next
    case False
    then show ?thesis using ratedD(3) [OF r that] i by (simp add: entry_rated_other)
  qed
  moreover have "((?tops[i := Some q]) ! j = None \<longleftrightarrow> j \<notin> Domain (insert (i, q) R)) \<and> (\<forall>w. (?tops[i := Some q]) ! j = Some w \<longrightarrow> (j, w) \<in> insert (i, q) R)"
    if "j < length ?tops" for j
    using ratedD(4,5) [OF r that] that by (cases "j = i") auto
  moreover have "insert (i, q) R \<subseteq> {(i, w). i < length ?tops \<and> w < length (queue_buf afl) \<and> i \<in> T w}"
    using ratedD(6) [OF r] i q by auto
  ultimately show ?thesis using ratedD(1,2) [OF r] unfolding rated_def by simp
qed

lemma rated_more:
  assumes "rated T R afl" "R \<subseteq> S" "Domain S \<subseteq> Domain R" "S \<subseteq> {(i, w). i < length (top_rated afl) \<and> w < length (queue_buf afl) \<and> i \<in> T w}"
  shows "rated T S afl"
proof -
  have "Domain S = Domain R" using assms(2,3) by blast
  then show ?thesis using assms unfolding rated_def by (metis subsetD)
qed

lemma rated_drop:
  assumes r: "rated T R afl" and i: "i < length (top_rated afl)" "top_rated afl ! i = Some w"
  shows "rated T (R - {i} \<times> UNIV) ((modify_entry drop_ref w afl)\<lparr>top_rated := (top_rated afl)[i := None]\<rparr>)"
proof -
  let ?tops = "top_rated afl"
  have w: "w < length (queue_buf afl)" using ratedD(5,6) [OF r] i by blast
  have "entry_rated T (?tops[i := None]) u ((queue_buf afl)[w := drop_ref (queue_buf afl ! w)] ! u)" if "u < length (queue_buf afl)" for u
  proof (cases "u = w")
    case True
    then show ?thesis using drop_ref_rated [OF ratedD(3) [OF r w] i] w by simp
  next
    case False
    then show ?thesis using ratedD(3) [OF r that] i by (simp add: entry_rated_other)
  qed
  moreover have "((?tops[i := None]) ! j = None \<longleftrightarrow> j \<notin> Domain (R - {i} \<times> UNIV)) \<and> (\<forall>w. (?tops[i := None]) ! j = Some w \<longrightarrow> (j, w) \<in> R - {i} \<times> UNIV)"
    if "j < length ?tops" for j
    using ratedD(4,5) [OF r that] that by (cases "j = i") auto
  moreover have "R - {i} \<times> UNIV \<subseteq> {(i, w). i < length ?tops \<and> w < length (queue_buf afl) \<and> i \<in> T w}"
    using ratedD(6) [OF r] by auto
  ultimately show ?thesis using ratedD(1,2) [OF r] unfolding rated_def by simp
qed

lemma rated_win_over:
  assumes r: "rated T R afl" and tr: "traced T q afl" and i: "i < length (top_rated afl)" "i \<in> T q" "top_rated afl ! i = Some w"
  shows "rated T (insert (i, q) R) (score_win (modify_entry drop_ref w afl) q i)"
proof -
  let ?d = "(modify_entry drop_ref w afl)\<lparr>top_rated := (top_rated afl)[i := None]\<rparr>"
  have "rated T (insert (i, q) (R - {i} \<times> UNIV)) (score_win ?d q i)"
    by (rule rated_win_free [OF rated_drop [OF r i(1,3)]]) (use tr i in \<open>simp_all add: traced_def\<close>)
  moreover have "score_win ?d q i = score_win (modify_entry drop_ref w afl) q i" by (simp add: score_win_def modify_entry_def)
  ultimately have "rated T (insert (i, q) (R - {i} \<times> UNIV)) (score_win (modify_entry drop_ref w afl) q i)" by (simp only:)
  then show ?thesis
    by (rule rated_more) (use ratedD(6) [OF r] i tr in \<open>auto simp: traced_def\<close>)
qed


section \<open>Rating an entry\<close>

text \<open>The schedules that compare nothing but the favorability factor.\<close>

definition plain_schedule :: "queue_state \<Rightarrow> bool" where
  "plain_schedule afl \<longleftrightarrow> FAST \<le> schedule afl \<and> schedule afl < RARE"

definition best :: "(nat \<times> nat) set \<Rightarrow> queue_state \<Rightarrow> bool" where
  "best R afl \<longleftrightarrow>
     (\<forall>i w u. i < length (top_rated afl) \<longrightarrow> top_rated afl ! i = Some w \<longrightarrow> (i, u) \<in> R \<longrightarrow>
        fav_factor afl (queue_buf afl ! w) \<le> fav_factor afl (queue_buf afl ! u))"

text \<open>What rating leaves as it is.\<close>

definition same_queue :: "queue_state \<Rightarrow> queue_state \<Rightarrow> bool" where
  "same_queue afl afl' \<longleftrightarrow> afl_maps afl' = afl_maps afl \<and> length (queue_buf afl') = length (queue_buf afl) \<and>
     length (top_rated afl') = length (top_rated afl) \<and> n_fuzz afl' = n_fuzz afl \<and> schedule afl' = schedule afl \<and>
     fixed_seed afl' = fixed_seed afl \<and> non_instrumented_mode afl' = non_instrumented_mode afl \<and>
     queued_favored afl' = queued_favored afl \<and> pending_favored afl' = pending_favored afl \<and>
     smallest_favored afl' = smallest_favored afl \<and>
     (\<forall>w. q_id (queue_buf afl' ! w) = q_id (queue_buf afl ! w) \<and> q_len (queue_buf afl' ! w) = q_len (queue_buf afl ! w) \<and> q_exec_us (queue_buf afl' ! w) = q_exec_us (queue_buf afl ! w) \<and>
        q_fuzz_level (queue_buf afl' ! w) = q_fuzz_level (queue_buf afl ! w) \<and> q_n_fuzz_entry (queue_buf afl' ! w) = q_n_fuzz_entry (queue_buf afl ! w) \<and>
        q_favored (queue_buf afl' ! w) = q_favored (queue_buf afl ! w) \<and> q_was_fuzzed (queue_buf afl' ! w) = q_was_fuzzed (queue_buf afl ! w))"

lemma same_queue_refl [simp]: "same_queue afl afl"
  by (simp add: same_queue_def)

lemma same_queue_trans: "same_queue a b \<Longrightarrow> same_queue b c \<Longrightarrow> same_queue a c"
  by (simp add: same_queue_def)

lemma drop_ref_simps [simp]:
  "q_id (drop_ref e) = q_id e" "q_len (drop_ref e) = q_len e" "q_exec_us (drop_ref e) = q_exec_us e" "q_fuzz_level (drop_ref e) = q_fuzz_level e"
  "q_n_fuzz_entry (drop_ref e) = q_n_fuzz_entry e" "q_favored (drop_ref e) = q_favored e" "q_was_fuzzed (drop_ref e) = q_was_fuzzed e"
  by (simp_all add: drop_ref_def Let_def)

lemma add_ref_simps [simp]:
  "q_id (add_ref m e) = q_id e" "q_len (add_ref m e) = q_len e" "q_exec_us (add_ref m e) = q_exec_us e" "q_fuzz_level (add_ref m e) = q_fuzz_level e"
  "q_n_fuzz_entry (add_ref m e) = q_n_fuzz_entry e" "q_favored (add_ref m e) = q_favored e" "q_was_fuzzed (add_ref m e) = q_was_fuzzed e"
  by (simp_all add: add_ref_def Let_def)

lemma nth_update_field: "(\<And>e. g (f e) = g e) \<Longrightarrow> g (xs[w := f (xs ! w)] ! v) = g (xs ! v)"
  by (cases "w < length xs") (auto simp: nth_list_update list_update_beyond not_less)

lemma score_win_same: "same_queue afl (score_win afl q i)"
  by (simp add: same_queue_def nth_update_field score_win_def)

lemma drop_same: "same_queue afl (modify_entry drop_ref w afl)"
  by (simp add: same_queue_def nth_update_field)

lemma same_queue_fav: "same_queue afl afl' \<Longrightarrow> fav_factor afl' (queue_buf afl' ! w) = fav_factor afl (queue_buf afl ! w)"
  by (simp add: same_queue_def fav_factor_def)

lemma fuzz_p2_plain: "plain_schedule afl \<Longrightarrow> fuzz_p2 afl e = Some 0"
  by (simp add: plain_schedule_def fuzz_p2_def)

lemma best_win:
  assumes "best R afl" "same_queue afl afl'" "top_rated afl' = (top_rated afl)[i := Some q]" "i < length (top_rated afl)"
    and w: "top_rated afl ! i = None \<and> i \<notin> Domain R \<or>
      (\<exists>w. top_rated afl ! i = Some w \<and> fav_factor afl (queue_buf afl ! q) \<le> fav_factor afl (queue_buf afl ! w))"
  shows "best (insert (i, q) R) afl'"
  unfolding best_def same_queue_fav [OF assms(2)]
proof (intro allI impI)
  fix j v u
  assume j: "j < length (top_rated afl')" "top_rated afl' ! j = Some v" "(j, u) \<in> insert (i, q) R"
  show "fav_factor afl (queue_buf afl ! v) \<le> fav_factor afl (queue_buf afl ! u)"
  proof (cases "j = i")
    case True
    then have v: "v = q" using j assms(3,4) by simp
    show ?thesis
    proof (cases "u = q")
      case False
      then have "(i, u) \<in> R" using j(3) True by simp
      then obtain x where x: "top_rated afl ! i = Some x" "fav_factor afl (queue_buf afl ! q) \<le> fav_factor afl (queue_buf afl ! x)" using w by blast
      then have "fav_factor afl (queue_buf afl ! x) \<le> fav_factor afl (queue_buf afl ! u)"
        using assms(1,4) \<open>(i, u) \<in> R\<close> unfolding best_def by blast
      then show ?thesis using x(2) v by simp
    qed (simp add: v)
  next
    case False
    then show ?thesis using j assms(1,3) unfolding best_def by auto
  qed
qed

text \<open>One byte: nothing happens, or the entry takes it.\<close>

lemma score_slot_spec:
  assumes r: "rated T R afl" and tr: "traced T q afl" and i: "i < length (top_rated afl)" and n: "\<forall>e. fuzz_p2 afl e \<noteq> None \<or> e \<notin> set (queue_buf afl)"
  defines "S \<equiv> R \<union> (if i \<in> T q then {(i, q)} else {})"
  shows "\<exists>afl'. score_slot q fuzz fav i afl = Some afl' \<and> same_queue afl afl' \<and> rated T S afl' \<and>
    (score_changed afl' \<or> afl' = afl \<and> Domain S = Domain R) \<and> (score_changed afl \<longrightarrow> score_changed afl') \<and>
    (plain_schedule afl \<and> fuzz = 0 \<and> fav = fav_factor afl (queue_buf afl ! q) \<and> best R afl \<longrightarrow> best S afl')"
proof -
  have b: "slot (trace_bits (afl_maps afl)) i = Some (trace_bits (afl_maps afl) ! i)" "trace_bits (afl_maps afl) ! i \<noteq> 0 \<longleftrightarrow> i \<in> T q"
    using tr i by (auto simp: traced_def slot_def)
  have t: "slot (top_rated afl) i = Some (top_rated afl ! i)" using i by (simp add: slot_def)
  show ?thesis
  proof (cases "i \<in> T q")
    case False
    then show ?thesis using r b by (intro exI [of _ afl]) (simp add: score_slot_def S_def)
  next
    case hit: True
    show ?thesis
    proof (cases "top_rated afl ! i")
      case None
      then have free: "i \<notin> Domain R" using ratedD(4) [OF r i] by simp
      have "score_slot q fuzz fav i afl = Some (score_win afl q i)" using hit b t None by (simp add: score_slot_def)
      moreover have "best R afl \<Longrightarrow> best (insert (i, q) R) (score_win afl q i)"
        by (rule best_win [OF _ score_win_same]) (use i None free in simp_all)
      ultimately show ?thesis using hit rated_win_free [OF r tr i hit None] score_win_same by (intro exI [of _ "score_win afl q i"]) (simp add: S_def)
    next
      case (Some w)
      have R: "(i, w) \<in> R" "w < length (queue_buf afl)" using ratedD(5,6) [OF r] i Some by blast+
      obtain p where p: "fuzz_p2 afl (queue_buf afl ! w) = Some p" using n nth_mem [OF R(2)] by blast
      let ?d = "modify_entry drop_ref w afl"
      have run: "score_slot q fuzz fav i afl = Some (if fuzz > p \<or> fav > fav_factor afl (queue_buf afl ! w) then afl else score_win ?d q i)"
        using hit b t Some p R(2) by (simp add: score_slot_def slot_def)
      show ?thesis
      proof (cases "fuzz > p \<or> fav > fav_factor afl (queue_buf afl ! w)")
        case True
        have more: "rated T (insert (i, q) R) afl"
          by (rule rated_more [OF r]) (use R ratedD(6) [OF r] tr hit i in \<open>auto simp: traced_def\<close>)
        have "best (insert (i, q) R) afl" if "plain_schedule afl" "fuzz = 0" "fav = fav_factor afl (queue_buf afl ! q)" "best R afl"
        proof -
          have "p = 0" using p fuzz_p2_plain [OF that(1)] by simp
          then have "fav_factor afl (queue_buf afl ! w) \<le> fav_factor afl (queue_buf afl ! q)" using True that by simp
          then show ?thesis using that(4) Some unfolding best_def by auto
        qed
        moreover have "Domain (insert (i, q) R) = Domain R" using R(1) by blast
        ultimately show ?thesis using run True hit more by (intro exI [of _ afl]) (simp add: S_def)
      next
        case False
        have same: "same_queue afl (score_win ?d q i)" by (rule same_queue_trans [OF drop_same score_win_same])
        have "best (insert (i, q) R) (score_win ?d q i)" if "fav = fav_factor afl (queue_buf afl ! q)" "best R afl"
          by (rule best_win [OF that(2) same]) (use i Some False that(1) in \<open>auto simp: not_less\<close>)
        then show ?thesis using run False hit same rated_win_over [OF r tr i hit Some] by (intro exI [of _ "score_win ?d q i"]) (simp add: S_def)
      qed
    qed
  qed
qed


lemma same_queue_fuzz:
  assumes "same_queue afl afl'" "\<forall>e. fuzz_p2 afl e \<noteq> None \<or> e \<notin> set (queue_buf afl)"
  shows "\<forall>e. fuzz_p2 afl' e \<noteq> None \<or> e \<notin> set (queue_buf afl')"
proof (intro allI)
  fix e
  show "fuzz_p2 afl' e \<noteq> None \<or> e \<notin> set (queue_buf afl')"
  proof (cases "e \<in> set (queue_buf afl')")
    case True
    then obtain w where w: "w < length (queue_buf afl')" "e = queue_buf afl' ! w" by (auto simp: in_set_conv_nth)
    then have "fuzz_p2 afl' e = fuzz_p2 afl (queue_buf afl ! w)" using assms(1) by (simp add: same_queue_def fuzz_p2_def)
    moreover have "queue_buf afl ! w \<in> set (queue_buf afl)" using w assms(1) by (simp add: same_queue_def)
    ultimately show ?thesis using assms(2) by metis
  qed simp
qed

lemma same_queue_plain: "same_queue afl afl' \<Longrightarrow> plain_schedule afl' \<longleftrightarrow> plain_schedule afl"
  by (simp add: same_queue_def plain_schedule_def)

lemma same_queue_traced: "same_queue afl afl' \<Longrightarrow> traced T q afl' \<longleftrightarrow> traced T q afl"
  by (simp add: same_queue_def traced_def)

definition hit_pairs :: "(nat \<Rightarrow> nat set) \<Rightarrow> nat \<Rightarrow> nat set \<Rightarrow> (nat \<times> nat) set" where
  "hit_pairs T q I = {(i, q) |i. i \<in> T q \<and> i \<in> I}"

lemma traced_bound: "traced T q afl \<Longrightarrow> j \<in> T q \<Longrightarrow> j < length (top_rated afl)"
  unfolding traced_def by blast

lemma score_loop_spec:
  assumes "rated T R afl" "traced T q afl" "i + k = length (top_rated afl)" "\<forall>e. fuzz_p2 afl e \<noteq> None \<or> e \<notin> set (queue_buf afl)"
  shows "\<exists>afl'. score_loop k i q fuzz fav afl = Some afl' \<and> same_queue afl afl' \<and> rated T (R \<union> hit_pairs T q {i..}) afl' \<and>
    (score_changed afl' \<or> afl' = afl \<and> Domain (R \<union> hit_pairs T q {i..}) = Domain R) \<and> (score_changed afl \<longrightarrow> score_changed afl') \<and>
    (plain_schedule afl \<and> fuzz = 0 \<and> fav = fav_factor afl (queue_buf afl ! q) \<and> best R afl \<longrightarrow> best (R \<union> hit_pairs T q {i..}) afl')"
  using assms
proof (induction k arbitrary: i R afl)
  case 0
  have "hit_pairs T q {i..} = {}" using 0(3) traced_bound [OF 0(2)] by (fastforce simp: hit_pairs_def)
  then show ?case using 0 by simp
next
  case (Suc k)
  have i: "i < length (top_rated afl)" using Suc.prems(3) by linarith
  let ?R = "R \<union> (if i \<in> T q then {(i, q)} else {})"
  obtain afl1 where 1: "score_slot q fuzz fav i afl = Some afl1" "same_queue afl afl1" "rated T ?R afl1"
    "score_changed afl1 \<or> afl1 = afl \<and> Domain ?R = Domain R" "score_changed afl \<longrightarrow> score_changed afl1"
    "plain_schedule afl \<and> fuzz = 0 \<and> fav = fav_factor afl (queue_buf afl ! q) \<and> best R afl \<longrightarrow> best ?R afl1"
    using score_slot_spec [OF Suc.prems(1,2) i Suc.prems(4), of fuzz fav] by (elim exE conjE) (rule that)
  have "{i..} = insert i {Suc i..}" by auto
  then have split: "R \<union> hit_pairs T q {i..} = ?R \<union> hit_pairs T q {Suc i..}" by (auto simp: hit_pairs_def)
  have len: "Suc i + k = length (top_rated afl1)" using Suc.prems(3) 1(2) by (simp add: same_queue_def)
  obtain afl2 where 2: "score_loop k (Suc i) q fuzz fav afl1 = Some afl2" "same_queue afl1 afl2" "rated T (R \<union> hit_pairs T q {i..}) afl2"
    "score_changed afl2 \<or> afl2 = afl1 \<and> Domain (R \<union> hit_pairs T q {i..}) = Domain ?R" "score_changed afl1 \<longrightarrow> score_changed afl2"
    "plain_schedule afl1 \<and> fuzz = 0 \<and> fav = fav_factor afl1 (queue_buf afl1 ! q) \<and> best ?R afl1 \<longrightarrow> best (R \<union> hit_pairs T q {i..}) afl2"
    using Suc.IH [OF 1(3) _ len same_queue_fuzz [OF 1(2) Suc.prems(4)]] Suc.prems(2) same_queue_traced [OF 1(2)] unfolding split by blast
  have "score_changed afl2 \<or> afl2 = afl \<and> Domain (R \<union> hit_pairs T q {i..}) = Domain R" using 1(4) 2(4,5) by metis
  moreover have "same_queue afl afl2" using 1(2) 2(2) by (rule same_queue_trans)
  moreover have "best (R \<union> hit_pairs T q {i..}) afl2"
    if "plain_schedule afl" "fuzz = 0" "fav = fav_factor afl (queue_buf afl ! q)" "best R afl"
    using 2(6) 1(6) that same_queue_plain [OF 1(2)] same_queue_fav [OF 1(2), of q] by simp
  moreover have "score_loop (Suc k) i q fuzz fav afl = Some afl2" using 1(1) 2(1) by simp
  ultimately show ?case using 1(5) 2(3,5) by blast
qed

definition n_fuzz_ok :: "queue_state \<Rightarrow> bool" where
  "n_fuzz_ok afl \<longleftrightarrow> schedule afl = RARE \<longrightarrow> n_fuzz afl \<noteq> [] \<and> (\<forall>e\<in>set (queue_buf afl). unat (q_n_fuzz_entry e) < length (n_fuzz afl))"

lemma n_fuzz_ok_fuzz: "n_fuzz_ok afl \<Longrightarrow> \<forall>e. fuzz_p2 afl e \<noteq> None \<or> e \<notin> set (queue_buf afl)"
  by (auto simp: n_fuzz_ok_def fuzz_p2_def slot_def)

lemma same_queue_n_fuzz: "same_queue afl afl' \<Longrightarrow> n_fuzz_ok afl \<Longrightarrow> n_fuzz_ok afl'"
  by (auto simp: n_fuzz_ok_def same_queue_def in_set_conv_nth Ball_def)

lemma update_bitmap_score_spec:
  assumes r: "rated T R afl" and tr: "traced T q afl" and n: "n_fuzz_ok afl"
  shows "\<exists>afl'. update_bitmap_score afl q = Some afl' \<and> same_queue afl afl' \<and> rated T (R \<union> T q \<times> {q}) afl' \<and>
    (score_changed afl' \<or> afl' = afl \<and> Domain (R \<union> T q \<times> {q}) = Domain R) \<and> (score_changed afl \<longrightarrow> score_changed afl') \<and>
    (plain_schedule afl \<and> best R afl \<longrightarrow> best (R \<union> T q \<times> {q}) afl')"
proof -
  have q: "q < length (queue_buf afl)" using tr by (simp add: traced_def)
  then have "queue_buf afl ! q \<in> set (queue_buf afl)" by simp
  then obtain p where p: "fuzz_p2 afl (queue_buf afl ! q) = Some p" using n_fuzz_ok_fuzz [OF n] by blast
  have "hit_pairs T q {0..} = T q \<times> {q}" by (auto simp: hit_pairs_def)
  then show ?thesis
    using score_loop_spec [OF r tr _ n_fuzz_ok_fuzz [OF n], of 0 "length (top_rated afl)" p "fav_factor afl (queue_buf afl ! q)"]
      p q ratedD(1) [OF r] fuzz_p2_plain [of afl]
    by (auto simp: update_bitmap_score_def slot_def)
qed


section \<open>Culling\<close>

lemma clear_bits_nth:
  assumes "j \<le> length mini" "length temp_v = length mini"
  shows "\<exists>v. clear_bits j mini temp_v = Some v \<and> length v = length mini \<and>
    (\<forall>k<length mini. v ! k = (if k < j then temp_v ! k AND NOT (mini ! k) else temp_v ! k))"
  using assms
proof (induction j arbitrary: temp_v)
  case (Suc j)
  let ?v = "if mini ! j \<noteq> 0 then temp_v[j := temp_v ! j AND NOT (mini ! j)] else temp_v"
  have v: "length ?v = length mini" "\<forall>k<length mini. ?v ! k = (if k = j then temp_v ! k AND NOT (mini ! k) else temp_v ! k)"
    using Suc.prems by (auto simp: nth_list_update)
  have "j \<le> length mini" using Suc.prems(1) by simp
  from Suc.IH [OF this v(1)] obtain u where u: "clear_bits j mini ?v = Some u" "length u = length mini"
    "\<forall>k<length mini. u ! k = (if k < j then ?v ! k AND NOT (mini ! k) else ?v ! k)" by blast
  have "u ! k = (if k < Suc j then temp_v ! k AND NOT (mini ! k) else temp_v ! k)" if "k < length mini" for k
    using spec [OF u(3), of k] spec [OF v(2), of k] that by (cases "k < j"; cases "k = j") simp_all
  moreover have "clear_bits (Suc j) mini temp_v = Some u" using u(1) Suc.prems by (simp add: slot_def)
  ultimately show ?case using u(2) by blast
qed simp

lemma clear_bits_ones:
  assumes "length temp_v = length mini"
  obtains v where "clear_bits (length mini) mini temp_v = Some v" "length v = length mini" "bit_ones v = bit_ones temp_v - bit_ones mini"
proof -
  obtain v where v: "clear_bits (length mini) mini temp_v = Some v" "length v = length mini"
    "\<forall>k<length mini. v ! k = temp_v ! k AND NOT (mini ! k)"
    using clear_bits_nth [of "length mini" mini temp_v] assms by auto
  have "i \<in> bit_ones v \<longleftrightarrow> i \<in> bit_ones temp_v - bit_ones mini" for i
  proof (cases "i < 8 * length mini")
    case True
    then have "i div 8 < length mini" by linarith
    then show ?thesis using v(2) spec [OF v(3), of "i div 8"] assms True by (auto simp: bit_ones_def bit_simps)
  next
    case False
    then show ?thesis using v(2) assms by (simp add: bit_ones_def)
  qed
  then show ?thesis using that [OF v(1,2)] by blast
qed

lemma rated_cong:
  assumes "rated T R afl" "top_rated afl' = top_rated afl" "map_size (afl_maps afl') = map_size (afl_maps afl)" "length (queue_buf afl') = length (queue_buf afl)"
    "\<And>w. w < length (queue_buf afl) \<Longrightarrow> q_tc_ref (queue_buf afl' ! w) = q_tc_ref (queue_buf afl ! w) \<and>
       q_trace_mini (queue_buf afl' ! w) = q_trace_mini (queue_buf afl ! w)"
  shows "rated T R afl'"
proof -
  have "entry_rated T (top_rated afl) w (queue_buf afl' ! w)" if "w < length (queue_buf afl)" for w
    using ratedD(3) [OF assms(1) that] assms(5) [OF that] by (simp add: entry_rated_def cong: option.case_cong)
  then show ?thesis using assms(1) unfolding rated_def assms(2-4) by blast
qed

definition favorites :: "queue_state \<Rightarrow> nat set" where
  "favorites afl = {w. w < length (queue_buf afl) \<and> q_favored (queue_buf afl ! w)}"

definition pending :: "queue_state \<Rightarrow> nat set" where
  "pending afl = {w \<in> favorites afl. \<not> q_was_fuzzed (queue_buf afl ! w)}"

lemma finite_favorites [simp]: "finite (favorites afl)" "finite (pending afl)"
  by (simp_all add: favorites_def pending_def)

text \<open>The counters agree with the marks.\<close>

definition counted :: "queue_state \<Rightarrow> bool" where
  "counted afl \<longleftrightarrow> unat (queued_favored afl) = card (favorites afl) \<and> unat (pending_favored afl) = card (pending afl)"

lemma card_favorites: "card (favorites afl) \<le> length (queue_buf afl)" "card (pending afl) \<le> length (queue_buf afl)"
  by (rule order_trans [OF card_mono [of "{..<length (queue_buf afl)}"]]; auto simp: favorites_def pending_def)+

lemma favor_marks:
  assumes "w < length (queue_buf afl)"
  shows "favorites (favor w afl) = insert w (favorites afl)"
    "pending (favor w afl) = (if q_was_fuzzed (queue_buf afl ! w) then pending afl else insert w (pending afl))"
    "q_id (queue_buf (favor w afl) ! v) = q_id (queue_buf afl ! v)"
  using assms by (auto simp: favorites_def pending_def favor_def Let_def nth_list_update)

lemma favor_rated: "rated T R afl \<Longrightarrow> rated T R (favor w afl)"
  by (erule rated_cong) (auto simp: favor_def Let_def nth_list_update nth_update_field)

lemma favor_simps [simp]:
  "top_rated (favor w afl) = top_rated afl" "afl_maps (favor w afl) = afl_maps afl" "length (queue_buf (favor w afl)) = length (queue_buf afl)"
  "schedule (favor w afl) = schedule afl" "fixed_seed (favor w afl) = fixed_seed afl" "n_fuzz (favor w afl) = n_fuzz afl"
  "non_instrumented_mode (favor w afl) = non_instrumented_mode afl" "score_changed (favor w afl) = score_changed afl"
  by (simp_all add: favor_def Let_def)

lemma favor_counted:
  assumes w: "w < length (queue_buf afl)" and len: "length (queue_buf afl) < 2 ^ 32" and c: "counted afl"
  shows "counted (favor w afl)"
proof (cases "q_favored (queue_buf afl ! w)")
  case True
  then show ?thesis using c by (simp add: favor_def)
next
  case False
  then have nw: "w \<notin> favorites afl" "w \<notin> pending afl" by (simp_all add: favorites_def pending_def)
  have bound: "unat (queued_favored afl) + 1 < 2 ^ 32" "\<not> q_was_fuzzed (queue_buf afl ! w) \<Longrightarrow> unat (pending_favored afl) + 1 < 2 ^ 32"
    using card_favorites [of "favor w afl"] favor_marks [OF w] c len nw by (auto simp: counted_def)
  have nq: "unat (queued_favored afl + 1) = unat (queued_favored afl) + 1" using bound(1) by (simp add: unat_word_ariths)
  have q: "queued_favored (favor w afl) = queued_favored afl + 1" using False by (simp add: favor_def Let_def)
  show ?thesis
  proof (cases "q_was_fuzzed (queue_buf afl ! w)")
    case True
    then have "pending_favored (favor w afl) = pending_favored afl" using False by (simp add: favor_def Let_def)
    then show ?thesis using c q nq nw True favor_marks [OF w] by (simp add: counted_def)
  next
    case fresh: False
    then have p: "pending_favored (favor w afl) = pending_favored afl + 1" using False by (simp add: favor_def Let_def)
    have np: "unat (pending_favored afl + 1) = unat (pending_favored afl) + 1" using bound(2) [OF fresh] by (simp add: unat_word_ariths)
    show ?thesis using c q p nq np nw fresh favor_marks(1,2) [OF w] by (auto simp: counted_def)
  qed
qed


text \<open>The loop: the bits left in \<open>temp_v\<close> are those no favored entry hits.\<close>

definition culling :: "(nat \<Rightarrow> nat set) \<Rightarrow> (nat \<times> nat) set \<Rightarrow> nat \<Rightarrow> queue_state \<Rightarrow> u8 list \<Rightarrow> bool" where
  "culling T R i afl temp_v \<longleftrightarrow> rated T R afl \<and> counted afl \<and> length (queue_buf afl) < 2 ^ 32 \<and>
     length temp_v = length (top_rated afl) div 8 \<and> bit_ones temp_v = {..<length (top_rated afl)} - (\<Union>w\<in>favorites afl. T w) \<and>
     (\<forall>j\<in>Domain R. j < i \<longrightarrow> j \<notin> bit_ones temp_v) \<and> (\<forall>w\<in>favorites afl. Some w \<in> set (top_rated afl))"

text \<open>What culling leaves as it is.\<close>

definition same_ratings :: "queue_state \<Rightarrow> queue_state \<Rightarrow> bool" where
  "same_ratings afl afl' \<longleftrightarrow> afl_maps afl' = afl_maps afl \<and> length (queue_buf afl') = length (queue_buf afl) \<and>
     top_rated afl' = top_rated afl \<and> n_fuzz afl' = n_fuzz afl \<and> schedule afl' = schedule afl \<and> fixed_seed afl' = fixed_seed afl \<and>
     non_instrumented_mode afl' = non_instrumented_mode afl \<and> score_changed afl' = score_changed afl \<and>
     (\<forall>w<length (queue_buf afl). \<exists>f r. queue_buf afl' ! w = (queue_buf afl ! w)\<lparr>q_favored := f, q_fs_redundant := r\<rparr>)"

lemma same_ratings_refl [simp]: "same_ratings afl afl"
proof -
  have "\<exists>f r. e = e\<lparr>q_favored := f, q_fs_redundant := r\<rparr>" for e :: queue_entry
    by (intro exI [of _ "q_favored e"] exI [of _ "q_fs_redundant e"]) simp
  then show ?thesis by (simp add: same_ratings_def)
qed

lemma same_ratings_trans:
  assumes "same_ratings a b" "same_ratings b c"
  shows "same_ratings a c"
proof -
  have "\<exists>f r. queue_buf c ! w = (queue_buf a ! w)\<lparr>q_favored := f, q_fs_redundant := r\<rparr>" if w: "w < length (queue_buf a)" for w
  proof -
    obtain f r where b: "queue_buf b ! w = (queue_buf a ! w)\<lparr>q_favored := f, q_fs_redundant := r\<rparr>"
      using assms(1) w unfolding same_ratings_def by blast
    have "w < length (queue_buf b)" using assms(1) w by (simp add: same_ratings_def)
    then obtain g s where "queue_buf c ! w = (queue_buf b ! w)\<lparr>q_favored := g, q_fs_redundant := s\<rparr>"
      using assms(2) unfolding same_ratings_def by blast
    then show ?thesis using b by auto
  qed
  then show ?thesis using assms unfolding same_ratings_def by simp
qed

lemma same_ratings_entry:
  assumes "same_ratings afl afl'" "w < length (queue_buf afl)"
  shows "q_tc_ref (queue_buf afl' ! w) = q_tc_ref (queue_buf afl ! w)" "q_trace_mini (queue_buf afl' ! w) = q_trace_mini (queue_buf afl ! w)"
    "q_len (queue_buf afl' ! w) = q_len (queue_buf afl ! w)" "q_exec_us (queue_buf afl' ! w) = q_exec_us (queue_buf afl ! w)"
    "q_n_fuzz_entry (queue_buf afl' ! w) = q_n_fuzz_entry (queue_buf afl ! w)" "q_was_fuzzed (queue_buf afl' ! w) = q_was_fuzzed (queue_buf afl ! w)"
    "q_id (queue_buf afl' ! w) = q_id (queue_buf afl ! w)" "q_disabled (queue_buf afl' ! w) = q_disabled (queue_buf afl ! w)"
proof -
  obtain f r where "queue_buf afl' ! w = (queue_buf afl ! w)\<lparr>q_favored := f, q_fs_redundant := r\<rparr>"
    using assms unfolding same_ratings_def by blast
  then show "q_tc_ref (queue_buf afl' ! w) = q_tc_ref (queue_buf afl ! w)" "q_trace_mini (queue_buf afl' ! w) = q_trace_mini (queue_buf afl ! w)"
    "q_len (queue_buf afl' ! w) = q_len (queue_buf afl ! w)" "q_exec_us (queue_buf afl' ! w) = q_exec_us (queue_buf afl ! w)"
    "q_n_fuzz_entry (queue_buf afl' ! w) = q_n_fuzz_entry (queue_buf afl ! w)" "q_was_fuzzed (queue_buf afl' ! w) = q_was_fuzzed (queue_buf afl ! w)"
    "q_id (queue_buf afl' ! w) = q_id (queue_buf afl ! w)" "q_disabled (queue_buf afl' ! w) = q_disabled (queue_buf afl ! w)"
    by simp_all
qed

lemma same_ratings_rated: "same_ratings afl afl' \<Longrightarrow> rated T R afl \<Longrightarrow> rated T R afl'"
proof -
  assume s: "same_ratings afl afl'" and r: "rated T R afl"
  show ?thesis using r
    by (rule rated_cong) (use s same_ratings_entry(1,2) [OF s] in \<open>simp_all add: same_ratings_def\<close>)
qed

lemma favor_same: "w < length (queue_buf afl) \<Longrightarrow> same_ratings afl (favor w afl)"
proof -
  assume w: "w < length (queue_buf afl)"
  have "\<exists>f r. queue_buf (favor w afl) ! v = (queue_buf afl ! v)\<lparr>q_favored := f, q_fs_redundant := r\<rparr>" for v
    using w by (intro exI [of _ "q_favored (queue_buf (favor w afl) ! v)"] exI [of _ "q_fs_redundant (queue_buf afl ! v)"])
      (auto simp: favor_def Let_def nth_list_update)
  then show ?thesis by (simp add: same_ratings_def)
qed

lemma word_bit_test: "(v :: u8) AND push_bit n 1 = 0 \<longleftrightarrow> \<not> bit v n" if "n < 8"
proof
  assume "v AND push_bit n 1 = 0"
  then have "\<not> bit (v AND push_bit n 1) n" by simp
  then show "\<not> bit v n" using that by (simp add: bit_simps)
next
  assume "\<not> bit v n"
  then show "v AND push_bit n 1 = 0" by (intro bit_word_eqI) (auto simp: bit_simps)
qed

lemma cull_slot_spec:
  assumes c: "culling T R i afl temp_v" and i: "i < length (top_rated afl)"
  shows "\<exists>afl' v. cull_slot (length (top_rated afl) div 8) i (afl, temp_v) = Some (afl', v) \<and> culling T R (Suc i) afl' v \<and> same_ratings afl afl'"
proof -
  have r: "rated T R afl" and len: "length temp_v = length (top_rated afl) div 8" using c by (simp_all add: culling_def)
  have m8: "8 * (length (top_rated afl) div 8) = length (top_rated afl)" using ratedD(2) [OF r] by presburger
  then have i8: "i div 8 < length temp_v" "i < 8 * length temp_v" using i len by linarith+
  have test: "temp_v ! (i div 8) AND push_bit (i mod 8) 1 = 0 \<longleftrightarrow> i \<notin> bit_ones temp_v"
    using i8 word_bit_test [of "i mod 8" "temp_v ! (i div 8)"] by (simp add: bit_ones_def)
  have keep: "culling T R (Suc i) afl temp_v" if "i \<notin> Domain R \<or> i \<notin> bit_ones temp_v"
    using c that unfolding culling_def by (metis less_Suc_eq)
  show ?thesis
  proof (cases "top_rated afl ! i")
    case None
    then have "i \<notin> Domain R" using ratedD(4) [OF r i] by simp
    moreover have "cull_slot (length (top_rated afl) div 8) i (afl, temp_v) = Some (afl, temp_v)" using None i by (simp add: cull_slot_def slot_def)
    ultimately show ?thesis using keep by auto
  next
    case (Some w)
    have R: "(i, w) \<in> R" "w < length (queue_buf afl)" "i \<in> T w" using ratedD(5,6) [OF r] i Some by blast+
    show ?thesis
    proof (cases "i \<in> bit_ones temp_v")
      case False
      then have "cull_slot (length (top_rated afl) div 8) i (afl, temp_v) = Some (afl, temp_v)" using Some i i8 test by (simp add: cull_slot_def slot_def)
      then show ?thesis using keep False by auto
    next
      case True
      have "i \<in> refs (top_rated afl) w" using i Some by (simp add: refs_def)
      then have "card (refs (top_rated afl) w) \<noteq> 0" by auto
      then obtain m where m: "q_trace_mini (queue_buf afl ! w) = Some m" "length m = length temp_v" "bit_ones m = T w"
        using ratedD(3) [OF r R(2)] len by (cases "q_trace_mini (queue_buf afl ! w)") (auto simp: entry_rated_def)
      obtain v where v: "clear_bits (length m) m temp_v = Some v" "length v = length m" "bit_ones v = bit_ones temp_v - bit_ones m"
        by (rule clear_bits_ones [of temp_v m]) (use m in simp_all)
      have "cull_slot (length (top_rated afl) div 8) i (afl, temp_v) = Some (favor w afl, v)"
        using Some i i8 test True R(2) m(1,2) v(1) len by (simp add: cull_slot_def slot_def)
      moreover have "culling T R (Suc i) (favor w afl) v"
      proof -
        have "bit_ones v = {..<length (top_rated afl)} - (\<Union>w\<in>favorites (favor w afl). T w)"
          using v(3) m(3) c favor_marks(1) [OF R(2)] unfolding culling_def by auto
        moreover have "\<forall>j\<in>Domain R. j < Suc i \<longrightarrow> j \<notin> bit_ones v"
          using c v(3) m(3) R(3) unfolding culling_def by (auto simp: less_Suc_eq)
        moreover have "Some w \<in> set (top_rated afl)" using i Some by (metis nth_mem)
        ultimately show ?thesis
          using c favor_rated [OF r] favor_counted [OF R(2)] favor_marks(1) [OF R(2)] v(2) m(2) unfolding culling_def by simp
      qed
      ultimately show ?thesis using favor_same [OF R(2)] by blast
    qed
  qed
qed

lemma cull_loop_spec:
  assumes "culling T R i afl temp_v" "i + k = length (top_rated afl)"
  shows "\<exists>afl' v. cull_loop (length (top_rated afl) div 8) k i (afl, temp_v) = Some (afl', v) \<and> culling T R (i + k) afl' v \<and> same_ratings afl afl'"
  using assms
proof (induction k arbitrary: i afl temp_v)
  case (Suc k)
  have i: "i < length (top_rated afl)" using Suc.prems(2) by linarith
  obtain afl1 v1 where 1: "cull_slot (length (top_rated afl) div 8) i (afl, temp_v) = Some (afl1, v1)" "culling T R (Suc i) afl1 v1" "same_ratings afl afl1"
    using cull_slot_spec [OF Suc.prems(1) i] by blast
  have tops: "top_rated afl1 = top_rated afl" using 1(3) by (simp add: same_ratings_def)
  then have "Suc i + k = length (top_rated afl1)" using Suc.prems(2) by simp
  from Suc.IH [OF 1(2) this] obtain afl2 v2 where 2: "cull_loop (length (top_rated afl) div 8) k (Suc i) (afl1, v1) = Some (afl2, v2)"
    "culling T R (Suc i + k) afl2 v2" "same_ratings afl1 afl2" unfolding tops by blast
  then show ?case using 1(1) same_ratings_trans [OF 1(3) 2(3)] by simp
qed simp


lemma redundant_loop_spec:
  assumes "\<forall>w st. io w st" "i + k = length (queue_buf afl)"
  shows "\<exists>afl'. redundant_loop io k i afl = Inr afl' \<and> same_ratings afl afl' \<and> queued_favored afl' = queued_favored afl \<and>
    pending_favored afl' = pending_favored afl \<and> smallest_favored afl' = smallest_favored afl \<and>
    (\<forall>w. q_favored (queue_buf afl' ! w) = q_favored (queue_buf afl ! w)) \<and>
    (\<forall>w<i. queue_buf afl' ! w = queue_buf afl ! w) \<and>
    (\<forall>w. i \<le> w \<and> w < length (queue_buf afl) \<and> \<not> q_disabled (queue_buf afl ! w) \<longrightarrow> q_fs_redundant (queue_buf afl' ! w) = (\<not> q_favored (queue_buf afl ! w)))"
  using assms(2)
proof (induction k arbitrary: i afl)
  case (Suc k)
  let ?e = "queue_buf afl ! i"
  have i: "i < length (queue_buf afl)" using Suc.prems by linarith
  define afl1 where "afl1 = (if q_disabled ?e then afl else modify_entry (\<lambda>e. e\<lparr>q_fs_redundant := \<not> q_favored ?e\<rparr>) i afl)"
  have noop: "modify_entry (\<lambda>e. e\<lparr>q_fs_redundant := \<not> q_favored ?e\<rparr>) i afl = afl" if "(\<not> q_favored ?e) = q_fs_redundant ?e"
    using that by (simp add: modify_entry_def)
  have run: "redundant_loop io (Suc k) i afl = redundant_loop io k (Suc i) afl1"
    using assms(1) noop by (auto simp: afl1_def mark_as_redundant_def Let_def)
  have "\<exists>f r. queue_buf afl1 ! w = (queue_buf afl ! w)\<lparr>q_favored := f, q_fs_redundant := r\<rparr>" for w
    using i by (intro exI [of _ "q_favored (queue_buf afl ! w)"] exI [of _ "q_fs_redundant (queue_buf afl1 ! w)"])
      (auto simp: afl1_def nth_list_update)
  then have 1: "same_ratings afl afl1" by (simp add: same_ratings_def afl1_def)
  have fav: "q_favored (queue_buf afl1 ! w) = q_favored (queue_buf afl ! w)" for w
    by (simp add: afl1_def nth_update_field)
  have other: "w \<noteq> i \<Longrightarrow> queue_buf afl1 ! w = queue_buf afl ! w" for w by (simp add: afl1_def)
  have "Suc i + k = length (queue_buf afl1)" using Suc.prems by (simp add: afl1_def)
  from Suc.IH [OF this] obtain afl2 where 2: "redundant_loop io k (Suc i) afl1 = Inr afl2" "same_ratings afl1 afl2" "queued_favored afl2 = queued_favored afl1"
    "pending_favored afl2 = pending_favored afl1" "smallest_favored afl2 = smallest_favored afl1"
    "\<forall>w. q_favored (queue_buf afl2 ! w) = q_favored (queue_buf afl1 ! w)" "\<forall>w<Suc i. queue_buf afl2 ! w = queue_buf afl1 ! w"
    "\<forall>w. Suc i \<le> w \<and> w < length (queue_buf afl1) \<and> \<not> q_disabled (queue_buf afl1 ! w) \<longrightarrow> q_fs_redundant (queue_buf afl2 ! w) = (\<not> q_favored (queue_buf afl1 ! w))"
    by blast
  have "q_fs_redundant (queue_buf afl2 ! w) = (\<not> q_favored (queue_buf afl ! w))"
    if "i \<le> w" "w < length (queue_buf afl)" "\<not> q_disabled (queue_buf afl ! w)" for w
  proof (cases "w = i")
    case True
    then show ?thesis using 2(7) that i by (simp add: afl1_def)
  next
    case False
    then have "Suc i \<le> w" "w < length (queue_buf afl1)" "\<not> q_disabled (queue_buf afl1 ! w)" using that other by (simp_all add: afl1_def)
    then show ?thesis using 2(8) fav by blast
  qed
  moreover have "queued_favored afl1 = queued_favored afl" "pending_favored afl1 = pending_favored afl" "smallest_favored afl1 = smallest_favored afl"
    by (simp_all add: afl1_def)
  moreover have "queue_buf afl2 ! w = queue_buf afl ! w" if "w < i" for w using 2(7) other [of w] that by simp
  ultimately show ?case using run 2(1,3-6) fav same_ratings_trans [OF 1 2(2)] by (intro exI [of _ afl2]) simp
qed auto

definition covered :: "(nat \<Rightarrow> nat set) \<Rightarrow> (nat \<times> nat) set \<Rightarrow> queue_state \<Rightarrow> bool" where
  "covered T R afl \<longleftrightarrow> counted afl \<and> (\<Union>w\<in>favorites afl. T w) = Domain R \<and> (\<forall>w\<in>favorites afl. Some w \<in> set (top_rated afl))"

definition trace_closed :: "(nat \<Rightarrow> nat set) \<Rightarrow> (nat \<times> nat) set \<Rightarrow> bool" where
  "trace_closed T R \<longleftrightarrow> (\<forall>(i, w)\<in>R. T w \<times> {w} \<subseteq> R)"

lemma bit_ones_replicate_255: "bit_ones (replicate n 255) = {..<8 * n}"
proof -
  have m: "(255 :: u8) = - 1" by simp
  have "bit (255 :: u8) k" if "k < 8" for k
    using that unfolding m by (simp add: possible_bit_def)
  then show ?thesis by (auto simp: bit_ones_def)
qed

lemma marks_cong:
  assumes "length (queue_buf afl') = length (queue_buf afl)"
    "\<And>w. w < length (queue_buf afl) \<Longrightarrow> q_favored (queue_buf afl' ! w) = q_favored (queue_buf afl ! w) \<and>
       q_was_fuzzed (queue_buf afl' ! w) = q_was_fuzzed (queue_buf afl ! w) \<and> q_id (queue_buf afl' ! w) = q_id (queue_buf afl ! w)"
  shows "favorites afl' = favorites afl" "pending afl' = pending afl"
    "queued_favored afl' = queued_favored afl \<Longrightarrow> pending_favored afl' = pending_favored afl \<Longrightarrow>
     smallest_favored afl' = smallest_favored afl \<Longrightarrow> counted afl' \<longleftrightarrow> counted afl"
proof -
  show f: "favorites afl' = favorites afl" and p: "pending afl' = pending afl" using assms by (auto simp: favorites_def pending_def)
  have "q_id (queue_buf afl' ! w) = q_id (queue_buf afl ! w)" if "w \<in> pending afl" for w
    using that assms by (simp add: favorites_def pending_def)
  then show "counted afl' \<longleftrightarrow> counted afl" if "queued_favored afl' = queued_favored afl" "pending_favored afl' = pending_favored afl"
    "smallest_favored afl' = smallest_favored afl"
    using that f p by (simp add: counted_def)
qed

lemma cull_queue_spec:
  assumes r: "rated T R afl" and cl: "trace_closed T R" and io: "\<forall>w st. io w st" and len: "length (queue_buf afl) < 2 ^ 32"
    and go: "score_changed afl" "\<not> non_instrumented_mode afl"
  shows "\<exists>afl'. cull_queue io afl = Some (Inr afl') \<and> same_ratings (afl\<lparr>score_changed := False\<rparr>) afl' \<and> covered T R afl' \<and>
    (\<forall>w<length (queue_buf afl). \<not> q_disabled (queue_buf afl ! w) \<longrightarrow> q_fs_redundant (queue_buf afl' ! w) = (\<not> q_favored (queue_buf afl' ! w)))"
proof -
  let ?M = "length (top_rated afl)"
  define afl0 where "afl0 = afl\<lparr>score_changed := False, queued_favored := 0, pending_favored := 0,
      queue_buf := map (\<lambda>e. e\<lparr>q_favored := False\<rparr>) (queue_buf afl), smallest_favored := -1\<rparr>"
  have "\<exists>f r. queue_buf afl0 ! w = (queue_buf afl ! w)\<lparr>q_favored := f, q_fs_redundant := r\<rparr>" if "w < length (queue_buf afl)" for w
    using that by (intro exI [of _ False] exI [of _ "q_fs_redundant (queue_buf afl ! w)"]) (simp add: afl0_def)
  then have 0: "same_ratings (afl\<lparr>score_changed := False\<rparr>) afl0" by (simp add: same_ratings_def afl0_def)
  have r0: "rated T R afl0" by (rule rated_cong [OF r]) (simp_all add: afl0_def)
  have m8: "8 * (?M div 8) = ?M" using ratedD(2) [OF r] by presburger
  have f0: "favorites afl0 = {}" "pending afl0 = {}" by (auto simp: favorites_def pending_def afl0_def)
  have "counted afl0" using f0 by (simp add: counted_def) (simp add: afl0_def)
  then have "culling T R 0 afl0 (replicate (?M div 8) 255)"
    using r0 f0 len m8 by (simp add: culling_def bit_ones_replicate_255) (simp add: afl0_def)
  from cull_loop_spec [OF this, of ?M] obtain afl1 v where 1: "cull_loop (?M div 8) ?M 0 (afl0, replicate (?M div 8) 255) = Some (afl1, v)"
    "culling T R ?M afl1 v" "same_ratings afl0 afl1" by (auto simp: afl0_def)
  obtain afl2 where 2: "redundant_loop io (length (queue_buf afl1)) 0 afl1 = Inr afl2" "same_ratings afl1 afl2" "queued_favored afl2 = queued_favored afl1"
    "pending_favored afl2 = pending_favored afl1" "smallest_favored afl2 = smallest_favored afl1"
    "\<forall>w. q_favored (queue_buf afl2 ! w) = q_favored (queue_buf afl1 ! w)"
    "\<forall>w. w < length (queue_buf afl1) \<and> \<not> q_disabled (queue_buf afl1 ! w) \<longrightarrow> q_fs_redundant (queue_buf afl2 ! w) = (\<not> q_favored (queue_buf afl1 ! w))"
    using redundant_loop_spec [OF io, of 0 "length (queue_buf afl1)" afl1] by auto
  let ?afl = "afl2\<lparr>reinit_table := True\<rparr>"
  have "unat (map_size (afl_maps afl)) = ?M" "unat (drop_bit 3 (map_size (afl_maps afl))) = ?M div 8"
    using ratedD(1) [OF r] by (simp_all add: drop_bit_eq_div unat_div)
  then have run: "cull_queue io afl = Some (Inr ?afl)" using go 1(1) 2(1) by (simp add: cull_queue_def afl0_def)
  have tot: "same_ratings (afl\<lparr>score_changed := False\<rparr>) afl2" using 0 1(3) 2(2) same_ratings_trans by blast
  then have tops: "top_rated afl1 = top_rated afl" "top_rated afl2 = top_rated afl" using 2(2) by (simp_all add: same_ratings_def)
  note marks = marks_cong [of afl2 afl1]
  have m: "favorites afl2 = favorites afl1" "counted afl2"
    using marks 2(2-6) same_ratings_entry(6,7) [OF 2(2)] 1(2) by (simp_all add: same_ratings_def culling_def)
  have "Domain R \<subseteq> (\<Union>w\<in>favorites afl1. T w)"
  proof
    fix j assume j: "j \<in> Domain R"
    then have "j < ?M" using ratedD(6) [OF r] by auto
    then have "j \<notin> bit_ones v" using 1(2) j unfolding culling_def by blast
    then show "j \<in> (\<Union>w\<in>favorites afl1. T w)" using 1(2) \<open>j < ?M\<close> tops unfolding culling_def by auto
  qed
  moreover have "(\<Union>w\<in>favorites afl1. T w) \<subseteq> Domain R"
  proof -
    have "T w \<subseteq> Domain R" if "w \<in> favorites afl1" for w
    proof -
      have "Some w \<in> set (top_rated afl)" using 1(2) that tops unfolding culling_def by auto
      then obtain i where "(i, w) \<in> R" using ratedD(5) [OF r] by (metis in_set_conv_nth)
      then show ?thesis using cl unfolding trace_closed_def by blast
    qed
    then show ?thesis by blast
  qed
  ultimately have "covered T R afl2" using m 1(2) tops unfolding covered_def culling_def by auto
  then have "covered T R ?afl" using marks_cong [of ?afl afl2] by (simp add: covered_def)
  moreover have "same_ratings (afl\<lparr>score_changed := False\<rparr>) ?afl" using tot by (simp add: same_ratings_def)
  moreover have "q_fs_redundant (queue_buf ?afl ! w) = (\<not> q_favored (queue_buf ?afl ! w))" if "w < length (queue_buf afl)" "\<not> q_disabled (queue_buf afl ! w)" for w
  proof -
    have s1: "same_ratings (afl\<lparr>score_changed := False\<rparr>) afl1" using 0 1(3) same_ratings_trans by blast
    then have "w < length (queue_buf afl1)" "\<not> q_disabled (queue_buf afl1 ! w)"
      using that same_ratings_entry(8) [OF s1, of w] by (simp_all add: same_ratings_def)
    then show ?thesis using 2(6,7) by simp
  qed
  ultimately show ?thesis using run by blast
qed


section \<open>The queue under any sequence of operations\<close>

definition queue_inv :: "(nat \<Rightarrow> nat set) \<Rightarrow> (nat \<times> nat) set \<Rightarrow> queue_state \<Rightarrow> bool" where
  "queue_inv T R afl \<longleftrightarrow> rated T R afl \<and> trace_closed T R \<and> n_fuzz_ok afl \<and> \<not> non_instrumented_mode afl \<and>
     (score_changed afl \<or> covered T R afl) \<and> (plain_schedule afl \<longrightarrow> best R afl)"

text \<open>What an operation needs: the entry exists, and its trace is the one it always has.\<close>

fun op_ready :: "(nat \<Rightarrow> nat set) \<Rightarrow> nat \<Rightarrow> nat \<Rightarrow> queue_op \<Rightarrow> bool" where
  "op_ready T M n (Score q tr) \<longleftrightarrow> q < n \<and> length tr = M \<and> {j. j < M \<and> tr ! j \<noteq> 0} = T q"
| "op_ready T M n (Add len passed_det us) \<longleftrightarrow> True"
| "op_ready T M n (Fuzz w ok) \<longleftrightarrow> w < n"
| "op_ready T M n Cull \<longleftrightarrow> True"

fun ops_ready :: "(nat \<Rightarrow> nat set) \<Rightarrow> nat \<Rightarrow> nat \<Rightarrow> queue_op list \<Rightarrow> bool" where
  "ops_ready T M n [] \<longleftrightarrow> True"
| "ops_ready T M n (x # xs) \<longleftrightarrow> op_ready T M n x \<and> ops_ready T M (case x of Add _ _ _ \<Rightarrow> n + 1 | _ \<Rightarrow> n) xs"

definition scored :: "(nat \<Rightarrow> nat set) \<Rightarrow> queue_op list \<Rightarrow> (nat \<times> nat) set" where
  "scored T ops = {(i, q). (\<exists>tr. Score q tr \<in> set ops) \<and> i \<in> T q}"

lemma scored_Cons: "scored T (x # xs) = (case x of Score q tr \<Rightarrow> T q \<times> {q} | _ \<Rightarrow> {}) \<union> scored T xs"
  by (auto simp: scored_def split: queue_op.splits)

lemma best_cong:
  assumes r: "rated T R afl" "best R afl" and "top_rated b = top_rated afl"
    "\<And>w. w < length (queue_buf afl) \<Longrightarrow> fav_factor b (queue_buf b ! w) = fav_factor afl (queue_buf afl ! w)"
  shows "best R b"
  unfolding best_def assms(3)
proof (intro allI impI)
  fix i w u assume a: "i < length (top_rated afl)" "top_rated afl ! i = Some w" "(i, u) \<in> R"
  then have "w < length (queue_buf afl)" "u < length (queue_buf afl)" using ratedD(5,6) [OF r(1)] by blast+
  then show "fav_factor b (queue_buf b ! w) \<le> fav_factor b (queue_buf b ! u)"
    using r(2) a assms(4) unfolding best_def by metis
qed

lemma queue_inv_add:
  assumes inv: "queue_inv T R afl"
  shows "\<exists>afl'. queue_step io (Add len passed_det us) afl = Some (Inr afl') \<and> queue_inv T R afl' \<and>
    length (queue_buf afl') = length (queue_buf afl) + 1 \<and> map_size (afl_maps afl') = map_size (afl_maps afl)"
proof -
  define a where "a = modify_entry (\<lambda>e. e\<lparr>q_exec_us := us\<rparr>) (length (queue_buf afl)) (add_to_queue afl len passed_det)"
  obtain e where e: "queue_buf a = queue_buf afl @ [e]" "q_tc_ref e = 0" "q_trace_mini e = None" "\<not> q_favored e" "q_n_fuzz_entry e = 0"
    by (simp add: a_def add_to_queue_def Let_def list_update_append)
  have same: "top_rated a = top_rated afl" "afl_maps a = afl_maps afl" "schedule a = schedule afl" "fixed_seed a = fixed_seed afl" "n_fuzz a = n_fuzz afl"
    "non_instrumented_mode a = non_instrumented_mode afl" "score_changed a = score_changed afl" "queued_favored a = queued_favored afl"
    "pending_favored a = pending_favored afl" "smallest_favored a = smallest_favored afl"
    by (simp_all add: a_def add_to_queue_def Let_def)
  have r: "rated T R afl" using inv by (simp add: queue_inv_def)
  have none: "refs (top_rated afl) (length (queue_buf afl)) = {}"
    using ratedD(5,6) [OF r] by (fastforce simp: refs_def)
  have ent: "entry_rated T (top_rated afl) w (queue_buf a ! w)" if "w < length (queue_buf a)" for w
    using that e none ratedD(3) [OF r, of w] by (cases "w = length (queue_buf afl)") (auto simp: entry_rated_def nth_append)
  have "R \<subseteq> {(i, w). i < length (top_rated afl) \<and> w < length (queue_buf a) \<and> i \<in> T w}" using ratedD(6) [OF r] e(1) by fastforce
  then have rated: "rated T R a" using r ent unfolding rated_def same by blast
  have fav: "favorites a = favorites afl" "pending a = pending afl"
    using e by (auto simp: favorites_def pending_def nth_append split: if_splits)
  have "q_id (queue_buf a ! w) = q_id (queue_buf afl ! w)" if "w \<in> pending afl" for w
    using that e(1) by (simp add: pending_def favorites_def nth_append)
  then have "covered T R a \<longleftrightarrow> covered T R afl" using fav same by (simp add: covered_def counted_def)
  moreover have "best R a" if "best R afl"
    by (rule best_cong [OF r that same(1)]) (use e(1) same in \<open>simp add: fav_factor_def nth_append\<close>)
  moreover have "n_fuzz_ok a" using inv e same by (auto simp: queue_inv_def n_fuzz_ok_def)
  ultimately have "queue_inv T R a" using inv rated same by (simp add: queue_inv_def plain_schedule_def)
  moreover have "length (queue_buf a) = length (queue_buf afl) + 1" using e(1) by simp
  ultimately show ?thesis using same(2) by (simp add: a_def)
qed

lemma entry_fuzzed_fields:
  "q_tc_ref (queue_buf (entry_fuzzed ok w afl) ! v) = q_tc_ref (queue_buf afl ! v)"
  "q_trace_mini (queue_buf (entry_fuzzed ok w afl) ! v) = q_trace_mini (queue_buf afl ! v)"
  "q_exec_us (queue_buf (entry_fuzzed ok w afl) ! v) = q_exec_us (queue_buf afl ! v)"
  "q_len (queue_buf (entry_fuzzed ok w afl) ! v) = q_len (queue_buf afl ! v)"
  "q_n_fuzz_entry (queue_buf (entry_fuzzed ok w afl) ! v) = q_n_fuzz_entry (queue_buf afl ! v)"
  by (simp_all add: entry_fuzzed_def Let_def nth_update_field)

lemma entry_fuzzed_simps [simp]:
  "top_rated (entry_fuzzed ok w afl) = top_rated afl" "afl_maps (entry_fuzzed ok w afl) = afl_maps afl"
  "length (queue_buf (entry_fuzzed ok w afl)) = length (queue_buf afl)" "schedule (entry_fuzzed ok w afl) = schedule afl"
  "fixed_seed (entry_fuzzed ok w afl) = fixed_seed afl" "n_fuzz (entry_fuzzed ok w afl) = n_fuzz afl"
  "non_instrumented_mode (entry_fuzzed ok w afl) = non_instrumented_mode afl" "score_changed (entry_fuzzed ok w afl) = score_changed afl"
  "queued_favored (entry_fuzzed ok w afl) = queued_favored afl"
  by (simp_all add: entry_fuzzed_def Let_def)

lemma entry_fuzzed_counted:
  assumes w: "w < length (queue_buf afl)" and c: "counted afl"
  shows "favorites (entry_fuzzed ok w afl) = favorites afl" "counted (entry_fuzzed ok w afl)"
proof -
  let ?e = "queue_buf afl ! w" and ?a = "entry_fuzzed ok w afl"
  show f: "favorites ?a = favorites afl" using w by (auto simp: favorites_def entry_fuzzed_def Let_def nth_list_update)
  show "counted ?a"
  proof (cases "ok \<and> \<not> q_was_fuzzed ?e \<and> \<not> q_disabled ?e")
    case True
    then have p: "pending ?a = pending afl - {w}" using w by (auto simp: pending_def favorites_def entry_fuzzed_def Let_def nth_list_update)
    show ?thesis
    proof (cases "q_favored ?e")
      case fav: True
      then have "w \<in> pending afl" using True w by (simp add: pending_def favorites_def)
      then have "0 < card (pending afl)" by (auto simp: card_gt_0_iff)
      then have pos: "0 < unat (pending_favored afl)" using c by (simp add: counted_def)
      then have "unat (pending_favored afl - 1) = unat (pending_favored afl) - 1" by (metis unat_minus_one unat_gt_0)
      moreover have "pending_favored ?a = pending_favored afl - 1" using True fav by (simp add: entry_fuzzed_def Let_def)
      ultimately show ?thesis using c f p \<open>w \<in> pending afl\<close> by (simp add: counted_def)
    next
      case False
      then have "w \<notin> pending afl" by (simp add: pending_def favorites_def)
      moreover have "pending_favored ?a = pending_favored afl" using True False by (simp add: entry_fuzzed_def Let_def)
      ultimately show ?thesis using c f p by (simp add: counted_def)
    qed
  next
    case False
    then have "?a = modify_entry (\<lambda>e. e\<lparr>q_fuzz_level := q_fuzz_level e + 1\<rparr>) w afl" by (auto simp: entry_fuzzed_def Let_def)
    moreover from this have "pending ?a = pending afl" using w by (auto simp: pending_def favorites_def nth_list_update)
    ultimately show ?thesis using c f by (simp add: counted_def)
  qed
qed

lemma queue_inv_fuzz:
  assumes inv: "queue_inv T R afl" and w: "w < length (queue_buf afl)"
  shows "\<exists>afl'. queue_step io (Fuzz w ok) afl = Some (Inr afl') \<and> queue_inv T R afl' \<and>
    length (queue_buf afl') = length (queue_buf afl) \<and> map_size (afl_maps afl') = map_size (afl_maps afl)"
proof -
  let ?a = "entry_fuzzed ok w afl"
  have r: "rated T R afl" using inv by (simp add: queue_inv_def)
  note same = entry_fuzzed_fields [of ok w afl]
  have "rated T R ?a" by (rule rated_cong [OF r]) (simp_all add: same)
  moreover have "best R ?a" if "best R afl" by (rule best_cong [OF r that]) (simp_all add: fav_factor_def same)
  moreover have "covered T R ?a" if "covered T R afl" using that entry_fuzzed_counted [OF w] by (simp add: covered_def)
  moreover have "n_fuzz_ok ?a" using inv by (auto simp: queue_inv_def n_fuzz_ok_def in_set_conv_nth Ball_def same)
  ultimately show ?thesis using inv w by (auto simp: queue_inv_def plain_schedule_def)
qed

lemma queue_inv_score:
  assumes inv: "queue_inv T R afl" and ready: "op_ready T (unat (map_size (afl_maps afl))) (length (queue_buf afl)) (Score q tr)"
  shows "\<exists>afl'. queue_step io (Score q tr) afl = Some (Inr afl') \<and> queue_inv T (R \<union> T q \<times> {q}) afl' \<and>
    length (queue_buf afl') = length (queue_buf afl) \<and> map_size (afl_maps afl') = map_size (afl_maps afl)"
proof -
  let ?a = "afl\<lparr>afl_maps := (afl_maps afl)\<lparr>trace_bits := tr\<rparr>\<rparr>"
  have r: "rated T R ?a" by (rule rated_cong [of T R afl]) (use inv in \<open>simp_all add: queue_inv_def\<close>)
  have tr: "traced T q ?a" using ready ratedD(1) [OF r] by (simp add: traced_def)
  have n: "n_fuzz_ok ?a" using inv by (simp add: queue_inv_def n_fuzz_ok_def)
  obtain b where b: "update_bitmap_score ?a q = Some b" "same_queue ?a b" "rated T (R \<union> T q \<times> {q}) b"
    "score_changed b \<or> b = ?a \<and> Domain (R \<union> T q \<times> {q}) = Domain R" "score_changed ?a \<longrightarrow> score_changed b"
    "plain_schedule ?a \<and> best R ?a \<longrightarrow> best (R \<union> T q \<times> {q}) b"
    using update_bitmap_score_spec [OF r tr n] by (elim exE conjE) (rule that)
  let ?S = "R \<union> T q \<times> {q}"
  have "plain_schedule b \<longrightarrow> best ?S b"
  proof
    assume "plain_schedule b"
    then have p: "plain_schedule ?a" using same_queue_plain [OF b(2)] by simp
    then have "best R afl" using inv by (simp add: queue_inv_def plain_schedule_def)
    then have "best R ?a" by (simp add: best_def fav_factor_def)
    then show "best ?S b" using b(6) p by blast
  qed
  moreover have "score_changed b \<or> covered T ?S b"
  proof (cases "score_changed b")
    case False
    then have eq: "b = ?a" "Domain ?S = Domain R" "\<not> score_changed afl" using b(4,5) by auto
    have "covered T R afl" using inv eq(3) by (simp add: queue_inv_def)
    then show ?thesis using eq(2) marks_cong [of ?a afl] unfolding eq(1) covered_def by simp
  qed simp
  moreover have "trace_closed T (R \<union> T q \<times> {q})" using inv unfolding queue_inv_def trace_closed_def by blast
  moreover have "n_fuzz_ok b" using same_queue_n_fuzz [OF b(2) n] .
  ultimately have "queue_inv T (R \<union> T q \<times> {q}) b" using b(2,3) inv by (simp add: queue_inv_def same_queue_def)
  then show ?thesis using b(1,2) by (simp add: same_queue_def)
qed

lemma queue_inv_cull:
  assumes inv: "queue_inv T R afl" and io: "\<forall>w st. io w st" and len: "length (queue_buf afl) < 2 ^ 32"
  shows "\<exists>afl'. queue_step io Cull afl = Some (Inr afl') \<and> queue_inv T R afl' \<and> covered T R afl' \<and>
    length (queue_buf afl') = length (queue_buf afl) \<and> map_size (afl_maps afl') = map_size (afl_maps afl)"
proof (cases "score_changed afl")
  case False
  then show ?thesis using inv by (simp add: cull_queue_def queue_inv_def)
next
  case True
  have r: "rated T R afl" "trace_closed T R" "\<not> non_instrumented_mode afl" using inv by (simp_all add: queue_inv_def)
  obtain b where b: "cull_queue io afl = Some (Inr b)" "same_ratings (afl\<lparr>score_changed := False\<rparr>) b" "covered T R b"
    using cull_queue_spec [OF r(1,2) io len True r(3)] by blast
  have "rated T R b" by (rule same_ratings_rated [OF b(2)], rule rated_cong [OF r(1)]) simp_all
  moreover have "best R b" if "best R afl"
    by (rule best_cong [OF r(1) that]) (use b(2) same_ratings_entry(3,4) [OF b(2)] in \<open>simp_all add: fav_factor_def same_ratings_def\<close>)
  moreover have "n_fuzz_ok b"
    using inv b(2) same_ratings_entry(5) [OF b(2)] by (auto simp: queue_inv_def n_fuzz_ok_def same_ratings_def in_set_conv_nth Ball_def)
  ultimately show ?thesis
    using inv b r(2) by (auto simp: queue_inv_def same_ratings_def plain_schedule_def)
qed

lemma queue_run_inv:
  assumes "queue_inv T R afl" "\<forall>w st. io w st" "ops_ready T (unat (map_size (afl_maps afl))) (length (queue_buf afl)) ops"
    "length (queue_buf afl) + length ops < 2 ^ 32"
  shows "\<exists>afl'. queue_run io ops afl = Some (Inr afl') \<and> queue_inv T (R \<union> scored T ops) afl' \<and> length (queue_buf afl') \<le> length (queue_buf afl) + length ops \<and>
    map_size (afl_maps afl') = map_size (afl_maps afl)"
  using assms
proof (induction ops arbitrary: R afl)
  case Nil
  then show ?case by (simp add: scored_def)
next
  case (Cons x ops)
  let ?S = "case x of Score q tr \<Rightarrow> T q \<times> {q} | _ \<Rightarrow> {}"
  obtain b where b: "queue_step io x afl = Some (Inr b)" "queue_inv T (R \<union> ?S) b"
    "length (queue_buf b) = (case x of Add _ _ _ \<Rightarrow> length (queue_buf afl) + 1 | _ \<Rightarrow> length (queue_buf afl))" "map_size (afl_maps b) = map_size (afl_maps afl)"
  proof (cases x)
    case (Add len pd us)
    then show ?thesis using that queue_inv_add [OF Cons.prems(1), of io len pd us] by auto
  next
    case (Fuzz w ok)
    then show ?thesis using that queue_inv_fuzz [OF Cons.prems(1), of w io ok] Cons.prems(3) by auto
  next
    case (Score q tr)
    then show ?thesis using that queue_inv_score [OF Cons.prems(1), of q tr io] Cons.prems(3) by auto
  next
    case Cull
    then show ?thesis using that queue_inv_cull [OF Cons.prems(1,2)] Cons.prems(4) by auto
  qed
  have "ops_ready T (unat (map_size (afl_maps b))) (length (queue_buf b)) ops" using Cons.prems(3) b(3,4) by (simp split: queue_op.splits)
  moreover have len: "length (queue_buf b) \<le> length (queue_buf afl) + 1" using b(3) by (simp split: queue_op.splits)
  ultimately obtain c where c: "queue_run io ops b = Some (Inr c)" "queue_inv T (R \<union> ?S \<union> scored T ops) c"
    "length (queue_buf c) \<le> length (queue_buf b) + length ops" "map_size (afl_maps c) = map_size (afl_maps b)"
    using Cons.IH [OF b(2) Cons.prems(2)] Cons.prems(4) by auto
  have "queue_run io (x # ops) afl = Some (Inr c)" using b(1) c(1) by simp
  moreover have "queue_inv T (R \<union> scored T (x # ops)) c" using c(2) by (simp add: scored_Cons Un_assoc)
  ultimately show ?case using c(3,4) b(4) len by auto
qed


section \<open>Properties\<close>

definition queue_init :: "queue_state \<Rightarrow> bool" where
  "queue_init afl \<longleftrightarrow> queue_buf afl = [] \<and> top_rated afl = replicate (unat (map_size (afl_maps afl))) None \<and>
     unat (map_size (afl_maps afl)) mod 8 = 0 \<and> n_fuzz afl \<noteq> [] \<and> \<not> score_changed afl \<and> \<not> non_instrumented_mode afl \<and>
     queued_favored afl = 0 \<and> pending_favored afl = 0"

lemma queue_run_append:
  "queue_run io (xs @ ys) afl = do {
     r \<leftarrow> queue_run io xs afl;
     case r of Inl err \<Rightarrow> Some (Inl err) | Inr afl \<Rightarrow> queue_run io ys afl
   }"
proof (induction xs arbitrary: afl)
  case (Cons x xs)
  then show ?case by (cases "queue_step io x afl") (auto split: sum.splits)
qed simp

lemma queue_init_inv: "queue_init afl \<Longrightarrow> queue_inv T {} afl"
  by (simp add: queue_init_def queue_inv_def rated_def trace_closed_def n_fuzz_ok_def covered_def counted_def favorites_def pending_def best_def)

text \<open>
  C15 After any sequence of adding inputs, rating executed inputs, fuzzing entries and
  culling, from an empty queue, when the trace of an input is always the same and the marker files can be
  written, a further culling returns and leaves a set of favored entries that hits every
  byte of the map any rated input hits; each of them is the best entry of some byte, and the
  counters of favored and of pending favored entries are exact.
\<close>

theorem afl_favored_cover:
  assumes "queue_init afl" "\<forall>w st. io w st" "ops_ready T (unat (map_size (afl_maps afl))) 0 ops" "length ops < 2 ^ 32"
  shows "\<exists>afl'. queue_run io (ops @ [Cull]) afl = Some (Inr afl') \<and>
     (\<Union>w\<in>favorites afl'. T w) = \<Union>{T q |q. \<exists>tr. Score q tr \<in> set ops} \<and>
     (\<forall>w\<in>favorites afl'. Some w \<in> set (top_rated afl')) \<and>
     unat (queued_favored afl') = card (favorites afl') \<and>
     unat (pending_favored afl') = card {w \<in> favorites afl'. \<not> q_was_fuzzed (queue_buf afl' ! w)}"
proof -
  have "queue_buf afl = []" using assms(1) by (simp add: queue_init_def)
  then obtain b where b: "queue_run io ops afl = Some (Inr b)" "queue_inv T (scored T ops) b" "length (queue_buf b) < 2 ^ 32"
    using queue_run_inv [OF queue_init_inv [OF assms(1)] assms(2), of T ops] assms(3,4) by auto
  obtain c where c: "queue_step io Cull b = Some (Inr c)" "covered T (scored T ops) c"
    using queue_inv_cull [OF b(2) assms(2) b(3)] by blast
  have "Domain (scored T ops) = \<Union>{T q |q. \<exists>tr. Score q tr \<in> set ops}" by (auto simp: scored_def)
  moreover have "queue_run io (ops @ [Cull]) afl = Some (Inr c)" using b(1) c(1) queue_run_append [of io ops "[Cull]" afl] by simp
  ultimately show ?thesis using c(2) by (auto simp: covered_def counted_def pending_def)
qed

text \<open>
  C16 After any such sequence the table of best entries has an entry exactly for the bytes
  some rated input hits, one that hits it; with the schedules from FAST to QUAD none of the
  rated inputs that hit the byte has a smaller product of execution time and length.  The
  reference count of an entry is the number of its bytes in the table, and its compressed
  trace is kept exactly while it has any and holds the bytes its input hits.
\<close>

theorem afl_top_rated_best:
  assumes "queue_init afl" "\<forall>w st. io w st" "ops_ready T (unat (map_size (afl_maps afl))) 0 ops" "length ops < 2 ^ 32"
  shows "\<exists>afl'. queue_run io ops afl = Some (Inr afl') \<and> length (top_rated afl') = unat (map_size (afl_maps afl)) \<and>
     (\<forall>i<unat (map_size (afl_maps afl)).
        (case top_rated afl' ! i of
           None \<Rightarrow> \<forall>q tr. Score q tr \<in> set ops \<longrightarrow> i \<notin> T q
         | Some w \<Rightarrow> i \<in> T w \<and> (\<exists>tr. Score w tr \<in> set ops) \<and>
             (plain_schedule afl' \<longrightarrow> (\<forall>q tr. Score q tr \<in> set ops \<and> i \<in> T q \<longrightarrow>
                fav_factor afl' (queue_buf afl' ! w) \<le> fav_factor afl' (queue_buf afl' ! q))))) \<and>
     (\<forall>w<length (queue_buf afl').
        unat (q_tc_ref (queue_buf afl' ! w)) = card {i. i < length (top_rated afl') \<and> top_rated afl' ! i = Some w} \<and>
        (case q_trace_mini (queue_buf afl' ! w) of
           None \<Rightarrow> q_tc_ref (queue_buf afl' ! w) = 0
         | Some m \<Rightarrow> q_tc_ref (queue_buf afl' ! w) \<noteq> 0 \<and> bit_ones m = T w))"
proof -
  have "queue_buf afl = []" using assms(1) by (simp add: queue_init_def)
  then obtain b where b: "queue_run io ops afl = Some (Inr b)" "queue_inv T (scored T ops) b" "map_size (afl_maps b) = map_size (afl_maps afl)"
    using queue_run_inv [OF queue_init_inv [OF assms(1)] assms(2), of T ops] assms(3,4) by auto
  have r: "rated T (scored T ops) b" "plain_schedule b \<longrightarrow> best (scored T ops) b" using b(2) by (simp_all add: queue_inv_def)
  have len: "length (top_rated b) = unat (map_size (afl_maps afl))" using ratedD(1) [OF r(1)] b(3) by simp
  have tops: "case top_rated b ! i of None \<Rightarrow> \<forall>q tr. Score q tr \<in> set ops \<longrightarrow> i \<notin> T q
         | Some w \<Rightarrow> i \<in> T w \<and> (\<exists>tr. Score w tr \<in> set ops) \<and>
             (plain_schedule b \<longrightarrow> (\<forall>q tr. Score q tr \<in> set ops \<and> i \<in> T q \<longrightarrow> fav_factor b (queue_buf b ! w) \<le> fav_factor b (queue_buf b ! q)))"
    if i: "i < length (top_rated b)" for i
  proof (cases "top_rated b ! i")
    case None
    then show ?thesis using ratedD(4) [OF r(1) i] by (auto simp: scored_def)
  next
    case (Some w)
    then have "(i, w) \<in> scored T ops" using ratedD(5) [OF r(1) i] by simp
    moreover have "(i, q) \<in> scored T ops" if "Score q tr \<in> set ops" "i \<in> T q" for q tr using that by (auto simp: scored_def)
    then have "fav_factor b (queue_buf b ! w) \<le> fav_factor b (queue_buf b ! q)" if "plain_schedule b" "Score q tr \<in> set ops" "i \<in> T q" for q tr
      using r(2) that i Some unfolding best_def by blast
    ultimately show ?thesis using Some by (auto simp: scored_def)
  qed
  have entries: "unat (q_tc_ref (queue_buf b ! w)) = card {i. i < length (top_rated b) \<and> top_rated b ! i = Some w} \<and>
        (case q_trace_mini (queue_buf b ! w) of None \<Rightarrow> q_tc_ref (queue_buf b ! w) = 0
         | Some m \<Rightarrow> q_tc_ref (queue_buf b ! w) \<noteq> 0 \<and> bit_ones m = T w)" if "w < length (queue_buf b)" for w
    using ratedD(3) [OF r(1) that] by (auto simp: entry_rated_def refs_def split: option.splits)
  show ?thesis unfolding len [symmetric] using b(1) tops entries by (intro exI [of _ b]) blast
qed


definition small_queue :: queue_state where
  "small_queue = \<lparr>afl_maps = \<lparr>trace_bits = replicate 8 0, map_size = 8, real_map_size = 8, virgin_bits = [], virgin_tmout = [], virgin_crash = [],
     bitmap_changed = False\<rparr>, queue_buf = [], top_rated = replicate 8 None, n_fuzz = [0], schedule = FAST, fixed_seed = False,
     non_instrumented_mode = False, score_changed = False, reinit_table = False, queued_favored = 0, pending_favored = 0,
     smallest_favored = 0, cur_depth = 0, max_depth = 0, ready_for_splicing_count = 0, active_items = 0, pending_not_fuzzed = 0, cycles_wo_finds = 0\<rparr>"

text \<open>Two inputs that hit byte 0; the second is faster.\<close>

definition two_inputs :: "queue_op list" where
  "two_inputs = [Add 5 False 20, Score 0 (1 # replicate 7 0), Cull, Fuzz 0 True, Add 5 False 10, Score 1 (1 # replicate 7 0)]"

lemma small_queue_ready:
  "queue_init small_queue" "unat (map_size (afl_maps small_queue)) = 8"
  "ops_ready (\<lambda>_. {0}) (unat (map_size (afl_maps small_queue))) 0 two_inputs" "length two_inputs < 2 ^ 32"
proof -
  have "{j. j < 8 \<and> (1 # replicate 7 0 :: u8 list) ! j \<noteq> 0} = {0}" by (auto simp: nth_Cons' split: if_splits)
  then show "ops_ready (\<lambda>_. {0}) (unat (map_size (afl_maps small_queue))) 0 two_inputs"
    by (simp add: small_queue_def two_inputs_def)
  show "queue_init small_queue" "unat (map_size (afl_maps small_queue)) = 8" by (simp_all add: queue_init_def small_queue_def)
  show "length two_inputs < 2 ^ 32" by (simp add: two_inputs_def)
qed

lemma two_inputs_scored: "(\<exists>tr. Score q tr \<in> set two_inputs) \<longleftrightarrow> q = 0 \<or> q = 1"
  by (auto simp: two_inputs_def)

theorem afl_favored_cover_witness:
  "\<exists>afl'. queue_run (\<lambda>_ _. True) (two_inputs @ [Cull]) small_queue = Some (Inr afl') \<and>
     favorites afl' \<noteq> {} \<and> unat (queued_favored afl') = card (favorites afl')"
proof -
  have "\<forall>w st. (\<lambda>_ _. True) (w :: nat) (st :: bool)" by simp
  note cover = afl_favored_cover [OF small_queue_ready(1) this small_queue_ready(3,4)]
  have eq: "\<Union>{{0 :: nat} |q. \<exists>tr. Score q tr \<in> set two_inputs} = {0}" unfolding two_inputs_scored by auto
  obtain afl' where a: "queue_run (\<lambda>_ _. True) (two_inputs @ [Cull]) small_queue = Some (Inr afl')" "(\<Union>w\<in>favorites afl'. {0 :: nat}) = {0}"
    "unat (queued_favored afl') = card (favorites afl')"
    using cover unfolding eq by (elim exE conjE) (rule that)
  have "favorites afl' \<noteq> {}" using a(2) by (metis UN_empty insert_not_empty)
  then show ?thesis using a(1,3) by blast
qed

lemma two_inputs_run:
  "map_option (map_sum id (\<lambda>afl. (schedule afl, fixed_seed afl, map q_exec_us (queue_buf afl), map q_len (queue_buf afl))))
     (queue_run (\<lambda>_ _. True) two_inputs small_queue) = Some (Inr (FAST, False, [20, 10], [5, 5]))"
  by code_simp

theorem afl_top_rated_best_witness:
  "\<exists>afl'. queue_run (\<lambda>_ _. True) two_inputs small_queue = Some (Inr afl') \<and> top_rated afl' ! 0 = Some 1 \<and> top_rated afl' ! 1 = None"
proof -
  have "\<forall>w st. (\<lambda>_ _. True) (w :: nat) (st :: bool)" by simp
  note best = afl_top_rated_best [OF small_queue_ready(1) this small_queue_ready(3,4)]
  obtain afl' where a: "queue_run (\<lambda>_ _. True) two_inputs small_queue = Some (Inr afl')"
    "\<forall>i<8. case top_rated afl' ! i of None \<Rightarrow> \<forall>q tr. Score q tr \<in> set two_inputs \<longrightarrow> i \<notin> {0}
         | Some w \<Rightarrow> i \<in> {0} \<and> (\<exists>tr. Score w tr \<in> set two_inputs) \<and>
             (plain_schedule afl' \<longrightarrow> (\<forall>q tr. Score q tr \<in> set two_inputs \<and> i \<in> {0} \<longrightarrow>
                fav_factor afl' (queue_buf afl' ! w) \<le> fav_factor afl' (queue_buf afl' ! q)))"
    using best unfolding small_queue_ready(2) by (elim exE conjE) (rule that)
  have f: "schedule afl' = FAST" "\<not> fixed_seed afl'" "map q_exec_us (queue_buf afl') = [20, 10]" "map q_len (queue_buf afl') = [5, 5]"
    using two_inputs_run a(1) by simp_all
  then obtain e0 e1 where e: "queue_buf afl' = [e0, e1]" by (auto simp: map_eq_Cons_conv)
  have p: "plain_schedule afl'" "fav_factor afl' (queue_buf afl' ! 0) = 100" "fav_factor afl' (queue_buf afl' ! 1) = 50"
    using f unfolding e by (simp_all add: plain_schedule_def fav_factor_def less_schedule_def less_eq_schedule_def)
  obtain tr where tr: "Score 1 tr \<in> set two_inputs" using two_inputs_scored by blast
  have "top_rated afl' ! 0 = Some 1"
  proof (cases "top_rated afl' ! 0")
    case None
    then show ?thesis using spec [OF a(2), of 0] tr by auto
  next
    case (Some w)
    then have "\<exists>tr. Score w tr \<in> set two_inputs" "fav_factor afl' (queue_buf afl' ! w) \<le> fav_factor afl' (queue_buf afl' ! 1)"
      using spec [OF a(2), of 0] tr p(1) by auto
    then have "w = 0 \<or> w = 1" "w \<noteq> 0" unfolding two_inputs_scored p(3) using p(2) by auto
    then show ?thesis using Some by simp
  qed
  moreover have "top_rated afl' ! 1 = None" using spec [OF a(2), of 1] by (cases "top_rated afl' ! 1") simp_all
  ultimately show ?thesis using a(1) by blast
qed

text \<open>\<open>smallest_favored\<close> is the entry that is favored first in the order of the bytes, here entry 1 although entry 0 is favored too.\<close>

lemma smallest_favored_is_first:
  "map_option (map_sum id (\<lambda>afl. (smallest_favored afl, map (\<lambda>e. (q_favored e, q_was_fuzzed e)) (queue_buf afl))))
     (queue_run (\<lambda>_ _. True) [Add 5 False 10, Add 5 False 10, Score 1 (1 # replicate 7 0), Score 0 (0 # 1 # replicate 6 0), Cull] small_queue) =
   Some (Inr (1, [(True, False), (True, False)]))"
  by code_simp

end
