(* ===== verification/Afl_Alias.thy ===== *)
theory Afl_Alias
  imports Afl_Queue
begin

text \<open>
  Selection of the next input of AFL++ (\<open>src/testbed/aflpp/src/afl-fuzz-queue.c\<close>): the performance
  score of an entry (\<open>calculate_score\<close>), its weight (\<open>compute_weight\<close>), the alias table
  (\<open>create_alias_table\<close>) and the selection from it.  Doubles are real numbers; \<open>None\<close> is an access
  outside an array, a loop that does not end, or a value that is not a real number or not in the range of the
  integer it is converted to.  Memory for the tables is available (\<open>create_alias_table\<close> stops the
  program otherwise).  The table is exact: every entry is selected with the share of its weight.
\<close>

section \<open>The performance score\<close>

record score_env =
  total_cal_us :: u64
  total_cal_cycles :: u64
  total_bitmap_size :: u64
  total_bitmap_entries :: u64
  total_execs :: u64
  havoc_max_mult :: u8
  limit_time_sig :: int
  queued_discovered :: u32

text \<open>
  \<open>perf_score *= f\<close> with a floating-point factor: the product is truncated; a product that
  is not in the range of the type is undefined.
\<close>

definition scale :: "u32 \<Rightarrow> real \<Rightarrow> u32 option" where
  "scale p f = (let x = real (unat p) * f in if -1 < x \<and> x < 2 ^ 32 then Some (word_of_int (if x < 0 then 0 else \<lfloor>x\<rfloor>)) else None)"

definition speed_score :: "queue_state \<Rightarrow> u32 \<Rightarrow> queue_entry \<Rightarrow> u32" where
  "speed_score afl avg_exec_us q =
     (let us = real (unat (q_exec_us q)); avg = real (unat avg_exec_us)
      in if schedule afl < RARE \<and> \<not> fixed_seed afl
         then if us * 0.1 > avg then 10
              else if us * 0.25 > avg then 25
              else if us * 0.5 > avg then 50
              else if us * 0.75 > avg then 75
              else if q_exec_us q * 4 < ucast avg_exec_us then 300
              else if q_exec_us q * 3 < ucast avg_exec_us then 200
              else if q_exec_us q * 2 < ucast avg_exec_us then 150
              else 100
         else 100)"

definition bitmap_score :: "u32 \<Rightarrow> queue_entry \<Rightarrow> u32 \<Rightarrow> u32 option" where
  "bitmap_score avg_bitmap_size q perf_score =
     (let sz = real (unat (q_bitmap_size q)); avg = real (unat avg_bitmap_size)
      in if sz * 0.3 > avg then Some (perf_score * 3)
         else if sz * 0.5 > avg then Some (perf_score * 2)
         else if sz * 0.75 > avg then scale perf_score 1.5
         else if q_bitmap_size q * 3 < avg_bitmap_size then scale perf_score 0.25
         else if q_bitmap_size q * 2 < avg_bitmap_size then scale perf_score 0.5
         else if sz * 1.5 < avg then scale perf_score 0.75
         else Some perf_score)"

definition handicap_score :: "queue_entry \<Rightarrow> u32 \<Rightarrow> u32 \<times> queue_entry" where
  "handicap_score q perf_score =
     (if q_handicap q \<ge> 4 then (perf_score * 4, q\<lparr>q_handicap := q_handicap q - 4\<rparr>)
      else if q_handicap q \<noteq> 0 then (perf_score * 2, q\<lparr>q_handicap := q_handicap q - 1\<rparr>)
      else (perf_score, q))"

definition depth_score :: "queue_entry \<Rightarrow> u32 \<Rightarrow> u32" where
  "depth_score q perf_score =
     (if q_depth q \<le> 3 then perf_score
      else if q_depth q \<le> 7 then perf_score * 2
      else if q_depth q \<le> 13 then perf_score * 3
      else if q_depth q \<le> 25 then perf_score * 4
      else perf_score * 5)"

definition MAX_FACTOR :: real where "MAX_FACTOR = 32"

text \<open>\<open>log2\<close> of an entry of \<open>n_fuzz\<close>; the logarithm of 0 is not a real number.\<close>

definition n_fuzz_log2 :: "queue_state \<Rightarrow> queue_entry \<Rightarrow> real option" where
  "n_fuzz_log2 afl q = do {
     hits \<leftarrow> slot (n_fuzz afl) (unat (q_n_fuzz_entry q));
     if hits = 0 then None else Some (log 2 (real (unat hits)))
   }"

fun sum_log2 :: "queue_state \<Rightarrow> queue_entry list \<Rightarrow> real \<Rightarrow> nat \<Rightarrow> (real \<times> nat) option" where
  "sum_log2 afl [] mu n = Some (mu, n)"
| "sum_log2 afl (q # qs) mu n =
     (if q_disabled q then sum_log2 afl qs mu n
      else do { l \<leftarrow> n_fuzz_log2 afl q; sum_log2 afl qs (mu + l) (n + 1) })"

definition fast_factor :: "queue_state \<Rightarrow> queue_entry \<Rightarrow> real option" where
  "fast_factor afl q =
     (if q_fuzz_level q = 0 then Some 1
      else do {
        l \<leftarrow> n_fuzz_log2 afl q;
        let k = nat \<lfloor>l\<rfloor>;
        let factor = (if k \<le> 1 then 4 else if k \<le> 3 then 3 else if k = 4 then 2 else if k = 5 then 1
                      else if q_favored q then 1 else if k = 6 then 0.8 else if k = 7 then 0.6 else 0.4);
        Some (if q_favored q then factor * 1.15 else factor)
      })"

definition coe_factor :: "queue_state \<Rightarrow> queue_entry \<Rightarrow> real option" where
  "coe_factor afl q =
     (if q_fuzz_level q = 0 then Some 1
      else do {
        (mu, n_items) \<leftarrow> sum_log2 afl (queue_buf afl) 0 0;
        if n_items = 0 then None
        else do {
          l \<leftarrow> n_fuzz_log2 afl q;
          if l > mu / real n_items then Some (if q_favored q then 1 else 0) else fast_factor afl q
        }
      })"

text \<open>The switch over the schedules: the score, and the factor of the schedules from EXPLOIT to QUAD.\<close>

definition schedule_score :: "queue_state \<Rightarrow> score_env \<Rightarrow> queue_entry \<Rightarrow> u32 \<Rightarrow> (u32 \<times> real) option" where
  "schedule_score afl env q perf_score =
     (case schedule afl of
        EXPLORE \<Rightarrow> Some (perf_score, 1)
      | SEEK \<Rightarrow> Some (perf_score, 1)
      | EXPLOIT \<Rightarrow> Some (perf_score, MAX_FACTOR)
      | COE \<Rightarrow> map_option (Pair perf_score) (coe_factor afl q)
      | FAST \<Rightarrow> map_option (Pair perf_score) (fast_factor afl q)
      | LIN \<Rightarrow>
          if q_fuzz_level q = 0 then Some (perf_score, 1)
          else do {
            hits \<leftarrow> slot (n_fuzz afl) (unat (q_n_fuzz_entry q));
            if hits + 1 = 0 then None else Some (perf_score, real (unat (q_fuzz_level q div (hits + 1))))
          }
      | QUAD \<Rightarrow>
          if q_fuzz_level q = 0 then Some (perf_score, 1)
          else do {
            hits \<leftarrow> slot (n_fuzz afl) (unat (q_n_fuzz_entry q));
            if hits + 1 = 0 then None else Some (perf_score, real (unat (q_fuzz_level q * q_fuzz_level q div (hits + 1))))
          }
      | MMOPT \<Rightarrow> Some (if ucast (max_depth afl) - q_depth q < 5 then perf_score * 2 else perf_score, 1)
      | RARE \<Rightarrow> do {
          hits \<leftarrow> slot (n_fuzz afl) (unat (q_n_fuzz_entry q));
          if total_execs env = 0 then None
          else do {
            p \<leftarrow> scale (perf_score + q_tc_ref q * 10) (1 - real (unat hits) / real (unat (total_execs env)));
            Some (p, 1)
          }
        })"

definition apply_factor :: "queue_state \<Rightarrow> u32 \<Rightarrow> real \<Rightarrow> u32 option" where
  "apply_factor afl perf_score factor =
     (if schedule afl \<ge> EXPLOIT \<and> schedule afl \<le> QUAD
      then scale perf_score (if factor > MAX_FACTOR then MAX_FACTOR else factor) else Some perf_score)"

definition limit_score :: "queue_state \<Rightarrow> score_env \<Rightarrow> queue_entry \<Rightarrow> u32 \<Rightarrow> u32" where
  "limit_score afl env q perf_score =
     (let perf_score =
        (if limit_time_sig env \<noteq> 0 \<and> ucast (max_depth afl) - q_depth q < 3 then perf_score * 2
         else if schedule afl \<noteq> COE \<and> perf_score < 1 then 1 else perf_score);
        cap = 100 * ucast (havoc_max_mult env)
      in if perf_score > cap then cap else perf_score)"

text \<open>\<open>total / count\<close> with the count as \<open>u32\<close> and at least 1.\<close>

definition average :: "u64 \<Rightarrow> u64 \<Rightarrow> u32" where
  "average tot cnt = (let cnt = (ucast cnt :: u32) in ucast (tot div ucast (if cnt = 0 then 1 else cnt)))"

definition calculate_score :: "queue_state \<Rightarrow> score_env \<Rightarrow> queue_entry \<Rightarrow> (u32 \<times> queue_entry) option" where
  "calculate_score afl env q = do {
     perf_score \<leftarrow> bitmap_score (average (total_bitmap_size env) (total_bitmap_entries env)) q
       (speed_score afl (average (total_cal_us env) (total_cal_cycles env)) q);
     let (perf_score, q') = handicap_score q perf_score;
     (perf_score, factor) \<leftarrow> schedule_score afl env q (depth_score q perf_score);
     perf_score \<leftarrow> apply_factor afl perf_score factor;
     Some (limit_score afl env q perf_score, q')
   }"

section \<open>Weights\<close>

definition adjust_weight :: "queue_entry \<Rightarrow> real \<Rightarrow> real" where
  "adjust_weight q weight =
     (let weight = (if weight < 0.1 then 0.1 else weight);
          weight = (if q_favored q then weight * 5 else weight);
          weight = (if \<not> q_was_fuzzed q then weight * 2 else weight)
      in if q_fs_redundant q then weight * 0.8 else weight)"

text \<open>\<open>None\<close>: a division by 0 or a logarithm of 0, whose result is not a real number.\<close>

definition compute_weight :: "queue_state \<Rightarrow> queue_entry \<Rightarrow> real \<Rightarrow> real \<Rightarrow> real \<Rightarrow> real option" where
  "compute_weight afl q avg_exec_us avg_bitmap_size avg_top_size =
     (if schedule afl < RARE \<and> q_exec_us q = 0 \<or> q_bitmap_size q = 0 \<or> avg_bitmap_size = 0 \<or> avg_top_size = 0 then None
      else do {
        hits \<leftarrow> (if FAST \<le> schedule afl \<and> schedule afl \<le> RARE then slot (n_fuzz afl) (unat (q_n_fuzz_entry q)) else Some 0);
        let weight = (if hits \<noteq> 0 then 1 / (log 10 (real (unat hits)) + 1) else 1);
        let weight = (if schedule afl < RARE then weight * (avg_exec_us / real (unat (q_exec_us q))) else weight);
        let weight = weight * (ln (real (unat (q_bitmap_size q))) / avg_bitmap_size);
        Some (adjust_weight q (weight * (1 + real (unat (q_tc_ref q)) / avg_top_size)))
      })"

definition averages :: "queue_entry list \<Rightarrow> (real \<times> real \<times> real) option" where
  "averages qs =
     (let active = filter (\<lambda>q. \<not> q_disabled q) qs; n = real (length active)
      in if \<exists>q\<in>set active. q_bitmap_size q = 0 then None
         else Some (sum_list (map (\<lambda>q. real (unat (q_exec_us q))) active) / n,
                    sum_list (map (\<lambda>q. ln (real (unat (q_bitmap_size q)))) active) / n,
                    sum_list (map (\<lambda>q. real (unat (q_tc_ref q))) active) / n))"

fun weigh_loop :: "queue_state \<Rightarrow> score_env \<Rightarrow> real \<times> real \<times> real \<Rightarrow> queue_entry list \<Rightarrow> real \<Rightarrow> (queue_entry list \<times> real) option" where
  "weigh_loop afl env avgs [] tot = Some ([], tot)"
| "weigh_loop afl env avgs (q # qs) tot =
     (if q_disabled q
      then do { (qs, tot) \<leftarrow> weigh_loop afl env avgs qs tot; Some (q # qs, tot) }
      else do {
        weight \<leftarrow> (case avgs of (exec_us, bitmap_size, top_size) \<Rightarrow> compute_weight afl q exec_us bitmap_size top_size);
        let q = q\<lparr>q_weight := weight\<rparr>;
        (perf_score, q) \<leftarrow> calculate_score afl env q;
        let q = q\<lparr>q_perf_score := real (unat perf_score)\<rparr>;
        (qs, tot) \<leftarrow> weigh_loop afl env avgs qs (tot + q_weight q);
        Some (q # qs, tot)
      })"

fun score_only_loop :: "queue_state \<Rightarrow> score_env \<Rightarrow> queue_entry list \<Rightarrow> real \<Rightarrow> (queue_entry list \<times> real) option" where
  "score_only_loop afl env [] tot = Some ([], tot)"
| "score_only_loop afl env (q # qs) tot =
     (if q_disabled q
      then do { (qs, tot) \<leftarrow> score_only_loop afl env qs tot; Some (q # qs, tot) }
      else do {
        (perf_score, q) \<leftarrow> calculate_score afl env q;
        let q = q\<lparr>q_perf_score := real (unat perf_score)\<rparr>;
        (qs, tot) \<leftarrow> score_only_loop afl env qs (tot + q_perf_score q);
        Some (q # qs, tot)
      })"

text \<open>
  \<open>P\<close>: the weights of the entries, scaled to the average 1 if \<open>tot\<close> is their sum.  A weight
  over the sum 0 is not a real number.
\<close>

definition scaled_weights :: "(queue_entry \<Rightarrow> real) \<Rightarrow> real \<Rightarrow> queue_entry list \<Rightarrow> real list option" where
  "scaled_weights w tot qs =
     (if tot = 0 \<and> (\<exists>q\<in>set qs. \<not> q_disabled q) then None
      else Some (map (\<lambda>q. if q_disabled q then 0 else w q * real (length qs) / tot) qs))"

text \<open>The entries with their weights, and the scaled weights.\<close>

definition alias_weights :: "queue_state \<Rightarrow> score_env \<Rightarrow> (queue_entry list \<times> real list) option" where
  "alias_weights afl env =
     (let n = length (queue_buf afl)
      in if schedule afl < RARE
         then do {
           avgs \<leftarrow> averages (queue_buf afl);
           (qs, tot) \<leftarrow> weigh_loop afl env avgs (queue_buf afl) 0;
           let cnt = (if schedule afl = MMOPT then (if queued_discovered env \<ge> 5 then 5 else unat (queued_discovered env)) else 0);
           let first = (if cnt \<le> n then n - cnt else n);
           let qs = take first qs @ map (\<lambda>q. if q_disabled q then q else q\<lparr>q_weight := q_weight q * 2\<rparr>) (drop first qs);
           map_option (Pair qs) (scaled_weights q_weight tot qs)
         }
         else do {
           (qs, tot) \<leftarrow> score_only_loop afl env (queue_buf afl) 0;
           map_option (Pair qs) (scaled_weights q_perf_score tot qs)
         })"

section \<open>The alias table\<close>

text \<open>The arrays of \<open>create_alias_table\<close>; \<open>Small\<close> grows upwards from 0, \<open>Large\<close> downwards from \<open>n - 1\<close>.\<close>

record alias_state =
  a_P :: "real list"
  a_Small :: "nat list"
  a_Large :: "nat list"
  a_nSmall :: u32
  a_nLarge :: u32
  alias_probability :: "real list"
  alias_table :: "nat list"

definition put :: "'a list \<Rightarrow> nat \<Rightarrow> 'a \<Rightarrow> 'a list option" where
  "put xs i v = (if i < length xs then Some (xs[i := v]) else None)"

definition push_small :: "nat \<Rightarrow> alias_state \<Rightarrow> alias_state option" where
  "push_small j a = do { xs \<leftarrow> put (a_Small a) (unat (a_nSmall a)) j; Some (a\<lparr>a_Small := xs, a_nSmall := a_nSmall a + 1\<rparr>) }"

definition push_large :: "nat \<Rightarrow> alias_state \<Rightarrow> alias_state option" where
  "push_large j a = do { xs \<leftarrow> put (a_Large a) (unat (a_nLarge a)) j; Some (a\<lparr>a_Large := xs, a_nLarge := a_nLarge a - 1\<rparr>) }"

definition pop_small :: "alias_state \<Rightarrow> (nat \<times> alias_state) option" where
  "pop_small a = do { s \<leftarrow> slot (a_Small a) (unat (a_nSmall a - 1)); Some (s, a\<lparr>a_nSmall := a_nSmall a - 1\<rparr>) }"

definition pop_large :: "alias_state \<Rightarrow> (nat \<times> alias_state) option" where
  "pop_large a = do { l \<leftarrow> slot (a_Large a) (unat (a_nLarge a + 1)); Some (l, a\<lparr>a_nLarge := a_nLarge a + 1\<rparr>) }"

definition push_by_size :: "nat \<Rightarrow> alias_state \<Rightarrow> alias_state option" where
  "push_by_size j a = do { p \<leftarrow> slot (a_P a) j; if p < 1 then push_small j a else push_large j a }"

fun fill_loop :: "nat \<Rightarrow> alias_state \<Rightarrow> alias_state option" where
  "fill_loop 0 a = Some a"
| "fill_loop (Suc j) a = do { a \<leftarrow> push_by_size j a; fill_loop j a }"

definition set_prob :: "nat \<Rightarrow> real \<Rightarrow> alias_state \<Rightarrow> alias_state option" where
  "set_prob i p a = do { xs \<leftarrow> put (alias_probability a) i p; Some (a\<lparr>alias_probability := xs\<rparr>) }"

definition pair_step :: "alias_state \<Rightarrow> alias_state option" where
  "pair_step a = do {
     (small, a) \<leftarrow> pop_small a;
     (large, a) \<leftarrow> pop_large a;
     p \<leftarrow> slot (a_P a) small;
     a \<leftarrow> set_prob small p a;
     xs \<leftarrow> put (alias_table a) small large;
     p' \<leftarrow> slot (a_P a) large;
     P \<leftarrow> put (a_P a) large (p' - (1 - p));
     push_by_size large (a\<lparr>alias_table := xs, a_P := P\<rparr>)
   }"

partial_function (option) pair_loop :: "u32 \<Rightarrow> alias_state \<Rightarrow> alias_state option" where
  "pair_loop n a =
     (if a_nSmall a \<noteq> 0 \<and> a_nLarge a \<noteq> n - 1 then do { a \<leftarrow> pair_step a; pair_loop n a } else Some a)"

partial_function (option) rest_small :: "alias_state \<Rightarrow> alias_state option" where
  "rest_small a =
     (if a_nSmall a \<noteq> 0 then do { (s, a) \<leftarrow> pop_small a; a \<leftarrow> set_prob s 1 a; rest_small a } else Some a)"

partial_function (option) rest_large :: "u32 \<Rightarrow> alias_state \<Rightarrow> alias_state option" where
  "rest_large n a =
     (if a_nLarge a \<noteq> n - 1 then do { (l, a) \<leftarrow> pop_large a; a \<leftarrow> set_prob l 1 a; rest_large n a } else Some a)"

definition build_table :: "real list \<Rightarrow> alias_state option" where
  "build_table P = do {
     let n = length P;
     a \<leftarrow> fill_loop n \<lparr>a_P = P, a_Small = replicate n 0, a_Large = replicate n 0, a_nSmall = 0, a_nLarge = of_nat n - 1,
       alias_probability = replicate n 0, alias_table = replicate n 0\<rparr>;
     a \<leftarrow> pair_loop (of_nat n) a;
     a \<leftarrow> rest_small a;
     rest_large (of_nat n) a
   }"

definition create_alias_table :: "queue_state \<Rightarrow> score_env \<Rightarrow> (queue_state \<times> real list \<times> nat list) option" where
  "create_alias_table afl env = do {
     (qs, P) \<leftarrow> alias_weights afl env;
     a \<leftarrow> build_table P;
     Some (afl\<lparr>queue_buf := qs, reinit_table := False\<rparr>, alias_probability a, alias_table a)
   }"

text \<open>\<open>s\<close> and \<open>p\<close> are the random numbers: an entry, and a number from 0 to 1.\<close>

definition select_next_queue_entry :: "real list \<Rightarrow> nat list \<Rightarrow> nat \<Rightarrow> real \<Rightarrow> nat" where
  "select_next_queue_entry prob alias s p = (if p < prob ! s then s else alias ! s)"

section \<open>The stacks\<close>

definition small_stack :: "alias_state \<Rightarrow> nat list" where
  "small_stack a = rev (take (unat (a_nSmall a)) (a_Small a))"

definition large_stack :: "alias_state \<Rightarrow> nat list" where
  "large_stack a = drop (unat (a_nLarge a + 1)) (a_Large a)"

text \<open>The arrays have \<open>n\<close> elements and hold the two stacks.\<close>

definition stacks :: "nat \<Rightarrow> alias_state \<Rightarrow> nat list \<Rightarrow> nat list \<Rightarrow> bool" where
  "stacks n a S L \<longleftrightarrow> 0 < n \<and> n < 2 ^ 31 \<and> length (a_P a) = n \<and> length (a_Small a) = n \<and> length (a_Large a) = n \<and>
     length (alias_probability a) = n \<and> length (alias_table a) = n \<and>
     unat (a_nSmall a) = length S \<and> unat (a_nLarge a + 1) + length L = n \<and>
     small_stack a = S \<and> large_stack a = L \<and> length S + length L \<le> n"

lemma stacks_empty:
  assumes "stacks n a S L"
  shows "a_nSmall a = 0 \<longleftrightarrow> S = []" "a_nLarge a = of_nat n - 1 \<longleftrightarrow> L = []"
proof -
  have len: "unat (a_nSmall a) = length S" "unat (a_nLarge a + 1) + length L = n" "n < 2 ^ 31" using assms by (simp_all add: stacks_def)
  show "a_nSmall a = 0 \<longleftrightarrow> S = []" using len(1) by (metis length_0_conv unat_eq_zero)
  have "a_nLarge a = of_nat n - 1 \<longleftrightarrow> a_nLarge a + 1 = of_nat n" by (metis add_diff_cancel diff_add_cancel)
  also have "\<dots> \<longleftrightarrow> unat (a_nLarge a + 1) = n" using len(3) by (simp add: word_unat_eq_iff unsigned_of_nat take_bit_nat_eq_self)
  finally show "a_nLarge a = of_nat n - 1 \<longleftrightarrow> L = []" using len(2) by auto
qed

lemma push_small_stacks:
  assumes s: "stacks n a S L" and room: "length S + length L < n"
  obtains b where "push_small j a = Some b" "stacks n b (j # S) L" "a_P b = a_P a" "alias_probability b = alias_probability a" "alias_table b = alias_table a"
proof -
  let ?k = "unat (a_nSmall a)"
  have k: "?k < n" "length (a_Small a) = n" "n < 2 ^ 31" "?k = length S" "rev (take ?k (a_Small a)) = S"
    using s room by (auto simp: stacks_def small_stack_def)
  then have k1: "unat (a_nSmall a + 1) = ?k + 1" by (simp add: unat_word_ariths)
  have "rev (take (?k + 1) ((a_Small a)[?k := j])) = j # S" using k by (simp add: take_Suc_conv_app_nth)
  then show ?thesis using s room k k1 that [of "a\<lparr>a_Small := (a_Small a)[?k := j], a_nSmall := a_nSmall a + 1\<rparr>"]
    by (auto simp: push_small_def put_def stacks_def small_stack_def large_stack_def)
qed

lemma push_large_stacks:
  assumes s: "stacks n a S L" and room: "length S + length L < n"
  obtains b where "push_large j a = Some b" "stacks n b S (j # L)" "a_P b = a_P a" "alias_probability b = alias_probability a" "alias_table b = alias_table a"
proof -
  let ?k = "unat (a_nLarge a)"
  have k: "length (a_Large a) = n" "n < 2 ^ 31" "unat (a_nLarge a + 1) + length L = n" "drop (unat (a_nLarge a + 1)) (a_Large a) = L"
    using s by (auto simp: stacks_def large_stack_def)
  have pos: "0 < unat (a_nLarge a + 1)" using k(3) room by linarith
  then have "a_nLarge a + 1 \<noteq> 0" by (metis less_irrefl unsigned_0)
  then have k1: "unat (a_nLarge a + 1) = Suc ?k"
    by (metis add_diff_cancel_right' Suc_pred' pos unat_minus_one)
  have "drop ?k ((a_Large a)[?k := j]) = j # L"
    using k k1 by (simp add: drop_update_cancel Cons_nth_drop_Suc [symmetric])
  then show ?thesis using s room k k1 that [of "a\<lparr>a_Large := (a_Large a)[?k := j], a_nLarge := a_nLarge a - 1\<rparr>"]
    by (auto simp: push_large_def put_def stacks_def small_stack_def large_stack_def)
qed

lemma pop_small_stacks:
  assumes s: "stacks n a (j # S) L"
  obtains b where "pop_small a = Some (j, b)" "stacks n b S L" "a_P b = a_P a" "alias_probability b = alias_probability a" "alias_table b = alias_table a"
proof -
  have k: "length (a_Small a) = n" "n < 2 ^ 31" "unat (a_nSmall a) = Suc (length S)" "take (Suc (length S)) (a_Small a) = rev S @ [j]" "length S + length L < n"
    using s by (auto simp: stacks_def small_stack_def)
  then have "a_nSmall a \<noteq> 0" by auto
  then have k1: "unat (a_nSmall a - 1) = length S" using k(3) by (simp add: unat_minus_one)
  have "a_Small a ! length S = j" "rev (take (length S) (a_Small a)) = S" using k(1,4,5)
    by (simp_all add: take_Suc_conv_app_nth)
  then show ?thesis using s k k1 that [of "a\<lparr>a_nSmall := a_nSmall a - 1\<rparr>"]
    by (auto simp: pop_small_def slot_def stacks_def small_stack_def large_stack_def)
qed

lemma pop_large_stacks:
  assumes s: "stacks n a S (j # L)"
  obtains b where "pop_large a = Some (j, b)" "stacks n b S L" "a_P b = a_P a" "alias_probability b = alias_probability a" "alias_table b = alias_table a"
proof -
  let ?k = "unat (a_nLarge a + 1)"
  have k: "length (a_Large a) = n" "n < 2 ^ 31" "?k + length L + 1 = n" "drop ?k (a_Large a) = j # L"
    using s by (auto simp: stacks_def large_stack_def)
  then have k1: "unat (a_nLarge a + 1 + 1) = ?k + 1"
    by (subst unat_word_ariths) simp
  have "a_Large a ! ?k = j" "drop (?k + 1) (a_Large a) = L"
    using k(1,3,4) by (metis Cons_nth_drop_Suc Suc_eq_plus1 add_lessD1 less_add_one list.inject)+
  then show ?thesis using s k k1 that [of "a\<lparr>a_nLarge := a_nLarge a + 1\<rparr>"]
    by (auto simp: pop_large_def slot_def stacks_def small_stack_def large_stack_def add.assoc)
qed

section \<open>The pairing\<close>

text \<open>The stacks hold different entries, those below 1 and those from 1.\<close>

definition sorted_stacks :: "nat \<Rightarrow> alias_state \<Rightarrow> nat list \<Rightarrow> nat list \<Rightarrow> bool" where
  "sorted_stacks n a S L \<longleftrightarrow> stacks n a S L \<and> distinct (S @ L) \<and> set (S @ L) \<subseteq> {..<n} \<and>
     (\<forall>s\<in>set S. 0 \<le> a_P a ! s \<and> a_P a ! s < 1) \<and> (\<forall>l\<in>set L. 1 \<le> a_P a ! l)"

lemma stacks_room:
  assumes "distinct (S @ L)" "set (S @ L) \<subseteq> {..<n}" "j < n" "j \<notin> set (S @ L)"
  shows "length S + length L < n"
proof -
  have "card (set (S @ L)) < card {..<n}" by (rule psubset_card_mono) (use assms in auto)
  then show ?thesis using distinct_card [OF assms(1)] by simp
qed

lemma push_by_size_sorted:
  assumes s: "sorted_stacks n a S L" and j: "j < n" "j \<notin> set (S @ L)" "0 \<le> a_P a ! j"
  obtains b S' L' where "push_by_size j a = Some b" "sorted_stacks n b S' L'" "set (S' @ L') = insert j (set (S @ L))"
    "length S' + length L' = Suc (length S + length L)"
    "a_P b = a_P a" "alias_probability b = alias_probability a" "alias_table b = alias_table a"
proof -
  have st: "stacks n a S L" "length (a_P a) = n" using s by (simp_all add: sorted_stacks_def stacks_def)
  have room: "length S + length L < n" by (rule stacks_room [OF _ _ j(1,2)]) (use s in \<open>simp_all add: sorted_stacks_def\<close>)
  show ?thesis
  proof (cases "a_P a ! j < 1")
    case True
    show ?thesis
    proof (rule push_small_stacks [OF st(1) room, of j])
      fix b assume b: "push_small j a = Some b" "stacks n b (j # S) L" "a_P b = a_P a" "alias_probability b = alias_probability a" "alias_table b = alias_table a"
      have "sorted_stacks n b (j # S) L" using s j True b(2,3) by (simp add: sorted_stacks_def)
      moreover have "push_by_size j a = Some b" using True b(1) st(2) j(1) by (simp add: push_by_size_def slot_def)
      ultimately show ?thesis using that [of b "j # S" L] b(3-5) by simp
    qed
  next
    case False
    show ?thesis
    proof (rule push_large_stacks [OF st(1) room, of j])
      fix b assume b: "push_large j a = Some b" "stacks n b S (j # L)" "a_P b = a_P a" "alias_probability b = alias_probability a" "alias_table b = alias_table a"
      have "sorted_stacks n b S (j # L)" using s j False b(2,3) by (simp add: sorted_stacks_def)
      moreover have "push_by_size j a = Some b" using False b(1) st(2) j(1) by (simp add: push_by_size_def slot_def)
      ultimately show ?thesis using that [of b S "j # L"] b(3-5) by simp
    qed
  qed
qed

lemma fill_loop_sorted:
  assumes "sorted_stacks n a S L" "set (S @ L) = {j..<n}" "j \<le> n" "\<forall>i<n. 0 \<le> a_P a ! i"
  shows "\<exists>b S' L'. fill_loop j a = Some b \<and> sorted_stacks n b S' L' \<and> set (S' @ L') = {..<n} \<and>
    a_P b = a_P a \<and> alias_probability b = alias_probability a \<and> alias_table b = alias_table a"
  using assms
proof (induction j arbitrary: a S L)
  case 0
  then show ?case by (auto simp: atLeast0LessThan)
next
  case (Suc j)
  have j: "j < n" "j \<notin> set (S @ L)" "0 \<le> a_P a ! j" using Suc.prems by auto
  show ?case
  proof (rule push_by_size_sorted [OF Suc.prems(1) j])
    fix b S' L' assume b: "push_by_size j a = Some b" "sorted_stacks n b S' L'" "set (S' @ L') = insert j (set (S @ L))"
      "a_P b = a_P a" "alias_probability b = alias_probability a" "alias_table b = alias_table a"
    have "set (S' @ L') = {j..<n}" using b(3) Suc.prems(2) j(1) by auto
    then show ?thesis using Suc.IH [OF b(2)] b j(1) Suc.prems(4) by simp
  qed
qed

text \<open>What an entry gets from the entries that are done.\<close>

definition given :: "nat set \<Rightarrow> alias_state \<Rightarrow> nat \<Rightarrow> real" where
  "given D a i = (\<Sum>d\<in>{d \<in> D. alias_table a ! d = i}. 1 - alias_probability a ! d)"

definition pairing :: "real list \<Rightarrow> nat \<Rightarrow> alias_state \<Rightarrow> nat list \<Rightarrow> nat list \<Rightarrow> bool" where
  "pairing P n a S L \<longleftrightarrow> sorted_stacks n a S L \<and>
     (\<forall>d\<in>{..<n} - set (S @ L). 0 \<le> alias_probability a ! d \<and> alias_probability a ! d \<le> 1) \<and> (\<forall>d<n. alias_table a ! d < n) \<and>
     (\<forall>i<n. P ! i = (if i \<in> set (S @ L) then a_P a ! i else alias_probability a ! i) + given ({..<n} - set (S @ L)) a i) \<and>
     (\<Sum>i\<in>set (S @ L). a_P a ! i) = real (card (set (S @ L)))"

lemma pair_step_pairing:
  assumes p: "pairing P n a (s # S) (l # L)"
  shows "\<exists>b S' L'. pair_step a = Some b \<and> pairing P n b S' L' \<and> length S' + length L' = Suc (length S + length L)"
proof -
  have sorted: "sorted_stacks n a (s # S) (l # L)" using p by (simp add: pairing_def)
  then have st: "stacks n a (s # S) (l # L)" and dist: "distinct (s # S @ l # L)" and sub: "set (s # S @ l # L) \<subseteq> {..<n}"
    and size: "0 \<le> a_P a ! s" "a_P a ! s < 1" "1 \<le> a_P a ! l" by (auto simp: sorted_stacks_def)
  have sl: "s < n" "l < n" "s \<noteq> l" using sub dist by auto
  obtain a1 where a1: "pop_small a = Some (s, a1)" "stacks n a1 S (l # L)" "a_P a1 = a_P a" "alias_probability a1 = alias_probability a" "alias_table a1 = alias_table a"
    by (rule pop_small_stacks [OF st])
  obtain a2 where a2: "pop_large a1 = Some (l, a2)" "stacks n a2 S L" "a_P a2 = a_P a" "alias_probability a2 = alias_probability a" "alias_table a2 = alias_table a"
    by (rule pop_large_stacks [OF a1(2)]) (use a1 in simp)
  let ?p = "a_P a ! l - (1 - a_P a ! s)"
  define a3 where "a3 = a2\<lparr>alias_probability := (alias_probability a)[s := a_P a ! s], alias_table := (alias_table a)[s := l], a_P := (a_P a)[l := ?p]\<rparr>"
  have len: "length (a_P a) = n" "length (alias_probability a) = n" "length (alias_table a) = n" using st by (simp_all add: stacks_def)
  have st3: "stacks n a3 S L" using a2(2) len by (auto simp: a3_def stacks_def small_stack_def large_stack_def)
  have run: "pair_step a = push_by_size l a3"
    using a1(1) a2(1,3-5) len sl by (simp add: pair_step_def slot_def put_def set_prob_def a3_def)
  have "x \<noteq> l \<Longrightarrow> a_P a3 ! x = a_P a ! x" for x by (simp add: a3_def)
  then have "\<forall>x\<in>set S. 0 \<le> a_P a3 ! x \<and> a_P a3 ! x < 1" "\<forall>x\<in>set L. 1 \<le> a_P a3 ! x"
    using sorted dist by (auto simp: sorted_stacks_def) metis+
  then have s3: "sorted_stacks n a3 S L" using st3 dist sub by (auto simp: sorted_stacks_def)
  have p3: "a_P a3 ! l = ?p" using sl len by (simp add: a3_def)
  have l3: "l < n" "l \<notin> set (S @ L)" "0 \<le> a_P a3 ! l" using sl dist size p3 by auto
  show ?thesis
  proof (rule push_by_size_sorted [OF s3 l3])
    fix b S' L' assume b: "push_by_size l a3 = Some b" "sorted_stacks n b S' L'" "set (S' @ L') = insert l (set (S @ L))"
      "length S' + length L' = Suc (length S + length L)"
      "a_P b = a_P a3" "alias_probability b = alias_probability a3" "alias_table b = alias_table a3"
    let ?U = "set ((s # S) @ (l # L))" and ?V = "set (S' @ L')"
    have U: "?U = insert s ?V" "s \<notin> ?V" "s < n" "finite ?V" "l \<in> ?V" using b(3) dist sl by auto
    have D: "{..<n} - ?V = insert s ({..<n} - ?U)" using U by auto
    have bs: "alias_probability b ! d = (if d = s then a_P a ! s else alias_probability a ! d)" "alias_table b ! d = (if d = s then l else alias_table a ! d)"
      "a_P b ! d = (if d = l then ?p else a_P a ! d)" if "d < n" for d
      using that len b(5-7) by (auto simp: a3_def nth_list_update)
    have given_b: "given ({..<n} - ?V) b i = given ({..<n} - ?U) a i + (if i = l then 1 - a_P a ! s else 0)" for i
    proof -
      have "{d \<in> {..<n} - ?V. alias_table b ! d = i} = {d \<in> {..<n} - ?U. alias_table a ! d = i} \<union> (if i = l then {s} else {})"
        using D U(3) bs(2) by auto
      moreover have "(\<Sum>d\<in>{d \<in> {..<n} - ?U. alias_table a ! d = i}. 1 - alias_probability b ! d) = given ({..<n} - ?U) a i"
        unfolding given_def by (rule sum.cong) (use bs(1) in auto)
      ultimately show ?thesis unfolding given_def using bs(1) [OF U(3)] by (auto simp: sum.union_disjoint)
    qed
    have "P ! i = (if i \<in> ?V then a_P b ! i else alias_probability b ! i) + given ({..<n} - ?V) b i" if i: "i < n" for i
    proof -
      have "P ! i = (if i \<in> ?U then a_P a ! i else alias_probability a ! i) + given ({..<n} - ?U) a i" using p i by (simp add: pairing_def)
      then show ?thesis unfolding given_b using bs [OF i] U sl by (auto split: if_splits)
    qed
    moreover have "\<forall>d\<in>{..<n} - ?V. 0 \<le> alias_probability b ! d \<and> alias_probability b ! d \<le> 1" "\<forall>d<n. alias_table b ! d < n"
      unfolding D using p size sl bs(1,2) by (auto simp: pairing_def)
    moreover have "(\<Sum>i\<in>?V. a_P b ! i) = real (card ?V)"
    proof -
      have "(\<Sum>i\<in>?V. a_P b ! i) = ?p + (\<Sum>i\<in>?V - {l}. a_P b ! i)" using U bs(3) [OF sl(2)] by (simp add: sum.remove [of _ l])
      also have "(\<Sum>i\<in>?V - {l}. a_P b ! i) = (\<Sum>i\<in>?V - {l}. a_P a ! i)"
      proof (rule sum.cong)
        fix x assume x: "x \<in> ?V - {l}"
        then have "x < n" using b(3) sub by auto
        then show "a_P b ! x = a_P a ! x" using bs(3) x by simp
      qed simp
      finally have "(\<Sum>i\<in>?V. a_P b ! i) = (\<Sum>i\<in>?V. a_P a ! i) - (1 - a_P a ! s)" using U by (simp add: sum.remove [of _ l])
      moreover have "(\<Sum>i\<in>?U. a_P a ! i) = a_P a ! s + (\<Sum>i\<in>?V. a_P a ! i)" unfolding U(1) using U(2,4) by simp
      moreover have "(\<Sum>i\<in>?U. a_P a ! i) = real (card ?U)" using p by (simp add: pairing_def)
      moreover have "card ?U = Suc (card ?V)" unfolding U(1) using U(2,4) by simp
      ultimately show ?thesis by simp
    qed
    ultimately have "pairing P n b S' L'" using b(2) by (simp add: pairing_def)
    then show ?thesis using run b(1,4) by auto
  qed
qed

lemma pair_loop_pairing:
  assumes "pairing P n a S L"
  shows "\<exists>b S' L'. pair_loop (of_nat n) a = Some b \<and> pairing P n b S' L' \<and> (S' = [] \<or> L' = [])"
  using assms
proof (induction "length S + length L" arbitrary: a S L rule: less_induct)
  case less
  have st: "stacks n a S L" using less.prems by (simp add: pairing_def sorted_stacks_def)
  show ?case
  proof (cases "S = [] \<or> L = []")
    case True
    then have "pair_loop (of_nat n) a = Some a" using stacks_empty [OF st] by (subst pair_loop.simps) auto
    then show ?thesis using less.prems True by blast
  next
    case False
    then obtain s S0 l L0 where sl: "S = s # S0" "L = l # L0" by (meson neq_Nil_conv)
    obtain b S' L' where b: "pair_step a = Some b" "pairing P n b S' L'" "length S' + length L' = Suc (length S0 + length L0)"
      using pair_step_pairing less.prems unfolding sl by blast
    have "length S' + length L' < length S + length L" using b(3) sl by simp
    from less.hyps [OF this b(2)] obtain c S2 L2 where c: "pair_loop (of_nat n) b = Some c" "pairing P n c S2 L2" "S2 = [] \<or> L2 = []" by blast
    have "pair_loop (of_nat n) a = Some c" using stacks_empty [OF st] False b(1) c(1) by (subst pair_loop.simps) simp
    then show ?thesis using c(2,3) by blast
  qed
qed

lemma rest_large_spec:
  assumes "stacks n a [] L" "set L \<subseteq> {..<n}"
  shows "\<exists>b. rest_large (of_nat n) a = Some b \<and> alias_table b = alias_table a \<and> length (alias_probability b) = n \<and>
    (\<forall>i<n. alias_probability b ! i = (if i \<in> set L then 1 else alias_probability a ! i))"
  using assms
proof (induction L arbitrary: a)
  case Nil
  then have "rest_large (of_nat n) a = Some a" using stacks_empty [OF Nil(1)] by (subst rest_large.simps) simp
  then show ?case using Nil(1) by (simp add: stacks_def)
next
  case (Cons l L)
  have len: "length (alias_probability a) = n" "l < n" using Cons.prems by (simp_all add: stacks_def)
  show ?case
  proof (rule pop_large_stacks [OF Cons.prems(1)])
    fix b assume b: "pop_large a = Some (l, b)" "stacks n b [] L" "alias_probability b = alias_probability a" "alias_table b = alias_table a"
    let ?c = "b\<lparr>alias_probability := (alias_probability a)[l := 1]\<rparr>"
    have "stacks n ?c [] L" using b(2) len by (auto simp: stacks_def small_stack_def large_stack_def)
    then obtain d where d: "rest_large (of_nat n) ?c = Some d" "alias_table d = alias_table ?c" "length (alias_probability d) = n"
      "\<forall>i<n. alias_probability d ! i = (if i \<in> set L then 1 else alias_probability ?c ! i)"
      using Cons.IH [of ?c] Cons.prems(2) by auto
    have "rest_large (of_nat n) a = Some d"
      using stacks_empty(2) [OF Cons.prems(1)] b(1,3) len d(1) by (subst rest_large.simps) (simp add: set_prob_def put_def)
    then show ?thesis using d b(4) len by (auto simp: nth_list_update)
  qed
qed

lemma sum_all_one:
  assumes "finite U" "(\<Sum>i\<in>U. f i) = real (card U)"
  shows "\<forall>i\<in>U. 1 \<le> f i \<Longrightarrow> \<forall>i\<in>U. f i = 1" "\<forall>i\<in>U. f i < 1 \<Longrightarrow> U = {}"
proof -
  have 0: "(\<Sum>i\<in>U. f i - 1) = 0" "(\<Sum>i\<in>U. 1 - f i) = 0" using assms by (simp_all add: sum_subtractf)
  show "\<forall>i\<in>U. f i = 1" if "\<forall>i\<in>U. 1 \<le> f i"
    using sum_nonneg_eq_0_iff [of U "\<lambda>i. f i - 1"] assms(1) 0(1) that by simp
  show "U = {}" if lt: "\<forall>i\<in>U. f i < 1"
  proof (rule ccontr)
    assume "U \<noteq> {}"
    then have "0 < (\<Sum>i\<in>U. 1 - f i)" using assms(1) lt by (intro sum_pos) auto
    then show False using 0(2) by simp
  qed
qed

text \<open>The share of an entry in the table: the probability of selecting it, times the number of entries.\<close>

definition share :: "real list \<Rightarrow> nat list \<Rightarrow> nat \<Rightarrow> real" where
  "share prob alias i = (\<Sum>s<length prob. (if s = i then prob ! s else 0) + (if alias ! s = i then 1 - prob ! s else 0))"

lemma share_given:
  assumes "i < length prob"
  shows "share prob alias i = prob ! i + (\<Sum>d\<in>{d \<in> {..<length prob}. alias ! d = i}. 1 - prob ! d)"
proof -
  have "(\<Sum>s<length prob. if alias ! s = i then 1 - prob ! s else 0) = (\<Sum>d\<in>{d \<in> {..<length prob}. alias ! d = i}. 1 - prob ! d)"
    by (rule sum.inter_filter [symmetric]) simp
  then show ?thesis using assms by (simp add: share_def sum.distrib)
qed

lemma build_table_spec:
  assumes n: "length P = n" "0 < n" "n < 2 ^ 31" and P: "\<forall>i<n. 0 \<le> P ! i" "(\<Sum>i<n. P ! i) = real n"
  shows "\<exists>a. build_table P = Some a \<and> length (alias_probability a) = n \<and> length (alias_table a) = n \<and>
    (\<forall>i<n. 0 \<le> alias_probability a ! i \<and> alias_probability a ! i \<le> 1 \<and> alias_table a ! i < n \<and>
       share (alias_probability a) (alias_table a) i = P ! i)"
proof -
  define a0 where "a0 = \<lparr>a_P = P, a_Small = replicate n 0, a_Large = replicate n 0, a_nSmall = 0, a_nLarge = of_nat n - 1,
       alias_probability = replicate n 0, alias_table = replicate n 0\<rparr>"
  have "sorted_stacks n a0 [] []"
    using n by (simp add: sorted_stacks_def stacks_def small_stack_def large_stack_def a0_def unsigned_of_nat take_bit_nat_eq_self)
  from fill_loop_sorted [OF this, of n] obtain a1 S1 L1 where a1: "fill_loop n a0 = Some a1" "sorted_stacks n a1 S1 L1" "set (S1 @ L1) = {..<n}"
    "a_P a1 = P" "alias_table a1 = replicate n 0" using P(1) by (auto simp: a0_def)
  have "pairing P n a1 S1 L1" using a1(2,4,5) P(2) n(2) unfolding pairing_def a1(3) by (simp add: given_def)
  from pair_loop_pairing [OF this] obtain a2 S2 L2 where a2: "pair_loop (of_nat n) a1 = Some a2" "pairing P n a2 S2 L2" "S2 = [] \<or> L2 = []" by blast
  let ?D = "{..<n} - set (S2 @ L2)"
  have s2: "sorted_stacks n a2 S2 L2" "(\<Sum>i\<in>set (S2 @ L2). a_P a2 ! i) = real (card (set (S2 @ L2)))" using a2(2) by (simp_all add: pairing_def)
  have "S2 = []"
  proof (rule ccontr)
    assume "S2 \<noteq> []"
    then have "L2 = []" using a2(3) by simp
    then have "set S2 = {}" using sum_all_one(2) [OF _ s2(2)] s2(1) by (auto simp: sorted_stacks_def)
    then show False using \<open>S2 \<noteq> []\<close> by simp
  qed
  have one: "\<forall>i\<in>set L2. a_P a2 ! i = 1" using sum_all_one(1) [OF _ s2(2)] s2(1) \<open>S2 = []\<close> by (auto simp: sorted_stacks_def)
  have st: "stacks n a2 [] L2" "set L2 \<subseteq> {..<n}" using s2(1) \<open>S2 = []\<close> by (simp_all add: sorted_stacks_def)
  obtain a3 where a3: "rest_large (of_nat n) a2 = Some a3" "alias_table a3 = alias_table a2" "length (alias_probability a3) = n"
    "\<forall>i<n. alias_probability a3 ! i = (if i \<in> set L2 then 1 else alias_probability a2 ! i)"
    using rest_large_spec [OF st] by blast
  have "rest_small a2 = Some a2" using stacks_empty(1) [OF st(1)] by (subst rest_small.simps) simp
  then have run: "build_table P = Some a3" using a1(1) a2(1) a3(1) n(1) by (simp add: build_table_def a0_def)
  have len: "length (alias_table a3) = n" using a3(2) st(1) by (simp add: stacks_def)
  have "share (alias_probability a3) (alias_table a3) i = P ! i" if i: "i < n" for i
  proof -
    let ?I = "{d \<in> {..<n}. alias_table a2 ! d = i}"
    have "(\<Sum>d\<in>?I. 1 - alias_probability a3 ! d) = (\<Sum>d\<in>{d \<in> ?D. alias_table a2 ! d = i}. 1 - alias_probability a3 ! d)"
      by (rule sum.mono_neutral_right) (use a3(4) \<open>S2 = []\<close> in auto)
    also have "\<dots> = given ?D a2 i" unfolding given_def by (rule sum.cong) (use a3(4) \<open>S2 = []\<close> in auto)
    finally have "share (alias_probability a3) (alias_table a3) i = alias_probability a3 ! i + given ?D a2 i"
      using share_given [of i "alias_probability a3" "alias_table a3"] a3(2,3) i by simp
    moreover have "P ! i = (if i \<in> set (S2 @ L2) then a_P a2 ! i else alias_probability a2 ! i) + given ?D a2 i" using a2(2) i by (simp add: pairing_def)
    ultimately show ?thesis using a3(4) i one \<open>S2 = []\<close> by auto
  qed
  moreover have "0 \<le> alias_probability a3 ! i \<and> alias_probability a3 ! i \<le> 1 \<and> alias_table a3 ! i < n" if i: "i < n" for i
    using a2(2) a3(2,4) i \<open>S2 = []\<close> by (auto simp: pairing_def)
  ultimately show ?thesis using run a3(3) len by blast
qed

section \<open>Weights and selection\<close>

text \<open>What an entry is weighed by.\<close>

definition weight_of :: "schedule \<Rightarrow> queue_entry \<Rightarrow> real" where
  "weight_of sched q = (if q_disabled q then 0 else if sched < RARE then q_weight q else q_perf_score q)"

lemma calculate_score_cases:
  assumes "calculate_score afl env q = Some (s, q')"
  obtains p p' f p'' where "bitmap_score (average (total_bitmap_size env) (total_bitmap_entries env)) q
      (speed_score afl (average (total_cal_us env) (total_cal_cycles env)) q) = Some p"
    "q' = snd (handicap_score q p)" "schedule_score afl env q (depth_score q (fst (handicap_score q p))) = Some (p', f)"
    "apply_factor afl p' f = Some p''" "s = limit_score afl env q p''"
  using assms by (auto simp: calculate_score_def Let_def bind_eq_Some_conv case_prod_beta)

lemma calculate_score_entry:
  assumes "calculate_score afl env q = Some (s, q')"
  shows "q_weight q' = q_weight q" "q_disabled q' = q_disabled q"
  by (rule calculate_score_cases [OF assms]; simp add: handicap_score_def)+

lemma adjust_weight_pos: "0 < adjust_weight q v"
  by (simp add: adjust_weight_def Let_def)

lemma compute_weight_pos: "compute_weight afl q e b t = Some w \<Longrightarrow> 0 < w"
proof -
  assume "compute_weight afl q e b t = Some w"
  then obtain v where "w = adjust_weight q v" by (auto simp: compute_weight_def Let_def bind_eq_Some_conv simp del: if_split split: if_split_asm)
  then show ?thesis using adjust_weight_pos by simp
qed

lemma weigh_loop_sum:
  assumes "weigh_loop afl env avgs qs tot = Some (qs', tot')" "sched < RARE"
  shows "length qs' = length qs \<and> map q_disabled qs' = map q_disabled qs \<and> tot' = tot + sum_list (map (weight_of sched) qs') \<and>
    (\<forall>q\<in>set qs'. q_disabled q \<or> 0 < weight_of sched q)"
  using assms(1)
proof (induction qs arbitrary: tot qs' tot')
  case (Cons q qs)
  show ?case
  proof (cases "q_disabled q")
    case True
    then obtain rs where "weigh_loop afl env avgs qs tot = Some (rs, tot')" "qs' = q # rs" using Cons.prems by (auto split: bind_splits)
    then show ?thesis using Cons.IH True by (auto simp: weight_of_def)
  next
    case False
    obtain e b t where avgs: "avgs = (e, b, t)" by (cases avgs)
    obtain w s q1 rs where w: "compute_weight afl q e b t = Some w" "calculate_score afl env (q\<lparr>q_weight := w\<rparr>) = Some (s, q1)"
      "weigh_loop afl env avgs qs (tot + q_weight q1) = Some (rs, tot')" "qs' = q1\<lparr>q_perf_score := real (unat s)\<rparr> # rs"
      using Cons.prems False by (auto simp: avgs Let_def split: bind_splits)
    have q1: "q_weight q1 = w" "\<not> q_disabled q1" using calculate_score_entry [OF w(2)] False by simp_all
    then show ?thesis using Cons.IH [OF w(3)] w(4) False assms(2) compute_weight_pos [OF w(1)] by (auto simp: weight_of_def)
  qed
qed simp

lemma score_only_loop_sum:
  assumes "score_only_loop afl env qs tot = Some (qs', tot')" "\<not> sched < RARE"
  shows "length qs' = length qs \<and> map q_disabled qs' = map q_disabled qs \<and> tot' = tot + sum_list (map (weight_of sched) qs') \<and>
    (\<forall>q\<in>set qs'. 0 \<le> weight_of sched q)"
  using assms(1)
proof (induction qs arbitrary: tot qs' tot')
  case (Cons q qs)
  show ?case
  proof (cases "q_disabled q")
    case True
    then obtain rs where "score_only_loop afl env qs tot = Some (rs, tot')" "qs' = q # rs" using Cons.prems by (auto split: bind_splits)
    then show ?thesis using Cons.IH True by (auto simp: weight_of_def)
  next
    case False
    obtain s q1 rs where w: "calculate_score afl env q = Some (s, q1)"
      "score_only_loop afl env qs (tot + real (unat s)) = Some (rs, tot')" "qs' = q1\<lparr>q_perf_score := real (unat s)\<rparr> # rs"
      using Cons.prems False by (auto simp: Let_def split: bind_splits)
    have q1: "\<not> q_disabled q1" using calculate_score_entry [OF w(1)] False by simp
    moreover have "(0 :: real) \<le> unsigned s" using of_nat_0_le_iff [of "unat s", where 'a = real] by simp
    ultimately show ?thesis using Cons.IH [OF w(2)] w(3) False assms(2) by (auto simp: weight_of_def)
  qed
qed simp

lemma scaled_weights_some:
  assumes "scaled_weights w tot qs = Some P"
  shows "P = map (\<lambda>q. if q_disabled q then 0 else w q * real (length qs) / tot) qs"
  using assms by (simp add: scaled_weights_def split: if_split_asm)

lemma alias_weights_sum:
  assumes w: "alias_weights afl env = Some (qs, P)" "schedule afl \<noteq> MMOPT"
  shows "length qs = length (queue_buf afl)" "map q_disabled qs = map q_disabled (queue_buf afl)"
    "P = map (\<lambda>q. weight_of (schedule afl) q * real (length qs) / sum_list (map (weight_of (schedule afl)) qs)) qs"
    "\<forall>q\<in>set qs. 0 \<le> weight_of (schedule afl) q"
proof -
  let ?f = "weight_of (schedule afl)"
  obtain tot where t: "length qs = length (queue_buf afl)" "map q_disabled qs = map q_disabled (queue_buf afl)" "tot = sum_list (map ?f qs)"
    "\<forall>q\<in>set qs. 0 \<le> ?f q" "P = map (\<lambda>q. ?f q * real (length qs) / tot) qs"
  proof (cases "schedule afl < RARE")
    case True
    obtain avgs qs1 tot where 1: "weigh_loop afl env avgs (queue_buf afl) 0 = Some (qs1, tot)"
      "P = map (\<lambda>q. if q_disabled q then 0 else q_weight q * real (length qs) / tot) qs" "qs = qs1"
      using w True weigh_loop_sum by (auto simp: alias_weights_def Let_def split: bind_splits dest!: scaled_weights_some)
    note s = weigh_loop_sum [OF 1(1) True]
    have "P = map (\<lambda>q. ?f q * real (length qs) / tot) qs" unfolding 1(2) using True by (auto simp: weight_of_def)
    moreover have "\<forall>q\<in>set qs. 0 \<le> ?f q" using s 1(3) by (auto simp: weight_of_def less_eq_real_def)
    ultimately show ?thesis using that [of tot] s 1(3) by simp
  next
    case False
    obtain tot where 1: "score_only_loop afl env (queue_buf afl) 0 = Some (qs, tot)"
      "P = map (\<lambda>q. if q_disabled q then 0 else q_perf_score q * real (length qs) / tot) qs"
      using w False by (auto simp: alias_weights_def Let_def split: bind_splits dest!: scaled_weights_some)
    note s = score_only_loop_sum [OF 1(1) False]
    have "P = map (\<lambda>q. ?f q * real (length qs) / tot) qs" unfolding 1(2) using False by (auto simp: weight_of_def)
    then show ?thesis using that [of tot] s by simp
  qed
  then show "length qs = length (queue_buf afl)" "map q_disabled qs = map q_disabled (queue_buf afl)"
    "P = map (\<lambda>q. ?f q * real (length qs) / sum_list (map ?f qs)) qs" "\<forall>q\<in>set qs. 0 \<le> ?f q" by simp_all
qed

lemma select_interval:
  assumes "0 \<le> prob ! s" "prob ! s \<le> 1"
  shows "{p. 0 \<le> p \<and> p < 1 \<and> select_next_queue_entry prob alias s p = i} =
    (if s = i then {0..<prob ! s} else {}) \<union> (if alias ! s = i then {prob ! s..<1} else {})"
  using assms by (auto simp: select_next_queue_entry_def)


definition small_env :: score_env where
  "small_env = \<lparr>total_cal_us = 0, total_cal_cycles = 0, total_bitmap_size = 0, total_bitmap_entries = 0, total_execs = 0,
     havoc_max_mult = 64, limit_time_sig = 0, queued_discovered = 0\<rparr>"

definition seek_queue :: queue_state where
  "seek_queue = (add_to_queue (add_to_queue small_queue 5 False) 5 False)\<lparr>schedule := SEEK\<rparr>"

lemma seek_queue_weights:
  "alias_weights seek_queue small_env =
     Some (map (\<lambda>q. q\<lparr>q_perf_score := 100\<rparr>) (queue_buf seek_queue), [1, 1])"
  "length (queue_buf seek_queue) = 2" "schedule seek_queue = SEEK" "\<forall>q\<in>set (queue_buf seek_queue). \<not> q_disabled q"
  by (simp_all add: seek_queue_def small_queue_def add_to_queue_def small_env_def alias_weights_def scaled_weights_def calculate_score_def bitmap_score_def average_def
      speed_score_def handicap_score_def depth_score_def schedule_score_def apply_factor_def limit_score_def Let_def less_eq_schedule_def less_schedule_def)


section \<open>Bounds of the score\<close>

lemma scale_le: "scale p f = Some s \<Longrightarrow> 0 \<le> f \<Longrightarrow> real (unat s) \<le> real (unat p) * f"
proof -
  assume s: "scale p f = Some s" and f: "0 \<le> f"
  let ?x = "real (unat p) * f"
  have "0 \<le> ?x" using f by (rule mult_nonneg_nonneg [OF of_nat_0_le_iff])
  then have x: "s = word_of_int \<lfloor>?x\<rfloor>" "?x < 2 ^ 32" using s by (auto simp: scale_def Let_def split: if_splits)
  have "\<lfloor>?x\<rfloor> < 2 ^ 32" "0 \<le> \<lfloor>?x\<rfloor>" using x(2) \<open>0 \<le> ?x\<close> by (simp_all add: floor_less_iff)
  then have "uint s = \<lfloor>?x\<rfloor>" using x(1) by (simp add: uint_word_of_int)
  then have "real (unat s) = of_int \<lfloor>?x\<rfloor>" by (metis of_int_of_nat_eq uint_nat)
  then show ?thesis using of_int_floor_le [of ?x] by linarith
qed

lemma scale_some: "real (unat p) * f < 2 ^ 32 \<Longrightarrow> 0 \<le> f \<Longrightarrow> \<exists>s. scale p f = Some s"
proof -
  assume "real (unat p) * f < 2 ^ 32" "0 \<le> f"
  moreover from this(2) have "0 \<le> real (unat p) * f" by (rule mult_nonneg_nonneg [OF of_nat_0_le_iff])
  ultimately show ?thesis by (simp add: scale_def Let_def)
qed

lemma unat_mult_le:
  assumes "unat (p :: u32) * k \<le> m" "m < 2 ^ 32" "unat c = k"
  shows "unat (p * c) \<le> m"
  using assms by (simp add: unat_word_ariths)

lemma speed_score_le: "unat (speed_score afl e q) \<le> 300"
  by (simp add: speed_score_def Let_def)

lemma bitmap_score_le:
  assumes "unat p \<le> 300"
  shows "\<exists>s. bitmap_score b q p = Some s \<and> unat s \<le> 900"
proof -
  have lt: "real (unat p) \<le> 300" using assms by (simp only: of_nat_le_iff [where 'a = real, symmetric] of_nat_numeral)
  have sc: "\<exists>s. scale p f = Some s \<and> unat s \<le> 900" if "0 \<le> f" "f \<le> 1.5" for f
  proof -
    have m: "real (unat p) * f \<le> 300 * 1.5" using mult_mono [OF lt that(2) _ that(1)] by simp
    then have "real (unat p) * f < 2 ^ 32" by (rule le_less_trans) simp
    with that(1) obtain s where s: "scale p f = Some s" using scale_some by blast
    have "real (unat s) \<le> 450" using scale_le [OF s that(1)] m by linarith
    then have "real (unat s) \<le> real 900" by simp
    then have "unat s \<le> 900" by (simp only: of_nat_le_iff)
    then show ?thesis using s by blast
  qed
  have "unat (p * 3) \<le> 900" "unat (p * 2) \<le> 900" using assms by (intro unat_mult_le [where k = 3] unat_mult_le [where k = 2]; simp)+
  moreover have "unat p \<le> 900" using assms by simp
  ultimately show ?thesis using sc [of "1.5"] sc [of "0.25"] sc [of "0.5"] sc [of "0.75"] by (auto simp: bitmap_score_def Let_def)
qed

lemma handicap_score_le: "unat p \<le> 900 \<Longrightarrow> unat (fst (handicap_score q p)) \<le> 3600"
  using unat_mult_le [of p 4 3600 4] unat_mult_le [of p 2 3600 2] by (auto simp: handicap_score_def)

lemma depth_score_le: "unat p \<le> 3600 \<Longrightarrow> unat (depth_score q p) \<le> 18000"
  using unat_mult_le [of p 2 18000 2] unat_mult_le [of p 3 18000 3] unat_mult_le [of p 4 18000 4] unat_mult_le [of p 5 18000 5]
  by (auto simp: depth_score_def)

text \<open>
  C31 The performance score is at most a hundred times the havoc multiplier and, except for
  the schedule COE and in MOpt mode, at least 1; for the schedules EXPLORE, MMOPT, EXPLOIT
  and SEEK no intermediate value is out of range.
\<close>

theorem afl_score_bounds:
  "(\<forall>s q'. calculate_score afl env q = Some (s, q') \<longrightarrow>
      unat s \<le> 100 * unat (havoc_max_mult env) \<and>
      (schedule afl \<noteq> COE \<and> limit_time_sig env = 0 \<and> havoc_max_mult env \<noteq> 0 \<longrightarrow> 1 \<le> unat s)) \<and>
   (schedule afl \<in> {EXPLORE, MMOPT, EXPLOIT, SEEK} \<longrightarrow> (\<exists>s q'. calculate_score afl env q = Some (s, q')))"
proof (intro conjI allI impI)
  fix s q' assume c: "calculate_score afl env q = Some (s, q')"
  have h: "unat (havoc_max_mult env) < 256" using unsigned_less [of "havoc_max_mult env", where 'a = nat] by simp
  then have cap: "unat (100 * ucast (havoc_max_mult env) :: u32) = 100 * unat (havoc_max_mult env)"
    by (simp add: unat_word_ariths unsigned_ucast_eq take_bit_nat_eq_self)
  obtain p where p: "s = limit_score afl env q p" by (rule calculate_score_cases [OF c])
  then show "unat s \<le> 100 * unat (havoc_max_mult env)"
    using cap by (auto simp: limit_score_def Let_def word_less_nat_alt not_less)
  assume a: "schedule afl \<noteq> COE \<and> limit_time_sig env = 0 \<and> havoc_max_mult env \<noteq> 0"
  then have "0 < unat (havoc_max_mult env)" by (simp add: unat_gt_0)
  then have "1 \<le> unat (100 * ucast (havoc_max_mult env) :: u32)" using cap by simp
  then show "1 \<le> unat s" using p a by (auto simp: limit_score_def Let_def word_less_nat_alt not_less)
next
  assume sched: "schedule afl \<in> {EXPLORE, MMOPT, EXPLOIT, SEEK}"
  let ?e = "average (total_cal_us env) (total_cal_cycles env)" and ?b = "average (total_bitmap_size env) (total_bitmap_entries env)"
  obtain p where p: "bitmap_score ?b q (speed_score afl ?e q) = Some p" "unat p \<le> 900"
    using bitmap_score_le [OF speed_score_le, of ?b q afl ?e q] by blast
  have d: "unat (depth_score q (fst (handicap_score q p))) \<le> 18000" by (rule depth_score_le [OF handicap_score_le [OF p(2)]])
  then obtain p' f where s: "schedule_score afl env q (depth_score q (fst (handicap_score q p))) = Some (p', f)" "unat p' \<le> 36000" "f = 1 \<or> f = MAX_FACTOR"
    using sched unat_mult_le [of "depth_score q (fst (handicap_score q p))" 2 36000 2] by (auto simp: schedule_score_def)
  have "real (unat p') \<le> 36000" using s(2) by (simp only: of_nat_le_iff [where 'a = real, symmetric] of_nat_numeral)
  then have "\<exists>p''. apply_factor afl p' f = Some p''"
    using s(3) scale_some [of p' 1] scale_some [of p' 32] by (auto simp: apply_factor_def MAX_FACTOR_def)
  then show "\<exists>s q'. calculate_score afl env q = Some (s, q')" using p(1) s(1) by (auto simp: calculate_score_def case_prod_beta)
qed

theorem afl_score_bounds_witness:
  "\<exists>s q'. calculate_score seek_queue small_env (hd (queue_buf seek_queue)) = Some (s, q') \<and> 1 \<le> unat s \<and> unat s \<le> 6400"
proof -
  have env: "havoc_max_mult small_env = 64" "limit_time_sig small_env = 0" by (simp_all add: small_env_def)
  from afl_score_bounds [of seek_queue small_env "hd (queue_buf seek_queue)"] show ?thesis
    using seek_queue_weights(3) env by auto
qed

end
