(* ===== verification/Xml_List.thy ===== *)
theory Xml_List
  imports Main "HOL-Library.Monad_Syntax" "HOL-Library.Multiset"
begin

text \<open>
  The doubly linked list of the fuzzed library
  (\<open>src/testbed/libxml2/list.c\<close>): a circular list with a sentinel, in an
  explicit heap.  A link is a record at an address; \<open>xmlMalloc\<close> takes the next
  fresh address, and succeeds as often as \<open>avail\<close> says; \<open>xmlFree\<close> removes a link,
  and an access to an address that is not allocated is \<open>None\<close>.  The list head
  \<open>xmlList\<close> never changes after its creation, so a pointer to it is its value;
  \<open>NULL\<close> is \<open>None\<close>.  The user's deallocator is represented by the log of the
  data it was called with.  Loops over the links are partial functions whose
  value \<open>None\<close> is also divergence; the lemmas show the values they return.
\<close>

section \<open>Links and heap\<close>

record 'd xmlLink =
  nxt :: nat
  prv :: nat
  dat :: "'d option"

record 'd xmlList =
  sentinel :: nat
  linkDeallocator :: bool
  linkCompare :: "'d \<Rightarrow> 'd \<Rightarrow> int"

record 'd heap =
  links :: "nat \<Rightarrow> 'd xmlLink option"
  brk :: nat
  avail :: nat
  dealloc_log :: "'d option list"

definition get_next :: "'d heap \<Rightarrow> nat \<Rightarrow> nat option" where
  "get_next h a = map_option nxt (links h a)"

definition get_prev :: "'d heap \<Rightarrow> nat \<Rightarrow> nat option" where
  "get_prev h a = map_option prv (links h a)"

definition get_data :: "'d heap \<Rightarrow> nat \<Rightarrow> 'd option option" where
  "get_data h a = map_option dat (links h a)"

definition set_next :: "nat \<Rightarrow> nat \<Rightarrow> 'd heap \<Rightarrow> 'd heap option" where
  "set_next a b h =
     (case links h a of None \<Rightarrow> None | Some k \<Rightarrow> Some (h\<lparr>links := (links h)(a \<mapsto> k\<lparr>nxt := b\<rparr>)\<rparr>))"

definition set_prev :: "nat \<Rightarrow> nat \<Rightarrow> 'd heap \<Rightarrow> 'd heap option" where
  "set_prev a b h =
     (case links h a of None \<Rightarrow> None | Some k \<Rightarrow> Some (h\<lparr>links := (links h)(a \<mapsto> k\<lparr>prv := b\<rparr>)\<rparr>))"

text \<open>
  \<open>xmlMalloc(sizeof(xmlLink))\<close>, followed by the initialisation of the data; the
  pointers of the new link are set by the caller.
\<close>

definition new_link :: "'d option \<Rightarrow> 'd heap \<Rightarrow> (nat \<times> 'd heap) option" where
  "new_link d h =
     (if avail h = 0 then None
      else Some (brk h, h\<lparr>links := (links h)(brk h \<mapsto> \<lparr>nxt = brk h, prv = brk h, dat = d\<rparr>),
                         brk := Suc (brk h), avail := avail h - 1\<rparr>))"

definition free_link :: "nat \<Rightarrow> 'd heap \<Rightarrow> 'd heap option" where
  "free_link a h = (if links h a = None then None else Some (h\<lparr>links := (links h)(a := None)\<rparr>))"

section \<open>Searching\<close>

definition xmlLinkDeallocator :: "'d xmlList \<Rightarrow> nat \<Rightarrow> 'd heap \<Rightarrow> 'd heap option" where
  "xmlLinkDeallocator l lk h = do {
     p \<leftarrow> get_prev h lk;
     n \<leftarrow> get_next h lk;
     h \<leftarrow> set_next p n h;
     n \<leftarrow> get_next h lk;
     p \<leftarrow> get_prev h lk;
     h \<leftarrow> set_prev n p h;
     d \<leftarrow> get_data h lk;
     let h = (if linkDeallocator l then h\<lparr>dealloc_log := dealloc_log h @ [d]\<rparr> else h);
     free_link lk h
   }"

text \<open>The default comparison, on the addresses of the data.\<close>

definition xmlLinkCompare :: "nat \<Rightarrow> nat \<Rightarrow> int" where
  "xmlLinkCompare data0 data1 = (if data0 < data1 then -1 else if data0 = data1 then 0 else 1)"

partial_function (option) lower_loop :: "'d xmlList \<Rightarrow> 'd \<Rightarrow> 'd heap \<Rightarrow> nat \<Rightarrow> nat option" where
  "lower_loop l d h lk =
     (if lk = sentinel l then Some lk
      else do {
        x \<leftarrow> get_data h lk;
        x \<leftarrow> x;
        if linkCompare l x d < 0 then do { n \<leftarrow> get_next h lk; lower_loop l d h n } else Some lk
      })"

definition xmlListLowerSearch :: "'d xmlList \<Rightarrow> 'd \<Rightarrow> 'd heap \<Rightarrow> nat option" where
  "xmlListLowerSearch l d h = do { lk \<leftarrow> get_next h (sentinel l); lower_loop l d h lk }"

partial_function (option) higher_loop :: "'d xmlList \<Rightarrow> 'd \<Rightarrow> 'd heap \<Rightarrow> nat \<Rightarrow> nat option" where
  "higher_loop l d h lk =
     (if lk = sentinel l then Some lk
      else do {
        x \<leftarrow> get_data h lk;
        x \<leftarrow> x;
        if linkCompare l x d > 0 then do { p \<leftarrow> get_prev h lk; higher_loop l d h p } else Some lk
      })"

definition xmlListHigherSearch :: "'d xmlList \<Rightarrow> 'd \<Rightarrow> 'd heap \<Rightarrow> nat option" where
  "xmlListHigherSearch l d h = do { lk \<leftarrow> get_prev h (sentinel l); higher_loop l d h lk }"

text \<open>The inner option of the searches is the returned pointer, \<open>None\<close> for \<open>NULL\<close>.\<close>

definition xmlListLinkSearch :: "'d xmlList \<Rightarrow> 'd \<Rightarrow> 'd heap \<Rightarrow> nat option option" where
  "xmlListLinkSearch l d h = do {
     lk \<leftarrow> xmlListLowerSearch l d h;
     if lk = sentinel l then Some None
     else do {
       x \<leftarrow> get_data h lk;
       x \<leftarrow> x;
       Some (if linkCompare l x d = 0 then Some lk else None)
     }
   }"

definition xmlListLinkReverseSearch :: "'d xmlList \<Rightarrow> 'd \<Rightarrow> 'd heap \<Rightarrow> nat option option" where
  "xmlListLinkReverseSearch l d h = do {
     lk \<leftarrow> xmlListHigherSearch l d h;
     if lk = sentinel l then Some None
     else do {
       x \<leftarrow> get_data h lk;
       x \<leftarrow> x;
       Some (if linkCompare l x d = 0 then Some lk else None)
     }
   }"

definition xmlListSearch :: "'d xmlList \<Rightarrow> 'd \<Rightarrow> 'd heap \<Rightarrow> 'd option option" where
  "xmlListSearch l d h = do {
     lk \<leftarrow> xmlListLinkSearch l d h;
     case lk of None \<Rightarrow> Some None | Some a \<Rightarrow> get_data h a
   }"

definition xmlListReverseSearch :: "'d xmlList \<Rightarrow> 'd \<Rightarrow> 'd heap \<Rightarrow> 'd option option" where
  "xmlListReverseSearch l d h = do {
     lk \<leftarrow> xmlListLinkReverseSearch l d h;
     case lk of None \<Rightarrow> Some None | Some a \<Rightarrow> get_data h a
   }"

section \<open>Creating, inserting and removing\<close>

definition xmlListCreate ::
    "bool \<Rightarrow> ('d \<Rightarrow> 'd \<Rightarrow> int) \<Rightarrow> 'd heap \<Rightarrow> 'd xmlList option \<times> 'd heap" where
  "xmlListCreate deallocator compare h =
     (if avail h = 0 then (None, h)
      else case new_link None (h\<lparr>avail := avail h - 1\<rparr>) of
             None \<Rightarrow> (None, h\<lparr>avail := avail h - 1\<rparr>)
           | Some (s, h') \<Rightarrow>
               (Some \<lparr>sentinel = s, linkDeallocator = deallocator, linkCompare = compare\<rparr>, h'))"

text \<open>
  The four statements that put the new link after \<open>lkPlace\<close>, shared by all the
  inserting functions.
\<close>

definition link_after :: "nat \<Rightarrow> nat \<Rightarrow> 'd heap \<Rightarrow> 'd heap option" where
  "link_after lkPlace lkNew h = do {
     n \<leftarrow> get_next h lkPlace;
     h \<leftarrow> set_next lkNew n h;
     n \<leftarrow> get_next h lkPlace;
     h \<leftarrow> set_prev n lkNew h;
     h \<leftarrow> set_next lkPlace lkNew h;
     set_prev lkNew lkPlace h
   }"

definition xmlListInsert :: "'d xmlList option \<Rightarrow> 'd \<Rightarrow> 'd heap \<Rightarrow> (int \<times> 'd heap) option" where
  "xmlListInsert l d h =
     (case l of
        None \<Rightarrow> Some (1, h)
      | Some l \<Rightarrow> do {
          lkPlace \<leftarrow> xmlListLowerSearch l d h;
          case new_link (Some d) h of
            None \<Rightarrow> Some (1, h)
          | Some (lkNew, h) \<Rightarrow> do {
              lkPlace \<leftarrow> get_prev h lkPlace;
              h \<leftarrow> link_after lkPlace lkNew h;
              Some (0, h)
            }
        })"

definition xmlListAppend :: "'d xmlList option \<Rightarrow> 'd \<Rightarrow> 'd heap \<Rightarrow> (int \<times> 'd heap) option" where
  "xmlListAppend l d h =
     (case l of
        None \<Rightarrow> Some (1, h)
      | Some l \<Rightarrow> do {
          lkPlace \<leftarrow> xmlListHigherSearch l d h;
          case new_link (Some d) h of
            None \<Rightarrow> Some (1, h)
          | Some (lkNew, h) \<Rightarrow> do { h \<leftarrow> link_after lkPlace lkNew h; Some (0, h) }
        })"

definition xmlListRemoveFirst :: "'d xmlList option \<Rightarrow> 'd \<Rightarrow> 'd heap \<Rightarrow> (int \<times> 'd heap) option" where
  "xmlListRemoveFirst l d h =
     (case l of
        None \<Rightarrow> Some (0, h)
      | Some l \<Rightarrow> do {
          lk \<leftarrow> xmlListLinkSearch l d h;
          case lk of
            None \<Rightarrow> Some (0, h)
          | Some lk \<Rightarrow> do { h \<leftarrow> xmlLinkDeallocator l lk h; Some (1, h) }
        })"

definition xmlListRemoveLast :: "'d xmlList option \<Rightarrow> 'd \<Rightarrow> 'd heap \<Rightarrow> (int \<times> 'd heap) option" where
  "xmlListRemoveLast l d h =
     (case l of
        None \<Rightarrow> Some (0, h)
      | Some l \<Rightarrow> do {
          lk \<leftarrow> xmlListLinkReverseSearch l d h;
          case lk of
            None \<Rightarrow> Some (0, h)
          | Some lk \<Rightarrow> do { h \<leftarrow> xmlLinkDeallocator l lk h; Some (1, h) }
        })"

partial_function (option) removeall_loop ::
    "'d xmlList \<Rightarrow> 'd \<Rightarrow> int \<Rightarrow> 'd heap \<Rightarrow> (int \<times> 'd heap) option" where
  "removeall_loop l d cnt h = do {
     r \<leftarrow> xmlListRemoveFirst (Some l) d h;
     if fst r \<noteq> 0 then removeall_loop l d (cnt + 1) (snd r) else Some (cnt, snd r)
   }"

definition xmlListRemoveAll :: "'d xmlList option \<Rightarrow> 'd \<Rightarrow> 'd heap \<Rightarrow> (int \<times> 'd heap) option" where
  "xmlListRemoveAll l d h = (case l of None \<Rightarrow> Some (0, h) | Some l \<Rightarrow> removeall_loop l d 0 h)"

partial_function (option) clear_loop :: "'d xmlList \<Rightarrow> nat \<Rightarrow> 'd heap \<Rightarrow> 'd heap option" where
  "clear_loop l lk h =
     (if lk = sentinel l then Some h
      else do {
        n \<leftarrow> get_next h lk;
        h \<leftarrow> xmlLinkDeallocator l lk h;
        clear_loop l n h
      })"

definition xmlListClear :: "'d xmlList option \<Rightarrow> 'd heap \<Rightarrow> 'd heap option" where
  "xmlListClear l h =
     (case l of
        None \<Rightarrow> Some h
      | Some l \<Rightarrow> do { lk \<leftarrow> get_next h (sentinel l); clear_loop l lk h })"

definition xmlListDelete :: "'d xmlList option \<Rightarrow> 'd heap \<Rightarrow> 'd heap option" where
  "xmlListDelete l h =
     (case l of
        None \<Rightarrow> Some h
      | Some l' \<Rightarrow> do { h \<leftarrow> xmlListClear l h; free_link (sentinel l') h })"

section \<open>Queries and ends\<close>

definition xmlListEmpty :: "'d xmlList option \<Rightarrow> 'd heap \<Rightarrow> int option" where
  "xmlListEmpty l h =
     (case l of
        None \<Rightarrow> Some (-1)
      | Some l \<Rightarrow> do { n \<leftarrow> get_next h (sentinel l); Some (if n = sentinel l then 1 else 0) })"

definition xmlListFront :: "'d xmlList option \<Rightarrow> 'd heap \<Rightarrow> nat option option" where
  "xmlListFront l h = (case l of None \<Rightarrow> Some None | Some l \<Rightarrow> map_option Some (get_next h (sentinel l)))"

definition xmlListEnd :: "'d xmlList option \<Rightarrow> 'd heap \<Rightarrow> nat option option" where
  "xmlListEnd l h = (case l of None \<Rightarrow> Some None | Some l \<Rightarrow> map_option Some (get_prev h (sentinel l)))"

partial_function (option) size_loop :: "'d xmlList \<Rightarrow> 'd heap \<Rightarrow> nat \<Rightarrow> int \<Rightarrow> int option" where
  "size_loop l h lk cnt =
     (if lk = sentinel l then Some cnt
      else do { n \<leftarrow> get_next h lk; size_loop l h n (cnt + 1) })"

definition xmlListSize :: "'d xmlList option \<Rightarrow> 'd heap \<Rightarrow> int option" where
  "xmlListSize l h =
     (case l of
        None \<Rightarrow> Some (-1)
      | Some l \<Rightarrow> do { lk \<leftarrow> get_next h (sentinel l); size_loop l h lk 0 })"

definition xmlListPopFront :: "'d xmlList option \<Rightarrow> 'd heap \<Rightarrow> 'd heap option" where
  "xmlListPopFront l h = do {
     e \<leftarrow> xmlListEmpty l h;
     if e = 0
     then case l of
            None \<Rightarrow> None
          | Some l \<Rightarrow> do { lk \<leftarrow> get_next h (sentinel l); xmlLinkDeallocator l lk h }
     else Some h
   }"

definition xmlListPopBack :: "'d xmlList option \<Rightarrow> 'd heap \<Rightarrow> 'd heap option" where
  "xmlListPopBack l h = do {
     e \<leftarrow> xmlListEmpty l h;
     if e = 0
     then case l of
            None \<Rightarrow> None
          | Some l \<Rightarrow> do { lk \<leftarrow> get_prev h (sentinel l); xmlLinkDeallocator l lk h }
     else Some h
   }"

definition xmlListPushFront :: "'d xmlList option \<Rightarrow> 'd \<Rightarrow> 'd heap \<Rightarrow> (int \<times> 'd heap) option" where
  "xmlListPushFront l d h =
     (case l of
        None \<Rightarrow> Some (0, h)
      | Some l \<Rightarrow>
          (case new_link (Some d) h of
             None \<Rightarrow> Some (0, h)
           | Some (lkNew, h) \<Rightarrow> do { h \<leftarrow> link_after (sentinel l) lkNew h; Some (1, h) }))"

definition xmlListPushBack :: "'d xmlList option \<Rightarrow> 'd \<Rightarrow> 'd heap \<Rightarrow> (int \<times> 'd heap) option" where
  "xmlListPushBack l d h =
     (case l of
        None \<Rightarrow> Some (0, h)
      | Some l \<Rightarrow> do {
          lkPlace \<leftarrow> get_prev h (sentinel l);
          case new_link (Some d) h of
            None \<Rightarrow> Some (0, h)
          | Some (lkNew, h) \<Rightarrow> do { h \<leftarrow> link_after lkPlace lkNew h; Some (1, h) }
        })"

definition xmlLinkGetData :: "nat option \<Rightarrow> 'd heap \<Rightarrow> 'd option option" where
  "xmlLinkGetData lk h = (case lk of None \<Rightarrow> Some None | Some a \<Rightarrow> get_data h a)"

section \<open>Reversing, walking, copying and sorting\<close>

text \<open>\<open>lkPrev->next = lkPrev->prev; lkPrev->prev = lk;\<close>\<close>

definition flip_link :: "nat \<Rightarrow> nat \<Rightarrow> 'd heap \<Rightarrow> 'd heap option" where
  "flip_link lkPrev lk h = do {
     p \<leftarrow> get_prev h lkPrev;
     h \<leftarrow> set_next lkPrev p h;
     set_prev lkPrev lk h
   }"

partial_function (option) reverse_loop :: "'d xmlList \<Rightarrow> nat \<Rightarrow> nat \<Rightarrow> 'd heap \<Rightarrow> 'd heap option" where
  "reverse_loop l lkPrev lk h =
     (if lk = sentinel l then flip_link lkPrev lk h
      else do {
        h \<leftarrow> flip_link lkPrev lk h;
        n \<leftarrow> get_next h lk;
        reverse_loop l lk n h
      })"

definition xmlListReverse :: "'d xmlList option \<Rightarrow> 'd heap \<Rightarrow> 'd heap option" where
  "xmlListReverse l h =
     (case l of
        None \<Rightarrow> Some h
      | Some l \<Rightarrow> do { lk \<leftarrow> get_next h (sentinel l); reverse_loop l (sentinel l) lk h })"

text \<open>
  The walks: the data visited, until the walker returns 0.
\<close>

partial_function (option) walk_loop ::
    "('d heap \<Rightarrow> nat \<Rightarrow> nat option) \<Rightarrow> 'd xmlList \<Rightarrow> ('d option \<Rightarrow> int) \<Rightarrow> 'd heap \<Rightarrow> nat \<Rightarrow> 'd option list option" where
  "walk_loop step l walker h lk =
     (if lk = sentinel l then Some []
      else do {
        x \<leftarrow> get_data h lk;
        if walker x = 0 then Some [x]
        else do { n \<leftarrow> step h lk; xs \<leftarrow> walk_loop step l walker h n; Some (x # xs) }
      })"

definition xmlListWalk :: "'d xmlList option \<Rightarrow> ('d option \<Rightarrow> int) option \<Rightarrow> 'd heap \<Rightarrow> 'd option list option" where
  "xmlListWalk l walker h =
     (case (l, walker) of
        (Some l, Some w) \<Rightarrow> do { lk \<leftarrow> get_next h (sentinel l); walk_loop get_next l w h lk }
      | _ \<Rightarrow> Some [])"

definition xmlListReverseWalk :: "'d xmlList option \<Rightarrow> ('d option \<Rightarrow> int) option \<Rightarrow> 'd heap \<Rightarrow> 'd option list option" where
  "xmlListReverseWalk l walker h =
     (case (l, walker) of
        (Some l, Some w) \<Rightarrow> do { lk \<leftarrow> get_prev h (sentinel l); walk_loop get_prev l w h lk }
      | _ \<Rightarrow> Some [])"

partial_function (option) copy_loop ::
    "'d xmlList \<Rightarrow> 'd xmlList \<Rightarrow> nat \<Rightarrow> 'd heap \<Rightarrow> (int \<times> 'd heap) option" where
  "copy_loop cur old lk h =
     (if lk = sentinel old then Some (0, h)
      else do {
        x \<leftarrow> get_data h lk;
        d \<leftarrow> x;
        r \<leftarrow> xmlListInsert (Some cur) d h;
        if fst r \<noteq> 0
        then do { h \<leftarrow> xmlListDelete (Some cur) (snd r); Some (1, h) }
        else do { n \<leftarrow> get_next (snd r) lk; copy_loop cur old n (snd r) }
      })"

definition xmlListCopy :: "'d xmlList option \<Rightarrow> 'd xmlList option \<Rightarrow> 'd heap \<Rightarrow> (int \<times> 'd heap) option" where
  "xmlListCopy cur old h =
     (case (old, cur) of
        (Some old, Some cur) \<Rightarrow> do { lk \<leftarrow> get_next h (sentinel old); copy_loop cur old lk h }
      | _ \<Rightarrow> Some (1, h))"

definition xmlListMerge :: "'d xmlList option \<Rightarrow> 'd xmlList option \<Rightarrow> 'd heap \<Rightarrow> 'd heap option" where
  "xmlListMerge l1 l2 h = do { r \<leftarrow> xmlListCopy l1 l2 h; xmlListClear l2 (snd r) }"

definition xmlListDup :: "'d xmlList option \<Rightarrow> 'd heap \<Rightarrow> ('d xmlList option \<times> 'd heap) option" where
  "xmlListDup old h =
     (case old of
        None \<Rightarrow> Some (None, h)
      | Some o' \<Rightarrow>
          (case xmlListCreate False (linkCompare o') h of
             (None, h) \<Rightarrow> Some (None, h)
           | (Some cur, h) \<Rightarrow> do {
               r \<leftarrow> xmlListCopy (Some cur) old h;
               Some (if fst r \<noteq> 0 then None else Some cur, snd r)
             }))"

definition xmlListSort :: "'d xmlList option \<Rightarrow> 'd heap \<Rightarrow> 'd heap option" where
  "xmlListSort l h =
     (case l of
        None \<Rightarrow> Some h
      | Some _ \<Rightarrow> do {
          e \<leftarrow> xmlListEmpty l h;
          if e \<noteq> 0 then Some h
          else do {
            (lTemp, h) \<leftarrow> xmlListDup l h;
            case lTemp of
              None \<Rightarrow> Some h
            | Some _ \<Rightarrow> do {
                h \<leftarrow> xmlListClear l h;
                h \<leftarrow> xmlListMerge l lTemp h;
                xmlListDelete lTemp h
              }
          }
        })"

declare lower_loop.simps [code] higher_loop.simps [code] removeall_loop.simps [code]
  clear_loop.simps [code] size_loop.simps [code] reverse_loop.simps [code]
  walk_loop.simps [code] copy_loop.simps [code]

section \<open>The list a heap holds\<close>

definition linked :: "'d heap \<Rightarrow> nat \<Rightarrow> nat \<Rightarrow> bool" where
  "linked h a b \<longleftrightarrow> get_next h a = Some b \<and> get_prev h b = Some a"

definition dll :: "'d heap \<Rightarrow> nat \<Rightarrow> nat list \<Rightarrow> 'd list \<Rightarrow> bool" where
  "dll h s ns ds \<longleftrightarrow>
     distinct (s # ns) \<and> successively (linked h) (s # ns @ [s]) \<and>
     map (get_data h) ns = map (\<lambda>d. Some (Some d)) ds"

lemma set_next_effect:
  assumes "links h a \<noteq> None"
  obtains h' where "set_next a b h = Some h'" "get_next h' = (get_next h)(a := Some b)"
    "get_prev h' = get_prev h" "get_data h' = get_data h" "brk h' = brk h" "avail h' = avail h"
    "dealloc_log h' = dealloc_log h" "\<forall>x. links h' x = None \<longleftrightarrow> links h x = None"
    "\<forall>x. x \<noteq> a \<longrightarrow> links h' x = links h x"
  using assms that
  by (auto simp: set_next_def get_next_def get_prev_def get_data_def fun_eq_iff split: option.splits)

lemma set_prev_effect:
  assumes "links h a \<noteq> None"
  obtains h' where "set_prev a b h = Some h'" "get_prev h' = (get_prev h)(a := Some b)"
    "get_next h' = get_next h" "get_data h' = get_data h" "brk h' = brk h" "avail h' = avail h"
    "dealloc_log h' = dealloc_log h" "\<forall>x. links h' x = None \<longleftrightarrow> links h x = None"
    "\<forall>x. x \<noteq> a \<longrightarrow> links h' x = links h x"
  using assms that
  by (auto simp: set_prev_def get_next_def get_prev_def get_data_def fun_eq_iff split: option.splits)

lemma get_None_iff:
  "get_next h a = None \<longleftrightarrow> links h a = None" "get_prev h a = None \<longleftrightarrow> links h a = None"
  "get_data h a = None \<longleftrightarrow> links h a = None"
  by (simp_all add: get_next_def get_prev_def get_data_def)

lemma get_Some_alloc:
  "get_next h a = Some b \<Longrightarrow> links h a \<noteq> None" "get_prev h a = Some b \<Longrightarrow> links h a \<noteq> None"
  by (auto simp: get_next_def get_prev_def)

lemma link_after_effect:
  assumes "get_next h p = Some q" "links h q \<noteq> None" "links h n \<noteq> None" "n \<noteq> p" "n \<noteq> q"
  obtains h' where "link_after p n h = Some h'"
    "get_next h' = (get_next h)(n := Some q, p := Some n)"
    "get_prev h' = (get_prev h)(q := Some n, n := Some p)"
    "get_data h' = get_data h" "brk h' = brk h" "avail h' = avail h" "dealloc_log h' = dealloc_log h"
    "\<forall>x. x \<noteq> p \<longrightarrow> x \<noteq> q \<longrightarrow> x \<noteq> n \<longrightarrow> links h' x = links h x" "\<forall>x. links h' x = None \<longleftrightarrow> links h x = None"
proof -
  obtain h1 where h1: "set_next n q h = Some h1" "get_next h1 = (get_next h)(n := Some q)"
    "get_prev h1 = get_prev h" "get_data h1 = get_data h" "brk h1 = brk h" "avail h1 = avail h"
    "dealloc_log h1 = dealloc_log h" "\<forall>x. links h1 x = None \<longleftrightarrow> links h x = None"
    "\<forall>x. x \<noteq> n \<longrightarrow> links h1 x = links h x" using set_next_effect [OF assms(3)] by metis
  have "links h1 q \<noteq> None" using h1 assms by simp
  then obtain h2 where h2: "set_prev q n h1 = Some h2" "get_prev h2 = (get_prev h1)(q := Some n)"
    "get_next h2 = get_next h1" "get_data h2 = get_data h1" "brk h2 = brk h1" "avail h2 = avail h1"
    "dealloc_log h2 = dealloc_log h1" "\<forall>x. links h2 x = None \<longleftrightarrow> links h1 x = None"
    "\<forall>x. x \<noteq> q \<longrightarrow> links h2 x = links h1 x" using set_prev_effect by metis
  have "links h2 p \<noteq> None" using h1 h2 get_Some_alloc(1) [OF assms(1)] by simp
  then obtain h3 where h3: "set_next p n h2 = Some h3" "get_next h3 = (get_next h2)(p := Some n)"
    "get_prev h3 = get_prev h2" "get_data h3 = get_data h2" "brk h3 = brk h2" "avail h3 = avail h2"
    "dealloc_log h3 = dealloc_log h2" "\<forall>x. links h3 x = None \<longleftrightarrow> links h2 x = None"
    "\<forall>x. x \<noteq> p \<longrightarrow> links h3 x = links h2 x" using set_next_effect by metis
  have "links h3 n \<noteq> None" using h1 h2 h3 assms by simp
  then obtain h4 where h4: "set_prev n p h3 = Some h4" "get_prev h4 = (get_prev h3)(n := Some p)"
    "get_next h4 = get_next h3" "get_data h4 = get_data h3" "brk h4 = brk h3" "avail h4 = avail h3"
    "dealloc_log h4 = dealloc_log h3" "\<forall>x. links h4 x = None \<longleftrightarrow> links h3 x = None"
    "\<forall>x. x \<noteq> n \<longrightarrow> links h4 x = links h3 x" using set_prev_effect by metis
  show thesis
  proof (rule that)
    show "link_after p n h = Some h4"
      using assms(1,4) h1(1,2) h2(1) h3(1) h4(1) by (simp add: link_after_def)
  qed (use h1 h2 h3 h4 in auto)
qed

lemma successively_other:
  assumes "successively (linked h) xs" "P \<inter> set (butlast xs) = {}" "Q \<inter> set (tl xs) = {}"
    and "\<And>a. a \<notin> P \<Longrightarrow> get_next h' a = get_next h a" "\<And>b. b \<notin> Q \<Longrightarrow> get_prev h' b = get_prev h b"
  shows "successively (linked h') xs"
  using assms(1-3)
proof (induction xs rule: induct_list012)
  case (3 x y zs)
  then have "successively (linked h') (y # zs)" by (auto split: if_splits)
  moreover have "linked h' x y" using 3(3-5) assms(4) [of x] assms(5) [of y] by (auto simp: linked_def)
  ultimately show ?case by simp
qed auto


text \<open>The ring around a position: \<open>p\<close> before it, \<open>q\<close> after it.\<close>

lemma ring_split:
  "s # (A @ B) @ [s] = butlast (s # A) @ last (s # A) # hd (B @ [s]) # tl (B @ [s])"
proof -
  have "s # A = butlast (s # A) @ [last (s # A)]" by (metis append_butlast_last_id list.distinct(1))
  moreover have "B @ [s] = hd (B @ [s]) # tl (B @ [s])" by simp
  ultimately show ?thesis by (metis append.assoc append_Cons append_Nil)
qed

lemma last_in: "last (s # A) \<in> set (s # A)"
  by (rule last_in_set) simp

lemma hd_in: "hd (B @ [s]) \<in> set (B @ [s])"
  by (cases B) simp_all

lemma ring_distinct:
  assumes "distinct (s # A @ B)"
  shows "last (s # A) \<notin> set (butlast (s # A))" "last (s # A) \<notin> set (butlast (B @ [s]))"
    "hd (B @ [s]) \<notin> set (tl (B @ [s]))" "hd (B @ [s]) \<notin> set (tl (s # A))"
proof -
  have sA: "s # A = butlast (s # A) @ [last (s # A)]" by (metis append_butlast_last_id list.distinct(1))
  have "distinct (s # A)" using assms by simp
  then show "last (s # A) \<notin> set (butlast (s # A))" by (metis sA distinct_append disjoint_insert(1) list.set(2) not_distinct_conv_prefix)
  show "last (s # A) \<notin> set (butlast (B @ [s]))" using last_in [of s A] assms by auto
  have Bs: "B @ [s] = hd (B @ [s]) # tl (B @ [s])" by simp
  have "distinct (B @ [s])" using assms by auto
  then show "hd (B @ [s]) \<notin> set (tl (B @ [s]))" by (metis Bs distinct.simps(2))
  show "hd (B @ [s]) \<notin> set (tl (s # A))" using hd_in [of B s] assms by auto
qed

lemma dll_alloc:
  assumes "dll h s ns ds" "a \<in> set (s # ns)"
  shows "links h a \<noteq> None"
proof -
  obtain A B where AB: "s # ns = A @ a # B" using split_list [OF assms(2)] by blast
  then have "s # ns @ [s] = A @ a # (B @ [s])" by (metis append.assoc append_Cons)
  then have "successively (linked h) (A @ a # (B @ [s]))" using assms(1) unfolding dll_def by metis
  then have "linked h a (hd (B @ [s]))" by (cases B) (auto simp: successively_append_iff)
  then show ?thesis using get_Some_alloc by (auto simp: linked_def)
qed

lemma dll_at:
  assumes "dll h s (A @ B) ds"
  shows "get_next h (last (s # A)) = Some (hd (B @ [s]))" "get_prev h (hd (B @ [s])) = Some (last (s # A))"
proof -
  have "successively (linked h) (butlast (s # A) @ last (s # A) # hd (B @ [s]) # tl (B @ [s]))"
    using assms unfolding dll_def ring_split [symmetric] by simp
  then have "linked h (last (s # A)) (hd (B @ [s]))" by (simp only: successively_append_iff successively.simps)
  then show "get_next h (last (s # A)) = Some (hd (B @ [s]))" "get_prev h (hd (B @ [s])) = Some (last (s # A))"
    by (simp_all add: linked_def)
qed

lemma dll_insert:
  assumes d: "dll h s (A @ B) (da @ db)" "length A = length da" and n: "n \<notin> set (s # A @ B)"
    and h': "get_next h' = (get_next h)(n := Some (hd (B @ [s])), last (s # A) := Some n)"
      "get_prev h' = (get_prev h)(hd (B @ [s]) := Some n, n := Some (last (s # A)))"
      "\<And>a. a \<noteq> n \<Longrightarrow> get_data h' a = get_data h a" "get_data h' n = Some (Some x)"
  shows "dll h' s (A @ n # B) (da @ x # db)"
proof -
  let ?p = "last (s # A)" and ?q = "hd (B @ [s])"
  have dist: "distinct (s # A @ B)" using d(1) by (simp add: dll_def)
  note rd = ring_distinct [OF dist]
  have pq: "?p \<noteq> n" "?q \<noteq> n" using n last_in [of s A] hd_in [of B s] by auto
  have "successively (linked h) (butlast (s # A) @ ?p # ?q # tl (B @ [s]))"
    using d(1) unfolding dll_def ring_split [symmetric] by simp
  then have ring: "successively (linked h) ((butlast (s # A) @ [?p]) @ (?q # tl (B @ [s])))"
    by (metis append.assoc append_Cons append_Nil)
  have left: "successively (linked h') (butlast (s # A) @ [?p])"
  proof (rule successively_other [where P = "{n, ?p}" and Q = "{n, ?q}"])
    show "successively (linked h) (butlast (s # A) @ [?p])" using ring by (simp only: successively_append_iff)
    show "{n, ?p} \<inter> set (butlast (butlast (s # A) @ [?p])) = {}"
      using rd(1) n by (auto dest: in_set_butlastD)
    have "tl (butlast (s # A) @ [?p]) = A" by (metis append_butlast_last_id list.distinct(1) list.sel(3))
    then show "{n, ?q} \<inter> set (tl (butlast (s # A) @ [?p])) = {}" using rd(4) n by auto
  qed (simp_all add: h')
  have right: "successively (linked h') (?q # tl (B @ [s]))"
  proof (rule successively_other [where P = "{n, ?p}" and Q = "{n, ?q}"])
    show "successively (linked h) (?q # tl (B @ [s]))" using ring by (simp only: successively_append_iff)
    have "?q # tl (B @ [s]) = B @ [s]" by simp
    then show "{n, ?p} \<inter> set (butlast (?q # tl (B @ [s]))) = {}" using rd(2) n by auto
    have "set (tl (B @ [s])) \<subseteq> set (B @ [s])" by (cases B) auto
    then show "{n, ?q} \<inter> set (tl (?q # tl (B @ [s]))) = {}" using rd(3) n by auto
  qed (simp_all add: h')
  have new: "linked h' ?p n" "linked h' n ?q" using pq by (auto simp: linked_def h')
  have "successively (linked h') (n # ?q # tl (B @ [s]))" using right new(2) by (simp only: successively.simps)
  then have "successively (linked h') ((butlast (s # A) @ [?p]) @ n # ?q # tl (B @ [s]))"
    using left new(1) by (simp only: successively_append_iff last_snoc list.sel simp_thms)
  also have "(butlast (s # A) @ [?p]) @ n # ?q # tl (B @ [s]) = s # (A @ n # B) @ [s]" by simp
  finally have "successively (linked h') (s # (A @ n # B) @ [s])" .
  moreover have "map (get_data h') (A @ n # B) = map (\<lambda>d. Some (Some d)) (da @ x # db)"
  proof -
    have "map (get_data h) A = map (\<lambda>d. Some (Some d)) da" "map (get_data h) B = map (\<lambda>d. Some (Some d)) db"
      using d by (auto simp: dll_def)
    moreover have "get_data h' a = get_data h a" if "a \<in> set A \<union> set B" for a
      by (rule h'(3)) (use that n in auto)
    then have "map (get_data h') A = map (get_data h) A" "map (get_data h') B = map (get_data h) B"
      by (simp_all cong: map_cong)
    ultimately show ?thesis using h'(4) by simp
  qed
  ultimately show ?thesis using dist n by (auto simp: dll_def)
qed


lemma dll_delete:
  assumes d: "dll h s (A @ n # B) (da @ x # db)" "length A = length da"
    and h': "\<And>a. a \<noteq> n \<Longrightarrow> a \<noteq> last (s # A) \<Longrightarrow> get_next h' a = get_next h a"
      "get_next h' (last (s # A)) = Some (hd (B @ [s]))"
      "\<And>a. a \<noteq> n \<Longrightarrow> a \<noteq> hd (B @ [s]) \<Longrightarrow> get_prev h' a = get_prev h a"
      "get_prev h' (hd (B @ [s])) = Some (last (s # A))"
      "\<And>a. a \<noteq> n \<Longrightarrow> get_data h' a = get_data h a"
  shows "dll h' s (A @ B) (da @ db)"
proof -
  let ?p = "last (s # A)" and ?q = "hd (B @ [s])"
  have dist: "distinct (s # A @ B)" and n: "n \<notin> set (s # A @ B)" using d(1) by (auto simp: dll_def)
  note rd = ring_distinct [OF dist]
  have "(butlast (s # A) @ [?p]) @ (n # B @ [s]) = s # (A @ n # B) @ [s]" by simp
  then have "successively (linked h) ((butlast (s # A) @ [?p]) @ (n # B @ [s]))"
    using d(1) unfolding dll_def by metis
  then have ring: "successively (linked h) (butlast (s # A) @ [?p])" "successively (linked h) (n # B @ [s])"
    by (simp_all only: successively_append_iff)
  have left: "successively (linked h') (butlast (s # A) @ [?p])"
  proof (rule successively_other [where P = "{n, ?p}" and Q = "{n, ?q}", OF ring(1)])
    show "{n, ?p} \<inter> set (butlast (butlast (s # A) @ [?p])) = {}"
      using rd(1) n by (auto dest: in_set_butlastD)
    have "tl (butlast (s # A) @ [?p]) = A" by (metis append_butlast_last_id list.distinct(1) list.sel(3))
    then show "{n, ?q} \<inter> set (tl (butlast (s # A) @ [?p])) = {}" using rd(4) n by auto
  qed (auto simp: h')
  have right: "successively (linked h') (?q # tl (B @ [s]))"
  proof (rule successively_other [where P = "{n, ?p}" and Q = "{n, ?q}"])
    have "?q # tl (B @ [s]) = B @ [s]" by simp
    then show "successively (linked h) (?q # tl (B @ [s]))" "{n, ?p} \<inter> set (butlast (?q # tl (B @ [s]))) = {}"
      using ring(2) rd(2) n by (auto simp: successively_Cons)
    have "set (tl (B @ [s])) \<subseteq> set (B @ [s])" by (cases B) auto
    then show "{n, ?q} \<inter> set (tl (?q # tl (B @ [s]))) = {}" using rd(3) n by auto
  qed (auto simp: h')
  have new: "linked h' ?p ?q" by (simp only: linked_def h')
  have "successively (linked h') ((butlast (s # A) @ [?p]) @ ?q # tl (B @ [s]))"
    using left right new by (simp only: successively_append_iff last_snoc list.sel simp_thms)
  also have "(butlast (s # A) @ [?p]) @ ?q # tl (B @ [s]) = s # (A @ B) @ [s]" by simp
  finally have "successively (linked h') (s # (A @ B) @ [s])" .
  moreover have "map (get_data h') (A @ B) = map (\<lambda>d. Some (Some d)) (da @ db)"
  proof -
    have "map (get_data h) A = map (\<lambda>d. Some (Some d)) da" "map (get_data h) B = map (\<lambda>d. Some (Some d)) db"
      using d by (auto simp: dll_def)
    moreover have "get_data h' a = get_data h a" if "a \<in> set A \<union> set B" for a
      by (rule h'(5)) (use that n in auto)
    then have "map (get_data h') A = map (get_data h) A" "map (get_data h') B = map (get_data h) B"
      by (simp_all cong: map_cong)
    ultimately show ?thesis by simp
  qed
  ultimately show ?thesis using dist by (auto simp: dll_def)
qed

lemma dll_cong:
  assumes "dll h s ns ds" "\<And>a. a \<in> set (s # ns) \<Longrightarrow> links h' a = links h a"
  shows "dll h' s ns ds"
proof -
  have same: "get_next h' a = get_next h a" "get_prev h' a = get_prev h a" "get_data h' a = get_data h a"
    if "a \<in> set (s # ns)" for a
    using assms(2) [OF that] by (simp_all add: get_next_def get_prev_def get_data_def)
  have "successively (linked h') (s # ns @ [s])"
  proof (rule successively_mono [of "linked h"])
    show "successively (linked h) (s # ns @ [s])" using assms(1) by (simp add: dll_def)
  next
    fix a b assume "a \<in> set (s # ns @ [s])" "b \<in> set (s # ns @ [s])" "linked h a b"
    then show "linked h' a b" using same [of a] same [of b] by (simp add: linked_def)
  qed
  moreover have "map (get_data h') ns = map (get_data h) ns"
    by (rule map_cong [OF refl]) (simp add: same)
  ultimately show ?thesis using assms(1) unfolding dll_def by metis
qed


section \<open>The operations on lists\<close>

lemma new_link_effect:
  assumes "0 < avail h"
  obtains h' where "new_link d h = Some (brk h, h')" "brk h' = Suc (brk h)" "avail h' = avail h - 1"
    "dealloc_log h' = dealloc_log h" "\<forall>a. a \<noteq> brk h \<longrightarrow> links h' a = links h a" "get_data h' (brk h) = Some d"
    "links h' (brk h) \<noteq> None"
  using assms that by (auto simp: new_link_def get_data_def)

definition fits :: "'d heap \<Rightarrow> nat list \<Rightarrow> bool" where
  "fits h ns \<longleftrightarrow> (\<forall>a\<in>set ns. a < brk h) \<and> (\<forall>a\<ge>brk h. links h a = None)"

text \<open>A new link after a position.\<close>

lemma insert_at:
  assumes d: "dll h s (A @ B) (da @ db)" "length A = length da" and f: "fits h (s # A @ B)" and m: "0 < avail h"
  obtains h1 h2 where "new_link (Some x) h = Some (brk h, h1)" "link_after (last (s # A)) (brk h) h1 = Some h2"
    "get_prev h1 (hd (B @ [s])) = Some (last (s # A))"
    "dll h2 s (A @ brk h # B) (da @ x # db)" "fits h2 (s # A @ brk h # B)" "brk h2 = Suc (brk h)"
    "avail h2 = avail h - 1" "dealloc_log h2 = dealloc_log h"
    "\<forall>a. a \<notin> set (s # A @ B) \<longrightarrow> a \<noteq> brk h \<longrightarrow> links h2 a = links h a"
proof -
  let ?p = "last (s # A)" and ?q = "hd (B @ [s])"
  obtain h1 where h1: "new_link (Some x) h = Some (brk h, h1)" "brk h1 = Suc (brk h)" "avail h1 = avail h - 1"
    "dealloc_log h1 = dealloc_log h" "\<forall>a. a \<noteq> brk h \<longrightarrow> links h1 a = links h a"
    "get_data h1 (brk h) = Some (Some x)" "links h1 (brk h) \<noteq> None"
    using m by (rule new_link_effect [where d = "Some x"])
  have n: "brk h \<notin> set (s # A @ B)" using f by (auto simp: fits_def)
  have pq: "?p \<in> set (s # A @ B)" "?q \<in> set (s # A @ B)" using last_in [of s A] hd_in [of B s] by auto
  then have npq: "brk h \<noteq> ?p" "brk h \<noteq> ?q" using n by auto
  have d1: "dll h1 s (A @ B) (da @ db)"
    by (rule dll_cong [OF d(1)]) (metis h1(5) n)
  note at = dll_at [OF d1]
  have alloc: "links h1 ?q \<noteq> None" by (rule dll_alloc [OF d1 pq(2)])
  obtain h2 where h2: "link_after ?p (brk h) h1 = Some h2"
    "get_next h2 = (get_next h1)(brk h := Some ?q, ?p := Some (brk h))"
    "get_prev h2 = (get_prev h1)(?q := Some (brk h), brk h := Some ?p)"
    "get_data h2 = get_data h1" "brk h2 = brk h1" "avail h2 = avail h1" "dealloc_log h2 = dealloc_log h1"
    "\<forall>x. x \<noteq> ?p \<longrightarrow> x \<noteq> ?q \<longrightarrow> x \<noteq> brk h \<longrightarrow> links h2 x = links h1 x"
    "\<forall>x. links h2 x = None \<longleftrightarrow> links h1 x = None"
    using at(1) alloc h1(7) npq by (rule link_after_effect)
  have "dll h2 s (A @ brk h # B) (da @ x # db)"
    by (rule dll_insert [OF d1 d(2) n h2(2,3)]) (simp_all add: h2(4) h1(6))
  moreover have "fits h2 (s # A @ brk h # B)"
    unfolding fits_def
  proof (intro conjI ballI allI impI)
    fix a assume "a \<in> set (s # A @ brk h # B)"
    then have "a = brk h \<or> a < brk h" using f by (auto simp: fits_def)
    then show "a < brk h2" using h1(2) h2(5) by linarith
  next
    fix a assume "brk h2 \<le> a"
    then have "a \<noteq> brk h" "brk h \<le> a" using h1(2) h2(5) by linarith+
    then show "links h2 a = None" using f h1(5) h2(9) by (simp add: fits_def)
  qed
  moreover have "links h2 a = links h a" if "a \<notin> set (s # A @ B)" "a \<noteq> brk h" for a
    using h2(8) h1(5) pq that by metis
  ultimately show thesis using that [OF h1(1) h2(1) at(2)] h1(2-4) h2(5-7) by auto
qed

lemma dll_length: "dll h s ns ds \<Longrightarrow> length ns = length ds"
  unfolding dll_def by (metis length_map)

lemma dll_node:
  assumes "dll h s (A @ b # B) ds"
  shows "b \<noteq> s" "get_next h b = Some (hd (B @ [s]))" "get_prev h b = Some (last (s # A))"
    "get_data h b = Some (Some (ds ! length A))"
proof -
  show "b \<noteq> s" using assms by (auto simp: dll_def)
  show "get_next h b = Some (hd (B @ [s]))" using dll_at(1) [of h s "A @ [b]" B ds] assms by simp
  show "get_prev h b = Some (last (s # A))" using dll_at(2) [of h s A "b # B" ds] assms by simp
  have "length A < length ds" using dll_length [OF assms] by simp
  moreover have "map (get_data h) (A @ b # B) = map (\<lambda>d. Some (Some d)) ds" using assms by (simp add: dll_def)
  then have "map (get_data h) (A @ b # B) ! length A = map (\<lambda>d. Some (Some d)) ds ! length A" by simp
  ultimately show "get_data h b = Some (Some (ds ! length A))" by (simp add: nth_append)
qed

lemma lower_loop_dll:
  assumes "sentinel l = s"
  shows "dll h s (A @ B) (da @ db) \<Longrightarrow> length A = length da \<Longrightarrow>
    lower_loop l d h (hd (B @ [s])) =
      Some (hd (drop (length (takeWhile (\<lambda>x. linkCompare l x d < 0) db)) B @ [s]))"
proof (induction B arbitrary: A da db)
  case Nil
  then show ?case by (subst lower_loop.simps) (simp add: assms)
next
  case (Cons b B)
  obtain x db' where db: "db = x # db'" using dll_length [OF Cons.prems(1)] Cons.prems(2) by (cases db) auto
  note node = dll_node [OF Cons.prems(1)]
  have x: "get_data h b = Some (Some x)" using node(4) Cons.prems(2) by (simp add: db nth_append)
  have IH: "lower_loop l d h (hd (B @ [s])) =
      Some (hd (drop (length (takeWhile (\<lambda>x. linkCompare l x d < 0) db')) B @ [s]))"
    using Cons.IH [of "A @ [b]" "da @ [x]" db'] Cons.prems by (simp add: db)
  show ?case
    using node(1,2) x IH by (subst lower_loop.simps) (simp add: assms db)
qed

lemma xmlListLowerSearch_dll:
  assumes "dll h (sentinel l) ns ds"
  shows "xmlListLowerSearch l d h =
    Some (hd (drop (length (takeWhile (\<lambda>x. linkCompare l x d < 0) ds)) ns @ [sentinel l]))"
  using lower_loop_dll [OF refl, of h l "[]" ns "[]" ds d] dll_at(1) [of h "sentinel l" "[]" ns ds] assms
  by (simp add: xmlListLowerSearch_def)

lemma higher_loop_dll:
  assumes "sentinel l = s"
  shows "dll h s (A @ B) (da @ db) \<Longrightarrow> length A = length da \<Longrightarrow>
    higher_loop l d h (last (s # A)) =
      Some (last (s # take (length (dropWhile (\<lambda>x. linkCompare l x d > 0) (rev da))) A))"
proof (induction A arbitrary: B da db rule: rev_induct)
  case Nil
  then show ?case by (subst higher_loop.simps) (simp add: assms)
next
  case (snoc b A)
  obtain x da' where da: "da = da' @ [x]" "length A = length da'" using snoc.prems(2) by (cases da rule: rev_cases) auto
  have d1: "dll h s (A @ b # B) (da' @ x # db)" using snoc.prems by (simp add: da)
  note node = dll_node [OF d1]
  have x: "get_data h b = Some (Some x)" using node(4) da(2) by (simp add: nth_append)
  have IH: "higher_loop l d h (last (s # A)) =
      Some (last (s # take (length (dropWhile (\<lambda>x. linkCompare l x d > 0) (rev da'))) A))"
    using snoc.IH [of "b # B" da' "x # db"] d1 da by simp
  have le: "length (dropWhile P (rev da')) \<le> length A" for P
    using da(2) length_dropWhile_le [of P "rev da'"] by simp
  show ?case
    using node(1,3) x IH le da(2) by (subst higher_loop.simps) (auto simp: assms da)
qed

lemma xmlListHigherSearch_dll:
  assumes "dll h (sentinel l) ns ds"
  shows "xmlListHigherSearch l d h =
    Some (last (sentinel l # take (length (dropWhile (\<lambda>x. linkCompare l x d > 0) (rev ds))) ns))"
  using higher_loop_dll [OF refl, of h l ns "[]" ds "[]" d] dll_at(2) [of h "sentinel l" ns "[]" ds] assms dll_length [OF assms]
  by (simp add: xmlListHigherSearch_def)

definition list_insert :: "('d \<Rightarrow> 'd \<Rightarrow> int) \<Rightarrow> 'd \<Rightarrow> 'd list \<Rightarrow> 'd list" where
  "list_insert cmp d ds = takeWhile (\<lambda>x. cmp x d < 0) ds @ d # dropWhile (\<lambda>x. cmp x d < 0) ds"

definition list_append :: "('d \<Rightarrow> 'd \<Rightarrow> int) \<Rightarrow> 'd \<Rightarrow> 'd list \<Rightarrow> 'd list" where
  "list_append cmp d ds =
     rev (dropWhile (\<lambda>x. cmp x d > 0) (rev ds)) @ d # rev (takeWhile (\<lambda>x. cmp x d > 0) (rev ds))"

text \<open>The state of a list in a heap, with what an operation may change.\<close>

definition holds :: "'d heap \<Rightarrow> 'd xmlList \<Rightarrow> nat list \<Rightarrow> 'd list \<Rightarrow> bool" where
  "holds h l ns ds \<longleftrightarrow> dll h (sentinel l) ns ds \<and> fits h (sentinel l # ns)"

lemma xmlListInsert_holds:
  assumes "holds h l ns ds" "0 < avail h"
  obtains h' ns' where "xmlListInsert (Some l) d h = Some (0, h')" "holds h' l ns' (list_insert (linkCompare l) d ds)"
    "set ns' = insert (brk h) (set ns)" "brk h' = Suc (brk h)" "avail h' = avail h - 1" "dealloc_log h' = dealloc_log h"
    "\<forall>a. a \<notin> set (sentinel l # ns) \<longrightarrow> a \<noteq> brk h \<longrightarrow> links h' a = links h a"
proof -
  let ?P = "\<lambda>x. linkCompare l x d < 0"
  define k where "k = length (takeWhile ?P ds)"
  have dl: "dll h (sentinel l) ns ds" "fits h (sentinel l # ns)" using assms by (simp_all add: holds_def)
  have len: "length ns = length ds" by (rule dll_length [OF dl(1)])
  have k: "k \<le> length ds" by (simp add: k_def length_takeWhile_le)
  have tw: "takeWhile ?P ds = take k ds" "dropWhile ?P ds = drop k ds"
    unfolding k_def by (rule takeWhile_eq_take, rule dropWhile_eq_drop)
  have d2: "dll h (sentinel l) (take k ns @ drop k ns) (take k ds @ drop k ds)"
    "length (take k ns) = length (take k ds)" "fits h (sentinel l # take k ns @ drop k ns)"
    using dl len by simp_all
  obtain h1 h2 where h: "new_link (Some d) h = Some (brk h, h1)"
    "link_after (last (sentinel l # take k ns)) (brk h) h1 = Some h2"
    "get_prev h1 (hd (drop k ns @ [sentinel l])) = Some (last (sentinel l # take k ns))"
    "dll h2 (sentinel l) (take k ns @ brk h # drop k ns) (take k ds @ d # drop k ds)"
    "fits h2 (sentinel l # take k ns @ brk h # drop k ns)" "brk h2 = Suc (brk h)"
    "avail h2 = avail h - 1" "dealloc_log h2 = dealloc_log h"
    "\<forall>a. a \<notin> set (sentinel l # take k ns @ drop k ns) \<longrightarrow> a \<noteq> brk h \<longrightarrow> links h2 a = links h a"
    using d2 assms(2) by (rule insert_at)
  have s: "set (take k ns) \<union> set (drop k ns) = set ns" by (metis append_take_drop_id set_append)
  show thesis
  proof (rule that)
    show "xmlListInsert (Some l) d h = Some (0, h2)"
      using xmlListLowerSearch_dll [OF dl(1), of d] h(1-3) by (simp add: xmlListInsert_def k_def [symmetric])
    show "holds h2 l (take k ns @ brk h # drop k ns) (list_insert (linkCompare l) d ds)"
      using h(4,5) by (simp add: holds_def list_insert_def tw)
    show "\<forall>a. a \<notin> set (sentinel l # ns) \<longrightarrow> a \<noteq> brk h \<longrightarrow> links h2 a = links h a" using h(9) s by simp
  qed (use h s in auto)
qed

lemma xmlListAppend_holds:
  assumes "holds h l ns ds" "0 < avail h"
  obtains h' ns' where "xmlListAppend (Some l) d h = Some (0, h')" "holds h' l ns' (list_append (linkCompare l) d ds)"
    "set ns' = insert (brk h) (set ns)" "brk h' = Suc (brk h)" "avail h' = avail h - 1" "dealloc_log h' = dealloc_log h"
    "\<forall>a. a \<notin> set (sentinel l # ns) \<longrightarrow> a \<noteq> brk h \<longrightarrow> links h' a = links h a"
proof -
  let ?P = "\<lambda>x. linkCompare l x d > 0"
  define k where "k = length (dropWhile ?P (rev ds))"
  have dl: "dll h (sentinel l) ns ds" "fits h (sentinel l # ns)" using assms by (simp_all add: holds_def)
  have len: "length ns = length ds" by (rule dll_length [OF dl(1)])
  have "rev ds = takeWhile ?P (rev ds) @ dropWhile ?P (rev ds)" by simp
  then have ds: "ds = rev (dropWhile ?P (rev ds)) @ rev (takeWhile ?P (rev ds))" by (metis rev_append rev_rev_ident)
  have tw: "rev (dropWhile ?P (rev ds)) = take k ds" "rev (takeWhile ?P (rev ds)) = drop k ds"
    using ds by (metis append_eq_conv_conj k_def length_rev)+
  have d2: "dll h (sentinel l) (take k ns @ drop k ns) (take k ds @ drop k ds)"
    "length (take k ns) = length (take k ds)" "fits h (sentinel l # take k ns @ drop k ns)"
    using dl len by simp_all
  obtain h1 h2 where h: "new_link (Some d) h = Some (brk h, h1)"
    "link_after (last (sentinel l # take k ns)) (brk h) h1 = Some h2"
    "get_prev h1 (hd (drop k ns @ [sentinel l])) = Some (last (sentinel l # take k ns))"
    "dll h2 (sentinel l) (take k ns @ brk h # drop k ns) (take k ds @ d # drop k ds)"
    "fits h2 (sentinel l # take k ns @ brk h # drop k ns)" "brk h2 = Suc (brk h)"
    "avail h2 = avail h - 1" "dealloc_log h2 = dealloc_log h"
    "\<forall>a. a \<notin> set (sentinel l # take k ns @ drop k ns) \<longrightarrow> a \<noteq> brk h \<longrightarrow> links h2 a = links h a"
    using d2 assms(2) by (rule insert_at)
  have s: "set (take k ns) \<union> set (drop k ns) = set ns" by (metis append_take_drop_id set_append)
  show thesis
  proof (rule that)
    show "xmlListAppend (Some l) d h = Some (0, h2)"
      using xmlListHigherSearch_dll [OF dl(1), of d] h(1,2) by (simp add: xmlListAppend_def k_def [symmetric])
    show "holds h2 l (take k ns @ brk h # drop k ns) (list_append (linkCompare l) d ds)"
      using h(4,5) by (simp add: holds_def list_append_def tw)
    show "\<forall>a. a \<notin> set (sentinel l # ns) \<longrightarrow> a \<noteq> brk h \<longrightarrow> links h2 a = links h a" using h(9) s by simp
  qed (use h s in auto)
qed

text \<open>Unlinking and freeing a link.\<close>

lemma free_link_effect:
  assumes "links h a \<noteq> None"
  obtains h' where "free_link a h = Some h'" "links h' = (links h)(a := None)" "brk h' = brk h" "avail h' = avail h"
    "dealloc_log h' = dealloc_log h"
  using assms that by (auto simp: free_link_def)

lemma links_get:
  "links h' a = links h a \<Longrightarrow> get_next h' a = get_next h a"
  "links h' a = links h a \<Longrightarrow> get_prev h' a = get_prev h a"
  "links h' a = links h a \<Longrightarrow> get_data h' a = get_data h a"
  by (simp_all add: get_next_def get_prev_def get_data_def)

lemma delete_at:
  assumes d: "dll h (sentinel l) (A @ n # B) (da @ x # db)" "length A = length da" and f: "fits h (sentinel l # A @ n # B)"
  obtains h' where "xmlLinkDeallocator l n h = Some h'" "dll h' (sentinel l) (A @ B) (da @ db)"
    "fits h' (sentinel l # A @ B)" "brk h' = brk h" "avail h' = avail h"
    "dealloc_log h' = dealloc_log h @ (if linkDeallocator l then [Some x] else [])"
    "\<forall>a. a \<notin> set (sentinel l # A @ n # B) \<longrightarrow> links h' a = links h a" "links h' n = None"
proof -
  let ?s = "sentinel l"
  let ?p = "last (?s # A)" and ?q = "hd (B @ [?s])"
  have n: "n \<notin> set (?s # A @ B)" using d(1) by (auto simp: dll_def)
  have pq: "?p \<in> set (?s # A @ B)" "?q \<in> set (?s # A @ B)" using last_in [of ?s A] hd_in [of B ?s] by auto
  then have npq: "n \<noteq> ?p" "n \<noteq> ?q" using n by auto
  note node = dll_node [OF d(1)]
  have pq': "?p \<in> set (?s # A @ n # B)" "?q \<in> set (?s # A @ n # B)" using pq by auto
  have alloc: "links h ?p \<noteq> None" "links h ?q \<noteq> None" "links h n \<noteq> None"
    using dll_alloc [OF d(1)] pq' by auto
  have x: "get_data h n = Some (Some x)" using node(4) d(2) by (simp add: nth_append)
  obtain h1 where h1: "set_next ?p ?q h = Some h1" "get_next h1 = (get_next h)(?p := Some ?q)"
    "get_prev h1 = get_prev h" "get_data h1 = get_data h" "brk h1 = brk h" "avail h1 = avail h"
    "dealloc_log h1 = dealloc_log h" "\<forall>x. links h1 x = None \<longleftrightarrow> links h x = None"
    "\<forall>x. x \<noteq> ?p \<longrightarrow> links h1 x = links h x" using alloc(1) by (rule set_next_effect)
  have "links h1 ?q \<noteq> None" using h1(8) alloc(2) by metis
  then obtain h2 where h2: "set_prev ?q ?p h1 = Some h2" "get_prev h2 = (get_prev h1)(?q := Some ?p)"
    "get_next h2 = get_next h1" "get_data h2 = get_data h1" "brk h2 = brk h1" "avail h2 = avail h1"
    "dealloc_log h2 = dealloc_log h1" "\<forall>x. links h2 x = None \<longleftrightarrow> links h1 x = None"
    "\<forall>x. x \<noteq> ?q \<longrightarrow> links h2 x = links h1 x" by (rule set_prev_effect)
  define h3 where "h3 = (if linkDeallocator l then h2\<lparr>dealloc_log := dealloc_log h2 @ [Some x]\<rparr> else h2)"
  have h3: "links h3 = links h2" "brk h3 = brk h2" "avail h3 = avail h2"
    "dealloc_log h3 = dealloc_log h2 @ (if linkDeallocator l then [Some x] else [])"
    by (simp_all add: h3_def)
  have "links h3 n \<noteq> None" using h3(1) h2(8) h1(8) alloc(3) by metis
  then obtain h4 where h4: "free_link n h3 = Some h4" "links h4 = (links h3)(n := None)" "brk h4 = brk h3"
    "avail h4 = avail h3" "dealloc_log h4 = dealloc_log h3" by (rule free_link_effect)
  have run: "xmlLinkDeallocator l n h = Some h4"
    using node(2,3) npq x h1(1-4) h2(1-4) h4(1)
    by (simp add: xmlLinkDeallocator_def h3_def)
  have same: "links h4 a = links h2 a" if "a \<noteq> n" for a using that h3 h4 by simp
  have "dll h4 ?s (A @ B) (da @ db)"
  proof (rule dll_delete [OF d])
    show "get_next h4 a = get_next h a" if "a \<noteq> n" "a \<noteq> ?p" for a
      using links_get(1) [OF same [OF that(1)]] h1(2) h2(3) that by simp
    show "get_next h4 ?p = Some ?q" using links_get(1) [OF same [of ?p]] npq h1(2) h2(3) by simp
    show "get_prev h4 a = get_prev h a" if "a \<noteq> n" "a \<noteq> ?q" for a
      using links_get(2) [OF same [OF that(1)]] h1(3) h2(2) that by simp
    show "get_prev h4 ?q = Some ?p" using links_get(2) [OF same [of ?q]] npq h2(2) by simp
    show "get_data h4 a = get_data h a" if "a \<noteq> n" for a
      using links_get(3) [OF same [OF that]] h1(4) h2(4) by simp
  qed
  moreover have "fits h4 (?s # A @ B)"
    unfolding fits_def
  proof (intro conjI ballI allI impI)
    fix a assume "a \<in> set (?s # A @ B)"
    then show "a < brk h4" using f h1(5) h2(5) h3(2) h4(3) by (auto simp: fits_def)
  next
    fix a assume "brk h4 \<le> a"
    then have "links h a = None" using f h1(5) h2(5) h3(2) h4(3) by (simp add: fits_def)
    then have "links h2 a = None" using h1(8) h2(8) by blast
    then show "links h4 a = None" using h3 h4 by simp
  qed
  moreover have "\<forall>a. a \<notin> set (?s # A @ n # B) \<longrightarrow> links h4 a = links h a"
  proof (intro allI impI)
    fix a assume "a \<notin> set (?s # A @ n # B)"
    then have "a \<noteq> n" "a \<noteq> ?p" "a \<noteq> ?q" using pq by auto
    then show "links h4 a = links h a" using same h2(9) h1(9) by metis
  qed
  ultimately show thesis using that [OF run] h1 h2 h3 h4 by auto
qed

definition released :: "'d xmlList \<Rightarrow> 'd list \<Rightarrow> 'd option list" where
  "released l ds = (if linkDeallocator l then map Some ds else [])"

lemma clear_loop_dll:
  "dll h (sentinel l) ns ds \<Longrightarrow> fits h (sentinel l # ns) \<Longrightarrow>
   \<exists>h'. clear_loop l (hd (ns @ [sentinel l])) h = Some h' \<and> dll h' (sentinel l) [] [] \<and> fits h' [sentinel l] \<and>
     brk h' = brk h \<and> avail h' = avail h \<and> dealloc_log h' = dealloc_log h @ released l ds \<and>
     (\<forall>a. a \<notin> set (sentinel l # ns) \<longrightarrow> links h' a = links h a) \<and> (\<forall>a\<in>set ns. links h' a = None)"
proof (induction ns arbitrary: ds h)
  case Nil
  moreover have "ds = []" using dll_length [OF Nil(1)] by simp
  ultimately show ?case by (subst clear_loop.simps) (auto simp: released_def)
next
  case (Cons n ns)
  obtain x ds' where ds: "ds = x # ds'" using dll_length [OF Cons.prems(1)] by (cases ds) auto
  have d: "dll h (sentinel l) ([] @ n # ns) ([] @ x # ds')" "fits h (sentinel l # [] @ n # ns)"
    using Cons.prems by (simp_all add: ds)
  note node = dll_node [OF d(1)]
  obtain h1 where h1: "xmlLinkDeallocator l n h = Some h1" "dll h1 (sentinel l) ([] @ ns) ([] @ ds')"
    "fits h1 (sentinel l # [] @ ns)" "brk h1 = brk h" "avail h1 = avail h"
    "dealloc_log h1 = dealloc_log h @ (if linkDeallocator l then [Some x] else [])"
    "\<forall>a. a \<notin> set (sentinel l # [] @ n # ns) \<longrightarrow> links h1 a = links h a" "links h1 n = None"
    using delete_at [OF d(1) _ d(2)] by auto
  obtain h' where h': "clear_loop l (hd (ns @ [sentinel l])) h1 = Some h'" "dll h' (sentinel l) [] []"
    "fits h' [sentinel l]" "brk h' = brk h1" "avail h' = avail h1" "dealloc_log h' = dealloc_log h1 @ released l ds'"
    "\<forall>a. a \<notin> set (sentinel l # ns) \<longrightarrow> links h' a = links h1 a" "\<forall>a\<in>set ns. links h' a = None"
    using Cons.IH [of h1 ds'] h1(2,3) by auto
  have "clear_loop l (hd ((n # ns) @ [sentinel l])) h = Some h'"
    using node(1,2) h1(1) h'(1) by (subst clear_loop.simps) simp
  moreover have "links h' n = None" using h'(7) h1(8) Cons.prems(1) by (auto simp: dll_def)
  ultimately show ?case using h' h1(4-7) by (auto simp: ds released_def)
qed

lemma xmlListClear_holds:
  assumes "holds h l ns ds"
  obtains h' where "xmlListClear (Some l) h = Some h'" "holds h' l [] []" "brk h' = brk h" "avail h' = avail h"
    "dealloc_log h' = dealloc_log h @ released l ds" "\<forall>a. a \<notin> set (sentinel l # ns) \<longrightarrow> links h' a = links h a"
    "\<forall>a\<in>set ns. links h' a = None"
proof -
  have d: "dll h (sentinel l) ns ds" "fits h (sentinel l # ns)" using assms by (simp_all add: holds_def)
  have "get_next h (sentinel l) = Some (hd (ns @ [sentinel l]))" using dll_at(1) [of h "sentinel l" "[]" ns ds] d by simp
  then show thesis
    using clear_loop_dll [OF d] that by (auto simp: xmlListClear_def holds_def)
qed

lemma xmlListDelete_holds:
  assumes "holds h l ns ds"
  obtains h' where "xmlListDelete (Some l) h = Some h'" "brk h' = brk h" "avail h' = avail h"
    "dealloc_log h' = dealloc_log h @ released l ds" "\<forall>a\<in>set (sentinel l # ns). links h' a = None"
    "\<forall>a. a \<notin> set (sentinel l # ns) \<longrightarrow> links h' a = links h a"
proof -
  obtain h1 where h1: "xmlListClear (Some l) h = Some h1" "holds h1 l [] []" "brk h1 = brk h" "avail h1 = avail h"
    "dealloc_log h1 = dealloc_log h @ released l ds" "\<forall>a. a \<notin> set (sentinel l # ns) \<longrightarrow> links h1 a = links h a"
    "\<forall>a\<in>set ns. links h1 a = None"
    using assms by (rule xmlListClear_holds)
  have "links h1 (sentinel l) \<noteq> None"
    using h1(2) dll_alloc [of h1 "sentinel l" "[]" "[]"] by (simp add: holds_def)
  then obtain h2 where h2: "free_link (sentinel l) h1 = Some h2" "links h2 = (links h1)(sentinel l := None)"
    "brk h2 = brk h1" "avail h2 = avail h1" "dealloc_log h2 = dealloc_log h1" by (rule free_link_effect)
  show thesis
    by (rule that [of h2]) (use h1 h2 in \<open>auto simp: xmlListDelete_def\<close>)
qed

lemma size_loop_dll:
  "dll h (sentinel l) (A @ B) ds \<Longrightarrow> size_loop l h (hd (B @ [sentinel l])) k = Some (k + int (length B))"
proof (induction B arbitrary: A k)
  case Nil
  then show ?case by (subst size_loop.simps) simp
next
  case (Cons b B)
  then show ?case
    using dll_node [OF Cons.prems] Cons.IH [of "A @ [b]" "k + 1"] by (subst size_loop.simps) simp
qed

lemma walk_loop_dll:
  "dll h (sentinel l) (A @ B) (da @ db) \<Longrightarrow> length A = length da \<Longrightarrow> \<forall>x\<in>set db. w (Some x) \<noteq> 0 \<Longrightarrow>
   walk_loop get_next l w h (hd (B @ [sentinel l])) = Some (map Some db)"
proof (induction B arbitrary: A da db)
  case Nil
  moreover have "db = []" using dll_length [OF Nil(1)] Nil(2) by simp
  ultimately show ?case by (subst walk_loop.simps) simp
next
  case (Cons b B)
  obtain x db' where db: "db = x # db'" using dll_length [OF Cons.prems(1)] Cons.prems(2) by (cases db) auto
  have "get_data h b = Some (Some x)" using dll_node(4) [OF Cons.prems(1)] Cons.prems(2) by (simp add: db nth_append)
  then show ?case
    using dll_node(1,2) [OF Cons.prems(1)] Cons.IH [of "A @ [b]" "da @ [x]" db'] Cons.prems
    by (subst walk_loop.simps) (simp add: db)
qed

text \<open>Searching and removing.\<close>

definition list_find :: "('d \<Rightarrow> 'd \<Rightarrow> int) \<Rightarrow> 'd \<Rightarrow> 'd list \<Rightarrow> nat option" where
  "list_find cmp d ds =
     (let k = length (takeWhile (\<lambda>x. cmp x d < 0) ds)
      in if k < length ds \<and> cmp (ds ! k) d = 0 then Some k else None)"

lemma xmlListLinkSearch_dll:
  assumes "dll h (sentinel l) ns ds"
  shows "xmlListLinkSearch l d h = Some (map_option ((!) ns) (list_find (linkCompare l) d ds))"
proof -
  define k where "k = length (takeWhile (\<lambda>x. linkCompare l x d < 0) ds)"
  have len: "length ns = length ds" by (rule dll_length [OF assms])
  have s: "xmlListLowerSearch l d h = Some (hd (drop k ns @ [sentinel l]))"
    using xmlListLowerSearch_dll [OF assms, of d] by (simp only: k_def)
  show ?thesis
  proof (cases "k < length ds")
    case True
    then have "drop k ns = ns ! k # drop (Suc k) ns" using len by (simp add: Cons_nth_drop_Suc)
    moreover have "ns = take k ns @ ns ! k # drop (Suc k) ns" using True len by (simp add: id_take_nth_drop)
    ultimately have "hd (drop k ns @ [sentinel l]) = ns ! k" "ns ! k \<noteq> sentinel l" "get_data h (ns ! k) = Some (Some (ds ! k))"
      using dll_node [of h "sentinel l" "take k ns" "ns ! k" "drop (Suc k) ns" ds] assms True len by auto
    then show ?thesis using True s by (simp add: xmlListLinkSearch_def list_find_def k_def [symmetric])
  next
    case False
    then show ?thesis using s len by (simp add: xmlListLinkSearch_def list_find_def k_def [symmetric])
  qed
qed

definition list_remove :: "('d \<Rightarrow> 'd \<Rightarrow> int) \<Rightarrow> 'd \<Rightarrow> 'd list \<Rightarrow> 'd list" where
  "list_remove cmp d ds =
     (case list_find cmp d ds of None \<Rightarrow> ds | Some k \<Rightarrow> take k ds @ drop (Suc k) ds)"

lemma list_find_less: "list_find cmp d ds = Some k \<Longrightarrow> k < length ds"
  by (auto simp: list_find_def Let_def split: if_splits)

lemma xmlListRemoveFirst_holds:
  assumes "holds h l ns ds"
  obtains h' ns' where "xmlListRemoveFirst (Some l) d h = Some (if list_find (linkCompare l) d ds = None then 0 else 1, h')"
    "holds h' l ns' (list_remove (linkCompare l) d ds)" "set ns' \<subseteq> set ns" "brk h' = brk h" "avail h' = avail h"
    "\<forall>a. a \<notin> set (sentinel l # ns) \<longrightarrow> links h' a = links h a"
proof (cases "list_find (linkCompare l) d ds")
  case None
  then show thesis
    using that [of h ns] assms xmlListLinkSearch_dll [of h l ns ds d]
    by (simp add: xmlListRemoveFirst_def list_remove_def holds_def)
next
  case (Some k)
  have d: "dll h (sentinel l) ns ds" "fits h (sentinel l # ns)" using assms by (simp_all add: holds_def)
  have k: "k < length ds" "length ns = length ds" using list_find_less [OF Some] dll_length [OF d(1)] by auto
  have split: "ns = take k ns @ ns ! k # drop (Suc k) ns" "ds = take k ds @ ds ! k # drop (Suc k) ds"
    using k by (simp_all add: id_take_nth_drop)
  have d2: "dll h (sentinel l) (take k ns @ ns ! k # drop (Suc k) ns) (take k ds @ ds ! k # drop (Suc k) ds)"
    "length (take k ns) = length (take k ds)" "fits h (sentinel l # take k ns @ ns ! k # drop (Suc k) ns)"
    using d split k by simp_all
  obtain h' where h': "xmlLinkDeallocator l (ns ! k) h = Some h'"
    "dll h' (sentinel l) (take k ns @ drop (Suc k) ns) (take k ds @ drop (Suc k) ds)"
    "fits h' (sentinel l # take k ns @ drop (Suc k) ns)" "brk h' = brk h" "avail h' = avail h"
    "dealloc_log h' = dealloc_log h @ (if linkDeallocator l then [Some (ds ! k)] else [])"
    "\<forall>a. a \<notin> set (sentinel l # take k ns @ ns ! k # drop (Suc k) ns) \<longrightarrow> links h' a = links h a" "links h' (ns ! k) = None"
    using d2 by (rule delete_at)
  show thesis
  proof (rule that)
    show "xmlListRemoveFirst (Some l) d h = Some (if list_find (linkCompare l) d ds = None then 0 else 1, h')"
      using Some h'(1) xmlListLinkSearch_dll [OF d(1), of d] by (simp add: xmlListRemoveFirst_def)
    show "holds h' l (take k ns @ drop (Suc k) ns) (list_remove (linkCompare l) d ds)"
      using h'(2,3) Some by (simp add: holds_def list_remove_def)
    show "\<forall>a. a \<notin> set (sentinel l # ns) \<longrightarrow> links h' a = links h a" using h'(7) split(1) by metis
    show "set (take k ns @ drop (Suc k) ns) \<subseteq> set ns" using set_take_subset set_drop_subset by fastforce
  qed (use h' in auto)
qed

text \<open>Two lists in one heap, with no link in common.\<close>

definition apart :: "'d xmlList \<Rightarrow> nat list \<Rightarrow> 'd xmlList \<Rightarrow> nat list \<Rightarrow> bool" where
  "apart l ns l' ns' \<longleftrightarrow> set (sentinel l # ns) \<inter> set (sentinel l' # ns') = {}"

lemma holds_other:
  assumes "holds h l ns ds" "\<forall>a\<in>set (sentinel l # ns). links h' a = links h a" "brk h \<le> brk h'"
    and "\<forall>a\<ge>brk h'. links h' a = None"
  shows "holds h' l ns ds"
proof -
  have "dll h' (sentinel l) ns ds" by (rule dll_cong [of h]) (use assms in \<open>auto simp: holds_def\<close>)
  then show ?thesis using assms unfolding holds_def fits_def by (metis order_less_le_trans)
qed

lemma holds_fresh: "holds h l ns ds \<Longrightarrow> \<forall>a\<ge>brk h. links h a = None"
  by (simp add: holds_def fits_def)

lemma holds_bound: "holds h l ns ds \<Longrightarrow> \<forall>a\<in>set (sentinel l # ns). a < brk h"
  by (simp add: holds_def fits_def)

lemma copy_loop_holds:
  "holds h cur nc dc \<Longrightarrow> holds h old (A @ B) (da @ db) \<Longrightarrow> length A = length da \<Longrightarrow> apart cur nc old (A @ B) \<Longrightarrow>
   length db \<le> avail h \<Longrightarrow>
   \<exists>h' nc'. copy_loop cur old (hd (B @ [sentinel old])) h = Some (0, h') \<and>
     holds h' cur nc' (fold (list_insert (linkCompare cur)) db dc) \<and> holds h' old (A @ B) (da @ db) \<and>
     set nc' \<subseteq> set nc \<union> {brk h..<brk h'} \<and> brk h \<le> brk h' \<and> avail h' = avail h - length db \<and>
     dealloc_log h' = dealloc_log h \<and>
     (\<forall>a<brk h. a \<notin> set (sentinel cur # nc) \<longrightarrow> links h' a = links h a)"
proof (induction B arbitrary: A da db dc nc h)
  case Nil
  moreover have "db = []" using dll_length [of h "sentinel old" "A @ []" "da @ db"] Nil by (simp add: holds_def)
  ultimately show ?case by (subst copy_loop.simps) auto
next
  case (Cons b B)
  obtain x db' where db: "db = x # db'"
    using dll_length [of h "sentinel old" "A @ b # B" "da @ db"] Cons.prems(2,3) by (cases db) (auto simp: holds_def)
  have dold: "dll h (sentinel old) (A @ b # B) (da @ db)" using Cons.prems(2) by (simp add: holds_def)
  note node = dll_node [OF dold]
  have x: "get_data h b = Some (Some x)" using node(4) Cons.prems(3) by (simp add: db nth_append)
  have "0 < avail h" using Cons.prems(5) db by simp
  then obtain h1 nc1 where h1: "xmlListInsert (Some cur) x h = Some (0, h1)"
    "holds h1 cur nc1 (list_insert (linkCompare cur) x dc)" "set nc1 = insert (brk h) (set nc)" "brk h1 = Suc (brk h)"
    "avail h1 = avail h - 1" "dealloc_log h1 = dealloc_log h"
    "\<forall>a. a \<notin> set (sentinel cur # nc) \<longrightarrow> a \<noteq> brk h \<longrightarrow> links h1 a = links h a"
    using xmlListInsert_holds [OF Cons.prems(1)] by metis
  have same: "\<forall>a\<in>set (sentinel old # A @ b # B). links h1 a = links h a"
    using h1(7) Cons.prems(4) holds_bound [OF Cons.prems(2)] unfolding apart_def by (metis disjoint_iff less_irrefl)
  have old1: "holds h1 old (A @ b # B) (da @ db)"
    by (rule holds_other [OF Cons.prems(2) same]) (use h1(4) holds_fresh [OF h1(2)] in auto)
  have ap1: "apart cur nc1 old (A @ b # B)"
    using Cons.prems(4) h1(3) holds_bound [OF Cons.prems(2)] by (auto simp: apart_def)
  have nx: "get_next h1 b = Some (hd (B @ [sentinel old]))"
    by (rule dll_node(2) [of _ _ A _ _ "da @ db"]) (use old1 in \<open>simp add: holds_def\<close>)
  have mem: "length db' \<le> avail h1" using Cons.prems(5) db h1(5) by simp
  have "length (A @ [b]) = length (da @ [x])" using Cons.prems(3) by simp
  then obtain h' nc' where h': "copy_loop cur old (hd (B @ [sentinel old])) h1 = Some (0, h')"
    "holds h' cur nc' (fold (list_insert (linkCompare cur)) db' (list_insert (linkCompare cur) x dc))"
    "holds h' old (A @ b # B) (da @ db)" "set nc' \<subseteq> set nc1 \<union> {brk h1..<brk h'}" "brk h1 \<le> brk h'"
    "avail h' = avail h1 - length db'" "dealloc_log h' = dealloc_log h1"
    "\<forall>a<brk h1. a \<notin> set (sentinel cur # nc1) \<longrightarrow> links h' a = links h1 a"
    using Cons.IH [of h1 nc1 "list_insert (linkCompare cur) x dc" "A @ [b]" "da @ [x]" db'] h1(2) old1 ap1 mem
    by (auto simp: db)
  have "copy_loop cur old (hd ((b # B) @ [sentinel old])) h = Some (0, h')"
    using node(1) x h1(1) nx h'(1) by (subst copy_loop.simps) simp
  moreover have "\<forall>a<brk h. a \<notin> set (sentinel cur # nc) \<longrightarrow> links h' a = links h a"
    using h'(8) h1(3,4,7) by simp
  moreover have "set nc' \<subseteq> set nc \<union> {brk h..<brk h'}" using h'(4,5) h1(3,4) by auto
  ultimately show ?case using h' h1 db by (intro exI [of _ h'] exI [of _ nc']) auto
qed

lemma xmlListCopy_holds:
  assumes "holds h cur nc dc" "holds h old no ds" "apart cur nc old no" "length ds \<le> avail h"
  obtains h' nc' where "xmlListCopy (Some cur) (Some old) h = Some (0, h')"
    "holds h' cur nc' (fold (list_insert (linkCompare cur)) ds dc)" "holds h' old no ds" "apart cur nc' old no"
    "set nc' \<subseteq> set nc \<union> {brk h..<brk h'}" "brk h \<le> brk h'" "avail h' = avail h - length ds"
    "dealloc_log h' = dealloc_log h" "\<forall>a<brk h. a \<notin> set (sentinel cur # nc) \<longrightarrow> links h' a = links h a"
proof -
  obtain h' nc' where h': "copy_loop cur old (hd (no @ [sentinel old])) h = Some (0, h')"
    "holds h' cur nc' (fold (list_insert (linkCompare cur)) ds dc)" "holds h' old no ds"
    "set nc' \<subseteq> set nc \<union> {brk h..<brk h'}" "brk h \<le> brk h'" "avail h' = avail h - length ds"
    "dealloc_log h' = dealloc_log h" "\<forall>a<brk h. a \<notin> set (sentinel cur # nc) \<longrightarrow> links h' a = links h a"
    using copy_loop_holds [of h cur nc dc old "[]" no "[]" ds] assms by auto
  have "get_next h (sentinel old) = Some (hd (no @ [sentinel old]))"
    using dll_at(1) [of h "sentinel old" "[]" no ds] assms(2) by (simp add: holds_def)
  then have "xmlListCopy (Some cur) (Some old) h = Some (0, h')" using h'(1) by (simp add: xmlListCopy_def)
  moreover have "apart cur nc' old no"
    using assms(3) h'(4) holds_bound [OF assms(2)] by (fastforce simp: apart_def)
  ultimately show thesis using that h' by blast
qed

lemma xmlListCreate_holds:
  assumes "2 \<le> avail h" "\<forall>a\<ge>brk h. links h a = None"
  obtains l h' where "xmlListCreate dl cmp h = (Some l, h')" "holds h' l [] []" "sentinel l = brk h" "linkDeallocator l = dl"
    "linkCompare l = cmp" "brk h' = Suc (brk h)" "avail h' = avail h - 2" "dealloc_log h' = dealloc_log h"
    "\<forall>a. a \<noteq> brk h \<longrightarrow> links h' a = links h a"
proof -
  define h' where "h' = h\<lparr>links := (links h)(brk h \<mapsto> \<lparr>nxt = brk h, prv = brk h, dat = None\<rparr>), brk := Suc (brk h), avail := avail h - 2\<rparr>"
  let ?l = "\<lparr>sentinel = brk h, linkDeallocator = dl, linkCompare = cmp\<rparr>"
  have "xmlListCreate dl cmp h = (Some ?l, h')"
    using assms(1) by (simp add: xmlListCreate_def new_link_def h'_def)
  moreover have "holds h' ?l [] []"
    using assms(2) by (simp add: holds_def dll_def linked_def fits_def h'_def get_next_def get_prev_def)
  ultimately show thesis using that by (simp add: h'_def)
qed

lemma xmlListDup_holds:
  assumes "holds h l ns ds" "2 + length ds \<le> avail h"
  obtains cur nc h' where "xmlListDup (Some l) h = Some (Some cur, h')"
    "holds h' cur nc (fold (list_insert (linkCompare l)) ds [])" "holds h' l ns ds" "apart cur nc l ns"
    "linkDeallocator cur = False" "linkCompare cur = linkCompare l" "brk h \<le> brk h'" "avail h' = avail h - 2 - length ds"
    "dealloc_log h' = dealloc_log h" "\<forall>a\<in>set (sentinel cur # nc). brk h \<le> a" "\<forall>a<brk h. links h' a = links h a"
proof -
  obtain cur h1 where h1: "xmlListCreate False (linkCompare l) h = (Some cur, h1)" "holds h1 cur [] []" "sentinel cur = brk h"
    "linkDeallocator cur = False" "linkCompare cur = linkCompare l" "brk h1 = Suc (brk h)" "avail h1 = avail h - 2"
    "dealloc_log h1 = dealloc_log h" "\<forall>a. a \<noteq> brk h \<longrightarrow> links h1 a = links h a"
    using xmlListCreate_holds [of h False "linkCompare l"] assms(2) holds_fresh [OF assms(1)] by (metis add_leE)
  have b: "\<forall>a\<in>set (sentinel l # ns). a < brk h" by (rule holds_bound [OF assms(1)])
  have l1: "holds h1 l ns ds"
    by (rule holds_other [OF assms(1)]) (use h1(6,9) b holds_fresh [OF h1(2)] in auto)
  have ap: "apart cur [] l ns" using b h1(3) by (auto simp: apart_def)
  obtain h' nc where h': "xmlListCopy (Some cur) (Some l) h1 = Some (0, h')"
    "holds h' cur nc (fold (list_insert (linkCompare cur)) ds [])" "holds h' l ns ds" "apart cur nc l ns"
    "set nc \<subseteq> set [] \<union> {brk h1..<brk h'}" "brk h1 \<le> brk h'" "avail h' = avail h1 - length ds"
    "dealloc_log h' = dealloc_log h1" "\<forall>a<brk h1. a \<notin> set (sentinel cur # []) \<longrightarrow> links h' a = links h1 a"
    by (rule xmlListCopy_holds [OF h1(2) l1 ap]) (use assms(2) h1(7) in auto)
  show thesis
  proof (rule that)
    show "xmlListDup (Some l) h = Some (Some cur, h')" using h1(1) h'(1) by (simp add: xmlListDup_def)
    show "\<forall>a<brk h. links h' a = links h a" using h'(9) h1(3,6,9) by auto
    show "\<forall>a\<in>set (sentinel cur # nc). brk h \<le> a" using h'(5) h1(3,6) by auto
  qed (use h' h1 in auto)
qed

lemma apart_sym: "apart l ns l' ns' \<Longrightarrow> apart l' ns' l ns"
  by (auto simp: apart_def)

text \<open>An operation on one list leaves the other one alone.\<close>

lemma holds_apart:
  assumes "holds h l ns ds" "apart l' ns' l ns" "\<forall>a. a \<notin> set (sentinel l' # ns') \<longrightarrow> links h' a = links h a" "brk h' = brk h"
    "holds h l' ns' ds'"
  shows "holds h' l ns ds"
proof (rule holds_other [OF assms(1)])
  show "\<forall>a\<in>set (sentinel l # ns). links h' a = links h a" using assms(2,3) unfolding apart_def by (metis disjoint_iff)
  show "\<forall>a\<ge>brk h'. links h' a = None"
    using assms(3,4) holds_fresh [OF assms(1)] holds_bound [OF assms(5)] by (metis not_less)
qed (use assms in simp)

lemma xmlListMerge_holds:
  assumes "holds h l1 n1 d1" "holds h l2 n2 d2" "apart l1 n1 l2 n2" "length d2 \<le> avail h"
  obtains h' n1' where "xmlListMerge (Some l1) (Some l2) h = Some h'"
    "holds h' l1 n1' (fold (list_insert (linkCompare l1)) d2 d1)" "holds h' l2 [] []" "apart l1 n1' l2 []"
    "dealloc_log h' = dealloc_log h @ released l2 d2"
proof -
  obtain h1 n1' where h1: "xmlListCopy (Some l1) (Some l2) h = Some (0, h1)"
    "holds h1 l1 n1' (fold (list_insert (linkCompare l1)) d2 d1)" "holds h1 l2 n2 d2" "apart l1 n1' l2 n2"
    "set n1' \<subseteq> set n1 \<union> {brk h..<brk h1}" "brk h \<le> brk h1" "avail h1 = avail h - length d2"
    "dealloc_log h1 = dealloc_log h" "\<forall>a<brk h. a \<notin> set (sentinel l1 # n1) \<longrightarrow> links h1 a = links h a"
    using assms by (rule xmlListCopy_holds)
  obtain h2 where h2: "xmlListClear (Some l2) h1 = Some h2" "holds h2 l2 [] []" "brk h2 = brk h1" "avail h2 = avail h1"
    "dealloc_log h2 = dealloc_log h1 @ released l2 d2" "\<forall>a. a \<notin> set (sentinel l2 # n2) \<longrightarrow> links h2 a = links h1 a"
    "\<forall>a\<in>set n2. links h2 a = None" using h1(3) by (rule xmlListClear_holds)
  show thesis
  proof (rule that)
    show "xmlListMerge (Some l1) (Some l2) h = Some h2" using h1(1) h2(1) by (simp add: xmlListMerge_def)
    show "holds h2 l1 n1' (fold (list_insert (linkCompare l1)) d2 d1)"
      by (rule holds_apart [OF h1(2) apart_sym [OF h1(4)] h2(6,3) h1(3)])
    show "apart l1 n1' l2 []" using h1(4) by (auto simp: apart_def)
  qed (use h1 h2 in auto)
qed

lemma xmlListEmpty_holds: "holds h l ns ds \<Longrightarrow> xmlListEmpty (Some l) h = Some (if ds = [] then 1 else 0)"
  using dll_at(1) [of h "sentinel l" "[]" ns ds] dll_length [of h "sentinel l" ns ds]
  by (cases ns) (auto simp: xmlListEmpty_def holds_def dll_def)

lemma xmlListSort_holds:
  assumes "holds h l ns ds" "2 + 2 * length ds \<le> avail h"
  obtains h' ns' where "xmlListSort (Some l) h = Some h'"
    "holds h' l ns' (fold (list_insert (linkCompare l)) (fold (list_insert (linkCompare l)) ds []) [])"
    "dealloc_log h' = dealloc_log h @ released l ds"
proof (cases "ds = []")
  case True
  then show thesis using that [of h ns] assms(1) xmlListEmpty_holds [OF assms(1)] by (simp add: xmlListSort_def released_def)
next
  case False
  let ?t = "fold (list_insert (linkCompare l)) ds []"
  have len_ins: "length (list_insert c x xs) = Suc (length xs)" for c :: "'a \<Rightarrow> 'a \<Rightarrow> int" and x xs
    unfolding list_insert_def by (metis length_append length_Cons add_Suc_right takeWhile_dropWhile_id)
  have len_fold: "length (fold (list_insert (linkCompare l)) xs ys) = length xs + length ys" for xs ys
    by (induction xs arbitrary: ys) (simp_all add: len_ins)
  have mem: "2 + length ds \<le> avail h" using assms(2) by simp
  obtain cur nc h1 where h1: "xmlListDup (Some l) h = Some (Some cur, h1)" "holds h1 cur nc ?t" "holds h1 l ns ds"
    "apart cur nc l ns" "linkDeallocator cur = False" "linkCompare cur = linkCompare l" "brk h \<le> brk h1"
    "avail h1 = avail h - 2 - length ds" "dealloc_log h1 = dealloc_log h" "\<forall>a\<in>set (sentinel cur # nc). brk h \<le> a"
    "\<forall>a<brk h. links h1 a = links h a"
    using assms(1) mem by (rule xmlListDup_holds)
  obtain h2 where h2: "xmlListClear (Some l) h1 = Some h2" "holds h2 l [] []" "brk h2 = brk h1" "avail h2 = avail h1"
    "dealloc_log h2 = dealloc_log h1 @ released l ds" "\<forall>a. a \<notin> set (sentinel l # ns) \<longrightarrow> links h2 a = links h1 a"
    "\<forall>a\<in>set ns. links h2 a = None" using h1(3) by (rule xmlListClear_holds)
  have cur2: "holds h2 cur nc ?t" by (rule holds_apart [OF h1(2) apart_sym [OF h1(4)] h2(6,3) h1(3)])
  have ap: "apart l [] cur nc" using h1(4) by (auto simp: apart_def)
  have mem2: "length ?t \<le> avail h2" using assms(2) h1(8) h2(4) len_fold [of ds "[]"] by simp
  obtain h3 ns' where h3: "xmlListMerge (Some l) (Some cur) h2 = Some h3"
    "holds h3 l ns' (fold (list_insert (linkCompare l)) ?t [])" "holds h3 cur [] []" "apart l ns' cur []"
    "dealloc_log h3 = dealloc_log h2 @ released cur ?t"
    using h2(2) cur2 ap mem2 by (rule xmlListMerge_holds)
  obtain h4 where h4: "xmlListDelete (Some cur) h3 = Some h4" "brk h4 = brk h3" "avail h4 = avail h3"
    "dealloc_log h4 = dealloc_log h3 @ released cur []" "\<forall>a\<in>set (sentinel cur # []). links h4 a = None"
    "\<forall>a. a \<notin> set (sentinel cur # []) \<longrightarrow> links h4 a = links h3 a" using h3(3) by (rule xmlListDelete_holds)
  show thesis
  proof (rule that)
    show "xmlListSort (Some l) h = Some h4"
      using False xmlListEmpty_holds [OF assms(1)] h1(1) h2(1) h3(1) h4(1) by (simp add: xmlListSort_def)
    show "holds h4 l ns' (fold (list_insert (linkCompare l)) ?t [])"
      by (rule holds_apart [OF h3(2) apart_sym [OF h3(4)] h4(6,2) h3(3)])
    show "dealloc_log h4 = dealloc_log h @ released l ds" using h1(5,9) h2(5) h3(5) h4(4) by (simp add: released_def)
  qed
qed

text \<open>The comparison orders the data by a key.\<close>

definition compares :: "('d \<Rightarrow> 'd \<Rightarrow> int) \<Rightarrow> ('d \<Rightarrow> 'k::linorder) \<Rightarrow> bool" where
  "compares cmp key \<longleftrightarrow>
     (\<forall>x y. (cmp x y < 0 \<longleftrightarrow> key x < key y) \<and> (cmp x y = 0 \<longleftrightarrow> key x = key y) \<and> (cmp x y > 0 \<longleftrightarrow> key x > key y))"

lemma list_insert_insort: "compares cmp key \<Longrightarrow> list_insert cmp d ds = insort_key key d ds"
  by (induction ds) (auto simp: list_insert_def compares_def not_less)

lemma fold_insert_sort: "compares cmp key \<Longrightarrow> fold (list_insert cmp) ds [] = sort_key key (rev ds)"
proof -
  assume c: "compares cmp key"
  have "list_insert cmp = insort_key key" using list_insert_insort [OF c] by (intro ext)
  then show ?thesis by (simp add: sort_key_def foldr_conv_fold)
qed

lemma sort_twice: "sort_key key (rev (sort_key key (rev ds))) = sort_key key ds"
proof -
  let ?ys = "sort_key key (rev (sort_key key (rev ds)))"
  have "filter (\<lambda>x. key x = k) ?ys = filter (\<lambda>x. key x = k) ds" for k
    unfolding sort_key_stable rev_filter [symmetric] by simp
  then have "filter (\<lambda>x. k = key x) ?ys = filter (\<lambda>x. k = key x) ds" for k
    by (simp only: eq_commute [of k])
  then have "sort_key key ds = ?ys"
    by (intro properties_for_sort_key) simp_all
  then show ?thesis ..
qed

text \<open>The links of \<open>F\<close> have their two pointers exchanged.\<close>

definition flipped :: "nat set \<Rightarrow> 'd heap \<Rightarrow> 'd heap \<Rightarrow> bool" where
  "flipped F h h' \<longleftrightarrow>
     (\<forall>a. get_next h' a = (if a \<in> F then get_prev h a else get_next h a)) \<and>
     (\<forall>a. get_prev h' a = (if a \<in> F then get_next h a else get_prev h a)) \<and>
     get_data h' = get_data h \<and> brk h' = brk h \<and> avail h' = avail h \<and> dealloc_log h' = dealloc_log h \<and>
     (\<forall>a. a \<notin> F \<longrightarrow> links h' a = links h a) \<and> (\<forall>a. links h' a = None \<longleftrightarrow> links h a = None)"

lemma flip_link_flipped:
  assumes f: "flipped F h0 h" and p: "p \<notin> F" "get_next h0 p = Some q"
  obtains h' where "flip_link p q h = Some h'" "flipped (insert p F) h0 h'"
proof -
  obtain r where r: "get_prev h0 p = Some r"
    using p(2) by (metis get_None_iff(1,2) not_None_eq)
  have "links h0 p \<noteq> None" using p(2) by (rule get_Some_alloc)
  then have "links h p \<noteq> None" using f by (simp add: flipped_def)
  then obtain h1 where h1: "set_next p r h = Some h1" "get_next h1 = (get_next h)(p := Some r)"
    "get_prev h1 = get_prev h" "get_data h1 = get_data h" "brk h1 = brk h" "avail h1 = avail h"
    "dealloc_log h1 = dealloc_log h" "\<forall>x. links h1 x = None \<longleftrightarrow> links h x = None"
    "\<forall>x. x \<noteq> p \<longrightarrow> links h1 x = links h x" by (rule set_next_effect)
  have "links h1 p \<noteq> None" using h1(8) \<open>links h p \<noteq> None\<close> by metis
  then obtain h2 where h2: "set_prev p q h1 = Some h2" "get_prev h2 = (get_prev h1)(p := Some q)"
    "get_next h2 = get_next h1" "get_data h2 = get_data h1" "brk h2 = brk h1" "avail h2 = avail h1"
    "dealloc_log h2 = dealloc_log h1" "\<forall>x. links h2 x = None \<longleftrightarrow> links h1 x = None"
    "\<forall>x. x \<noteq> p \<longrightarrow> links h2 x = links h1 x" by (rule set_prev_effect)
  have "get_prev h p = Some r" using f p(1) r by (simp add: flipped_def)
  then have "flip_link p q h = Some h2" using h1(1) h2(1) by (simp add: flip_link_def)
  moreover have "flipped (insert p F) h0 h2"
    using f h1 h2 p r unfolding flipped_def by auto
  ultimately show thesis by (rule that)
qed

lemma reverse_loop_flipped:
  assumes d: "dll h0 (sentinel l) ns ds"
  shows "ns = A @ B \<Longrightarrow> flipped (set (butlast (sentinel l # A))) h0 h \<Longrightarrow>
    \<exists>h'. reverse_loop l (last (sentinel l # A)) (hd (B @ [sentinel l])) h = Some h' \<and>
      flipped (set (sentinel l # ns)) h0 h'"
proof (induction B arbitrary: A h)
  case Nil
  let ?p = "last (sentinel l # A)"
  have dist: "distinct (sentinel l # A @ [])" using d Nil by (simp add: dll_def)
  obtain h' where h': "flip_link ?p (sentinel l) h = Some h'" "flipped (insert ?p (set (butlast (sentinel l # A)))) h0 h'"
    by (rule flip_link_flipped [OF Nil(2) ring_distinct(1) [OF dist]])
      (use dll_at(1) [of h0 "sentinel l" A "[]" ds] d Nil in auto)
  have "insert ?p (set (butlast (sentinel l # A))) = set (sentinel l # A)"
    by (metis append_butlast_last_id list.distinct(1) list.simps(15) rotate1.simps(2) set_rotate1)
  then show ?case using h' Nil by (subst reverse_loop.simps) auto
next
  case (Cons b B)
  let ?p = "last (sentinel l # A)"
  have dist: "distinct (sentinel l # A @ b # B)" using d Cons by (simp add: dll_def)
  have d2: "dll h0 (sentinel l) (A @ b # B) ds" "dll h0 (sentinel l) ((A @ [b]) @ B) ds" using d Cons by simp_all
  obtain h' where h': "flip_link ?p b h = Some h'" "flipped (insert ?p (set (butlast (sentinel l # A)))) h0 h'"
    by (rule flip_link_flipped [OF Cons.prems(2) ring_distinct(1) [OF dist]]) (use dll_at(1) [OF d2(1)] in auto)
  have eq: "insert ?p (set (butlast (sentinel l # A))) = set (butlast (sentinel l # A @ [b]))"
    by (metis append_butlast_last_id append_Cons butlast_snoc list.distinct(1) list.simps(15) rotate1.simps(2) set_rotate1)
  have "b \<notin> set (butlast (sentinel l # A @ [b]))" using dist by (metis append_Cons butlast_snoc distinct.simps(2) distinct_append Un_iff list.set(2) not_distinct_conv_prefix set_append)
  then have "get_next h' b = get_next h0 b" using h'(2) eq by (auto simp: flipped_def)
  also have "\<dots> = Some (hd (B @ [sentinel l]))" by (rule dll_node(2) [OF d2(1)])
  finally have nb: "get_next h' b = Some (hd (B @ [sentinel l]))" .
  have "\<exists>h''. reverse_loop l b (hd (B @ [sentinel l])) h' = Some h'' \<and> flipped (set (sentinel l # ns)) h0 h''"
    using Cons.IH [of "A @ [b]" h'] h'(2) eq Cons.prems(1) by simp
  then show ?case
    using h'(1) nb dist by (subst reverse_loop.simps) auto
qed

lemma xmlListReverse_holds:
  assumes "holds h l ns ds"
  obtains h' where "xmlListReverse (Some l) h = Some h'" "holds h' l (rev ns) (rev ds)"
    "dealloc_log h' = dealloc_log h" "\<forall>a. a \<notin> set (sentinel l # ns) \<longrightarrow> links h' a = links h a"
proof -
  have d: "dll h (sentinel l) ns ds" "fits h (sentinel l # ns)" using assms by (simp_all add: holds_def)
  have "flipped (set (butlast (sentinel l # []))) h h" by (simp add: flipped_def)
  then obtain h' where h': "reverse_loop l (sentinel l) (hd (ns @ [sentinel l])) h = Some h'"
    "flipped (set (sentinel l # ns)) h h'"
    using reverse_loop_flipped [OF d(1), of "[]" ns h] by auto
  have run: "xmlListReverse (Some l) h = Some h'"
    using dll_at(1) [of h "sentinel l" "[]" ns ds] d(1) h'(1) by (simp add: xmlListReverse_def)
  have "successively (linked h) (sentinel l # ns @ [sentinel l])" using d(1) by (simp add: dll_def)
  then have "successively (\<lambda>a b. linked h' b a) (sentinel l # ns @ [sentinel l])"
  proof (rule successively_mono)
    fix a b assume "a \<in> set (sentinel l # ns @ [sentinel l])" "b \<in> set (sentinel l # ns @ [sentinel l])" "linked h a b"
    then show "linked h' b a" using h'(2) by (auto simp: linked_def flipped_def)
  qed
  then have "successively (linked h') (rev (sentinel l # ns @ [sentinel l]))"
    by (simp only: successively_rev)
  moreover have "map (get_data h') (rev ns) = map (\<lambda>d. Some (Some d)) (rev ds)"
    using d(1) h'(2) by (simp add: dll_def flipped_def rev_map [symmetric])
  ultimately have "dll h' (sentinel l) (rev ns) (rev ds)" using d(1) by (simp add: dll_def)
  moreover have "fits h' (sentinel l # rev ns)" using d(2) h'(2) by (auto simp: fits_def flipped_def)
  ultimately show thesis using that [OF run] h'(2) by (simp add: holds_def flipped_def)
qed

lemma insert_at_ex:
  assumes "dll h s (A @ B) (da @ db)" "length A = length da" "fits h (s # A @ B)" "0 < avail h"
  shows "\<exists>h1 h2. new_link (Some x) h = Some (brk h, h1) \<and> link_after (last (s # A)) (brk h) h1 = Some h2 \<and>
    dll h2 s (A @ brk h # B) (da @ x # db) \<and> fits h2 (s # A @ brk h # B)"
  by (rule insert_at [OF assms]) blast

lemma xmlListPush_holds:
  assumes "holds h l ns ds" "0 < avail h"
  shows "\<exists>h' ns'. xmlListPushFront (Some l) d h = Some (1, h') \<and> holds h' l ns' (d # ds)"
    "\<exists>h' ns'. xmlListPushBack (Some l) d h = Some (1, h') \<and> holds h' l ns' (ds @ [d])"
proof -
  have dl: "dll h (sentinel l) ns ds" "fits h (sentinel l # ns)" using assms by (simp_all add: holds_def)
  have len: "length ns = length ds" by (rule dll_length [OF dl(1)])
  obtain h1 h2 where f: "new_link (Some d) h = Some (brk h, h1)" "link_after (sentinel l) (brk h) h1 = Some h2"
    "dll h2 (sentinel l) (brk h # ns) (d # ds)" "fits h2 (sentinel l # brk h # ns)"
    using insert_at_ex [of h "sentinel l" "[]" ns "[]" ds d] dl assms(2) by auto
  have "xmlListPushFront (Some l) d h = Some (1, h2)" using f(1,2) by (simp add: xmlListPushFront_def)
  moreover have "holds h2 l (brk h # ns) (d # ds)" using f(3,4) by (simp add: holds_def)
  ultimately show "\<exists>h' ns'. xmlListPushFront (Some l) d h = Some (1, h') \<and> holds h' l ns' (d # ds)" by blast
  have p: "get_prev h (sentinel l) = Some (last (sentinel l # ns))"
    using dll_at(2) [of h "sentinel l" ns "[]" ds] dl(1) by simp
  obtain g1 g2 where g: "new_link (Some d) h = Some (brk h, g1)" "link_after (last (sentinel l # ns)) (brk h) g1 = Some g2"
    "dll g2 (sentinel l) (ns @ [brk h]) (ds @ [d])" "fits g2 (sentinel l # ns @ [brk h])"
    using insert_at_ex [of h "sentinel l" ns "[]" ds "[]" d] dl assms(2) len by auto
  have "xmlListPushBack (Some l) d h = Some (1, g2)" using p g(1,2) by (simp add: xmlListPushBack_def)
  moreover have "holds g2 l (ns @ [brk h]) (ds @ [d])" using g(3,4) by (simp add: holds_def)
  ultimately show "\<exists>h' ns'. xmlListPushBack (Some l) d h = Some (1, h') \<and> holds h' l ns' (ds @ [d])" by blast
qed

lemma delete_at_ex:
  assumes "dll h (sentinel l) (A @ n # B) (da @ x # db)" "length A = length da" "fits h (sentinel l # A @ n # B)"
  shows "\<exists>h'. xmlLinkDeallocator l n h = Some h' \<and> holds h' l (A @ B) (da @ db)"
  by (rule delete_at [OF assms]) (auto simp: holds_def)

lemma xmlListPop_holds:
  assumes "holds h l ns ds"
  shows "\<exists>h' ns'. xmlListPopFront (Some l) h = Some h' \<and> holds h' l ns' (tl ds)"
    "\<exists>h' ns'. xmlListPopBack (Some l) h = Some h' \<and> holds h' l ns' (butlast ds)"
proof -
  have dl: "dll h (sentinel l) ns ds" "fits h (sentinel l # ns)" using assms by (simp_all add: holds_def)
  have len: "length ns = length ds" by (rule dll_length [OF dl(1)])
  show "\<exists>h' ns'. xmlListPopFront (Some l) h = Some h' \<and> holds h' l ns' (tl ds)"
  proof (cases ds)
    case Nil
    then show ?thesis using xmlListEmpty_holds [OF assms] assms by (auto simp: xmlListPopFront_def)
  next
    case (Cons x db)
    then obtain n nb where n: "ns = n # nb" using len by (cases ns) auto
    have "get_next h (sentinel l) = Some n" using dll_at(1) [of h "sentinel l" "[]" ns ds] dl(1) n by simp
    moreover obtain h' where "xmlLinkDeallocator l n h = Some h'" "holds h' l nb db"
      using delete_at_ex [of h l "[]" n nb "[]" x db] dl Cons n by auto
    ultimately show ?thesis using xmlListEmpty_holds [OF assms] Cons by (auto simp: xmlListPopFront_def)
  qed
  show "\<exists>h' ns'. xmlListPopBack (Some l) h = Some h' \<and> holds h' l ns' (butlast ds)"
  proof (cases ds rule: rev_cases)
    case Nil
    then show ?thesis using xmlListEmpty_holds [OF assms] assms by (auto simp: xmlListPopBack_def)
  next
    case (snoc da x)
    then obtain n na where n: "ns = na @ [n]" "length na = length da" using len by (cases ns rule: rev_cases) auto
    have "get_prev h (sentinel l) = Some n" using dll_at(2) [of h "sentinel l" ns "[]" ds] dl(1) n by simp
    moreover obtain h' where "xmlLinkDeallocator l n h = Some h'" "holds h' l na da"
      using delete_at_ex [of h l na n "[]" da x "[]"] dl snoc n by auto
    ultimately show ?thesis using xmlListEmpty_holds [OF assms] snoc by (auto simp: xmlListPopBack_def)
  qed
qed

lemma xmlListSize_holds: "holds h l ns ds \<Longrightarrow> xmlListSize (Some l) h = Some (int (length ds))"
  using size_loop_dll [of h l "[]" ns ds 0] dll_at(1) [of h "sentinel l" "[]" ns ds] dll_length [of h "sentinel l" ns ds]
  by (auto simp: xmlListSize_def holds_def)

lemma list_remove_length: "list_find cmp d ds = Some k \<Longrightarrow> length (list_remove cmp d ds) < length ds"
  using list_find_less [of cmp d ds k] by (simp add: list_remove_def)

text \<open>\<open>xmlListRemoveAll\<close> ends, and removes until nothing is found.\<close>

function list_remove_all :: "('d \<Rightarrow> 'd \<Rightarrow> int) \<Rightarrow> 'd \<Rightarrow> 'd list \<Rightarrow> 'd list" where
  "list_remove_all cmp d ds =
     (if list_find cmp d ds = None then ds else list_remove_all cmp d (list_remove cmp d ds))"
  by pat_completeness auto
termination
  by (relation "measure (\<lambda>(_, _, ds). length ds)") (auto dest: list_remove_length)

declare list_remove_all.simps [simp del]

lemma removeall_loop_holds:
  "holds h l ns ds \<Longrightarrow> \<exists>h' ns'. removeall_loop l d c h =
       Some (c + int (length ds - length (list_remove_all (linkCompare l) d ds)), h') \<and>
     holds h' l ns' (list_remove_all (linkCompare l) d ds) \<and> length (list_remove_all (linkCompare l) d ds) \<le> length ds"
proof (induction "length ds" arbitrary: h ns ds c rule: less_induct)
  case less
  obtain h1 ns1 where h1: "xmlListRemoveFirst (Some l) d h = Some (if list_find (linkCompare l) d ds = None then 0 else 1, h1)"
    "holds h1 l ns1 (list_remove (linkCompare l) d ds)"
    using less.prems by (rule xmlListRemoveFirst_holds)
  show ?case
  proof (cases "list_find (linkCompare l) d ds")
    case None
    then show ?thesis
      using h1 by (subst removeall_loop.simps) (auto simp: list_remove_all.simps [of _ _ ds] list_remove_def)
  next
    case (Some k)
    have k: "k < length ds" by (rule list_find_less [OF Some])
    have len: "length (list_remove (linkCompare l) d ds) = length ds - 1"
      using k Some by (simp add: list_remove_def)
    obtain h' ns' where h': "removeall_loop l d (c + 1) h1 = Some (c + 1 + int (length (list_remove (linkCompare l) d ds) -
        length (list_remove_all (linkCompare l) d (list_remove (linkCompare l) d ds))), h')"
      "holds h' l ns' (list_remove_all (linkCompare l) d (list_remove (linkCompare l) d ds))"
      "length (list_remove_all (linkCompare l) d (list_remove (linkCompare l) d ds)) \<le> length (list_remove (linkCompare l) d ds)"
      using less.hyps [OF list_remove_length [OF Some] h1(2), of "c + 1"] by blast
    have all: "list_remove_all (linkCompare l) d ds = list_remove_all (linkCompare l) d (list_remove (linkCompare l) d ds)"
      using Some by (simp add: list_remove_all.simps [of _ _ ds])
    have "removeall_loop l d c h = removeall_loop l d (c + 1) h1"
      using Some h1(1) by (subst removeall_loop.simps) simp
    then show ?thesis using h' k len unfolding all by (intro exI [of _ h'] exI [of _ ns']) auto
  qed
qed

lemma list_find_sorted:
  assumes c: "compares cmp key" and s: "sorted (map key ds)"
  shows "list_find cmp d ds = None \<longleftrightarrow> (\<forall>x\<in>set ds. key x \<noteq> key d)"
  using s
proof (induction ds)
  case Nil
  then show ?case by (simp add: list_find_def)
next
  case (Cons x ds)
  have cc: "cmp x d < 0 \<longleftrightarrow> key x < key d" "cmp x d = 0 \<longleftrightarrow> key x = key d" using c by (auto simp: compares_def)
  then show ?case using Cons by (auto simp: list_find_def Let_def)
qed

lemma list_remove_sorted:
  assumes c: "compares cmp key" and s: "sorted (map key ds)" and k: "list_find cmp d ds = Some k"
  shows "sorted (map key (list_remove cmp d ds))"
    "filter (\<lambda>x. key x \<noteq> key d) (list_remove cmp d ds) = filter (\<lambda>x. key x \<noteq> key d) ds"
proof -
  have kl: "k < length ds" "key (ds ! k) = key d"
    using k c by (auto simp: list_find_def Let_def compares_def split: if_splits)
  have ds: "ds = take k ds @ ds ! k # drop (Suc k) ds" by (rule id_take_nth_drop [OF kl(1)])
  have r: "list_remove cmp d ds = take k ds @ drop (Suc k) ds" using k by (simp add: list_remove_def)
  have "sorted (map key (take k ds @ ds ! k # drop (Suc k) ds))" using s ds by simp
  then show "sorted (map key (list_remove cmp d ds))" unfolding r by (auto simp: sorted_append)
  have "filter (\<lambda>x. key x \<noteq> key d) (take k ds @ ds ! k # drop (Suc k) ds) = filter (\<lambda>x. key x \<noteq> key d) (list_remove cmp d ds)"
    using kl(2) by (simp add: r)
  then show "filter (\<lambda>x. key x \<noteq> key d) (list_remove cmp d ds) = filter (\<lambda>x. key x \<noteq> key d) ds"
    using ds by simp
qed

lemma list_remove_all_sorted:
  assumes c: "compares cmp key"
  shows "sorted (map key ds) \<Longrightarrow> list_remove_all cmp d ds = filter (\<lambda>x. key x \<noteq> key d) ds"
proof (induction "length ds" arbitrary: ds rule: less_induct)
  case less
  show ?case
  proof (cases "list_find cmp d ds")
    case None
    then have "\<forall>x\<in>set ds. key x \<noteq> key d" using list_find_sorted [OF c less.prems] by blast
    then show ?thesis using None by (subst list_remove_all.simps) simp
  next
    case (Some k)
    note r = list_remove_sorted [OF c less.prems Some]
    show ?thesis
      using less.hyps [OF list_remove_length [OF Some] r(1)] r(2) Some by (subst list_remove_all.simps) simp
  qed
qed

section \<open>Inserting a sequence\<close>

text \<open>
  The interface of an ordered container: inserting one element into a container
  with room left puts it at its place.  Filling one is proved from that alone.
\<close>

fun insert_all :: "('d \<Rightarrow> 'h \<Rightarrow> (int \<times> 'h) option) \<Rightarrow> 'd list \<Rightarrow> 'h \<Rightarrow> 'h option" where
  "insert_all ins [] h = Some h"
| "insert_all ins (x # xs) h =
     (case ins x h of None \<Rightarrow> None | Some (r, h') \<Rightarrow> if r \<noteq> 0 then None else insert_all ins xs h')"

locale ordered_container =
  fixes repr :: "'h \<Rightarrow> 'd list \<Rightarrow> bool"
    and room :: "'h \<Rightarrow> nat"
    and ins :: "'d \<Rightarrow> 'h \<Rightarrow> (int \<times> 'h) option"
    and key :: "'d \<Rightarrow> 'k::linorder"
  assumes ins_ok: "repr h ds \<Longrightarrow> 0 < room h \<Longrightarrow>
    \<exists>h'. ins d h = Some (0, h') \<and> repr h' (insort_key key d ds) \<and> room h' = room h - 1"
begin

lemma insert_all_ok:
  "repr h ds \<Longrightarrow> length xs \<le> room h \<Longrightarrow>
   \<exists>h'. insert_all ins xs h = Some h' \<and> repr h' (fold (insort_key key) xs ds)"
proof (induction xs arbitrary: h ds)
  case Nil
  then show ?case by simp
next
  case (Cons x xs)
  have "0 < room h" using Cons.prems(2) by simp
  then obtain h1 where h1: "ins x h = Some (0, h1)" "repr h1 (insort_key key x ds)" "room h1 = room h - 1"
    using ins_ok [OF Cons.prems(1)] by blast
  then show ?case using Cons.IH [OF h1(2)] Cons.prems(2) by simp
qed

lemma fold_insort_sorted:
  "sorted (map key ds) \<Longrightarrow> sorted (map key (fold (insort_key key) xs ds)) \<and>
     mset (fold (insort_key key) xs ds) = mset xs + mset ds"
  by (induction xs arbitrary: ds) (simp_all add: sorted_insort_key)

lemma insert_all_sorted:
  assumes "repr h ds" "length xs \<le> room h" "sorted (map key ds)"
  shows "\<exists>h' ds'. insert_all ins xs h = Some h' \<and> repr h' ds' \<and> sorted (map key ds') \<and> mset ds' = mset xs + mset ds"
  using insert_all_ok [OF assms(1,2)] fold_insort_sorted [OF assms(3), of xs] by blast

end

definition list_repr :: "'d xmlList \<Rightarrow> ('d \<Rightarrow> 'k::linorder) \<Rightarrow> 'd heap \<Rightarrow> 'd list \<Rightarrow> bool" where
  "list_repr l key h ds \<longleftrightarrow> compares (linkCompare l) key \<and> (\<exists>ns. holds h l ns ds)"

lemma xmlListInsert_repr:
  assumes "list_repr l key h ds" "0 < avail h"
  shows "\<exists>h'. xmlListInsert (Some l) d h = Some (0, h') \<and> list_repr l key h' (insort_key key d ds) \<and> avail h' = avail h - 1"
proof -
  obtain ns where ns: "holds h l ns ds" and c: "compares (linkCompare l) key" using assms(1) by (auto simp: list_repr_def)
  obtain h' ns' where "xmlListInsert (Some l) d h = Some (0, h')" "holds h' l ns' (list_insert (linkCompare l) d ds)"
    "avail h' = avail h - 1" using ns assms(2) by (rule xmlListInsert_holds)
  then show ?thesis using c list_insert_insort [OF c] by (auto simp: list_repr_def)
qed

interpretation xl: ordered_container "list_repr l key" avail "xmlListInsert (Some l)" key
  for l :: "'d xmlList" and key :: "'d \<Rightarrow> 'k::linorder"
  by unfold_locales (rule xmlListInsert_repr)

lemma copy_loop_oom:
  assumes "holds h cur nc dc" "holds h old (b # B) (x # db)" "avail h = 0"
  shows "\<exists>h'. xmlListCopy (Some cur) (Some old) h = Some (1, h') \<and> links h' (sentinel cur) = None \<and> brk h' = brk h \<and>
    (\<forall>a. a \<notin> set (sentinel cur # nc) \<longrightarrow> links h' a = links h a)"
proof -
  have d: "dll h (sentinel old) ([] @ b # B) (x # db)" "dll h (sentinel cur) nc dc" using assms by (simp_all add: holds_def)
  note node = dll_node [OF d(1)]
  obtain h' where h': "xmlListDelete (Some cur) h = Some h'" "brk h' = brk h" "avail h' = avail h"
    "dealloc_log h' = dealloc_log h @ released cur dc" "\<forall>a\<in>set (sentinel cur # nc). links h' a = None"
    "\<forall>a. a \<notin> set (sentinel cur # nc) \<longrightarrow> links h' a = links h a" using assms(1) by (rule xmlListDelete_holds)
  have "xmlListInsert (Some cur) x h = Some (1, h)"
    using xmlListLowerSearch_dll [OF d(2), of x] assms(3) by (simp add: xmlListInsert_def new_link_def)
  then have "copy_loop cur old b h = Some (1, h')"
    using node(1,4) h'(1) by (subst copy_loop.simps) simp
  moreover have "get_next h (sentinel old) = Some b" using dll_at(1) [of h "sentinel old" "[]" "b # B"] d(1) by simp
  ultimately show ?thesis using h' by (auto simp: xmlListCopy_def)
qed

section \<open>Properties\<close>

text \<open>
  C28 Filling a list by \<open>xmlListInsert\<close> succeeds while memory lasts and keeps it in
  order: whatever is inserted, in whatever order, the links stay a well-formed
  circular list whose data are sorted by the comparison's key and are exactly the old
  and the inserted elements.
\<close>

theorem xml_list_fill_sorted:
  assumes "holds h l ns ds" "compares (linkCompare l) key" "sorted (map key ds)" "length xs \<le> avail h"
  shows "\<exists>h' ns' ds'. insert_all (xmlListInsert (Some l)) xs h = Some h' \<and> holds h' l ns' ds' \<and>
     sorted (map key ds') \<and> mset ds' = mset xs + mset ds"
  using xl.insert_all_sorted [of l key h ds xs] assms by (auto simp: list_repr_def)

text \<open>A list of three elements in a concrete heap: the sentinel at 0, the links at 1, 2 and 3.\<close>

definition int_cmp :: "nat \<Rightarrow> nat \<Rightarrow> int" where
  "int_cmp x y = int x - int y"

definition example_list :: "nat xmlList" where
  "example_list = \<lparr>sentinel = 0, linkDeallocator = True, linkCompare = int_cmp\<rparr>"

definition example_heap :: "nat list \<Rightarrow> nat \<Rightarrow> nat heap" where
  "example_heap ds m =
     \<lparr>links = [0 \<mapsto> \<lparr>nxt = 1, prv = 3, dat = None\<rparr>, 1 \<mapsto> \<lparr>nxt = 2, prv = 0, dat = Some (ds ! 0)\<rparr>,
               2 \<mapsto> \<lparr>nxt = 3, prv = 1, dat = Some (ds ! 1)\<rparr>, 3 \<mapsto> \<lparr>nxt = 0, prv = 2, dat = Some (ds ! 2)\<rparr>,
               4 \<mapsto> \<lparr>nxt = 4, prv = 4, dat = None\<rparr>],
      brk = 5, avail = m, dealloc_log = []\<rparr>"

lemma int_cmp_compares: "compares int_cmp (\<lambda>x. x)"
  by (auto simp: compares_def int_cmp_def)

lemma example_holds: "holds (example_heap [a, b, c] m) example_list [1, 2, 3] [a, b, c]"
  by (simp add: holds_def dll_def linked_def fits_def example_list_def example_heap_def get_next_def get_prev_def get_data_def)

lemma example_empty_holds: "holds (example_heap [a, b, c] m) (example_list\<lparr>sentinel := 4\<rparr>) [] []"
  by (simp add: holds_def dll_def linked_def fits_def example_list_def example_heap_def get_next_def get_prev_def get_data_def)

lemma example_list_simps [simp]:
  "linkCompare example_list = int_cmp" "linkDeallocator example_list" "sentinel example_list = 0"
  "avail (example_heap ds m) = m" "dealloc_log (example_heap ds m) = []" "brk (example_heap ds m) = 5"
  by (simp_all add: example_list_def example_heap_def)

theorem xml_list_fill_sorted_witness:
  "\<exists>h' ns' ds'. insert_all (xmlListInsert (Some example_list)) [7, 2] (example_heap [1, 3, 5] 2) = Some h' \<and>
     holds h' example_list ns' ds' \<and> sorted ds' \<and> mset ds' = {#1, 2, 3, 5, 7#}"
  using xml_list_fill_sorted [OF example_holds [of 1 3 5 2], of "\<lambda>x. x" "[7, 2]"] int_cmp_compares
  by (simp add: add_mset_commute)

text \<open>
  C27 \<open>xmlListSort\<close> is a stable sort: with memory for its two copies it
  returns, and the list holds the elements it held, in the order of the comparison and equal ones in
  their old order.  It sorts by way of \<open>xmlListDup\<close>, which is itself an insertion sort
  that reverses equal elements: the list \<open>xmlListDup\<close> returns is not a duplicate in general.
  And as the original is cleared with its deallocator in between, a list that has one releases every
  element that it still holds afterwards.
\<close>

theorem xml_list_sort_stable:
  assumes "holds h l ns ds" "compares (linkCompare l) key" "2 + 2 * length ds \<le> avail h"
  shows "(\<exists>h' ns'. xmlListSort (Some l) h = Some h' \<and> holds h' l ns' (sort_key key ds) \<and>
            dealloc_log h' = dealloc_log h @ released l ds) \<and>
         (\<exists>cur nc h'. xmlListDup (Some l) h = Some (Some cur, h') \<and> holds h' cur nc (sort_key key (rev ds)) \<and>
            holds h' l ns ds)"
proof (rule conjI)
  obtain h' ns' where "xmlListSort (Some l) h = Some h'"
    "holds h' l ns' (fold (list_insert (linkCompare l)) (fold (list_insert (linkCompare l)) ds []) [])"
    "dealloc_log h' = dealloc_log h @ released l ds" using assms(1,3) by (rule xmlListSort_holds)
  then show "\<exists>h' ns'. xmlListSort (Some l) h = Some h' \<and> holds h' l ns' (sort_key key ds) \<and>
      dealloc_log h' = dealloc_log h @ released l ds"
    using fold_insert_sort [OF assms(2)] sort_twice [of key ds] by auto
next
  have "2 + length ds \<le> avail h" using assms(3) by simp
  with assms(1) obtain cur nc h' where "xmlListDup (Some l) h = Some (Some cur, h')"
    "holds h' cur nc (fold (list_insert (linkCompare l)) ds [])" "holds h' l ns ds" by (rule xmlListDup_holds)
  then show "\<exists>cur nc h'. xmlListDup (Some l) h = Some (Some cur, h') \<and> holds h' cur nc (sort_key key (rev ds)) \<and>
      holds h' l ns ds" using fold_insert_sort [OF assms(2)] by auto
qed

theorem xml_list_sort_stable_witness:
  "(\<exists>h' ns'. xmlListSort (Some example_list) (example_heap [3, 1, 2] 8) = Some h' \<and> holds h' example_list ns' [1, 2, 3] \<and>
     dealloc_log h' = [Some 3, Some 1, Some 2])"
  using conjunct1 [OF xml_list_sort_stable [OF example_holds [of 3 1 2 8], of "\<lambda>x. x"]] int_cmp_compares
  by (simp add: released_def insort_key.simps)



text \<open>
  A merge that runs out of memory loses both lists: \<open>xmlListCopy\<close>
  answers a failed insertion by deleting its destination, \<open>xmlListMerge\<close> ignores its result and
  clears the source, so the sentinel of the caller's first list is gone (the next
  \<open>xmlListSize\<close> on it is an access to freed memory) and the second list is empty.
\<close>

theorem xml_list_merge_oom:
  assumes "holds h l1 n1 d1" "holds h l2 n2 d2" "apart l1 n1 l2 n2" "d2 \<noteq> []" "avail h = 0"
  shows "\<exists>h'. xmlListMerge (Some l1) (Some l2) h = Some h' \<and> holds h' l2 [] [] \<and>
     links h' (sentinel l1) = None \<and> xmlListSize (Some l1) h' = None"
proof -
  have "length n2 = length d2" using assms(2) dll_length by (auto simp: holds_def)
  then obtain b B x db where n2: "n2 = b # B" "d2 = x # db" using assms(4) by (cases n2; cases d2) auto
  obtain h1 where h1: "xmlListCopy (Some l1) (Some l2) h = Some (1, h1)" "links h1 (sentinel l1) = None" "brk h1 = brk h"
    "\<forall>a. a \<notin> set (sentinel l1 # n1) \<longrightarrow> links h1 a = links h a"
    using copy_loop_oom [OF assms(1) assms(2) [unfolded n2] assms(5)] by blast
  have b: "\<forall>a\<in>set (sentinel l1 # n1). a < brk h" by (rule holds_bound [OF assms(1)])
  have "holds h1 l2 n2 d2"
  proof (rule holds_other [OF assms(2)])
    show "\<forall>a\<in>set (sentinel l2 # n2). links h1 a = links h a" using h1(4) assms(3) unfolding apart_def by blast
    show "\<forall>a\<ge>brk h1. links h1 a = None" using h1(3,4) b holds_fresh [OF assms(1)] by (metis leD)
  qed (use h1(3) in simp)
  then obtain h2 where h2: "xmlListClear (Some l2) h1 = Some h2" "holds h2 l2 [] []" "brk h2 = brk h1" "avail h2 = avail h1"
    "dealloc_log h2 = dealloc_log h1 @ released l2 d2" "\<forall>a. a \<notin> set (sentinel l2 # n2) \<longrightarrow> links h2 a = links h1 a"
    "\<forall>a\<in>set n2. links h2 a = None" by (rule xmlListClear_holds)
  have "sentinel l1 \<notin> set (sentinel l2 # n2)" using assms(3) by (auto simp: apart_def)
  then have "links h2 (sentinel l1) = None" using h2(6) h1(2) by simp
  then show ?thesis using h1(1) h2(1,2) by (auto simp: xmlListMerge_def xmlListSize_def get_next_def)
qed

theorem xml_list_merge_oom_witness:
  "\<exists>h'. xmlListMerge (Some (example_list\<lparr>sentinel := 4\<rparr>)) (Some example_list) (example_heap [1, 2, 3] 0) = Some h' \<and>
     links h' 4 = None \<and> xmlListSize (Some (example_list\<lparr>sentinel := 4\<rparr>)) h' = None"
  using xml_list_merge_oom [OF example_empty_holds [of 1 2 3 0] example_holds [of 1 2 3 0]] by (auto simp: apart_def)

end
