(* ===== verification/Xml_String.thy ===== *)
theory Xml_String
  imports Prelude
begin

text \<open>
  The string routines of the library the test bed fuzzes
  (\<open>src/testbed/libxml2/xmlstring.c\<close>): duplication, comparison, search,
  concatenation and UTF-8 handling.

  A pointer \<open>xmlChar *\<close> that is not \<open>NULL\<close> is the list of the bytes from the
  address it points to up to the end of the allocated block: \<open>*p\<close> is the first
  element, \<open>p++\<close> the tail, and reading from the empty list is an access out of
  bounds.  \<open>NULL\<close> is \<open>None\<close>.  Every routine returns an option: \<open>None\<close> is an
  access out of bounds (undefined behaviour), so that a theorem of the form
  \<open>\<exists>r. f p = Some r\<close> is memory safety.  A C string is \<open>s @ 0 # r\<close> with no zero in
  \<open>s\<close>.  The argument \<open>mem_ok\<close> says whether the allocation succeeds.  In the
  comparisons the argument \<open>same\<close> says whether the two addresses are equal.
\<close>

type_synonym xptr = "u8 list option"

definition INT_MAX :: int where
  "INT_MAX = 2147483647"

definition cstring :: "u8 list \<Rightarrow> bool" where
  "cstring s \<longleftrightarrow> 0 \<notin> set s"

section \<open>Length and duplication\<close>

fun strlen :: "u8 list \<Rightarrow> nat option" where
  "strlen [] = None"
| "strlen (c # p) = (if c = 0 then Some 0 else map_option Suc (strlen p))"

definition xmlStrlen :: "xptr \<Rightarrow> int option" where
  "xmlStrlen str =
     (case str of
        None \<Rightarrow> Some 0
      | Some p \<Rightarrow> map_option (\<lambda>len. if int len > INT_MAX then 0 else int len) (strlen p))"

text \<open>\<open>memcpy\<close> of \<open>n\<close> bytes from \<open>p\<close>.\<close>

definition memcpy :: "u8 list \<Rightarrow> nat \<Rightarrow> u8 list option" where
  "memcpy p n = (if n \<le> length p then Some (take n p) else None)"

definition xmlStrndup :: "bool \<Rightarrow> xptr \<Rightarrow> int \<Rightarrow> xptr option" where
  "xmlStrndup mem_ok cur len =
     (case cur of
        None \<Rightarrow> Some None
      | Some p \<Rightarrow>
          if len < 0 then Some None
          else if \<not> mem_ok then Some None
          else map_option (\<lambda>bs. Some (bs @ [0])) (memcpy p (nat len)))"

definition xmlStrdup :: "bool \<Rightarrow> xptr \<Rightarrow> xptr option" where
  "xmlStrdup mem_ok cur =
     (case cur of
        None \<Rightarrow> Some None
      | Some p \<Rightarrow> (case strlen p of None \<Rightarrow> None | Some n \<Rightarrow> xmlStrndup mem_ok cur (int n)))"

text \<open>The copy loop of \<open>xmlCharStrndup\<close>, which stops after a terminator.\<close>

fun charcpy :: "u8 list \<Rightarrow> nat \<Rightarrow> u8 list option" where
  "charcpy p 0 = Some [0]"
| "charcpy [] (Suc n) = None"
| "charcpy (c # p) (Suc n) = (if c = 0 then Some [0] else map_option ((#) c) (charcpy p n))"

definition xmlCharStrndup :: "bool \<Rightarrow> xptr \<Rightarrow> int \<Rightarrow> xptr option" where
  "xmlCharStrndup mem_ok cur len =
     (case cur of
        None \<Rightarrow> Some None
      | Some p \<Rightarrow>
          if len < 0 then Some None
          else if \<not> mem_ok then Some None
          else map_option Some (charcpy p (nat len)))"

definition xmlCharStrdup :: "bool \<Rightarrow> xptr \<Rightarrow> xptr option" where
  "xmlCharStrdup mem_ok cur =
     (case cur of
        None \<Rightarrow> Some None
      | Some p \<Rightarrow> (case strlen p of None \<Rightarrow> None | Some n \<Rightarrow> xmlCharStrndup mem_ok cur (int n)))"

section \<open>Comparison\<close>

text \<open>The loop shared by the comparisons; \<open>f\<close> is the identity or \<open>casemap\<close>.\<close>

fun strcmp_loop :: "(u8 \<Rightarrow> u8) \<Rightarrow> u8 list \<Rightarrow> u8 list \<Rightarrow> int option" where
  "strcmp_loop f (a # p) (b # q) =
     (let tmp = uint (f a) - uint (f b)
      in if tmp \<noteq> 0 then Some tmp else if b = 0 then Some 0 else strcmp_loop f p q)"
| "strcmp_loop f _ _ = None"

fun strncmp_loop :: "(u8 \<Rightarrow> u8) \<Rightarrow> u8 list \<Rightarrow> u8 list \<Rightarrow> nat \<Rightarrow> int option" where
  "strncmp_loop f (a # p) (b # q) len =
     (let tmp = uint (f a) - uint (f b)
      in if tmp \<noteq> 0 \<or> len - 1 = 0 then Some tmp
         else if b = 0 then Some 0 else strncmp_loop f p q (len - 1))"
| "strncmp_loop f _ _ len = None"

definition cmp_pointers :: "bool \<Rightarrow> xptr \<Rightarrow> xptr \<Rightarrow> (u8 list \<Rightarrow> u8 list \<Rightarrow> int option) \<Rightarrow> int option" where
  "cmp_pointers same str1 str2 k =
     (if same then Some 0
      else case (str1, str2) of
        (None, None) \<Rightarrow> Some 0
      | (None, _) \<Rightarrow> Some (-1)
      | (_, None) \<Rightarrow> Some 1
      | (Some p, Some q) \<Rightarrow> k p q)"

definition xmlStrcmp :: "bool \<Rightarrow> xptr \<Rightarrow> xptr \<Rightarrow> int option" where
  "xmlStrcmp same str1 str2 = cmp_pointers same str1 str2 (strcmp_loop (\<lambda>c. c))"

fun strequal_loop :: "u8 list \<Rightarrow> u8 list \<Rightarrow> int option" where
  "strequal_loop (a # p) (b # q) =
     (if a \<noteq> b then Some 0 else if b = 0 then Some 1 else strequal_loop p q)"
| "strequal_loop _ _ = None"

definition xmlStrEqual :: "bool \<Rightarrow> xptr \<Rightarrow> xptr \<Rightarrow> int option" where
  "xmlStrEqual same str1 str2 =
     (if same then Some 1
      else case (str1, str2) of
        (None, None) \<Rightarrow> Some 1
      | (None, _) \<Rightarrow> Some 0
      | (_, None) \<Rightarrow> Some 0
      | (Some p, Some q) \<Rightarrow> strequal_loop p q)"

text \<open>
  The prefix loop of \<open>xmlStrQEqual\<close>:
  \<open>do { if (*pref++ != *str) return(0); } while ((*str++) && (*pref))\<close>.  The
  result is where \<open>str\<close> points after the loop, or \<open>None\<close> for \<open>return(0)\<close>.
\<close>

fun qprefix_loop :: "u8 list \<Rightarrow> u8 list \<Rightarrow> u8 list option option" where
  "qprefix_loop (a # p) (b # q) =
     (if a \<noteq> b then Some None
      else if b = 0 then Some (Some q)
      else case p of [] \<Rightarrow> None | c # _ \<Rightarrow> if c = 0 then Some (Some q) else qprefix_loop p q)"
| "qprefix_loop _ _ = None"

definition xmlStrQEqual :: "bool \<Rightarrow> xptr \<Rightarrow> xptr \<Rightarrow> xptr \<Rightarrow> int option" where
  "xmlStrQEqual same pref name str =
     (case pref of
        None \<Rightarrow> xmlStrEqual same name str
      | Some p \<Rightarrow>
          (case (name, str) of
             (Some n, Some s) \<Rightarrow>
               (case qprefix_loop p s of
                  None \<Rightarrow> None
                | Some None \<Rightarrow> Some 0
                | Some (Some []) \<Rightarrow> None
                | Some (Some (c # s')) \<Rightarrow> if c \<noteq> 0x3A then Some 0 else strequal_loop n s')
           | _ \<Rightarrow> Some 0))"

definition xmlStrncmp :: "bool \<Rightarrow> xptr \<Rightarrow> xptr \<Rightarrow> int \<Rightarrow> int option" where
  "xmlStrncmp same str1 str2 len =
     (if len \<le> 0 then Some 0
      else cmp_pointers same str1 str2 (\<lambda>p q. strncmp_loop (\<lambda>c. c) p q (nat len)))"

text \<open>The table \<open>casemap\<close>: the identity except on the 27 entries from 0x41 to 0x5B.\<close>

definition casemap :: "u8 \<Rightarrow> u8" where
  "casemap c = (if 0x41 \<le> c \<and> c \<le> 0x5B then c + 0x20 else c)"

definition xmlStrcasecmp :: "bool \<Rightarrow> xptr \<Rightarrow> xptr \<Rightarrow> int option" where
  "xmlStrcasecmp same str1 str2 = cmp_pointers same str1 str2 (strcmp_loop casemap)"

definition xmlStrncasecmp :: "bool \<Rightarrow> xptr \<Rightarrow> xptr \<Rightarrow> int \<Rightarrow> int option" where
  "xmlStrncasecmp same str1 str2 len =
     (if len \<le> 0 then Some 0
      else cmp_pointers same str1 str2 (\<lambda>p q. strncmp_loop casemap p q (nat len)))"

section \<open>Search\<close>

fun strchr_loop :: "u8 list \<Rightarrow> u8 \<Rightarrow> xptr option" where
  "strchr_loop [] val = None"
| "strchr_loop (c # p) val =
     (if c = 0 then Some None else if c = val then Some (Some (c # p)) else strchr_loop p val)"

definition xmlStrchr :: "xptr \<Rightarrow> u8 \<Rightarrow> xptr option" where
  "xmlStrchr str val = (case str of None \<Rightarrow> Some None | Some p \<Rightarrow> strchr_loop p val)"

fun strstr_loop :: "(u8 \<Rightarrow> u8) \<Rightarrow> u8 list \<Rightarrow> u8 list \<Rightarrow> nat \<Rightarrow> xptr option" where
  "strstr_loop f [] val n = None"
| "strstr_loop f (c # p) val n =
     (if c = 0 then Some None
      else case val of
        [] \<Rightarrow> None
      | v # _ \<Rightarrow>
          if f c = f v
          then case strncmp_loop f (c # p) val n of
                 None \<Rightarrow> None
               | Some r \<Rightarrow> if r = 0 then Some (Some (c # p)) else strstr_loop f p val n
          else strstr_loop f p val n)"

definition xmlStrstr :: "xptr \<Rightarrow> xptr \<Rightarrow> xptr option" where
  "xmlStrstr str val =
     (case (str, val) of
        (Some p, Some q) \<Rightarrow>
          (case xmlStrlen (Some q) of
             None \<Rightarrow> None
           | Some n \<Rightarrow> if n = 0 then Some (Some p) else strstr_loop (\<lambda>c. c) p q (nat n))
      | _ \<Rightarrow> Some None)"

definition xmlStrcasestr :: "xptr \<Rightarrow> xptr \<Rightarrow> xptr option" where
  "xmlStrcasestr str val =
     (case (str, val) of
        (Some p, Some q) \<Rightarrow>
          (case xmlStrlen (Some q) of
             None \<Rightarrow> None
           | Some n \<Rightarrow> if n = 0 then Some (Some p) else strstr_loop casemap p q (nat n))
      | _ \<Rightarrow> Some None)"

text \<open>The skipping loop of \<open>xmlStrsub\<close>: the pointer after \<open>start\<close> characters, or \<open>NULL\<close>.\<close>

fun strskip :: "u8 list \<Rightarrow> nat \<Rightarrow> xptr option" where
  "strskip p 0 = Some (Some p)"
| "strskip [] (Suc n) = None"
| "strskip (c # p) (Suc n) = (if c = 0 then Some None else strskip p n)"

definition xmlStrsub :: "bool \<Rightarrow> xptr \<Rightarrow> int \<Rightarrow> int \<Rightarrow> xptr option" where
  "xmlStrsub mem_ok str start len =
     (case str of
        None \<Rightarrow> Some None
      | Some p \<Rightarrow>
          if start < 0 then Some None
          else if len < 0 then Some None
          else case strskip p (nat start) of
                 None \<Rightarrow> None
               | Some None \<Rightarrow> Some None
               | Some (Some []) \<Rightarrow> None
               | Some (Some (c # q)) \<Rightarrow>
                   if c = 0 then Some None else xmlStrndup mem_ok (Some (c # q)) len)"

section \<open>Concatenation\<close>

definition xmlStrncat :: "bool \<Rightarrow> xptr \<Rightarrow> xptr \<Rightarrow> int \<Rightarrow> xptr option" where
  "xmlStrncat mem_ok cur add len =
     (case add of
        None \<Rightarrow> Some cur
      | Some a \<Rightarrow>
          if len = 0 then Some cur
          else if len < 0 then Some None
          else case cur of
                 None \<Rightarrow> xmlStrndup mem_ok add len
               | Some c \<Rightarrow>
                   (case xmlStrlen cur of
                      None \<Rightarrow> None
                    | Some sz \<Rightarrow>
                        if sz < 0 \<or> sz > INT_MAX - len then Some None
                        else if \<not> mem_ok then Some None
                        else case memcpy a (nat len) of
                               None \<Rightarrow> None
                             | Some bs \<Rightarrow> Some (Some (take (nat sz) c @ bs @ [0]))))"

definition xmlStrncatNew :: "bool \<Rightarrow> xptr \<Rightarrow> xptr \<Rightarrow> int \<Rightarrow> xptr option" where
  "xmlStrncatNew mem_ok str1 str2 len =
     (case (if len < 0 then xmlStrlen str2 else Some len) of
        None \<Rightarrow> None
      | Some len \<Rightarrow>
          if len < 0 then Some None
          else case str2 of
                 None \<Rightarrow> xmlStrdup mem_ok str1
               | Some q \<Rightarrow>
                   if len = 0 then xmlStrdup mem_ok str1
                   else case str1 of
                          None \<Rightarrow> xmlStrndup mem_ok str2 len
                        | Some p \<Rightarrow>
                            (case xmlStrlen str1 of
                               None \<Rightarrow> None
                             | Some sz \<Rightarrow>
                                 if sz < 0 \<or> sz > INT_MAX - len then Some None
                                 else if \<not> mem_ok then Some None
                                 else case memcpy q (nat len) of
                                        None \<Rightarrow> None
                                      | Some bs \<Rightarrow> Some (Some (take (nat sz) p @ bs @ [0]))))"

definition xmlStrcat :: "bool \<Rightarrow> xptr \<Rightarrow> xptr \<Rightarrow> xptr option" where
  "xmlStrcat mem_ok cur add =
     (case add of
        None \<Rightarrow> Some cur
      | Some a \<Rightarrow>
          (case cur of
             None \<Rightarrow> xmlStrdup mem_ok add
           | Some _ \<Rightarrow> (case strlen a of None \<Rightarrow> None | Some n \<Rightarrow> xmlStrncat mem_ok cur add (int n))))"

section \<open>UTF-8\<close>

text \<open>\<open>p[i]\<close>.\<close>

definition rd :: "u8 list \<Rightarrow> nat \<Rightarrow> u8 option" where
  "rd p i = (if i < length p then Some (p ! i) else None)"

fun utf8size_loop :: "u8 \<Rightarrow> u8 list \<Rightarrow> int \<Rightarrow> int" where
  "utf8size_loop c [] len = -1"
| "utf8size_loop c (m # ms) len = (if c AND m = 0 then len else utf8size_loop c ms (len + 1))"

definition xmlUTF8Size :: "xptr \<Rightarrow> int option" where
  "xmlUTF8Size utf =
     (case utf of
        None \<Rightarrow> Some (-1)
      | Some [] \<Rightarrow> None
      | Some (c # _) \<Rightarrow>
          if c < 0x80 then Some 1
          else if c AND 0x40 = 0 then Some (-1)
          else Some (utf8size_loop c [0x20, 0x10, 0x08, 0x04, 0x02, 0x01] 2))"

definition xmlUTF8Charcmp :: "bool \<Rightarrow> xptr \<Rightarrow> xptr \<Rightarrow> int option" where
  "xmlUTF8Charcmp same utf1 utf2 =
     (case utf1 of
        None \<Rightarrow> (case utf2 of None \<Rightarrow> Some 0 | Some _ \<Rightarrow> Some (-1))
      | Some _ \<Rightarrow>
          (case xmlUTF8Size utf1 of None \<Rightarrow> None | Some n \<Rightarrow> xmlStrncmp same utf1 utf2 n))"

text \<open>A trailing byte at \<open>p[i]\<close>: \<open>(p[i] & 0xc0) == 0x80\<close>.\<close>

definition trail :: "u8 list \<Rightarrow> nat \<Rightarrow> bool option" where
  "trail p i = map_option (\<lambda>c. c AND 0xc0 = 0x80) (rd p i)"

text \<open>
  The body of the loop of \<open>xmlUTF8Strlen\<close> on a non-zero first byte: how far
  \<open>utf\<close> advances, or \<open>Some None\<close> for \<open>return(-1)\<close>.
\<close>

definition utf8strlen_step :: "u8 list \<Rightarrow> nat option option" where
  "utf8strlen_step p =
     (case rd p 0 of
        None \<Rightarrow> None
      | Some c \<Rightarrow>
          if c AND 0x80 \<noteq> 0
          then case trail p 1 of
                 None \<Rightarrow> None
               | Some False \<Rightarrow> Some None
               | Some True \<Rightarrow>
                   if c AND 0xe0 = 0xe0
                   then case trail p 2 of
                          None \<Rightarrow> None
                        | Some False \<Rightarrow> Some None
                        | Some True \<Rightarrow>
                            if c AND 0xf0 = 0xf0
                            then if c AND 0xf8 \<noteq> 0xf0 then Some None
                                 else case trail p 3 of
                                        None \<Rightarrow> None
                                      | Some False \<Rightarrow> Some None
                                      | Some True \<Rightarrow> Some (Some 4)
                            else Some (Some 3)
                   else Some (Some 2)
          else Some (Some 1))"

lemma utf8strlen_step_pos: "utf8strlen_step p = Some (Some k) \<Longrightarrow> 0 < k"
  by (auto simp: utf8strlen_step_def split: option.splits if_splits bool.splits)

function utf8strlen_loop :: "u8 list \<Rightarrow> nat \<Rightarrow> int option" where
  "utf8strlen_loop p ret =
     (case p of
        [] \<Rightarrow> None
      | c # _ \<Rightarrow>
          if c = 0 then Some (if int ret > INT_MAX then 0 else int ret)
          else case utf8strlen_step p of
                 None \<Rightarrow> None
               | Some None \<Rightarrow> Some (-1)
               | Some (Some k) \<Rightarrow> utf8strlen_loop (drop k p) (Suc ret))"
  by pat_completeness auto
termination
  by (relation "measure (\<lambda>(p, _). length p)") (auto dest: utf8strlen_step_pos)

declare utf8strlen_loop.simps [simp del]

definition xmlUTF8Strlen :: "xptr \<Rightarrow> int option" where
  "xmlUTF8Strlen utf = (case utf of None \<Rightarrow> Some (-1) | Some p \<Rightarrow> utf8strlen_loop p 0)"

text \<open>
  \<open>xmlGetUTF8Char\<close>: the result and the new \<open>*len\<close>; \<open>len\<close> itself is \<open>None\<close> when
  the pointer to it is \<open>NULL\<close>.
\<close>

definition xmlGetUTF8Char :: "xptr \<Rightarrow> int option \<Rightarrow> (int \<times> int) option" where
  "xmlGetUTF8Char utf len =
     (let error = Some (-1, 0)
      in case (utf, len) of
        (Some p, Some n) \<Rightarrow>
          (case rd p 0 of
             None \<Rightarrow> None
           | Some b0 \<Rightarrow>
               if b0 < 0x80 then if n < 1 then error else Some (uint b0, 1)
               else if n < 2 then error
               else case rd p 1 of
                 None \<Rightarrow> None
               | Some b1 \<Rightarrow>
                   if b1 AND 0xc0 \<noteq> 0x80 then error
                   else if b0 < 0xe0
                   then if b0 < 0xc2 then error
                        else Some (uint (push_bit 6 (ucast b0 AND 0x1f) OR (ucast b1 AND 0x3f) :: u32), 2)
                   else if n < 3 then error
                   else case rd p 2 of
                     None \<Rightarrow> None
                   | Some b2 \<Rightarrow>
                       if b2 AND 0xc0 \<noteq> 0x80 then error
                       else if b0 < 0xf0
                       then let c = push_bit 12 (ucast b0 AND 0xf) OR push_bit 6 (ucast b1 AND 0x3f)
                                    OR (ucast b2 AND 0x3f) :: u32
                            in if c < 0x800 \<or> 0xd800 \<le> c \<and> c < 0xe000 then error else Some (uint c, 3)
                       else if n < 4 then error
                       else case rd p 3 of
                         None \<Rightarrow> None
                       | Some b3 \<Rightarrow>
                           if b3 AND 0xc0 \<noteq> 0x80 then error
                           else let c = push_bit 18 (ucast b0 AND 0x7) OR push_bit 12 (ucast b1 AND 0x3f)
                                        OR push_bit 6 (ucast b2 AND 0x3f) OR (ucast b3 AND 0x3f) :: u32
                                in if c < 0x10000 \<or> 0x110000 \<le> c then error else Some (uint c, 4))
      | _ \<Rightarrow> error)"

text \<open>
  The body of the loop of \<open>xmlCheckUTF8\<close>: \<open>ix\<close>, or \<open>Some None\<close> for \<open>return 0\<close>.
  The disjunctions are evaluated left to right and stop at the first true one.
\<close>

fun all_trail :: "u8 list \<Rightarrow> nat list \<Rightarrow> bool option" where
  "all_trail p [] = Some True"
| "all_trail p (i # is') =
     (case trail p i of None \<Rightarrow> None | Some False \<Rightarrow> Some False | Some True \<Rightarrow> all_trail p is')"

definition checkutf8_step :: "u8 \<Rightarrow> u8 list \<Rightarrow> nat option option" where
  "checkutf8_step c p =
     (if c AND 0x80 = 0 then Some (Some 1)
      else if c AND 0xe0 = 0xc0
      then map_option (\<lambda>ok. if ok then Some 2 else None) (all_trail p [1])
      else if c AND 0xf0 = 0xe0
      then map_option (\<lambda>ok. if ok then Some 3 else None) (all_trail p [1, 2])
      else if c AND 0xf8 = 0xf0
      then map_option (\<lambda>ok. if ok then Some 4 else None) (all_trail p [1, 2, 3])
      else Some None)"

lemma checkutf8_step_pos: "checkutf8_step c p = Some (Some k) \<Longrightarrow> 0 < k"
  by (auto simp: checkutf8_step_def split: if_splits)

function checkutf8_loop :: "u8 list \<Rightarrow> int option" where
  "checkutf8_loop p =
     (case p of
        [] \<Rightarrow> None
      | c # _ \<Rightarrow>
          if c = 0 then Some 1
          else case checkutf8_step c p of
                 None \<Rightarrow> None
               | Some None \<Rightarrow> Some 0
               | Some (Some ix) \<Rightarrow> checkutf8_loop (drop ix p))"
  by pat_completeness auto
termination
  by (relation "measure length") (auto dest: checkutf8_step_pos)

declare checkutf8_loop.simps [simp del]

definition xmlCheckUTF8 :: "xptr \<Rightarrow> int option" where
  "xmlCheckUTF8 utf = (case utf of None \<Rightarrow> Some 0 | Some p \<Rightarrow> checkutf8_loop p)"

text \<open>
  The inner loop of \<open>xmlUTF8Strsize\<close>,
  \<open>while ((ch<<=1) & 0x80) { if (*ptr == 0) break; ptr++; }\<close>.
\<close>

fun strsize_skip :: "u32 \<Rightarrow> u8 list \<Rightarrow> u8 list option" where
  "strsize_skip ch [] = (if push_bit 1 ch AND 0x80 = 0 then Some [] else None)"
| "strsize_skip ch (b # p) =
     (if push_bit 1 ch AND 0x80 = 0 then Some (b # p)
      else if b = 0 then Some (b # p) else strsize_skip (push_bit 1 ch) p)"

fun strsize_loop :: "nat \<Rightarrow> u8 list \<Rightarrow> u8 list option" where
  "strsize_loop 0 p = Some p"
| "strsize_loop (Suc len) [] = None"
| "strsize_loop (Suc len) (c # p) =
     (if c = 0 then Some (c # p)
      else if c AND 0x80 \<noteq> 0
      then case strsize_skip (ucast c) p of None \<Rightarrow> None | Some p' \<Rightarrow> strsize_loop len p'
      else strsize_loop len p)"

definition xmlUTF8Strsize :: "xptr \<Rightarrow> int \<Rightarrow> int option" where
  "xmlUTF8Strsize utf len =
     (case utf of
        None \<Rightarrow> Some 0
      | Some p \<Rightarrow>
          if len \<le> 0 then Some 0
          else case strsize_loop (nat len) p of
                 None \<Rightarrow> None
               | Some q \<Rightarrow> (let ret = int (length p) - int (length q) in Some (if ret > INT_MAX then 0 else ret)))"

definition xmlUTF8Strndup :: "bool \<Rightarrow> xptr \<Rightarrow> int \<Rightarrow> xptr option" where
  "xmlUTF8Strndup mem_ok utf len =
     (case utf of
        None \<Rightarrow> Some None
      | Some p \<Rightarrow>
          if len < 0 then Some None
          else case xmlUTF8Strsize utf len of
                 None \<Rightarrow> None
               | Some i \<Rightarrow>
                   if \<not> mem_ok then Some None
                   else map_option (\<lambda>bs. Some (bs @ [0])) (memcpy p (nat i)))"

text \<open>
  The skipping loop of \<open>xmlUTF8Strpos\<close>, \<open>xmlUTF8Strloc\<close> and \<open>xmlUTF8Strsub\<close>,
  \<open>while ((ch <<= 1) & 0x80) if ((*utf++ & 0xc0) != 0x80) return\<close>, and the whole
  step over one character whose first byte is \<open>ch\<close>.  \<open>Some None\<close> is the error return.
\<close>

fun strpos_skip :: "u32 \<Rightarrow> u8 list \<Rightarrow> u8 list option option" where
  "strpos_skip ch [] = (if push_bit 1 ch AND 0x80 = 0 then Some (Some []) else None)"
| "strpos_skip ch (b # p) =
     (if push_bit 1 ch AND 0x80 = 0 then Some (Some (b # p))
      else if b AND 0xc0 \<noteq> 0x80 then Some None else strpos_skip (push_bit 1 ch) p)"

definition strpos_char :: "u8 \<Rightarrow> u8 list \<Rightarrow> u8 list option option" where
  "strpos_char ch p =
     (if ch AND 0x80 \<noteq> 0
      then if ch AND 0xc0 \<noteq> 0xc0 then Some None else strpos_skip (ucast ch) p
      else Some (Some p))"

fun strpos_loop :: "nat \<Rightarrow> u8 list \<Rightarrow> xptr option" where
  "strpos_loop 0 p = Some (Some p)"
| "strpos_loop (Suc pos) [] = None"
| "strpos_loop (Suc pos) (ch # p) =
     (if ch = 0 then Some None
      else case strpos_char ch p of
             None \<Rightarrow> None
           | Some None \<Rightarrow> Some None
           | Some (Some p') \<Rightarrow> strpos_loop pos p')"

definition xmlUTF8Strpos :: "xptr \<Rightarrow> int \<Rightarrow> xptr option" where
  "xmlUTF8Strpos utf pos =
     (case utf of
        None \<Rightarrow> Some None
      | Some p \<Rightarrow> if pos < 0 then Some None else strpos_loop (nat pos) p)"

lemma strpos_skip_length: "strpos_skip ch p = Some (Some q) \<Longrightarrow> length q \<le> length p"
  by (induction ch p rule: strpos_skip.induct) (auto split: if_splits)

lemma strpos_char_length: "strpos_char c p = Some (Some q) \<Longrightarrow> length q \<le> length p"
  by (auto simp: strpos_char_def dest: strpos_skip_length split: if_splits)

function strloc_loop :: "u8 list \<Rightarrow> u8 list \<Rightarrow> int \<Rightarrow> nat \<Rightarrow> int option" where
  "strloc_loop p utfchar sz i =
     (case p of
        [] \<Rightarrow> None
      | ch # p' \<Rightarrow>
          if ch = 0 then Some (-1)
          else case xmlStrncmp False (Some p) (Some utfchar) sz of
                 None \<Rightarrow> None
               | Some r \<Rightarrow>
                   if r = 0 then Some (if int i > INT_MAX then 0 else int i)
                   else case strpos_char ch p' of
                          None \<Rightarrow> None
                        | Some None \<Rightarrow> Some (-1)
                        | Some (Some q) \<Rightarrow> strloc_loop q utfchar sz (Suc i))"
  by pat_completeness auto
termination
  by (relation "measure (\<lambda>(p, _). length p)") (auto dest: strpos_char_length)

declare strloc_loop.simps [simp del]

definition xmlUTF8Strloc :: "xptr \<Rightarrow> xptr \<Rightarrow> int option" where
  "xmlUTF8Strloc utf utfchar =
     (case (utf, utfchar) of
        (Some p, Some q) \<Rightarrow>
          (case xmlUTF8Strsize utfchar 1 of None \<Rightarrow> None | Some sz \<Rightarrow> strloc_loop p q sz 0)
      | _ \<Rightarrow> Some (-1))"

definition xmlUTF8Strsub :: "bool \<Rightarrow> xptr \<Rightarrow> int \<Rightarrow> int \<Rightarrow> xptr option" where
  "xmlUTF8Strsub mem_ok utf start len =
     (case utf of
        None \<Rightarrow> Some None
      | Some p \<Rightarrow>
          if start < 0 then Some None
          else if len < 0 then Some None
          else case strpos_loop (nat start) p of
                 None \<Rightarrow> None
               | Some None \<Rightarrow> Some None
               | Some (Some q) \<Rightarrow> xmlUTF8Strndup mem_ok (Some q) len)"

section \<open>Escaping format strings\<close>

fun count_percent :: "u8 list \<Rightarrow> nat \<Rightarrow> nat \<Rightarrow> (nat \<times> nat) option" where
  "count_percent [] msgLen count = None"
| "count_percent (c # p) msgLen count =
     (if c = 0 then Some (msgLen, count)
      else count_percent p (Suc msgLen) (if c = 0x25 then Suc count else count))"

fun escape_percent :: "u8 list \<Rightarrow> u8 list option" where
  "escape_percent [] = None"
| "escape_percent (c # p) =
     (if c = 0 then Some []
      else map_option (\<lambda>r. if c = 0x25 then c # 0x25 # r else c # r) (escape_percent p))"

text \<open>The result and the new \<open>*msg\<close>; the argument is \<open>*msg\<close>.\<close>

definition xmlEscapeFormatString :: "bool \<Rightarrow> xptr \<Rightarrow> (xptr \<times> xptr) option" where
  "xmlEscapeFormatString mem_ok msg =
     (case msg of
        None \<Rightarrow> Some (None, msg)
      | Some p \<Rightarrow>
          (case count_percent p 0 0 of
             None \<Rightarrow> None
           | Some (msgLen, count) \<Rightarrow>
               if count = 0 then Some (msg, msg)
               else if int count > INT_MAX \<or> int msgLen > INT_MAX - int count then Some (None, msg)
               else if \<not> mem_ok then Some (None, None)
               else map_option (\<lambda>bs. (Some (bs @ [0]), Some (bs @ [0]))) (escape_percent p)))"

section \<open>Memory safety on terminated strings\<close>

definition terminated :: "u8 list \<Rightarrow> bool" where
  "terminated p \<longleftrightarrow> 0 \<in> set p"

named_theorems safe_intros \<open>routines that stay in bounds on terminated strings\<close>

lemma terminated_simps [simp]:
  "\<not> terminated []" "terminated (c # p) \<longleftrightarrow> c = 0 \<or> terminated p"
  by (auto simp: terminated_def)

lemma terminated_cstring: "terminated p \<longleftrightarrow> (\<exists>s r. p = s @ 0 # r \<and> cstring s)"
  unfolding terminated_def cstring_def by (metis in_set_conv_decomp split_list_first)

lemma strlen_safe [safe_intros]: "terminated p \<Longrightarrow> strlen p \<noteq> None"
  by (induction p) auto

lemma strlen_cstring [simp]: "cstring s \<Longrightarrow> strlen (s @ 0 # r) = Some (length s)"
  by (induction s) (auto simp: cstring_def)

lemma strlen_length: "strlen p = Some n \<Longrightarrow> n < length p \<and> terminated p"
  by (induction p arbitrary: n) (auto split: if_splits)

lemma casemap_0 [simp]: "casemap c = 0 \<longleftrightarrow> c = 0"
proof -
  have "(casemap c = 0) = (c = 0)" unfolding casemap_def by (rule byte_all) code_simp
  then show ?thesis .
qed

lemma strcmp_loop_safe [safe_intros]:
  "(\<And>c. f c = 0 \<longleftrightarrow> c = 0) \<Longrightarrow> terminated p \<Longrightarrow> terminated q \<Longrightarrow> strcmp_loop f p q \<noteq> None"
  by (induction f p q rule: strcmp_loop.induct) (auto simp: Let_def, (metis uint_0_iff)+)

lemma strncmp_loop_safe [safe_intros]:
  "(\<And>c. f c = 0 \<longleftrightarrow> c = 0) \<Longrightarrow> terminated p \<Longrightarrow> terminated q \<Longrightarrow> strncmp_loop f p q n \<noteq> None"
  by (induction f p q n rule: strncmp_loop.induct) (auto simp: Let_def, (metis uint_0_iff)+)

lemma strequal_loop_safe [safe_intros]:
  "terminated p \<Longrightarrow> terminated q \<Longrightarrow> strequal_loop p q \<noteq> None"
  by (induction p q rule: strequal_loop.induct) auto

lemma strchr_loop_safe [safe_intros]: "terminated p \<Longrightarrow> strchr_loop p v \<noteq> None"
  by (induction p) auto

lemma strstr_loop_safe [safe_intros]:
  assumes f: "\<And>c. f c = 0 \<longleftrightarrow> c = 0" and q: "terminated q"
  shows "terminated p \<Longrightarrow> strstr_loop f p q n \<noteq> None"
proof (induction p)
  case Nil
  then show ?case by simp
next
  case (Cons c p)
  obtain v vs where v: "q = v # vs" using q by (cases q) auto
  obtain r where "strncmp_loop f (c # p) q n = Some r"
    using strncmp_loop_safe [OF f Cons.prems q, of n] by auto
  then show ?case using Cons by (auto simp: v)
qed

lemma strskip_safe [safe_intros]: "terminated p \<Longrightarrow> strskip p n \<noteq> None"
  by (induction p n rule: strskip.induct) auto

lemma strskip_terminated: "terminated p \<Longrightarrow> strskip p n = Some (Some q) \<Longrightarrow> terminated q"
  by (induction p n rule: strskip.induct) (auto split: if_splits)

lemma trail_Cons [simp]: "trail (c # p) (Suc i) = trail p i" "trail (c # p) 0 = Some (c AND 0xc0 = 0x80)"
  by (simp_all add: trail_def rd_def)

lemma trail_Nil [simp]: "trail [] i = None"
  by (simp add: trail_def rd_def)

lemma trail_123 [simp]:
  "trail (c # p) 1 = trail p 0" "trail (c # d # p) 2 = trail p 0" "trail (c # d # e # p) 3 = trail p 0"
  by (simp_all add: numeral_eq_Suc)

lemma trail_nonzero: "b AND 0xc0 = 0x80 \<Longrightarrow> b \<noteq> (0 :: u8)" by auto

lemma utf8strlen_step_safe:
  assumes "terminated p" "p ! 0 \<noteq> 0"
  shows "utf8strlen_step p \<noteq> None \<and> (\<forall>k. utf8strlen_step p = Some (Some k) \<longrightarrow> terminated (drop k p))"
proof -
  obtain c p1 where p: "p = c # p1" "c \<noteq> 0" using assms by (cases p) auto
  then have "terminated p1" using assms by simp
  then obtain d p2 where p1: "p1 = d # p2" "d = 0 \<or> terminated p2" by (cases p1) auto
  then consider "d = 0" | e p3 where "p2 = e # p3" "e = 0 \<or> terminated p3" by (cases p2) auto
  then show ?thesis
  proof cases
    case 1
    then show ?thesis by (auto simp: utf8strlen_step_def rd_def p p1)
  next
    case 2
    then show ?thesis
      using p1(2) by (cases p3)
        (auto simp: utf8strlen_step_def rd_def p p1 dest: trail_nonzero split: bool.splits if_splits)
  qed
qed

lemma utf8strlen_loop_safe [safe_intros]: "terminated p \<Longrightarrow> utf8strlen_loop p n \<noteq> None"
proof (induction p n rule: utf8strlen_loop.induct)
  case (1 p n)
  then show ?case
    using utf8strlen_step_safe [of p]
    by (subst utf8strlen_loop.simps) (auto split: list.splits option.splits)
qed

lemma checkutf8_step_safe:
  assumes "terminated p" "p ! 0 \<noteq> 0"
  shows "checkutf8_step c p \<noteq> None \<and> (\<forall>k. checkutf8_step c p = Some (Some k) \<longrightarrow> terminated (drop k p))"
proof -
  obtain c' p1 where p: "p = c' # p1" "c' \<noteq> 0" using assms by (cases p) auto
  then have "terminated p1" using assms by simp
  then obtain d p2 where p1: "p1 = d # p2" "d = 0 \<or> terminated p2" by (cases p1) auto
  then consider "d = 0" | e p3 where "p2 = e # p3" "e = 0 \<or> terminated p3" by (cases p2) auto
  then show ?thesis
  proof cases
    case 1
    then show ?thesis by (auto simp: checkutf8_step_def p p1)
  next
    case 2
    then show ?thesis
      using p1(2) by (cases p3)
        (auto simp: checkutf8_step_def p p1 dest: trail_nonzero split: bool.splits if_splits)
  qed
qed

lemma checkutf8_loop_safe [safe_intros]: "terminated p \<Longrightarrow> checkutf8_loop p \<noteq> None"
proof (induction p rule: checkutf8_loop.induct)
  case (1 p)
  then show ?case
    using checkutf8_step_safe [of p "p ! 0"]
    by (subst checkutf8_loop.simps) (auto split: list.splits option.splits)
qed

lemma strsize_skip_safe: "terminated p \<Longrightarrow> \<exists>q. strsize_skip ch p = Some q \<and> terminated q"
  by (induction ch p rule: strsize_skip.induct) auto

lemma strsize_loop_safe: "terminated p \<Longrightarrow> \<exists>q. strsize_loop n p = Some q \<and> terminated q"
proof (induction n p rule: strsize_loop.induct)
  case (3 len c p)
  show ?case
  proof (cases "c = 0")
    case False
    then have "terminated p" using 3 by simp
    then obtain q where q: "strsize_skip (ucast c) p = Some q" "terminated q" using strsize_skip_safe by blast
    show ?thesis using False 3(1) [OF False _ q] 3(2) \<open>terminated p\<close> q by auto
  qed simp
qed simp_all

lemma xmlUTF8Strsize_safe [safe_intros]:
  "terminated p \<Longrightarrow> \<exists>sz. xmlUTF8Strsize (Some p) n = Some sz \<and> nat sz \<le> length p"
  using strsize_loop_safe [of p "nat n"] by (auto simp: xmlUTF8Strsize_def Let_def)

lemma strpos_skip_safe:
  "terminated p \<Longrightarrow> strpos_skip ch p \<noteq> None \<and> (\<forall>q. strpos_skip ch p = Some (Some q) \<longrightarrow> terminated q)"
  by (induction ch p rule: strpos_skip.induct) (auto dest: trail_nonzero)

lemma strpos_char_safe:
  "terminated p \<Longrightarrow> strpos_char ch p \<noteq> None \<and> (\<forall>q. strpos_char ch p = Some (Some q) \<longrightarrow> terminated q)"
  using strpos_skip_safe by (auto simp: strpos_char_def)

lemma strpos_loop_safe [safe_intros]:
  "terminated p \<Longrightarrow> strpos_loop n p \<noteq> None \<and> (\<forall>q. strpos_loop n p = Some (Some q) \<longrightarrow> terminated q)"
proof (induction n p rule: strpos_loop.induct)
  case (3 pos ch p)
  then show ?case using strpos_char_safe [of p ch] by (cases "ch = 0") (auto split: option.splits)
qed simp_all

lemma strloc_loop_safe [safe_intros]:
  "terminated p \<Longrightarrow> terminated q \<Longrightarrow> strloc_loop p q sz i \<noteq> None"
proof (induction p q sz i rule: strloc_loop.induct)
  case (1 p q sz i)
  have cmp: "xmlStrncmp False (Some p) (Some q) sz \<noteq> None"
    using strncmp_loop_safe [OF _ 1(2,3), of "\<lambda>c. c"] by (simp add: xmlStrncmp_def cmp_pointers_def)
  show ?case
  proof (cases p)
    case Nil
    then show ?thesis using 1(2) by simp
  next
    case (Cons ch p')
    then have "ch = 0 \<or> terminated p'" using 1(2) by simp
    then show ?thesis
      using 1 cmp strpos_char_safe [of p' ch] Cons
      by (subst strloc_loop.simps) (auto split: option.splits)
  qed
qed

lemma count_percent_safe [safe_intros]: "terminated p \<Longrightarrow> count_percent p m n \<noteq> None"
  by (induction p m n rule: count_percent.induct) auto

lemma escape_percent_safe [safe_intros]: "terminated p \<Longrightarrow> escape_percent p \<noteq> None"
  by (induction p) auto

lemma charcpy_safe [safe_intros]: "terminated p \<Longrightarrow> charcpy p n \<noteq> None"
  by (induction p n rule: charcpy.induct) auto

lemma xmlStrlen_safe [safe_intros]: "terminated p \<Longrightarrow> xmlStrlen (Some p) \<noteq> None"
  using strlen_safe by (simp add: xmlStrlen_def)

section \<open>Pointers and allocations\<close>

text \<open>A string literal of the source.\<close>

definition lit :: "string \<Rightarrow> u8 list" where
  "lit s = map of_char s @ [0]"

text \<open>One allocation.\<close>

definition malloc :: "bool list \<Rightarrow> bool \<times> bool list" where
  "malloc mem = (case mem of [] \<Rightarrow> (True, []) | b # m \<Rightarrow> (b, m))"

text \<open>Every allocation to come succeeds.\<close>

definition mem_ok :: "bool list \<Rightarrow> bool" where
  "mem_ok mem \<longleftrightarrow> False \<notin> set mem"

lemma malloc_cases:
  obtains ok mem' where "malloc mem = (ok, mem')" "set mem' \<subseteq> set mem" "\<not> ok \<longrightarrow> False \<in> set mem"
  by (cases mem) (auto simp: malloc_def)

text \<open>A pointer that is \<open>NULL\<close> or points to a terminated string.\<close>

definition ptr_ok :: "xptr \<Rightarrow> bool" where
  "ptr_ok p \<longleftrightarrow> (case p of None \<Rightarrow> True | Some s \<Rightarrow> terminated s)"

lemma ptr_ok_simps [simp]: "ptr_ok None" "ptr_ok (Some s) \<longleftrightarrow> terminated s"
  by (simp_all add: ptr_ok_def)

lemma terminated_append [simp]: "terminated (s @ t) \<longleftrightarrow> terminated s \<or> terminated t"
  by (auto simp: terminated_def)

text \<open>The characters of a terminated string.\<close>

fun ctext :: "u8 list \<Rightarrow> u8 list" where
  "ctext [] = []"
| "ctext (c # p) = (if c = 0 then [] else c # ctext p)"

lemma ctext_cstring: "cstring s \<Longrightarrow> ctext (s @ 0 # r) = s"
  by (induction s) (auto simp: cstring_def)

section \<open>UTF-8 encoding\<close>

text \<open>The encoding of a Unicode scalar value, as in RFC 3629.\<close>

definition scalar :: "nat \<Rightarrow> bool" where
  "scalar c \<longleftrightarrow> c < 0xd800 \<or> 0xe000 \<le> c \<and> c < 0x110000"

definition utf8_enc :: "nat \<Rightarrow> u8 list" where
  "utf8_enc c =
     (if c < 0x80 then [of_nat c]
      else if c < 0x800 then [of_nat (0xc0 + c div 64), of_nat (0x80 + c mod 64)]
      else if c < 0x10000
      then [of_nat (0xe0 + c div 4096), of_nat (0x80 + c div 64 mod 64), of_nat (0x80 + c mod 64)]
      else [of_nat (0xf0 + c div 262144), of_nat (0x80 + c div 4096 mod 64),
            of_nat (0x80 + c div 64 mod 64), of_nat (0x80 + c mod 64)])"

lemma unat_push_or:
  fixes x y :: u32
  assumes "unat y < 2 ^ k" "unat x < 2 ^ j" "j + k \<le> 32"
  shows "unat (push_bit k x OR y) = unat x * 2 ^ k + unat y"
proof -
  have "\<not> bit y i" if "k \<le> i" for i
  proof
    assume b: "bit y i"
    have "take_bit k (unat y) = unat y" using assms(1) by (simp add: take_bit_nat_eq_self)
    moreover have "bit (unat y) i" using b by (simp add: bit_unsigned_iff)
    ultimately show False using that by (metis bit_take_bit_iff not_le)
  qed
  then have "push_bit k x AND y = 0" by (intro bit_word_eqI) (auto simp: bit_simps)
  then have "push_bit k x OR y = push_bit k x + y" by (simp add: disjunctive_add_eq_or)
  also have "\<dots> = of_nat (unat x * 2 ^ k + unat y)" by (simp add: push_bit_eq_mult)
  finally have eq: "push_bit k x OR y = of_nat (unat x * 2 ^ k + unat y)" .
  have "unat x * 2 ^ k + unat y < (unat x + 1) * 2 ^ k" using assms(1) by simp
  also have "\<dots> \<le> 2 ^ j * 2 ^ k" using assms(2) by (intro mult_le_mono1) simp
  also have "\<dots> \<le> 2 ^ 32" using power_increasing [OF assms(3), of "2 :: nat"] by (simp add: power_add)
  finally show ?thesis unfolding eq unat_of_nat by (simp add: take_bit_nat_eq_self)
qed

lemma byte_masks:
  "uint (b AND 0x1f :: u8) = uint b mod 32" "uint (b AND 0x3f :: u8) = uint b mod 64"
  "uint (b AND 0xf :: u8) = uint b mod 16" "uint (b AND 0x7 :: u8) = uint b mod 8"
  by ((rule byte_all), code_simp)+

lemma trail_range: "(b AND 0xc0 = 0x80) \<longleftrightarrow> 0x80 \<le> b \<and> b < (0xc0 :: u8)"
  by (rule byte_all) code_simp

lemma unat_masks:
  "unat (ucast b AND 0x1f :: u32) = unat (b :: u8) mod 32" "unat (ucast b AND 0x3f :: u32) = unat b mod 64"
  "unat (ucast b AND 0xf :: u32) = unat b mod 16" "unat (ucast b AND 0x7 :: u32) = unat b mod 8"
proof -
  have u: "(ucast b AND m :: u32) = ucast (b AND ucast m)" for m :: u32
    by (rule bit_word_eqI) (auto simp: bit_simps dest: bit_imp_le_length)
  have n: "unat (ucast (x :: u8) :: u32) = unat x" for x
  proof -
    have "unat x < 2 ^ 32" using unsigned_less [of x, where 'a = nat] by simp
    then show ?thesis by (simp add: unsigned_ucast_eq take_bit_nat_eq_self)
  qed
  have "unat (b AND 0x1f) = unat b mod 32" "unat (b AND 0x3f) = unat b mod 64"
    "unat (b AND 0xf) = unat b mod 16" "unat (b AND 0x7) = unat b mod 8"
    using byte_masks [of b] by (simp_all only: unat_eq_nat_uint) (simp_all add: nat_mod_distrib)
  then show "unat (ucast b AND 0x1f :: u32) = unat (b :: u8) mod 32" "unat (ucast b AND 0x3f :: u32) = unat b mod 64"
    "unat (ucast b AND 0xf :: u32) = unat b mod 16" "unat (ucast b AND 0x7 :: u32) = unat b mod 8"
    by (simp_all add: u n)
qed

lemma decode_arith:
  fixes b0 b1 b2 b3 :: u8
  shows "unat (push_bit 6 (ucast b0 AND 0x1f) OR (ucast b1 AND 0x3f) :: u32) = unat b0 mod 32 * 64 + unat b1 mod 64"
    "unat (push_bit 12 (ucast b0 AND 0xf) OR push_bit 6 (ucast b1 AND 0x3f) OR (ucast b2 AND 0x3f) :: u32) =
       unat b0 mod 16 * 4096 + unat b1 mod 64 * 64 + unat b2 mod 64"
    "unat (push_bit 18 (ucast b0 AND 0x7) OR push_bit 12 (ucast b1 AND 0x3f) OR push_bit 6 (ucast b2 AND 0x3f)
        OR (ucast b3 AND 0x3f) :: u32) =
       unat b0 mod 8 * 262144 + unat b1 mod 64 * 4096 + unat b2 mod 64 * 64 + unat b3 mod 64"
proof -
  have two: "unat (push_bit 6 (ucast x AND 0x3f) OR (ucast y AND 0x3f) :: u32) = unat x mod 64 * 64 + unat y mod 64"
    for x y :: u8 by (subst unat_push_or [where j = 6]) (simp_all add: unat_masks)
  have lt: "a mod 64 * 64 + b mod 64 < 4096" "a mod 64 * 4096 + b mod 64 * 64 + c mod 64 < 262144" for a b c :: nat
    using mod_less_divisor [of 64 a] mod_less_divisor [of 64 b] mod_less_divisor [of 64 c] by linarith+
  have three: "unat (push_bit 12 (ucast x AND 0x3f) OR push_bit 6 (ucast y AND 0x3f) OR (ucast z AND 0x3f) :: u32) =
      unat x mod 64 * 4096 + unat y mod 64 * 64 + unat z mod 64" for x y z :: u8
    by (subst unat_push_or [where j = 6]; (simp only: unat_masks two)?) (simp_all add: lt)
  show "unat (push_bit 6 (ucast b0 AND 0x1f) OR (ucast b1 AND 0x3f) :: u32) = unat b0 mod 32 * 64 + unat b1 mod 64"
    by (subst unat_push_or [where j = 5]) (simp_all add: unat_masks)
  show "unat (push_bit 12 (ucast b0 AND 0xf) OR push_bit 6 (ucast b1 AND 0x3f) OR (ucast b2 AND 0x3f) :: u32) =
       unat b0 mod 16 * 4096 + unat b1 mod 64 * 64 + unat b2 mod 64"
    by (subst unat_push_or [where j = 4]; (simp only: unat_masks two)?) (simp_all add: lt)
  show "unat (push_bit 18 (ucast b0 AND 0x7) OR push_bit 12 (ucast b1 AND 0x3f) OR push_bit 6 (ucast b2 AND 0x3f)
        OR (ucast b3 AND 0x3f) :: u32) =
       unat b0 mod 8 * 262144 + unat b1 mod 64 * 4096 + unat b2 mod 64 * 64 + unat b3 mod 64"
    by (subst unat_push_or [where j = 3]; (simp only: unat_masks three)?) (simp_all add: lt)
qed

text \<open>The decoder in arithmetic: the error tests and the value on each branch.\<close>

lemma less_u8_nat: "(b :: u8) < numeral n \<longleftrightarrow> unat b < unat (numeral n :: u8)" "numeral n \<le> (b :: u8) \<longleftrightarrow> unat (numeral n :: u8) \<le> unat b"
  by (simp_all add: word_less_nat_alt word_le_nat_alt)

lemma less_u32_nat: "(c :: u32) < numeral n \<longleftrightarrow> unat c < unat (numeral n :: u32)" "numeral n \<le> (c :: u32) \<longleftrightarrow> unat (numeral n :: u32) \<le> unat c"
  by (simp_all add: word_less_nat_alt word_le_nat_alt)

lemma unat_of_nat_u8: "n < 256 \<Longrightarrow> unat (of_nat n :: u8) = n"
  by (simp add: unat_of_nat take_bit_nat_eq_self)

lemma rd_Cons [simp]: "rd (c # p) 0 = Some c" "rd (c # p) (Suc i) = rd p i" "rd [] i = None"
  "rd (c # p) 1 = rd p 0" "rd (c # d # p) 2 = rd p 0" "rd (c # d # e # p) 3 = rd p 0"
  by (simp_all add: rd_def numeral_eq_Suc)

lemmas decode_simps = xmlGetUTF8Char_def Let_def trail_range less_u8_nat less_u32_nat uint_nat decode_arith
  option.case prod.case rd_Cons

lemma get_utf8_1:
  "unat b0 < 0x80 \<Longrightarrow> xmlGetUTF8Char (Some (b0 # r)) (Some n) = (if n < 1 then Some (-1, 0) else Some (int (unat b0), 1))"
  by (simp only: decode_simps) simp

lemma get_utf8_2:
  "0x80 \<le> unat b0 \<Longrightarrow> unat b0 < 0xe0 \<Longrightarrow> xmlGetUTF8Char (Some (b0 # b1 # r)) (Some n) =
     (if 2 \<le> n \<and> 0xc2 \<le> unat b0 \<and> 0x80 \<le> unat b1 \<and> unat b1 < 0xc0
      then Some (int (unat b0 mod 32 * 64 + unat b1 mod 64), 2) else Some (-1, 0))"
  by (simp only: decode_simps) simp

lemma get_utf8_3:
  "0xe0 \<le> unat b0 \<Longrightarrow> unat b0 < 0xf0 \<Longrightarrow> xmlGetUTF8Char (Some (b0 # b1 # b2 # r)) (Some n) =
     (let c = unat b0 mod 16 * 4096 + unat b1 mod 64 * 64 + unat b2 mod 64
      in if 3 \<le> n \<and> 0x80 \<le> unat b1 \<and> unat b1 < 0xc0 \<and> 0x80 \<le> unat b2 \<and> unat b2 < 0xc0 \<and> 0x800 \<le> c \<and> scalar c
         then Some (int c, 3) else Some (-1, 0))"
  by (simp only: decode_simps) (auto simp: scalar_def)

lemma get_utf8_4:
  "0xf0 \<le> unat b0 \<Longrightarrow> xmlGetUTF8Char (Some (b0 # b1 # b2 # b3 # r)) (Some n) =
     (let c = unat b0 mod 8 * 262144 + unat b1 mod 64 * 4096 + unat b2 mod 64 * 64 + unat b3 mod 64
      in if 4 \<le> n \<and> 0x80 \<le> unat b1 \<and> unat b1 < 0xc0 \<and> 0x80 \<le> unat b2 \<and> unat b2 < 0xc0 \<and>
            0x80 \<le> unat b3 \<and> unat b3 < 0xc0 \<and> 0x10000 \<le> c \<and> c < 0x110000
         then Some (int c, 4) else Some (-1, 0))"
  by (simp only: decode_simps) auto


text \<open>The bytes of an encoding, as numbers.\<close>

lemma enc_1: "c < 0x80 \<Longrightarrow> utf8_enc c = [of_nat c] \<and> unat (of_nat c :: u8) = c"
  using unat_of_nat_u8 [of c] by (simp add: utf8_enc_def)

lemma enc_2:
  assumes "0x80 \<le> c" "c < 0x800"
  obtains b0 b1 where "utf8_enc c = [b0, b1]" "unat b0 = 0xc0 + c div 64" "unat b1 = 0x80 + c mod 64"
    "2 \<le> c div 64" "c div 64 < 32"
proof -
  have d: "2 \<le> c div 64" "c div 64 < 32" "c mod 64 < 64"
    using assms by (simp_all add: div_less_iff_less_mult less_eq_div_iff_mult_less_eq)
  have u: "unat (of_nat (0xc0 + c div 64) :: u8) = 0xc0 + c div 64" "unat (of_nat (0x80 + c mod 64) :: u8) = 0x80 + c mod 64"
    by (rule unat_of_nat_u8, use d in linarith)+
  show thesis by (rule that [OF _ u d(1,2)]) (use assms in \<open>simp only: utf8_enc_def not_less [symmetric] if_False if_True\<close>)
qed

lemma enc_3:
  assumes "0x800 \<le> c" "c < 0x10000"
  obtains b0 b1 b2 where "utf8_enc c = [b0, b1, b2]" "unat b0 = 0xe0 + c div 4096"
    "unat b1 = 0x80 + c div 64 mod 64" "unat b2 = 0x80 + c mod 64" "c div 4096 < 16"
proof -
  have n: "\<not> c < 0x80" "\<not> c < 0x800" using assms by linarith+
  have d: "c div 4096 < 16" "c div 64 mod 64 < 64" "c mod 64 < 64"
    using assms by (simp_all add: div_less_iff_less_mult)
  have u: "unat (of_nat (0xe0 + c div 4096) :: u8) = 0xe0 + c div 4096"
    "unat (of_nat (0x80 + c div 64 mod 64) :: u8) = 0x80 + c div 64 mod 64"
    "unat (of_nat (0x80 + c mod 64) :: u8) = 0x80 + c mod 64"
    by (rule unat_of_nat_u8, use d in linarith)+
  show thesis by (rule that [OF _ u d(1)]) (simp only: utf8_enc_def n if_False if_True assms(2))
qed

lemma enc_4:
  assumes "0x10000 \<le> c" "c < 0x110000"
  obtains b0 b1 b2 b3 where "utf8_enc c = [b0, b1, b2, b3]" "unat b0 = 0xf0 + c div 262144"
    "unat b1 = 0x80 + c div 4096 mod 64" "unat b2 = 0x80 + c div 64 mod 64" "unat b3 = 0x80 + c mod 64"
    "c div 262144 < 5"
proof -
  have n: "\<not> c < 0x80" "\<not> c < 0x800" "\<not> c < 0x10000" using assms by linarith+
  have d: "c div 262144 < 5" "c div 4096 mod 64 < 64" "c div 64 mod 64 < 64" "c mod 64 < 64"
    using assms by (simp_all add: div_less_iff_less_mult)
  have u: "unat (of_nat (0xf0 + c div 262144) :: u8) = 0xf0 + c div 262144"
    "unat (of_nat (0x80 + c div 4096 mod 64) :: u8) = 0x80 + c div 4096 mod 64"
    "unat (of_nat (0x80 + c div 64 mod 64) :: u8) = 0x80 + c div 64 mod 64"
    "unat (of_nat (0x80 + c mod 64) :: u8) = 0x80 + c mod 64"
    by (rule unat_of_nat_u8, use d in linarith)+
  show thesis by (rule that [OF _ u d(1)]) (simp only: utf8_enc_def n if_False if_True assms(2))
qed

lemma digits64:
  "c div 64 * 64 + c mod 64 = (c :: nat)"
  "c div 4096 * 4096 + c div 64 mod 64 * 64 + c mod 64 = c"
  "c div 262144 * 262144 + c div 4096 mod 64 * 4096 + c div 64 mod 64 * 64 + c mod 64 = c"
proof -
  have d: "c div 4096 = c div 64 div 64" "c div 262144 = c div 64 div 64 div 64" by (simp_all add: div_mult2_eq [symmetric])
  have alg: "s * 4096 + t * 64 + r = c \<and> u * 262144 + v * 4096 + t * 64 + r = c"
    if "q * 64 + r = c" "s * 64 + t = q" "u * 64 + v = s" for q r s t u v :: nat
    unfolding that [symmetric] by simp
  show "c div 64 * 64 + c mod 64 = c" by (rule div_mult_mod_eq)
  show "c div 4096 * 4096 + c div 64 mod 64 * 64 + c mod 64 = c"
    "c div 262144 * 262144 + c div 4096 mod 64 * 4096 + c div 64 mod 64 * 64 + c mod 64 = c"
    using alg [OF div_mult_mod_eq div_mult_mod_eq div_mult_mod_eq] unfolding d by blast+
qed

lemma byte_digit:
  "n = 0xc0 + x \<Longrightarrow> x < 32 \<Longrightarrow> n mod 32 = x" "n = 0x80 + x \<Longrightarrow> x < 64 \<Longrightarrow> n mod 64 = x"
  "n = 0xe0 + x \<Longrightarrow> x < 16 \<Longrightarrow> n mod 16 = x" "n = 0xf0 + x \<Longrightarrow> x < 5 \<Longrightarrow> n mod 8 = x" for n x :: nat
  using mod_mult_self3 [of 6 32 x] mod_mult_self3 [of 2 64 x] mod_mult_self3 [of 14 16 x] mod_mult_self3 [of 30 8 x]
  by simp_all

lemma decode_enc:
  assumes "scalar c" "int (length (utf8_enc c)) \<le> n"
  shows "xmlGetUTF8Char (Some (utf8_enc c @ r)) (Some n) = Some (int c, int (length (utf8_enc c)))"
proof -
  consider "c < 0x80" | "0x80 \<le> c" "c < 0x800" | "0x800 \<le> c" "c < 0x10000" | "0x10000 \<le> c" "c < 0x110000"
    using assms(1) unfolding scalar_def by linarith
  then show ?thesis
  proof cases
    case 1
    then show ?thesis using enc_1 [of c] assms(2) by (simp add: get_utf8_1)
  next
    case 2
    then obtain b0 b1 where e: "utf8_enc c = [b0, b1]" "unat b0 = 0xc0 + c div 64" "unat b1 = 0x80 + c mod 64"
      "2 \<le> c div 64" "c div 64 < 32" by (rule enc_2)
    have m: "unat b0 mod 32 = c div 64" "unat b1 mod 64 = c mod 64"
      using byte_digit(1) [OF e(2)] byte_digit(2) [OF e(3)] e(5) by simp_all
    have "0xc2 \<le> unat b0" "unat b0 < 0xe0" "0x80 \<le> unat b1" "unat b1 < 0xc0" using e by simp_all
    then show ?thesis
      using assms(2) digits64(1) [of c]
      by (simp only: e(1) append_Cons append_Nil) (subst get_utf8_2; simp add: m flip: of_nat_mult of_nat_add)
  next
    case 3
    then obtain b0 b1 b2 where e: "utf8_enc c = [b0, b1, b2]" "unat b0 = 0xe0 + c div 4096"
      "unat b1 = 0x80 + c div 64 mod 64" "unat b2 = 0x80 + c mod 64" "c div 4096 < 16" by (rule enc_3)
    have m: "unat b0 mod 16 = c div 4096" "unat b1 mod 64 = c div 64 mod 64" "unat b2 mod 64 = c mod 64"
      using byte_digit(3) [OF e(2)] byte_digit(2) [OF e(3)] byte_digit(2) [OF e(4)] e(5) by simp_all
    have "0xe0 \<le> unat b0" "unat b0 < 0xf0" "0x80 \<le> unat b1" "unat b1 < 0xc0" "0x80 \<le> unat b2" "unat b2 < 0xc0"
      using e by simp_all
    then show ?thesis
      using assms digits64(2) [of c] 3
      by (simp only: e(1) append_Cons append_Nil) (subst get_utf8_3; simp add: m Let_def)
  next
    case 4
    then obtain b0 b1 b2 b3 where e: "utf8_enc c = [b0, b1, b2, b3]" "unat b0 = 0xf0 + c div 262144"
      "unat b1 = 0x80 + c div 4096 mod 64" "unat b2 = 0x80 + c div 64 mod 64" "unat b3 = 0x80 + c mod 64"
      "c div 262144 < 5" by (rule enc_4)
    have m: "unat b0 mod 8 = c div 262144" "unat b1 mod 64 = c div 4096 mod 64"
      "unat b2 mod 64 = c div 64 mod 64" "unat b3 mod 64 = c mod 64"
      using byte_digit(4) [OF e(2)] byte_digit(2) [OF e(3)] byte_digit(2) [OF e(4)] byte_digit(2) [OF e(5)] e(6)
      by simp_all
    have "0xf0 \<le> unat b0" "0x80 \<le> unat b1" "unat b1 < 0xc0" "0x80 \<le> unat b2" "unat b2 < 0xc0"
      "0x80 \<le> unat b3" "unat b3 < 0xc0" using e by simp_all
    then show ?thesis
      using assms digits64(3) [of c] 4
      by (simp only: e(1) append_Cons append_Nil) (subst get_utf8_4; simp add: m Let_def)
  qed
qed

lemma of_nat_unat_u8: "n = unat (b :: u8) \<Longrightarrow> of_nat n = b"
  by simp

lemma byte_undigit:
  "0x80 \<le> n \<Longrightarrow> n < 0xc0 \<Longrightarrow> n mod 64 = n - 0x80" "0xc0 \<le> n \<Longrightarrow> n < 0xe0 \<Longrightarrow> n mod 32 = n - 0xc0"
  "0xe0 \<le> n \<Longrightarrow> n < 0xf0 \<Longrightarrow> n mod 16 = n - 0xe0" "0xf0 \<le> n \<Longrightarrow> n < 0xf8 \<Longrightarrow> n mod 8 = n - 0xf0" for n :: nat
proof -
  have sub: "n mod m = n - k * m" if "k * m \<le> n" "n < (k + 1) * m" for k m
    by (rule mod_nat_eqI) (use that in auto)
  show "0x80 \<le> n \<Longrightarrow> n < 0xc0 \<Longrightarrow> n mod 64 = n - 0x80" using sub [of 2 64] by simp
  show "0xc0 \<le> n \<Longrightarrow> n < 0xe0 \<Longrightarrow> n mod 32 = n - 0xc0" using sub [of 6 32] by simp
  show "0xe0 \<le> n \<Longrightarrow> n < 0xf0 \<Longrightarrow> n mod 16 = n - 0xe0" using sub [of 14 16] by simp
  show "0xf0 \<le> n \<Longrightarrow> n < 0xf8 \<Longrightarrow> n mod 8 = n - 0xf0" using sub [of 30 8] by simp
qed

lemma undigits64:
  fixes q r t :: nat
  assumes "r < 64" "t < 64" "u < 64"
  shows "(q * 64 + r) div 64 = q" "(q * 64 + r) mod 64 = r"
    "(q * 4096 + t * 64 + r) div 4096 = q" "(q * 4096 + t * 64 + r) div 64 mod 64 = t" "(q * 4096 + t * 64 + r) mod 64 = r"
    "(q * 262144 + u * 4096 + t * 64 + r) div 262144 = q" "(q * 262144 + u * 4096 + t * 64 + r) div 4096 mod 64 = u"
    "(q * 262144 + u * 4096 + t * 64 + r) div 64 mod 64 = t" "(q * 262144 + u * 4096 + t * 64 + r) mod 64 = r"
proof -
  have d: "(x * 64 + y) div 64 = x" "(x * 64 + y) mod 64 = y" if "y < 64" for x y :: nat using that by simp_all
  have e2: "q * 4096 + t * 64 + r = (q * 64 + t) * 64 + r" by simp
  have e3: "q * 262144 + u * 4096 + t * 64 + r = ((q * 64 + u) * 64 + t) * 64 + r" by simp
  have dd: "x div 4096 = x div 64 div 64" "x div 262144 = x div 64 div 64 div 64" for x :: nat
    by (simp_all add: div_mult2_eq [symmetric])
  show "(q * 64 + r) div 64 = q" "(q * 64 + r) mod 64 = r" using assms by (simp_all only: d)
  show "(q * 4096 + t * 64 + r) div 4096 = q" "(q * 4096 + t * 64 + r) div 64 mod 64 = t" "(q * 4096 + t * 64 + r) mod 64 = r"
    unfolding e2 dd using assms by (simp_all only: d)
  show "(q * 262144 + u * 4096 + t * 64 + r) div 262144 = q" "(q * 262144 + u * 4096 + t * 64 + r) div 4096 mod 64 = u"
    "(q * 262144 + u * 4096 + t * 64 + r) div 64 mod 64 = t" "(q * 262144 + u * 4096 + t * 64 + r) mod 64 = r"
    unfolding e3 dd using assms by (simp_all only: d)
qed

lemma enc_of_bytes_2:
  assumes "0xc2 \<le> unat b0" "unat b0 < 0xe0" "0x80 \<le> unat b1" "unat b1 < 0xc0"
  defines "c \<equiv> unat b0 mod 32 * 64 + unat b1 mod 64"
  shows "utf8_enc c = [b0, b1]" "scalar c"
proof -
  have m: "unat b0 mod 32 = unat b0 - 0xc0" "unat b1 mod 64 = unat b1 - 0x80"
    using assms by (auto intro!: byte_undigit)
  have lt: "unat b1 - 0x80 < 64" using assms by simp
  have d: "c div 64 = unat b0 - 0xc0" "c mod 64 = unat b1 - 0x80"
    unfolding c_def m by (rule undigits64 [OF lt, of 0 0], simp, simp)+
  have c: "\<not> c < 0x80" "c < 0x800" unfolding c_def m using assms by linarith+
  show "utf8_enc c = [b0, b1]"
    unfolding utf8_enc_def d using c assms by (simp only: if_False if_True) simp
  show "scalar c" using c by (simp add: scalar_def)
qed

lemma enc_of_bytes_3:
  assumes "0xe0 \<le> unat b0" "unat b0 < 0xf0" "0x80 \<le> unat b1" "unat b1 < 0xc0" "0x80 \<le> unat b2" "unat b2 < 0xc0"
  defines "c \<equiv> unat b0 mod 16 * 4096 + unat b1 mod 64 * 64 + unat b2 mod 64"
  assumes "0x800 \<le> c"
  shows "utf8_enc c = [b0, b1, b2]"
proof -
  have m: "unat b0 mod 16 = unat b0 - 0xe0" "unat b1 mod 64 = unat b1 - 0x80" "unat b2 mod 64 = unat b2 - 0x80"
    using assms by (auto intro!: byte_undigit)
  have lt: "unat b2 - 0x80 < 64" "unat b1 - 0x80 < 64" using assms by simp_all
  have d: "c div 4096 = unat b0 - 0xe0" "c div 64 mod 64 = unat b1 - 0x80" "c mod 64 = unat b2 - 0x80"
    unfolding c_def m by (rule undigits64 [OF lt, of 0], simp)+
  have c: "\<not> c < 0x80" "\<not> c < 0x800" "c < 0x10000" using assms(8) unfolding c_def m using assms(1-6) by linarith+
  show ?thesis
    unfolding utf8_enc_def d using c assms(1-6) by (simp only: if_False if_True) simp
qed

lemma enc_of_bytes_4:
  assumes "0xf0 \<le> unat b0" "unat b0 < 0xf8" "0x80 \<le> unat b1" "unat b1 < 0xc0" "0x80 \<le> unat b2" "unat b2 < 0xc0"
    "0x80 \<le> unat b3" "unat b3 < 0xc0"
  defines "c \<equiv> unat b0 mod 8 * 262144 + unat b1 mod 64 * 4096 + unat b2 mod 64 * 64 + unat b3 mod 64"
  assumes "0x10000 \<le> c"
  shows "utf8_enc c = [b0, b1, b2, b3]"
proof -
  have m: "unat b0 mod 8 = unat b0 - 0xf0" "unat b1 mod 64 = unat b1 - 0x80" "unat b2 mod 64 = unat b2 - 0x80"
    "unat b3 mod 64 = unat b3 - 0x80"
    using assms by (auto intro!: byte_undigit)
  have lt: "unat b3 - 0x80 < 64" "unat b2 - 0x80 < 64" "unat b1 - 0x80 < 64" using assms by simp_all
  have d: "c div 262144 = unat b0 - 0xf0" "c div 4096 mod 64 = unat b1 - 0x80" "c div 64 mod 64 = unat b2 - 0x80"
    "c mod 64 = unat b3 - 0x80"
    unfolding c_def m by (rule undigits64 [OF lt])+
  have c: "\<not> c < 0x80" "\<not> c < 0x800" "\<not> c < 0x10000" using assms(10) by linarith+
  show ?thesis
    unfolding utf8_enc_def d using c assms(1-8) by (simp only: if_False if_True) simp
qed

text \<open>What a successful decoding read.\<close>

lemma get_utf8_sound:
  assumes "xmlGetUTF8Char (Some p) (Some n) = Some (c, k)" "c \<noteq> -1"
  shows "scalar (nat c) \<and> 0 \<le> c \<and> k \<le> n \<and> nat k \<le> length p \<and>
     (unat (p ! 0) < 0xf8 \<longrightarrow> utf8_enc (nat c) = take (nat k) p)"
proof -
  obtain b0 p1 where p: "p = b0 # p1" using assms(1) by (cases p) (auto simp: xmlGetUTF8Char_def Let_def)
  consider "unat b0 < 0x80" | "0x80 \<le> unat b0" "unat b0 < 0xe0" | "0xe0 \<le> unat b0" "unat b0 < 0xf0" | "0xf0 \<le> unat b0"
    by linarith
  then show ?thesis
  proof cases
    case 1
    then show ?thesis
      using assms enc_1 [of "unat b0"] by (auto simp: p get_utf8_1 scalar_def split: if_splits)
  next
    case 2
    obtain b1 p2 where p1: "p1 = b1 # p2"
      using assms 2 by (cases p1) (auto simp: p xmlGetUTF8Char_def Let_def less_u8_nat split: if_splits)
    show ?thesis
      using assms enc_of_bytes_2 [of b0 b1] by (simp only: p p1 get_utf8_2 [OF 2] split: if_splits)
        (use 2 in \<open>auto simp del: of_nat_add of_nat_mult\<close>)
  next
    case 3
    obtain b1 b2 p3 where p1: "p1 = b1 # b2 # p3"
      using assms 3 by (cases p1; cases "tl p1") (auto simp: p xmlGetUTF8Char_def Let_def less_u8_nat split: if_splits)
    show ?thesis
      using assms enc_of_bytes_3 [OF 3, of b1 b2] by (simp only: p p1 get_utf8_3 [OF 3] Let_def split: if_splits)
        (auto simp del: of_nat_add of_nat_mult)
  next
    case 4
    obtain b1 b2 b3 p4 where p1: "p1 = b1 # b2 # b3 # p4"
      using assms 4 by (cases p1; cases "tl p1"; cases "tl (tl p1)")
        (auto simp: p xmlGetUTF8Char_def Let_def less_u8_nat split: if_splits)
    show ?thesis
      using assms enc_of_bytes_4 [OF 4, of b1 b2 b3]
      by (simp only: p p1 get_utf8_4 [OF 4] Let_def split: if_splits)
        (auto simp: scalar_def simp del: of_nat_add of_nat_mult)
  qed
qed


section \<open>Strings of characters\<close>

definition utf8_str :: "nat list \<Rightarrow> u8 list" where
  "utf8_str cs = concat (map utf8_enc cs)"

lemma lead_masks_all:
  "\<forall>b :: u8. (b AND 0x80 = 0) = (b < 0x80) \<and> (b AND 0xe0 = 0xe0) = (0xe0 \<le> b) \<and>
     (b AND 0xf0 = 0xf0) = (0xf0 \<le> b) \<and> (b AND 0xf8 = 0xf0) = (0xf0 \<le> b \<and> b < 0xf8) \<and>
     (b AND 0xe0 = 0xc0) = (0xc0 \<le> b \<and> b < 0xe0) \<and> (b AND 0xf0 = 0xe0) = (0xe0 \<le> b \<and> b < 0xf0) \<and>
     (b AND 0xc0 = 0xc0) = (0xc0 \<le> b)"
  by (rule byte_forall) code_simp

lemma shift_masks_all:
  "\<forall>b :: u8.
     (0x80 \<le> b \<longrightarrow> (push_bit 1 (ucast b :: u32) AND 0x80 = 0) = (b < 0xc0)) \<and>
     (0xc0 \<le> b \<longrightarrow> (push_bit 1 (push_bit 1 (ucast b :: u32)) AND 0x80 = 0) = (b < 0xe0)) \<and>
     (0xe0 \<le> b \<longrightarrow> (push_bit 1 (push_bit 1 (push_bit 1 (ucast b :: u32))) AND 0x80 = 0) = (b < 0xf0)) \<and>
     (0xf0 \<le> b \<longrightarrow> (push_bit 1 (push_bit 1 (push_bit 1 (push_bit 1 (ucast b :: u32)))) AND 0x80 = 0) = (b < 0xf8))"
  by (rule byte_forall) code_simp

text \<open>The four shapes of an encoded character.\<close>

lemma enc_shapes:
  assumes "scalar c"
  obtains b0 where "utf8_enc c = [b0]" "unat b0 < 0x80" "unat b0 = c"
  | b0 b1 where "utf8_enc c = [b0, b1]" "0xc0 \<le> unat b0" "unat b0 < 0xe0" "0x80 \<le> unat b1" "unat b1 < 0xc0"
  | b0 b1 b2 where "utf8_enc c = [b0, b1, b2]" "0xe0 \<le> unat b0" "unat b0 < 0xf0" "0x80 \<le> unat b1" "unat b1 < 0xc0"
      "0x80 \<le> unat b2" "unat b2 < 0xc0"
  | b0 b1 b2 b3 where "utf8_enc c = [b0, b1, b2, b3]" "0xf0 \<le> unat b0" "unat b0 < 0xf8" "0x80 \<le> unat b1" "unat b1 < 0xc0"
      "0x80 \<le> unat b2" "unat b2 < 0xc0" "0x80 \<le> unat b3" "unat b3 < 0xc0"
proof -
  consider "c < 0x80" | "0x80 \<le> c" "c < 0x800" | "0x800 \<le> c" "c < 0x10000" | "0x10000 \<le> c" "c < 0x110000"
    using assms unfolding scalar_def by linarith
  then show thesis
  proof cases
    case 1
    then show thesis using that(1) enc_1 by metis
  next
    case 2
    then show thesis
    proof (rule enc_2)
      fix b0 b1 assume e: "utf8_enc c = [b0, b1]" "unat b0 = 192 + c div 64" "unat b1 = 128 + c mod 64"
        "2 \<le> c div 64" "c div 64 < 32"
      show thesis by (rule that(2) [OF e(1)]) (use e(2-5) in simp_all)
    qed
  next
    case 3
    then show thesis
    proof (rule enc_3)
      fix b0 b1 b2 assume e: "utf8_enc c = [b0, b1, b2]" "unat b0 = 0xe0 + c div 4096"
        "unat b1 = 0x80 + c div 64 mod 64" "unat b2 = 0x80 + c mod 64" "c div 4096 < 16"
      show thesis by (rule that(3) [OF e(1)]) (use e(2-5) in simp_all)
    qed
  next
    case 4
    then show thesis
    proof (rule enc_4)
      fix b0 b1 b2 b3 assume e: "utf8_enc c = [b0, b1, b2, b3]" "unat b0 = 0xf0 + c div 262144"
        "unat b1 = 0x80 + c div 4096 mod 64" "unat b2 = 0x80 + c div 64 mod 64" "unat b3 = 0x80 + c mod 64"
        "c div 262144 < 5"
      show thesis by (rule that(4) [OF e(1)]) (use e(2-6) in simp_all)
    qed
  qed
qed

lemma unat_eq_0_u8: "(b :: u8) = 0 \<longleftrightarrow> unat b = 0"
  by (simp add: unat_eq_0)

lemmas byte_class = lead_masks_all [rule_format] less_u8_nat trail_range

lemma utf8strlen_step_enc: "scalar c \<Longrightarrow> utf8strlen_step (utf8_enc c @ q) = Some (Some (length (utf8_enc c)))"
  by (erule enc_shapes) (simp_all add: utf8strlen_step_def byte_class)

lemma checkutf8_step_enc: "scalar c \<Longrightarrow> checkutf8_step ((utf8_enc c @ q) ! 0) (utf8_enc c @ q) = Some (Some (length (utf8_enc c)))"
  by (erule enc_shapes) (simp_all add: checkutf8_step_def byte_class)

lemma enc_hd: "scalar c \<Longrightarrow> c \<noteq> 0 \<Longrightarrow> \<exists>b p. utf8_enc c = b # p \<and> b \<noteq> 0"
  by (erule enc_shapes) (auto simp: unat_eq_0_u8)


lemma skip_stop:
  "push_bit 1 ch AND 0x80 = 0 \<Longrightarrow> strsize_skip ch q = Some q"
  "push_bit 1 ch AND 0x80 = 0 \<Longrightarrow> strpos_skip ch q = Some (Some q)"
  by (cases q; simp)+

lemma skip_step:
  "push_bit 1 ch AND 0x80 \<noteq> 0 \<Longrightarrow> b \<noteq> 0 \<Longrightarrow> strsize_skip ch (b # q) = strsize_skip (push_bit 1 ch) q"
  "push_bit 1 ch AND 0x80 \<noteq> 0 \<Longrightarrow> b AND 0xc0 = 0x80 \<Longrightarrow> strpos_skip ch (b # q) = strpos_skip (push_bit 1 ch) q"
  by simp_all

lemma strsize_char:
  "c \<noteq> 0 \<Longrightarrow> c AND 0x80 \<noteq> 0 \<Longrightarrow> strsize_skip (ucast c) p = Some q \<Longrightarrow> strsize_loop (Suc n) (c # p) = strsize_loop n q"
  by simp

text \<open>The skip loops pass exactly the trailing bytes of a character.\<close>

lemma skip_enc:
  assumes "scalar c" "utf8_enc c = b0 # t" "0x80 \<le> unat b0"
  shows "strsize_skip (ucast b0) (t @ q) = Some q" "strpos_char b0 (t @ q) = Some (Some q)"
proof -
  have tr: "b \<noteq> 0 \<and> b AND 0xc0 = 0x80" if "0x80 \<le> unat b" "unat b < 0xc0" for b :: u8
    using that by (auto simp: trail_range less_u8_nat)
  note sh = shift_masks_all [rule_format, of b0, unfolded less_u8_nat, simplified unat_numeral]
  have "strsize_skip (ucast b0) (t @ q) = Some q \<and> strpos_skip (ucast b0) (t @ q) = Some (Some q) \<and> 0xc0 \<le> unat b0"
    using assms(1)
  proof (cases rule: enc_shapes)
    case (1 b)
    then show ?thesis using assms by simp
  next
    case (2 a b)
    then show ?thesis
      using assms tr [of b] sh by (simp add: skip_stop skip_step del: strsize_skip.simps strpos_skip.simps)
  next
    case (3 a b d)
    then show ?thesis
      using assms tr [of b] tr [of d] sh by (simp add: skip_stop skip_step del: strsize_skip.simps strpos_skip.simps)
  next
    case (4 a b d e)
    then show ?thesis
      using assms tr [of b] tr [of d] tr [of e] sh by (simp add: skip_stop skip_step del: strsize_skip.simps strpos_skip.simps)
  qed
  then show "strsize_skip (ucast b0) (t @ q) = Some q" "strpos_char b0 (t @ q) = Some (Some q)"
    by (auto simp: strpos_char_def byte_class)
qed


lemma char_steps:
  assumes "scalar c" "c \<noteq> 0"
  shows "utf8strlen_loop (utf8_enc c @ q) k = utf8strlen_loop q (Suc k)"
    "checkutf8_loop (utf8_enc c @ q) = checkutf8_loop q"
    "strsize_loop (Suc n) (utf8_enc c @ q) = strsize_loop n q"
    "strpos_loop (Suc n) (utf8_enc c @ q) = strpos_loop n q"
proof -
  obtain b t where b: "utf8_enc c = b # t" "b \<noteq> 0" using enc_hd [OF assms] by blast
  show "utf8strlen_loop (utf8_enc c @ q) k = utf8strlen_loop q (Suc k)"
    using utf8strlen_step_enc [OF assms(1), of q] b by (subst utf8strlen_loop.simps) simp
  show "checkutf8_loop (utf8_enc c @ q) = checkutf8_loop q"
    using checkutf8_step_enc [OF assms(1), of q] b by (subst checkutf8_loop.simps) simp
  have "strsize_loop (Suc n) (b # t @ q) = strsize_loop n q \<and> strpos_loop (Suc n) (b # t @ q) = strpos_loop n q"
  proof (cases "unat b < 0x80")
    case True
    have "t = []" using assms(1) by (cases rule: enc_shapes) (use b True in auto)
    then show ?thesis using b True by (simp add: byte_class strpos_char_def)
  next
    case False
    then have "b AND 0x80 \<noteq> 0" by (simp add: byte_class)
    then show ?thesis using skip_enc [OF assms(1) b(1), of q] b(2) False by (simp del: strsize_skip.simps)
  qed
  then show "strsize_loop (Suc n) (utf8_enc c @ q) = strsize_loop n q"
    "strpos_loop (Suc n) (utf8_enc c @ q) = strpos_loop n q" by (simp_all add: b)
qed

definition chars :: "nat list \<Rightarrow> bool" where
  "chars cs \<longleftrightarrow> (\<forall>c\<in>set cs. scalar c \<and> c \<noteq> 0)"

lemma chars_simps [simp]: "chars []" "chars (c # cs) \<longleftrightarrow> scalar c \<and> c \<noteq> 0 \<and> chars cs"
  by (auto simp: chars_def)

lemma utf8_str_simps [simp]: "utf8_str [] = []" "utf8_str (c # cs) = utf8_enc c @ utf8_str cs"
  by (simp_all add: utf8_str_def)

lemma utf8strlen_loop_str:
  "chars cs \<Longrightarrow> int (k + length cs) \<le> INT_MAX \<Longrightarrow> utf8strlen_loop (utf8_str cs @ 0 # r) k = Some (int (k + length cs))"
  by (induction cs arbitrary: k) (auto simp: char_steps utf8strlen_loop.simps [of "0 # r"])

lemma checkutf8_loop_str: "chars cs \<Longrightarrow> checkutf8_loop (utf8_str cs @ 0 # r) = Some 1"
  by (induction cs) (auto simp: char_steps checkutf8_loop.simps [of "0 # r"])

lemma strsize_loop_str:
  "chars cs \<Longrightarrow> strsize_loop n (utf8_str cs @ 0 # r) = Some (utf8_str (drop n cs) @ 0 # r)"
proof (induction cs arbitrary: n)
  case Nil
  then show ?case by (cases n) simp_all
next
  case (Cons c cs)
  then show ?case by (cases n) (simp_all add: char_steps del: strsize_loop.simps(3))
qed

lemma strpos_loop_str:
  "chars cs \<Longrightarrow> n \<le> length cs \<Longrightarrow> strpos_loop n (utf8_str cs @ 0 # r) = Some (Some (utf8_str (drop n cs) @ 0 # r))"
proof (induction cs arbitrary: n)
  case Nil
  then show ?case by (cases n) simp_all
next
  case (Cons c cs)
  then show ?case by (cases n) (simp_all add: char_steps del: strpos_loop.simps(3))
qed

lemma strpos_loop_str_beyond:
  "chars cs \<Longrightarrow> length cs < n \<Longrightarrow> strpos_loop n (utf8_str cs @ 0 # r) = Some None"
proof (induction cs arbitrary: n)
  case Nil
  then show ?case by (cases n) simp_all
next
  case (Cons c cs)
  then show ?case by (cases n) (simp_all add: char_steps del: strpos_loop.simps(3))
qed

lemma utf8_str_split: "utf8_str cs = utf8_str (take n cs) @ utf8_str (drop n cs)"
  by (simp add: utf8_str_def flip: concat_append map_append)

lemma chars_drop: "chars cs \<Longrightarrow> chars (drop n cs)"
  by (auto simp: chars_def dest: in_set_dropD)

lemma xmlUTF8Strsize_str:
  assumes "chars cs" "int (length (utf8_str cs)) \<le> INT_MAX" "0 \<le> n"
  shows "xmlUTF8Strsize (Some (utf8_str cs @ 0 # r)) n = Some (int (length (utf8_str (take (nat n) cs))))"
proof -
  have "length (utf8_str cs) = length (utf8_str (take (nat n) cs)) + length (utf8_str (drop (nat n) cs))"
    by (subst utf8_str_split [of cs "nat n"]) simp
  then show ?thesis
    using assms by (simp add: xmlUTF8Strsize_def strsize_loop_str Let_def)
qed

lemma xmlUTF8Strndup_str:
  assumes "chars cs" "int (length (utf8_str cs)) \<le> INT_MAX" "0 \<le> n"
  shows "xmlUTF8Strndup True (Some (utf8_str cs @ 0 # r)) n = Some (Some (utf8_str (take (nat n) cs) @ [0]))"
proof -
  have "utf8_str cs @ 0 # r = utf8_str (take (nat n) cs) @ utf8_str (drop (nat n) cs) @ 0 # r"
    by (subst utf8_str_split [of cs "nat n"]) simp
  then show ?thesis
    using assms xmlUTF8Strsize_str [OF assms, of r]
    by (simp add: xmlUTF8Strndup_def memcpy_def)
qed

section \<open>Search and comparison\<close>

definition matches :: "(u8 \<Rightarrow> u8) \<Rightarrow> u8 list \<Rightarrow> u8 list \<Rightarrow> nat \<Rightarrow> bool" where
  "matches f v s i \<longleftrightarrow> i \<le> length s \<and> map f (take (length v) (drop i s)) = map f v"

lemma strncmp_loop_match:
  assumes f: "\<And>c. f c = 0 \<longleftrightarrow> c = 0"
  shows "cstring s \<Longrightarrow> cstring v \<Longrightarrow> v \<noteq> [] \<Longrightarrow>
    \<exists>t. strncmp_loop f (s @ 0 # r) (v @ 0 # r') (length v) = Some t \<and>
      (t = 0 \<longleftrightarrow> map f (take (length v) s) = map f v)"
proof (induction v arbitrary: s)
  case Nil
  then show ?case by simp
next
  case (Cons b v)
  have b: "b \<noteq> 0" "cstring v" using Cons.prems by (auto simp: cstring_def)
  show ?case
  proof (cases s)
    case Nil
    have "f b \<noteq> 0" "f 0 = 0" using f b by auto
    then show ?thesis using Nil by (simp add: Let_def uint_0_iff)
  next
    case (Cons a s')
    have s': "cstring s'" using Cons.prems(1) Cons by (simp add: cstring_def)
    show ?thesis
      using Cons.IH [OF s' b(2)] b Cons
      by (cases "v = []"; cases "f a = f b") (auto simp: Let_def word_uint_eq_iff)
  qed
qed

lemma matches_Cons:
  "matches f v (c # s) 0 \<longleftrightarrow> map f (take (length v) (c # s)) = map f v"
  "matches f v (c # s) (Suc i) \<longleftrightarrow> matches f v s i"
  by (simp_all add: matches_def)

definition first_match :: "(u8 \<Rightarrow> u8) \<Rightarrow> u8 list \<Rightarrow> u8 list \<Rightarrow> u8 list \<Rightarrow> xptr option \<Rightarrow> bool" where
  "first_match f v s r res \<longleftrightarrow>
     (res = Some None \<and> (\<forall>i. \<not> matches f v s i)) \<or>
     (\<exists>i. res = Some (Some (drop i s @ 0 # r)) \<and> matches f v s i \<and> (\<forall>j<i. \<not> matches f v s j))"

lemma strstr_loop_first:
  assumes f: "\<And>c. f c = 0 \<longleftrightarrow> c = 0" and v: "cstring v" "v \<noteq> []"
  shows "cstring s \<Longrightarrow> first_match f v s r (strstr_loop f (s @ 0 # r) (v @ 0 # r') (length v))"
proof (induction s)
  case Nil
  then show ?case using v(2) by (simp add: first_match_def matches_def)
next
  case (Cons c s)
  have c: "c \<noteq> 0" "cstring s" using Cons.prems by (auto simp: cstring_def)
  obtain t where t: "strncmp_loop f ((c # s) @ 0 # r) (v @ 0 # r') (length v) = Some t"
      "t = 0 \<longleftrightarrow> map f (take (length v) (c # s)) = map f v"
    using strncmp_loop_match [OF f Cons.prems v] by blast
  obtain w vs where w: "v = w # vs" using v(2) by (cases v) auto
  have eq: "strstr_loop f ((c # s) @ 0 # r) (v @ 0 # r') (length v) =
      (if matches f v (c # s) 0 then Some (Some ((c # s) @ 0 # r)) else strstr_loop f (s @ 0 # r) (v @ 0 # r') (length v))"
    using c t by (auto simp: w matches_Cons)
  show ?case
  proof (cases "matches f v (c # s) 0")
    case True
    then show ?thesis unfolding eq first_match_def by force
  next
    case False
    have all: "(\<forall>i. \<not> matches f v (c # s) i) \<longleftrightarrow> (\<forall>i. \<not> matches f v s i)"
      using False by (metis matches_Cons(2) not0_implies_Suc)
    have "\<exists>i. res = Some (Some (drop i (c # s) @ 0 # r)) \<and> matches f v (c # s) i \<and> (\<forall>j<i. \<not> matches f v (c # s) j)"
      if "res = Some (Some (drop i s @ 0 # r))" "matches f v s i" "\<forall>j<i. \<not> matches f v s j" for res i
      using that False by (intro exI [of _ "Suc i"]) (auto simp: matches_Cons less_Suc_eq_0_disj)
    then show ?thesis
      using Cons.IH [OF c(2)] False all unfolding eq first_match_def by auto
  qed
qed

lemma strequal_loop_eq:
  "cstring s \<Longrightarrow> cstring v \<Longrightarrow> strequal_loop (s @ 0 # r) (v @ 0 # r') = Some (if s = v then 1 else 0)"
proof (induction s arbitrary: v)
  case Nil
  then show ?case by (cases v) (auto simp: cstring_def)
next
  case (Cons c s)
  then show ?case by (cases v) (auto simp: cstring_def)
qed

lemma qprefix_loop_eq:
  "cstring p \<Longrightarrow> cstring s \<Longrightarrow> p \<noteq> [] \<Longrightarrow> qprefix_loop (p @ 0 # r) (s @ 0 # r') =
     Some (if take (length p) s = p then Some (drop (length p) s @ 0 # r') else None)"
proof (induction p arbitrary: s)
  case Nil
  then show ?case by simp
next
  case (Cons a p)
  then show ?case
  proof (cases s)
    case Nil
    then show ?thesis using Cons.prems by (auto simp: cstring_def)
  next
    case (Cons b s')
    then show ?thesis
      using Cons.prems Cons.IH [of s'] by (cases p) (auto simp: cstring_def)
  qed
qed

text \<open>The table maps the bracket 0x5B to the brace 0x7B.\<close>

lemma casemap_bracket: "xmlStrcasecmp False (Some [0x5B, 0]) (Some [0x7B, 0]) = Some 0"
  by (simp add: xmlStrcasecmp_def cmp_pointers_def casemap_def)

lemma xml_utf8_lead:
  "xmlGetUTF8Char (Some [0xf8, 0x90, 0x80, 0x80, 0]) (Some 4) = Some (0x10000, 4)"
  by (subst get_utf8_4) (simp_all add: Let_def)

section \<open>Properties\<close>

text \<open>
  C26 \<open>xmlGetUTF8Char\<close> decodes UTF-8: every encoded Unicode scalar value is read
  back with its length, and conversely whatever it accepts is a scalar value within
  the given length; when the first byte is a possible UTF-8 lead byte (below 0xF8) the
  bytes read are exactly that value's encoding, so overlong forms and surrogates are refused.
  The bound on the lead byte is needed: the four-byte branch looks at its low three bits only, and
  the bytes F8 90 80 80, which are not UTF-8 at all, are accepted as U+10000.
\<close>

theorem xml_utf8_decode:
  "(\<forall>c n r. scalar c \<and> int (length (utf8_enc c)) \<le> n \<longrightarrow>
      xmlGetUTF8Char (Some (utf8_enc c @ r)) (Some n) = Some (int c, int (length (utf8_enc c)))) \<and>
   (\<forall>p n c k. xmlGetUTF8Char (Some p) (Some n) = Some (c, k) \<and> c \<noteq> -1 \<longrightarrow>
      scalar (nat c) \<and> 0 \<le> c \<and> k \<le> n \<and> nat k \<le> length p \<and>
      (unat (p ! 0) < 0xf8 \<longrightarrow> utf8_enc (nat c) = take (nat k) p)) \<and>
   xmlGetUTF8Char (Some [0xf8, 0x90, 0x80, 0x80, 0]) (Some 4) = Some (0x10000, 4)"
  using decode_enc get_utf8_sound xml_utf8_lead by blast

theorem xml_utf8_decode_witness:
  "xmlGetUTF8Char (Some [0xe2, 0x82, 0xac, 0]) (Some 4) = Some (0x20ac, 3)"
proof -
  have "utf8_enc 0x20ac = [0xe2, 0x82, 0xac]" by (simp add: utf8_enc_def)
  moreover have "scalar 0x20ac \<and> int (length (utf8_enc 0x20ac)) \<le> 4 \<longrightarrow>
      xmlGetUTF8Char (Some (utf8_enc 0x20ac @ [0])) (Some 4) = Some (int 0x20ac, int (length (utf8_enc 0x20ac)))"
    by (rule xml_utf8_decode [THEN conjunct1, THEN spec, THEN spec, THEN spec])
  ultimately show ?thesis by (simp add: scalar_def)
qed

text \<open>The decoder reads the characters of a string one by one.\<close>

definition next_char :: "u8 list \<Rightarrow> (nat \<times> u8 list) option" where
  "next_char p =
     (case xmlGetUTF8Char (Some p) (Some (int (length p))) of
        Some (c, k) \<Rightarrow> if c = -1 then None else Some (nat c, drop (nat k) p)
      | None \<Rightarrow> None)"

interpretation utf8: stream_codec scalar utf8_enc next_char
proof
  show "next_char (utf8_enc c @ r) = Some (c, r)" if "scalar c" for c r
    using decode_enc [OF that, of "int (length (utf8_enc c @ r))" r] by (simp add: next_char_def)
  show "next_char [] = None" by (simp add: next_char_def xmlGetUTF8Char_def)
qed

text \<open>
  C40 The UTF-8 string routines work on characters: on the encoding of a list of
  characters \<open>xmlUTF8Strlen\<close> is its length, \<open>xmlCheckUTF8\<close> accepts it,
  \<open>xmlUTF8Strsize\<close> is the size of its first \<open>n\<close> characters, \<open>xmlUTF8Strpos\<close> points
  to the suffix after \<open>m\<close> characters (or is \<open>NULL\<close> beyond the end), and
  \<open>xmlUTF8Strsub\<close> is the encoding of the sublist; different lists have different
  encodings.
\<close>

theorem xml_utf8_strings:
  assumes "chars cs" "int (length (utf8_str cs)) \<le> INT_MAX" "int (length cs) \<le> INT_MAX" "0 \<le> m" "0 \<le> n"
  shows "xmlUTF8Strlen (Some (utf8_str cs @ 0 # r)) = Some (int (length cs)) \<and>
     xmlCheckUTF8 (Some (utf8_str cs @ 0 # r)) = Some 1 \<and>
     xmlUTF8Strsize (Some (utf8_str cs @ 0 # r)) n = Some (int (length (utf8_str (take (nat n) cs)))) \<and>
     xmlUTF8Strpos (Some (utf8_str cs @ 0 # r)) m =
       Some (if nat m \<le> length cs then Some (utf8_str (drop (nat m) cs) @ 0 # r) else None) \<and>
     xmlUTF8Strsub True (Some (utf8_str cs @ 0 # r)) m n =
       Some (if nat m \<le> length cs then Some (utf8_str (take (nat n) (drop (nat m) cs)) @ [0]) else None) \<and>
     (chars ds \<and> utf8_str ds = utf8_str cs \<longrightarrow> ds = cs)"
proof -
  have inj: "chars ds \<and> utf8_str ds = utf8_str cs \<longrightarrow> ds = cs"
    using utf8.stream_inj [of ds cs] assms(1) by (simp add: utf8_str_def chars_def list_all_iff)
  have "length (utf8_str (drop (nat m) cs)) \<le> length (utf8_str cs)"
    using arg_cong [OF utf8_str_split [of cs "nat m"], of length] by simp
  then have "xmlUTF8Strndup True (Some (utf8_str (drop (nat m) cs) @ 0 # r)) n =
      Some (Some (utf8_str (take (nat n) (drop (nat m) cs)) @ [0]))"
    using assms by (intro xmlUTF8Strndup_str chars_drop) simp_all
  then show ?thesis
    using assms utf8strlen_loop_str [of cs 0 r] checkutf8_loop_str [of cs r] xmlUTF8Strsize_str [of cs n r]
      strpos_loop_str [of cs "nat m" r] strpos_loop_str_beyond [of cs "nat m" r] inj
    by (simp add: xmlUTF8Strlen_def xmlCheckUTF8_def xmlUTF8Strpos_def xmlUTF8Strsub_def)
qed

theorem xml_utf8_strings_witness:
  "xmlUTF8Strlen (Some [0x61, 0xe2, 0x82, 0xac, 0]) = Some 2 \<and>
   xmlUTF8Strsub True (Some [0x61, 0xe2, 0x82, 0xac, 0]) 1 1 = Some (Some [0xe2, 0x82, 0xac, 0])"
proof -
  have "utf8_str [0x61, 0x20ac] = [0x61, 0xe2, 0x82, 0xac]" by (simp add: utf8_enc_def)
  moreover have "chars [0x61, 0x20ac]" by (simp add: scalar_def)
  ultimately show ?thesis
    using xml_utf8_strings [of "[0x61, 0x20ac]" 1 1 "[]"] by (simp add: INT_MAX_def utf8_enc_def)
qed



text \<open>
  \<open>xmlStrstr\<close> and \<open>xmlStrcasestr\<close> find the first occurrence: the result points
  to the leftmost position where the searched string occurs (up to \<open>casemap\<close> in the
  second), and is \<open>NULL\<close> exactly when there is none.
\<close>

theorem xml_strstr_first:
  assumes "cstring s" "cstring v" "int (length v) \<le> INT_MAX"
  shows "first_match (\<lambda>c. c) v s r (xmlStrstr (Some (s @ 0 # r)) (Some (v @ 0 # r'))) \<and>
     first_match casemap v s r (xmlStrcasestr (Some (s @ 0 # r)) (Some (v @ 0 # r')))"
proof (cases "v = []")
  case True
  then have "matches f v s 0" for f by (simp add: matches_def)
  then show ?thesis
    using True by (auto simp: xmlStrstr_def xmlStrcasestr_def xmlStrlen_def first_match_def INT_MAX_def
        intro!: exI [of _ 0])
next
  case False
  then show ?thesis
    using strstr_loop_first [OF _ assms(2) False assms(1), of "\<lambda>c. c" r r']
      strstr_loop_first [OF _ assms(2) False assms(1), of casemap r r'] assms
    by (simp add: xmlStrstr_def xmlStrcasestr_def xmlStrlen_def)
qed

theorem xml_strstr_first_witness:
  "first_match (\<lambda>c. c) [0x62] [0x61, 0x62] [] (xmlStrstr (Some [0x61, 0x62, 0]) (Some [0x62, 0]))"
  using xml_strstr_first [of "[0x61, 0x62]" "[0x62]" "[]" "[]"] by (simp add: cstring_def INT_MAX_def)

text \<open>
  \<open>xmlStrQEqual\<close> with a non-empty prefix decides whether the string is
  prefix, colon, name.  With an empty prefix and an empty string the first loop steps
  over the terminator and the test for the colon reads past the end of the string.
\<close>

lemma xml_qequal:
  assumes "cstring p" "cstring n" "cstring s"
  shows "(p \<noteq> [] \<longrightarrow> xmlStrQEqual same (Some (p @ 0 # r1)) (Some (n @ 0 # r2)) (Some (s @ 0 # r3)) =
       Some (if s = p @ 0x3A # n then 1 else 0)) \<and>
     xmlStrQEqual same (Some [0]) (Some (n @ 0 # r2)) (Some [0]) = None"
proof -
  have "xmlStrQEqual same (Some (p @ 0 # r1)) (Some (n @ 0 # r2)) (Some (s @ 0 # r3)) =
      Some (if s = p @ 0x3A # n then 1 else 0)" if "p \<noteq> []"
  proof (cases "take (length p) s = p")
    case True
    then obtain t where t: "s = p @ t" by (metis append_take_drop_id)
    then show ?thesis
      using qprefix_loop_eq [OF assms(1,3) that, of r1 r3] assms strequal_loop_eq [OF assms(2), of "tl t" r2 r3]
      by (cases t) (auto simp: xmlStrQEqual_def cstring_def)
  next
    case False
    then show ?thesis
      using qprefix_loop_eq [OF assms(1,3) that, of r1 r3] by (auto simp: xmlStrQEqual_def)
  qed
  then show ?thesis by (simp add: xmlStrQEqual_def)
qed

end
