(* ===== verification/Xml_Uri.thy ===== *)
theory Xml_Uri
  imports Xml_String "HOL-Library.Monad_Syntax"
begin

text \<open>
  The URI parser of the fuzzed library (\<open>src/testbed/libxml2/uri.c\<close>): the
  character classes, unescaping and escaping, and the recursive descent parser for
  RFC 3986.

  Strings are pointers into blocks as in \<open>Xml_String\<close>: a parser's \<open>*str\<close> is the
  list of bytes left, and the outer \<open>None\<close> is an access out of bounds or through
  \<open>NULL\<close>.  \<open>cur - *str\<close> is a difference of lengths; strings are shorter than
  \<open>INT_MAX\<close>, so that it fits an \<open>int\<close>.  The results of the allocations to come are
  a list of booleans that every allocation takes one element of (an empty list lets all
  succeed).  Releasing memory has no effect in the model.
\<close>

section \<open>Character classes\<close>

definition IS_LOWALPHA :: "u8 \<Rightarrow> bool" where
  "IS_LOWALPHA x \<longleftrightarrow> 0x61 \<le> x \<and> x \<le> 0x7A"

definition IS_UPALPHA :: "u8 \<Rightarrow> bool" where
  "IS_UPALPHA x \<longleftrightarrow> 0x41 \<le> x \<and> x \<le> 0x5A"

definition IS_ALPHA :: "u8 \<Rightarrow> bool" where
  "IS_ALPHA x \<longleftrightarrow> IS_LOWALPHA x \<or> IS_UPALPHA x"

definition IS_DIGIT :: "u8 \<Rightarrow> bool" where
  "IS_DIGIT x \<longleftrightarrow> 0x30 \<le> x \<and> x \<le> 0x39"

definition IS_ALPHANUM :: "u8 \<Rightarrow> bool" where
  "IS_ALPHANUM x \<longleftrightarrow> IS_ALPHA x \<or> IS_DIGIT x"

text \<open>The characters \<open>- _ . ! ~ * ' ( )\<close>.\<close>

definition IS_MARK :: "u8 \<Rightarrow> bool" where
  "IS_MARK x \<longleftrightarrow> x \<in> {0x2D, 0x5F, 0x2E, 0x21, 0x7E, 0x2A, 0x27, 0x28, 0x29}"

text \<open>Braces, bar, backslash, caret, brackets and backquote.\<close>

definition IS_UNWISE :: "u8 \<Rightarrow> bool" where
  "IS_UNWISE x \<longleftrightarrow> x \<in> {0x7B, 0x7D, 0x7C, 0x5C, 0x5E, 0x5B, 0x5D, 0x60}"

text \<open>The characters \<open>; / ? : @ & = + $ , [ ]\<close>.\<close>

definition IS_RESERVED :: "u8 \<Rightarrow> bool" where
  "IS_RESERVED x \<longleftrightarrow> x \<in> {0x3B, 0x2F, 0x3F, 0x3A, 0x40, 0x26, 0x3D, 0x2B, 0x24, 0x2C, 0x5B, 0x5D}"

definition IS_UNRESERVED :: "u8 \<Rightarrow> bool" where
  "IS_UNRESERVED x \<longleftrightarrow> IS_ALPHANUM x \<or> IS_MARK x"

definition ISA_DIGIT :: "u8 \<Rightarrow> bool" where
  "ISA_DIGIT c \<longleftrightarrow> 0x30 \<le> c \<and> c \<le> 0x39"

definition ISA_ALPHA :: "u8 \<Rightarrow> bool" where
  "ISA_ALPHA c \<longleftrightarrow> (0x61 \<le> c \<and> c \<le> 0x7A) \<or> (0x41 \<le> c \<and> c \<le> 0x5A)"

definition ISA_HEXDIG :: "u8 \<Rightarrow> bool" where
  "ISA_HEXDIG c \<longleftrightarrow> ISA_DIGIT c \<or> (0x61 \<le> c \<and> c \<le> 0x66) \<or> (0x41 \<le> c \<and> c \<le> 0x46)"

text \<open>The characters \<open>! $ & ( ) * + , ; = '\<close>.\<close>

definition ISA_SUB_DELIM :: "u8 \<Rightarrow> bool" where
  "ISA_SUB_DELIM c \<longleftrightarrow> c \<in> {0x21, 0x24, 0x26, 0x28, 0x29, 0x2A, 0x2B, 0x2C, 0x3B, 0x3D, 0x27}"

definition ISA_STRICTLY_UNRESERVED :: "u8 \<Rightarrow> bool" where
  "ISA_STRICTLY_UNRESERVED c \<longleftrightarrow> ISA_ALPHA c \<or> ISA_DIGIT c \<or> c \<in> {0x2D, 0x2E, 0x5F, 0x7E}"

text \<open>
  \<open>ISA_UCSCHAR\<close>, from the Legacy Extended IRIs.  A \<open>char\<close> above 0x7F is negative and
  so below 0x20 in the source; read as an unsigned byte it is at least 0x7F.  The class
  holds the terminator 0.
\<close>

definition ISA_UCSCHAR :: "u8 \<Rightarrow> bool" where
  "ISA_UCSCHAR c \<longleftrightarrow> c \<le> 0x20 \<or> c \<ge> 0x7F \<or> c \<in> {0x3C, 0x3E, 0x22, 0x7B, 0x7D, 0x7C, 0x5C, 0x5E, 0x60}"

text \<open>\<open>ISA_PCT_ENCODED\<close>, with the reads in the order of the conjunction.\<close>

definition ISA_PCT_ENCODED :: "u8 list \<Rightarrow> bool option" where
  "ISA_PCT_ENCODED p = do {
     c \<leftarrow> rd p 0;
     if c \<noteq> 0x25 then Some False
     else do {
       a \<leftarrow> rd p 1;
       if \<not> ISA_HEXDIG a then Some False
       else do { b \<leftarrow> rd p 2; Some (ISA_HEXDIG b) }
     }
   }"

section \<open>The structure and memory\<close>

record xmlURI =
  u_scheme :: xptr
  u_opaque :: xptr
  u_authority :: xptr
  u_server :: xptr
  u_user :: xptr
  u_port :: int
  u_path :: xptr
  u_query :: xptr
  u_fragment :: xptr
  u_cleanup :: u32
  u_query_raw :: xptr

definition XML_URI_ALLOW_UNWISE :: u32 where "XML_URI_ALLOW_UNWISE = 1"

definition XML_URI_NO_UNESCAPE :: u32 where "XML_URI_NO_UNESCAPE = 2"

definition XML_URI_ALLOW_UCSCHAR :: u32 where "XML_URI_ALLOW_UCSCHAR = 4"

definition PORT_EMPTY :: int where "PORT_EMPTY = 0"

definition PORT_EMPTY_SERVER :: int where "PORT_EMPTY_SERVER = -1"

definition STRNDUP :: "u8 list \<Rightarrow> nat \<Rightarrow> bool list \<Rightarrow> (xptr \<times> bool list) option" where
  "STRNDUP s n mem =
     (let (ok, mem) = malloc mem in do { r \<leftarrow> xmlStrndup ok (Some s) (int n); Some (r, mem) })"

definition xmlCreateURI :: "bool list \<Rightarrow> xmlURI option \<times> bool list" where
  "xmlCreateURI mem =
     (let (ok, mem) = malloc mem
      in (if ok then Some \<lparr>u_scheme = None, u_opaque = None, u_authority = None, u_server = None, u_user = None,
            u_port = PORT_EMPTY, u_path = None, u_query = None, u_fragment = None, u_cleanup = 0,
            u_query_raw = None\<rparr> else None, mem))"

text \<open>\<open>xmlCleanURI\<close> keeps the port and the flags.\<close>

definition xmlCleanURI :: "xmlURI option \<Rightarrow> xmlURI option" where
  "xmlCleanURI = map_option (\<lambda>u. u\<lparr>u_scheme := None, u_server := None, u_user := None, u_path := None,
     u_fragment := None, u_opaque := None, u_authority := None, u_query := None, u_query_raw := None\<rparr>)"

section \<open>Unescaping\<close>

definition is_hex :: "u8 \<Rightarrow> bool" where
  "is_hex c \<longleftrightarrow> (0x30 \<le> c \<and> c \<le> 0x39) \<or> (0x61 \<le> c \<and> c \<le> 0x66) \<or> (0x41 \<le> c \<and> c \<le> 0x46)"

definition hex_value :: "u8 \<Rightarrow> u8" where
  "hex_value c =
     (if 0x30 \<le> c \<and> c \<le> 0x39 then c - 0x30
      else if 0x61 \<le> c \<and> c \<le> 0x66 then c - 0x61 + 10
      else if 0x41 \<le> c \<and> c \<le> 0x46 then c - 0x41 + 10 else 0)"

text \<open>The test at the head of the loop, with its reads in order.\<close>

definition at_escape :: "nat \<Rightarrow> u8 list \<Rightarrow> bool option" where
  "at_escape len p =
     (if \<not> len > 2 then Some False
      else do {
        c \<leftarrow> rd p 0;
        if c \<noteq> 0x25 then Some False
        else do { a \<leftarrow> rd p 1; if \<not> is_hex a then Some False else do { b \<leftarrow> rd p 2; Some (is_hex b) } }
      })"

function unescape_loop :: "nat \<Rightarrow> u8 list \<Rightarrow> u8 list option" where
  "unescape_loop len p =
     (if len = 0 then Some []
      else do {
        e \<leftarrow> at_escape len p;
        if e then map_option ((#) (hex_value (p ! 1) * 16 + hex_value (p ! 2))) (unescape_loop (len - 3) (drop 3 p))
        else do { c \<leftarrow> rd p 0; map_option ((#) c) (unescape_loop (len - 1) (drop 1 p)) }
      })"
  by pat_completeness auto
termination by (relation "measure fst") auto

declare unescape_loop.simps [simp del]

text \<open>
  \<open>xmlURIUnescapeString\<close>; \<open>target\<close> is the optional destination, which must have
  room for the result.
\<close>

definition xmlURIUnescapeString :: "xptr \<Rightarrow> int \<Rightarrow> xptr \<Rightarrow> bool list \<Rightarrow> (xptr \<times> bool list) option" where
  "xmlURIUnescapeString str len target mem =
     (case str of
        None \<Rightarrow> Some (None, mem)
      | Some p \<Rightarrow> do {
          n \<leftarrow> (if len \<le> 0 then strlen p else Some (nat len));
          (case target of
             None \<Rightarrow>
               (let (ok, mem) = malloc mem
                in if \<not> ok then Some (None, mem)
                   else do { bs \<leftarrow> unescape_loop n p; Some (Some (bs @ [0]), mem) })
           | Some t \<Rightarrow> do {
               bs \<leftarrow> unescape_loop n p;
               if length bs < length t then Some (Some (bs @ 0 # drop (Suc (length bs)) t), mem) else None
             })
        })"

text \<open>
  How the parser stores a part: the bytes as they are with \<open>XML_URI_NO_UNESCAPE\<close>,
  unescaped otherwise.
\<close>

definition uri_part :: "xmlURI \<Rightarrow> u8 list \<Rightarrow> nat \<Rightarrow> bool list \<Rightarrow> (xptr \<times> bool list) option" where
  "uri_part u str n mem =
     (if u_cleanup u AND XML_URI_NO_UNESCAPE \<noteq> 0 then STRNDUP str n mem
      else xmlURIUnescapeString (Some str) (int n) None mem)"

section \<open>Scanning\<close>

definition xmlIsUnreserved :: "xmlURI option \<Rightarrow> u8 \<Rightarrow> bool" where
  "xmlIsUnreserved uri c =
     (case uri of
        None \<Rightarrow> False
      | Some u \<Rightarrow>
          if ISA_STRICTLY_UNRESERVED c then True
          else if u_cleanup u AND XML_URI_ALLOW_UNWISE \<noteq> 0 then IS_UNWISE c
          else if u_cleanup u AND XML_URI_ALLOW_UCSCHAR \<noteq> 0 then ISA_UCSCHAR c
          else False)"

text \<open>
  The tests of the scanning loops are disjunctions of \<open>ISA_UNRESERVED\<close>, \<open>ISA_PCT_ENCODED\<close>
  and single characters: \<open>uri_char uri extra\<close> has \<open>extra\<close> for the characters.
\<close>

definition uri_char :: "xmlURI option \<Rightarrow> (u8 \<Rightarrow> bool) \<Rightarrow> u8 list \<Rightarrow> bool option" where
  "uri_char uri extra p = do {
     c \<leftarrow> rd p 0;
     if xmlIsUnreserved uri c then Some True
     else do { e \<leftarrow> ISA_PCT_ENCODED p; Some (e \<or> extra c) }
   }"

definition ISA_PCHAR :: "xmlURI option \<Rightarrow> u8 list \<Rightarrow> bool option" where
  "ISA_PCHAR uri = uri_char uri (\<lambda>c. ISA_SUB_DELIM c \<or> c = 0x3A \<or> c = 0x40)"

text \<open>\<open>NEXT\<close>, and the loop \<open>while (test) NEXT(cur)\<close>.\<close>

definition NEXT :: "u8 list \<Rightarrow> u8 list" where
  "NEXT p = (if p ! 0 = 0x25 then drop 3 p else drop 1 p)"

function scan :: "(u8 list \<Rightarrow> bool option) \<Rightarrow> u8 list \<Rightarrow> u8 list option" where
  "scan test p =
     (if p = [] then None
      else do { b \<leftarrow> test p; if b then scan test (NEXT p) else Some p })"
  by pat_completeness auto
termination by (relation "measure (\<lambda>(_, p). length p)") (auto simp: NEXT_def)

declare scan.simps [simp del]

text \<open>The loops that step byte by byte.\<close>

fun skip_while :: "(u8 \<Rightarrow> bool) \<Rightarrow> u8 list \<Rightarrow> u8 list option" where
  "skip_while f [] = None"
| "skip_while f (c # p) = (if f c then skip_while f p else Some (c # p))"

section \<open>The RFC 3986 parser\<close>

text \<open>
  A parser takes the structure, the string and the memory, and returns the code, the
  structure, the string after what was parsed (where it was, when the code is not 0)
  and the memory.
\<close>

type_synonym presult = "(int \<times> xmlURI option \<times> u8 list \<times> bool list) option"

definition xmlParse3986Scheme :: "xmlURI option \<Rightarrow> u8 list \<Rightarrow> bool list \<Rightarrow> presult" where
  "xmlParse3986Scheme uri str mem = do {
     c \<leftarrow> rd str 0;
     if \<not> ISA_ALPHA c then Some (1, uri, str, mem)
     else do {
       cur \<leftarrow> skip_while (\<lambda>c. ISA_ALPHA c \<or> ISA_DIGIT c \<or> c = 0x2B \<or> c = 0x2D \<or> c = 0x2E) (drop 1 str);
       (case uri of
          None \<Rightarrow> Some (0, uri, cur, mem)
        | Some u \<Rightarrow> do {
            (s, mem) \<leftarrow> STRNDUP str (length str - length cur) mem;
            Some (if s = None then (-1, Some (u\<lparr>u_scheme := s\<rparr>), str, mem) else (0, Some (u\<lparr>u_scheme := s\<rparr>), cur, mem))
          })
     }
   }"

definition xmlParse3986Fragment :: "xmlURI option \<Rightarrow> u8 list \<Rightarrow> bool list \<Rightarrow> presult" where
  "xmlParse3986Fragment uri str mem = do {
     cur \<leftarrow> scan (uri_char uri (\<lambda>c. ISA_SUB_DELIM c \<or> c \<in> {0x3A, 0x40, 0x2F, 0x3F, 0x5B, 0x5D})) str;
     (case uri of
        None \<Rightarrow> Some (0, uri, cur, mem)
      | Some u \<Rightarrow> do {
          (s, mem) \<leftarrow> uri_part u str (length str - length cur) mem;
          Some (if s = None then (-1, Some (u\<lparr>u_fragment := s\<rparr>), str, mem)
                else (0, Some (u\<lparr>u_fragment := s\<rparr>), cur, mem))
        })
   }"

definition xmlParse3986Query :: "xmlURI option \<Rightarrow> u8 list \<Rightarrow> bool list \<Rightarrow> presult" where
  "xmlParse3986Query uri str mem = do {
     cur \<leftarrow> scan (uri_char uri (\<lambda>c. ISA_SUB_DELIM c \<or> c \<in> {0x3A, 0x40, 0x2F, 0x3F})) str;
     (case uri of
        None \<Rightarrow> Some (0, uri, cur, mem)
      | Some u \<Rightarrow> do {
          (s, mem) \<leftarrow> uri_part u str (length str - length cur) mem;
          if s = None then Some (-1, Some (u\<lparr>u_query := s\<rparr>), str, mem)
          else do {
            (r, mem) \<leftarrow> STRNDUP str (length str - length cur) mem;
            Some (if r = None then (-1, Some (u\<lparr>u_query := s, u_query_raw := r\<rparr>), str, mem)
                  else (0, Some (u\<lparr>u_query := s, u_query_raw := r\<rparr>), cur, mem))
          }
        })
   }"

text \<open>The loop over the digits of a port; the inner \<open>None\<close> is \<open>return(1)\<close>.\<close>

fun port_loop :: "u8 list \<Rightarrow> int \<Rightarrow> (int \<times> u8 list) option option" where
  "port_loop [] port = None"
| "port_loop (c # p) port =
     (if ISA_DIGIT c
      then let digit = uint c - 0x30
           in if port > INT_MAX div 10 then Some None
              else if port * 10 > INT_MAX - digit then Some None
              else port_loop p (port * 10 + digit)
      else Some (Some (port, c # p)))"

definition xmlParse3986Port :: "xmlURI option \<Rightarrow> u8 list \<Rightarrow> bool list \<Rightarrow> presult" where
  "xmlParse3986Port uri str mem = do {
     c \<leftarrow> rd str 0;
     if ISA_DIGIT c
     then do {
       r \<leftarrow> port_loop str 0;
       Some (case r of
               None \<Rightarrow> (1, uri, str, mem)
             | Some (port, cur) \<Rightarrow> (0, map_option (\<lambda>u. u\<lparr>u_port := port\<rparr>) uri, cur, mem))
     }
     else Some (1, uri, str, mem)
   }"

definition xmlParse3986Userinfo :: "xmlURI option \<Rightarrow> u8 list \<Rightarrow> bool list \<Rightarrow> presult" where
  "xmlParse3986Userinfo uri str mem = do {
     cur \<leftarrow> scan (uri_char uri (\<lambda>c. ISA_SUB_DELIM c \<or> c = 0x3A)) str;
     c \<leftarrow> rd cur 0;
     if c = 0x40
     then (case uri of
             None \<Rightarrow> Some (0, uri, cur, mem)
           | Some u \<Rightarrow> do {
               (s, mem) \<leftarrow> uri_part u str (length str - length cur) mem;
               Some (if s = None then (-1, Some (u\<lparr>u_user := s\<rparr>), str, mem)
                     else (0, Some (u\<lparr>u_user := s\<rparr>), cur, mem))
             })
     else Some (1, uri, str, mem)
   }"

definition xmlParse3986DecOctet :: "u8 list \<Rightarrow> (int \<times> u8 list) option" where
  "xmlParse3986DecOctet str = do {
     c0 \<leftarrow> rd str 0;
     if \<not> ISA_DIGIT c0 then Some (1, str)
     else do {
       c1 \<leftarrow> rd str 1;
       if \<not> ISA_DIGIT c1 then Some (0, drop 1 str)
       else if c0 = 0x30 then Some (1, str)
       else do {
         c2 \<leftarrow> rd str 2;
         Some (if \<not> ISA_DIGIT c2 then (0, drop 2 str)
               else if c0 = 0x31 \<and> ISA_DIGIT c1 \<and> ISA_DIGIT c2 then (0, drop 3 str)
               else if c0 = 0x32 \<and> 0x30 \<le> c1 \<and> c1 \<le> 0x34 \<and> ISA_DIGIT c2 then (0, drop 3 str)
               else if c0 = 0x32 \<and> c1 = 0x35 \<and> 0x30 \<le> c2 \<and> c1 \<le> 0x35 then (0, drop 3 str)
               else (1, str))
       }
     }
   }"

text \<open>
  The attempt at an IPv4 address in \<open>xmlParse3986Host\<close>; the inner \<open>None\<close> is
  \<open>goto not_ipv4\<close>.  \<open>cur\<close> is moved past the first dot only.
\<close>

definition host_ipv4 :: "u8 list \<Rightarrow> u8 list option option" where
  "host_ipv4 str = do {
     (r, cur) \<leftarrow> xmlParse3986DecOctet str;
     if r \<noteq> 0 then Some None else do {
     c \<leftarrow> rd cur 0;
     if c \<noteq> 0x2E then Some None else do {
     (r, cur) \<leftarrow> xmlParse3986DecOctet (drop 1 cur);
     if r \<noteq> 0 then Some None else do {
     c \<leftarrow> rd cur 0;
     if c \<noteq> 0x2E then Some None else do {
     (r, cur) \<leftarrow> xmlParse3986DecOctet cur;
     if r \<noteq> 0 then Some None else do {
     c \<leftarrow> rd cur 0;
     if c \<noteq> 0x2E then Some None else do {
     (r, cur) \<leftarrow> xmlParse3986DecOctet cur;
     Some (if r \<noteq> 0 then None else Some cur) }}}}}}
   }"

text \<open>The label \<open>found\<close>: store the server.\<close>

definition host_found :: "xmlURI option \<Rightarrow> u8 list \<Rightarrow> u8 list \<Rightarrow> bool list \<Rightarrow> presult" where
  "host_found uri str cur mem =
     (case uri of
        None \<Rightarrow> Some (0, uri, cur, mem)
      | Some u \<Rightarrow>
          if length cur \<noteq> length str
          then do {
            (s, mem) \<leftarrow> uri_part u str (length str - length cur) mem;
            Some (if s = None then (-1, Some (u\<lparr>u_authority := None, u_server := s\<rparr>), str, mem)
                  else (0, Some (u\<lparr>u_authority := None, u_server := s\<rparr>), cur, mem))
          }
          else Some (0, Some (u\<lparr>u_authority := None, u_server := None\<rparr>), cur, mem))"

definition xmlParse3986Host :: "xmlURI option \<Rightarrow> u8 list \<Rightarrow> bool list \<Rightarrow> presult" where
  "xmlParse3986Host uri str mem = do {
     c \<leftarrow> rd str 0;
     if c = 0x5B
     then do {
       cur \<leftarrow> skip_while (\<lambda>c. c \<noteq> 0x5D \<and> c \<noteq> 0) (drop 1 str);
       c \<leftarrow> rd cur 0;
       if c \<noteq> 0x5D then Some (1, uri, str, mem) else host_found uri str (drop 1 cur) mem
     }
     else do {
       v4 \<leftarrow> (if ISA_DIGIT c then host_ipv4 str else Some None);
       (case v4 of
          Some cur \<Rightarrow> host_found uri str cur mem
        | None \<Rightarrow> do { cur \<leftarrow> scan (uri_char uri ISA_SUB_DELIM) str; host_found uri str cur mem })
     }
   }"

definition xmlParse3986Authority :: "xmlURI option \<Rightarrow> u8 list \<Rightarrow> bool list \<Rightarrow> presult" where
  "xmlParse3986Authority uri str mem = do {
     (ret, uri, cur, mem) \<leftarrow> xmlParse3986Userinfo uri str mem;
     if ret < 0 then Some (ret, uri, str, mem)
     else do {
       cur \<leftarrow> (if ret \<noteq> 0 then Some str else do { c \<leftarrow> rd cur 0; Some (if c \<noteq> 0x40 then str else drop 1 cur) });
       (ret, uri, cur, mem) \<leftarrow> xmlParse3986Host uri cur mem;
       if ret \<noteq> 0 then Some (ret, uri, str, mem)
       else do {
         c \<leftarrow> rd cur 0;
         if c = 0x3A
         then do {
           (ret, uri, cur, mem) \<leftarrow> xmlParse3986Port uri (drop 1 cur) mem;
           Some (ret, uri, if ret \<noteq> 0 then str else cur, mem)
         }
         else Some (0, uri, cur, mem)
       }
     }
   }"

definition xmlParse3986Segment :: "xmlURI option \<Rightarrow> u8 list \<Rightarrow> u8 \<Rightarrow> bool \<Rightarrow> (int \<times> u8 list) option" where
  "xmlParse3986Segment uri str forbid emp = do {
     b \<leftarrow> ISA_PCHAR uri str;
     if \<not> b then Some (if emp then 0 else 1, str)
     else do {
       cur \<leftarrow> scan (\<lambda>p. do { b \<leftarrow> ISA_PCHAR uri p; if \<not> b then Some False else do { c \<leftarrow> rd p 0; Some (c \<noteq> forbid) } }) str;
       Some (0, cur)
     }
   }"

lemma NEXT_length: "p \<noteq> [] \<Longrightarrow> length (NEXT p) < length p"
  by (cases p) (auto simp: NEXT_def)

lemma scan_length: "scan test p = Some q \<Longrightarrow> length q \<le> length p"
proof (induction test p arbitrary: q rule: scan.induct)
  case (1 test p)
  show ?case
  proof (cases "p \<noteq> [] \<and> test p = Some True")
    case True
    then have "scan test (NEXT p) = Some q" using "1.prems" by (subst (asm) scan.simps) simp
    then show ?thesis using "1.IH" True NEXT_length [of p] by fastforce
  next
    case False
    then show ?thesis using "1.prems" by (subst (asm) scan.simps) (auto split: bind_splits if_splits)
  qed
qed

lemma xmlParse3986Segment_length:
  "xmlParse3986Segment uri str forbid emp = Some (ret, cur) \<Longrightarrow> length cur \<le> length str"
  by (auto simp: xmlParse3986Segment_def split: bind_splits if_splits dest: scan_length)

text \<open>The loop \<open>while (*cur == '/')\<close> over the segments of a path.\<close>

function segments_loop :: "xmlURI option \<Rightarrow> u8 list \<Rightarrow> (int \<times> u8 list) option" where
  "segments_loop uri p = do {
     c \<leftarrow> rd p 0;
     if c = 0x2F
     then do {
       (ret, q) \<leftarrow> xmlParse3986Segment uri (drop 1 p) 0 True;
       if ret \<noteq> 0 then Some (ret, p) else segments_loop uri q
     }
     else Some (0, p)
   }"
  by pat_completeness auto
termination
  by (relation "measure (\<lambda>(_, p). length p)")
    (auto simp: rd_def neq_Nil_conv split: if_splits dest!: xmlParse3986Segment_length)

declare segments_loop.simps [simp del]

text \<open>The end of the four path parsers: store the path.\<close>

definition store_path :: "xmlURI option \<Rightarrow> u8 list \<Rightarrow> u8 list \<Rightarrow> bool list \<Rightarrow> presult" where
  "store_path uri str cur mem =
     (case uri of
        None \<Rightarrow> Some (0, uri, cur, mem)
      | Some u \<Rightarrow>
          if length cur \<noteq> length str
          then do {
            (s, mem) \<leftarrow> uri_part u str (length str - length cur) mem;
            Some (if s = None then (-1, Some (u\<lparr>u_path := s\<rparr>), str, mem) else (0, Some (u\<lparr>u_path := s\<rparr>), cur, mem))
          }
          else Some (0, Some (u\<lparr>u_path := None\<rparr>), cur, mem))"

definition xmlParse3986PathAbEmpty :: "xmlURI option \<Rightarrow> u8 list \<Rightarrow> bool list \<Rightarrow> presult" where
  "xmlParse3986PathAbEmpty uri str mem = do {
     (ret, cur) \<leftarrow> segments_loop uri str;
     if ret \<noteq> 0 then Some (ret, uri, str, mem) else store_path uri str cur mem
   }"

definition xmlParse3986PathAbsolute :: "xmlURI option \<Rightarrow> u8 list \<Rightarrow> bool list \<Rightarrow> presult" where
  "xmlParse3986PathAbsolute uri str mem = do {
     c \<leftarrow> rd str 0;
     if c \<noteq> 0x2F then Some (1, uri, str, mem)
     else do {
       (ret, cur) \<leftarrow> xmlParse3986Segment uri (drop 1 str) 0 False;
       (ret, cur) \<leftarrow> (if ret = 0 then segments_loop uri cur else Some (0, cur));
       if ret \<noteq> 0 then Some (ret, uri, str, mem) else store_path uri str cur mem
     }
   }"

definition path_segments :: "u8 \<Rightarrow> xmlURI option \<Rightarrow> u8 list \<Rightarrow> bool list \<Rightarrow> presult" where
  "path_segments forbid uri str mem = do {
     (ret, cur) \<leftarrow> xmlParse3986Segment uri str forbid False;
     if ret \<noteq> 0 then Some (ret, uri, str, mem)
     else do {
       (ret, cur) \<leftarrow> segments_loop uri cur;
       if ret \<noteq> 0 then Some (ret, uri, str, mem) else store_path uri str cur mem
     }
   }"

definition xmlParse3986PathRootless :: "xmlURI option \<Rightarrow> u8 list \<Rightarrow> bool list \<Rightarrow> presult" where
  "xmlParse3986PathRootless = path_segments 0"

definition xmlParse3986PathNoScheme :: "xmlURI option \<Rightarrow> u8 list \<Rightarrow> bool list \<Rightarrow> presult" where
  "xmlParse3986PathNoScheme = path_segments 0x3A"

definition path_empty :: "xmlURI option \<Rightarrow> xmlURI option" where
  "path_empty = map_option (\<lambda>u. u\<lparr>u_path := None\<rparr>)"

text \<open>\<open>xmlParse3986HierPart\<close>, which reads \<open>uri->server\<close> without a test for \<open>NULL\<close>.\<close>

definition xmlParse3986HierPart :: "xmlURI option \<Rightarrow> u8 list \<Rightarrow> bool list \<Rightarrow> presult" where
  "xmlParse3986HierPart uri str mem = do {
     c \<leftarrow> rd str 0;
     slashes \<leftarrow> (if c = 0x2F then do { d \<leftarrow> rd str 1; Some (d = 0x2F) } else Some False);
     if slashes
     then do {
       (ret, uri, cur, mem) \<leftarrow> xmlParse3986Authority uri (drop 2 str) mem;
       if ret \<noteq> 0 then Some (ret, uri, str, mem)
       else do {
         u \<leftarrow> uri;
         let u = (if u_server u = None \<and> u_port u = PORT_EMPTY then u\<lparr>u_port := PORT_EMPTY_SERVER\<rparr> else u);
         (ret, uri, cur, mem) \<leftarrow> xmlParse3986PathAbEmpty (Some u) cur mem;
         Some (ret, uri, if ret \<noteq> 0 then str else cur, mem)
       }
     }
     else if c = 0x2F then xmlParse3986PathAbsolute uri str mem
     else do {
       b \<leftarrow> ISA_PCHAR uri str;
       if b then xmlParse3986PathRootless uri str mem else Some (0, path_empty uri, str, mem)
     }
   }"

text \<open>The end of \<open>xmlParse3986RelativeRef\<close> and \<open>xmlParse3986URI\<close>: query, fragment, end of the string.\<close>

definition query_fragment :: "xmlURI option \<Rightarrow> u8 list \<Rightarrow> bool list \<Rightarrow> (int \<times> xmlURI option \<times> bool list) option" where
  "query_fragment uri str mem = do {
     c \<leftarrow> rd str 0;
     (ret, uri, str, mem) \<leftarrow> (if c = 0x3F then xmlParse3986Query uri (drop 1 str) mem else Some (0, uri, str, mem));
     if ret \<noteq> 0 then Some (ret, uri, mem)
     else do {
       c \<leftarrow> rd str 0;
       (ret, uri, str, mem) \<leftarrow> (if c = 0x23 then xmlParse3986Fragment uri (drop 1 str) mem else Some (0, uri, str, mem));
       if ret \<noteq> 0 then Some (ret, uri, mem)
       else do { c \<leftarrow> rd str 0; Some (if c \<noteq> 0 then (1, xmlCleanURI uri, mem) else (0, uri, mem)) }
     }
   }"

definition xmlParse3986RelativeRef :: "xmlURI option \<Rightarrow> u8 list \<Rightarrow> bool list \<Rightarrow> (int \<times> xmlURI option \<times> bool list) option" where
  "xmlParse3986RelativeRef uri str mem = do {
     c \<leftarrow> rd str 0;
     slashes \<leftarrow> (if c = 0x2F then do { d \<leftarrow> rd str 1; Some (d = 0x2F) } else Some False);
     (ret, uri, str, mem) \<leftarrow>
       (if slashes
        then do {
          (ret, uri, cur, mem) \<leftarrow> xmlParse3986Authority uri (drop 2 str) mem;
          if ret \<noteq> 0 then Some (ret, uri, str, mem) else xmlParse3986PathAbEmpty uri cur mem
        }
        else if c = 0x2F then xmlParse3986PathAbsolute uri str mem
        else do {
          b \<leftarrow> ISA_PCHAR uri str;
          if b then xmlParse3986PathNoScheme uri str mem else Some (0, path_empty uri, str, mem)
        });
     if ret \<noteq> 0 then Some (ret, uri, mem) else query_fragment uri str mem
   }"

definition xmlParse3986URI :: "xmlURI option \<Rightarrow> u8 list \<Rightarrow> bool list \<Rightarrow> (int \<times> xmlURI option \<times> bool list) option" where
  "xmlParse3986URI uri str mem = do {
     (ret, uri, str, mem) \<leftarrow> xmlParse3986Scheme uri str mem;
     if ret \<noteq> 0 then Some (ret, uri, mem)
     else do {
       c \<leftarrow> rd str 0;
       if c \<noteq> 0x3A then Some (1, uri, mem)
       else do {
         (ret, uri, str, mem) \<leftarrow> xmlParse3986HierPart uri (drop 1 str) mem;
         if ret \<noteq> 0 then Some (ret, uri, mem) else query_fragment uri str mem
       }
     }
   }"

definition xmlParse3986URIReference ::
    "xmlURI option \<Rightarrow> xptr \<Rightarrow> bool list \<Rightarrow> (int \<times> xmlURI option \<times> bool list) option" where
  "xmlParse3986URIReference uri str mem =
     (case str of
        None \<Rightarrow> Some (-1, uri, mem)
      | Some s \<Rightarrow> do {
          (ret, uri, mem) \<leftarrow> xmlParse3986URI (xmlCleanURI uri) s mem;
          if ret < 0 then Some (ret, uri, mem)
          else if ret \<noteq> 0
          then do {
            (ret, uri, mem) \<leftarrow> xmlParse3986RelativeRef (xmlCleanURI uri) s mem;
            Some (if ret \<noteq> 0 then (ret, xmlCleanURI uri, mem) else (0, uri, mem))
          }
          else Some (0, uri, mem)
        })"

text \<open>\<open>xmlParseURISafe\<close>; the structure in the result is \<open>*uriOut\<close>.\<close>

definition xmlParseURISafe :: "xptr \<Rightarrow> bool list \<Rightarrow> (int \<times> xmlURI option \<times> bool list) option" where
  "xmlParseURISafe str mem =
     (case str of
        None \<Rightarrow> Some (1, None, mem)
      | Some s \<Rightarrow>
          (let (uri, mem) = xmlCreateURI mem
           in if uri = None then Some (-1, None, mem)
              else do {
                (ret, uri, mem) \<leftarrow> xmlParse3986URIReference uri str mem;
                Some (if ret \<noteq> 0 then (ret, None, mem) else (0, uri, mem))
              }))"

definition xmlParseURI :: "xptr \<Rightarrow> bool list \<Rightarrow> (xmlURI option \<times> bool list) option" where
  "xmlParseURI str mem = do { (ret, uri, mem) \<leftarrow> xmlParseURISafe str mem; Some (uri, mem) }"

definition xmlParseURIReference :: "xmlURI option \<Rightarrow> xptr \<Rightarrow> bool list \<Rightarrow> (int \<times> xmlURI option \<times> bool list) option" where
  "xmlParseURIReference uri str mem = xmlParse3986URIReference uri str mem"

definition xmlParseURIRaw :: "xptr \<Rightarrow> bool \<Rightarrow> bool list \<Rightarrow> (xmlURI option \<times> bool list) option" where
  "xmlParseURIRaw str raw mem =
     (if str = None then Some (None, mem)
      else
        let (uri, mem) = xmlCreateURI mem
        in case uri of
             None \<Rightarrow> Some (None, mem)
           | Some u \<Rightarrow> do {
               (ret, uri, mem) \<leftarrow>
                 xmlParseURIReference (Some (if raw then u\<lparr>u_cleanup := u_cleanup u OR XML_URI_NO_UNESCAPE\<rparr> else u)) str mem;
               Some (if ret \<noteq> 0 then None else uri, mem)
             })"

section \<open>Memory safety\<close>

lemma terminated_rd: "terminated p \<Longrightarrow> \<exists>c q. p = c # q \<and> rd p 0 = Some c"
  by (cases p) (auto simp: rd_def)

text \<open>
  What an allocated copy promises: a terminated string, or \<open>NULL\<close> because an
  allocation failed.
\<close>

definition dup_ok :: "bool list \<Rightarrow> (xptr \<times> bool list) option \<Rightarrow> bool" where
  "dup_ok mem r \<longleftrightarrow> (\<exists>p mem'. r = Some (p, mem') \<and> ptr_ok p \<and> (p = None \<longrightarrow> False \<in> set mem) \<and> set mem' \<subseteq> set mem)"

lemma STRNDUP_ok: "n \<le> length str \<Longrightarrow> dup_ok mem (STRNDUP str n mem)"
  by (rule malloc_cases [of mem]) (auto simp: STRNDUP_def xmlStrndup_def memcpy_def dup_ok_def)

lemma at_escape_safe: "n \<le> length p \<Longrightarrow> \<exists>e. at_escape n p = Some e \<and> (e \<longrightarrow> 2 < n)"
  by (cases "2 < n") (auto simp: at_escape_def rd_def)

lemma unescape_loop_safe: "n \<le> length p \<Longrightarrow> unescape_loop n p \<noteq> None"
proof (induction n p rule: unescape_loop.induct)
  case (1 n p)
  show ?case
  proof (cases "n = 0")
    case True
    then show ?thesis by (simp add: unescape_loop.simps)
  next
    case False
    obtain e where e: "at_escape n p = Some e" "e \<longrightarrow> 2 < n" using at_escape_safe [OF "1.prems"] by blast
    show ?thesis
      using "1.prems" False e "1.IH"(1) [OF False e(1)] "1.IH"(2) [OF False e(1), of "p ! 0"]
      by (subst unescape_loop.simps) (auto simp: rd_def)
  qed
qed

lemma xmlURIUnescapeString_ok:
  assumes "terminated p" "len \<le> int (length p)"
  shows "dup_ok mem (xmlURIUnescapeString (Some p) len None mem)"
proof -
  obtain m where m: "strlen p = Some m" "m < length p" using assms(1) strlen_safe strlen_length by fastforce
  define n where "n = (if len \<le> 0 then m else nat len)"
  have "n \<le> length p" using m(2) assms(2) by (auto simp: n_def)
  then obtain bs where "unescape_loop n p = Some bs" using unescape_loop_safe by blast
  moreover have "(if len \<le> 0 then strlen p else Some (nat len)) = Some n" using m(1) by (simp add: n_def)
  ultimately show ?thesis
    by (rule_tac malloc_cases [of mem]) (auto simp: xmlURIUnescapeString_def dup_ok_def)
qed

lemma uri_part_ok: "terminated str \<Longrightarrow> dup_ok mem (uri_part u str (length str - k) mem)"
  unfolding uri_part_def using STRNDUP_ok [of "length str - k" str] xmlURIUnescapeString_ok [of str] by simp

text \<open>The scanning loops stop at the terminator at the latest.\<close>

definition stops :: "(u8 list \<Rightarrow> bool option) \<Rightarrow> bool" where
  "stops test \<longleftrightarrow> (\<forall>p. terminated p \<longrightarrow> (\<exists>b. test p = Some b \<and> (b \<longrightarrow> terminated (NEXT p))))"

lemma scan_safe: "stops test \<Longrightarrow> terminated p \<Longrightarrow> \<exists>q. scan test p = Some q \<and> terminated q"
proof (induction test p rule: scan.induct)
  case (1 test p)
  then obtain b where b: "test p = Some b" "b \<longrightarrow> terminated (NEXT p)" by (auto simp: stops_def)
  have "p \<noteq> []" using "1.prems"(2) by auto
  then show ?case using "1.IH" [OF _ b(1)] b "1.prems" by (subst scan.simps) auto
qed

lemma skip_while_safe:
  "terminated p \<Longrightarrow> \<not> f 0 \<Longrightarrow> \<exists>q. skip_while f p = Some q \<and> terminated q \<and> length q \<le> length p"
  by (induction p) (auto intro: le_SucI)

text \<open>
  A structure the parser keeps within bounds: its strings are terminated, its port fits
  an \<open>int\<close>, and its flags do not make the terminator a character of an URI.
\<close>

definition uri_safe :: "xmlURI \<Rightarrow> bool" where
  "uri_safe u \<longleftrightarrow> (u_cleanup u AND XML_URI_ALLOW_UCSCHAR = 0 \<or> u_cleanup u AND XML_URI_ALLOW_UNWISE \<noteq> 0) \<and>
     PORT_EMPTY_SERVER \<le> u_port u \<and> u_port u \<le> INT_MAX \<and>
     ptr_ok (u_scheme u) \<and> ptr_ok (u_opaque u) \<and> ptr_ok (u_authority u) \<and> ptr_ok (u_server u) \<and> ptr_ok (u_user u) \<and>
     ptr_ok (u_path u) \<and> ptr_ok (u_query u) \<and> ptr_ok (u_fragment u) \<and> ptr_ok (u_query_raw u)"

lemma unreserved_0: "uri_safe u \<Longrightarrow> \<not> xmlIsUnreserved (Some u) 0"
  by (auto simp: uri_safe_def xmlIsUnreserved_def ISA_STRICTLY_UNRESERVED_def ISA_ALPHA_def ISA_DIGIT_def IS_UNWISE_def)

lemma uri_safe_update [simp]:
  assumes "uri_safe u" "ptr_ok p"
  shows "uri_safe (u\<lparr>u_scheme := p\<rparr>)" "uri_safe (u\<lparr>u_authority := p\<rparr>)" "uri_safe (u\<lparr>u_server := p\<rparr>)"
    "uri_safe (u\<lparr>u_user := p\<rparr>)" "uri_safe (u\<lparr>u_path := p\<rparr>)" "uri_safe (u\<lparr>u_query := p\<rparr>)"
    "uri_safe (u\<lparr>u_fragment := p\<rparr>)" "uri_safe (u\<lparr>u_query_raw := p\<rparr>)" "uri_safe (u\<lparr>u_opaque := p\<rparr>)"
  using assms by (simp_all add: uri_safe_def)

lemma uri_safe_port [simp]:
  "uri_safe u \<Longrightarrow> PORT_EMPTY_SERVER \<le> n \<Longrightarrow> n \<le> INT_MAX \<Longrightarrow> uri_safe (u\<lparr>u_port := n\<rparr>)"
  by (simp add: uri_safe_def)

lemma uri_safe_clean: "uri_safe u \<Longrightarrow> \<exists>v. xmlCleanURI (Some u) = Some v \<and> uri_safe v"
  by (simp add: xmlCleanURI_def)

lemma not_unreserved_percent: "\<not> xmlIsUnreserved (Some u) 0x25"
  by (simp add: xmlIsUnreserved_def ISA_STRICTLY_UNRESERVED_def ISA_ALPHA_def ISA_DIGIT_def IS_UNWISE_def ISA_UCSCHAR_def)

lemma hexdig_0 [simp]: "\<not> ISA_HEXDIG 0"
  by (simp add: ISA_HEXDIG_def ISA_DIGIT_def)

lemma pct_encoded_safe:
  "terminated p \<Longrightarrow> \<exists>b. ISA_PCT_ENCODED p = Some b \<and> (b \<longrightarrow> hd p = 0x25 \<and> terminated (drop 3 p))"
  by (cases p; cases "tl p"; cases "tl (tl p)") (auto simp: ISA_PCT_ENCODED_def rd_def)

lemma uri_char_stops:
  assumes "uri_safe u" "\<not> extra 0" "\<not> extra 0x25"
  shows "stops (uri_char (Some u) extra)"
  unfolding stops_def
proof (intro allI impI)
  fix p :: "u8 list" assume t: "terminated p"
  obtain c q where p: "p = c # q" using t by (cases p) auto
  obtain e where e: "ISA_PCT_ENCODED p = Some e" "e \<longrightarrow> hd p = 0x25 \<and> terminated (drop 3 p)"
    using pct_encoded_safe [OF t] by blast
  let ?b = "xmlIsUnreserved (Some u) c \<or> e \<or> extra c"
  have "uri_char (Some u) extra p = Some ?b" using e(1) p by (simp add: uri_char_def rd_def)
  moreover have "?b \<longrightarrow> terminated (NEXT p)"
  proof (cases "c = 0x25")
    case True
    then show ?thesis using e(2) assms(3) not_unreserved_percent [of u] p by (auto simp: NEXT_def)
  next
    case False
    then show ?thesis using e(2) t assms(2) unreserved_0 [OF assms(1)] p by (auto simp: NEXT_def)
  qed
  ultimately show "\<exists>b. uri_char (Some u) extra p = Some b \<and> (b \<longrightarrow> terminated (NEXT p))" by blast
qed

lemma sub_delim_simps [simp]: "\<not> ISA_SUB_DELIM 0" "\<not> ISA_SUB_DELIM 0x25"
  by (simp_all add: ISA_SUB_DELIM_def)

lemma ISA_PCHAR_safe: "uri_safe u \<Longrightarrow> terminated p \<Longrightarrow> \<exists>b. ISA_PCHAR (Some u) p = Some b \<and> (b \<longrightarrow> terminated (NEXT p))"
  using uri_char_stops [of u "\<lambda>c. ISA_SUB_DELIM c \<or> c = 0x3A \<or> c = 0x40"] by (simp add: ISA_PCHAR_def stops_def)

lemma uri_char_scan:
  assumes "uri_safe u" "terminated p" "\<not> extra 0" "\<not> extra 0x25"
  obtains q where "scan (uri_char (Some u) extra) p = Some q" "terminated q"
  using scan_safe [OF uri_char_stops [OF assms(1,3,4)] assms(2)] by blast

text \<open>What every parser promises on a terminated string.\<close>

definition parsed :: "bool list \<Rightarrow> presult \<Rightarrow> bool" where
  "parsed mem r \<longleftrightarrow> (\<exists>ret u str mem'. r = Some (ret, Some u, str, mem') \<and> ret \<in> {-1, 0, 1} \<and>
     (ret = -1 \<longrightarrow> False \<in> set mem) \<and> uri_safe u \<and> terminated str \<and> set mem' \<subseteq> set mem)"

named_theorems parsed_intros \<open>parsers that stay in bounds on terminated strings\<close>

lemma parsedI:
  "ret \<in> {-1, 0, 1} \<Longrightarrow> (ret = -1 \<longrightarrow> False \<in> set mem) \<Longrightarrow> uri_safe u \<Longrightarrow> terminated str \<Longrightarrow> set mem' \<subseteq> set mem \<Longrightarrow>
   parsed mem (Some (ret, Some u, str, mem'))"
  by (auto simp: parsed_def)

lemma parsedE:
  assumes "parsed mem r"
  obtains ret u str mem' where "r = Some (ret, Some u, str, mem')" "ret \<in> {-1, 0, 1}" "ret = -1 \<longrightarrow> False \<in> set mem"
    "uri_safe u" "terminated str" "set mem' \<subseteq> set mem"
  using assms unfolding parsed_def by blast

lemma parsed_mono: "parsed mem' r \<Longrightarrow> set mem' \<subseteq> set mem \<Longrightarrow> parsed mem r"
  unfolding parsed_def by blast

text \<open>A part that is copied and stored.\<close>

lemma dup_parsed:
  assumes "dup_ok mem r" "terminated str" "terminated cur" "\<And>p. ptr_ok p \<Longrightarrow> uri_safe (f p)"
  shows "parsed mem (do { (s, mem) \<leftarrow> r; Some (if s = None then (-1, Some (f s), str, mem) else (0, Some (f s), cur, mem)) })"
proof -
  obtain p mem' where r: "r = Some (p, mem')" "ptr_ok p" "p = None \<longrightarrow> False \<in> set mem" "set mem' \<subseteq> set mem"
    using assms(1) unfolding dup_ok_def by blast
  then show ?thesis using assms(2-4) by (cases p) (auto intro!: parsedI)
qed

lemma parsed_Scheme [parsed_intros]:
  assumes "uri_safe u" "terminated str"
  shows "parsed mem (xmlParse3986Scheme (Some u) str mem)"
proof -
  let ?f = "\<lambda>c. ISA_ALPHA c \<or> ISA_DIGIT c \<or> c = 0x2B \<or> c = 0x2D \<or> c = 0x2E"
  obtain c q where p: "str = c # q" using assms(2) by (cases str) auto
  show ?thesis
  proof (cases "ISA_ALPHA c")
    case True
    then have "terminated q" using assms(2) p by (auto simp: ISA_ALPHA_def)
    then obtain cur where cur: "skip_while ?f q = Some cur" "terminated cur"
      using skip_while_safe [of q ?f] by (auto simp: ISA_ALPHA_def ISA_DIGIT_def)
    have "parsed mem (do { (s, mem) \<leftarrow> STRNDUP str (length str - length cur) mem;
        Some (if s = None then (-1, Some (u\<lparr>u_scheme := s\<rparr>), str, mem) else (0, Some (u\<lparr>u_scheme := s\<rparr>), cur, mem)) })"
      by (rule dup_parsed) (use assms cur in \<open>auto intro: STRNDUP_ok\<close>)
    then show ?thesis using True cur(1) unfolding p by (simp add: xmlParse3986Scheme_def rd_def)
  next
    case False
    then show ?thesis using assms p by (auto simp: xmlParse3986Scheme_def rd_def intro!: parsedI)
  qed
qed

lemma parsed_Fragment [parsed_intros]:
  assumes "uri_safe u" "terminated str"
  shows "parsed mem (xmlParse3986Fragment (Some u) str mem)"
proof -
  let ?x = "\<lambda>c. ISA_SUB_DELIM c \<or> c \<in> {0x3A, 0x40, 0x2F, 0x3F, 0x5B, 0x5D}"
  obtain cur where cur: "scan (uri_char (Some u) ?x) str = Some cur" "terminated cur"
    using uri_char_scan [OF assms, of ?x] by auto
  have "parsed mem (do { (s, mem) \<leftarrow> uri_part u str (length str - length cur) mem;
      Some (if s = None then (-1, Some (u\<lparr>u_fragment := s\<rparr>), str, mem) else (0, Some (u\<lparr>u_fragment := s\<rparr>), cur, mem)) })"
    by (rule dup_parsed) (use assms cur in \<open>auto intro: uri_part_ok\<close>)
  then show ?thesis using cur(1) by (simp add: xmlParse3986Fragment_def)
qed

lemma parsed_Query [parsed_intros]:
  assumes "uri_safe u" "terminated str"
  shows "parsed mem (xmlParse3986Query (Some u) str mem)"
proof -
  let ?x = "\<lambda>c. ISA_SUB_DELIM c \<or> c \<in> {0x3A, 0x40, 0x2F, 0x3F}"
  obtain cur where cur: "scan (uri_char (Some u) ?x) str = Some cur" "terminated cur"
    using uri_char_scan [OF assms, of ?x] by auto
  obtain s mem1 where s: "uri_part u str (length str - length cur) mem = Some (s, mem1)" "ptr_ok s"
    "s = None \<longrightarrow> False \<in> set mem" "set mem1 \<subseteq> set mem"
    using uri_part_ok [OF assms(2)] unfolding dup_ok_def by blast
  show ?thesis
  proof (cases "s = None")
    case True
    then show ?thesis using assms cur(1) s by (auto simp: xmlParse3986Query_def intro!: parsedI)
  next
    case False
    have "parsed mem1 (do { (r, mem) \<leftarrow> STRNDUP str (length str - length cur) mem1;
        Some (if r = None then (-1, Some (u\<lparr>u_query := s, u_query_raw := r\<rparr>), str, mem)
              else (0, Some (u\<lparr>u_query := s, u_query_raw := r\<rparr>), cur, mem)) })"
      by (rule dup_parsed) (use assms cur s(2) in \<open>auto intro: STRNDUP_ok\<close>)
    then show ?thesis using cur(1) s False by (auto simp: xmlParse3986Query_def intro: parsed_mono)
  qed
qed

lemma port_loop_safe:
  "terminated p \<Longrightarrow> 0 \<le> port \<Longrightarrow> port \<le> INT_MAX \<Longrightarrow>
   \<exists>r. port_loop p port = Some r \<and> (\<forall>n q. r = Some (n, q) \<longrightarrow> 0 \<le> n \<and> n \<le> INT_MAX \<and> terminated q)"
proof (induction p arbitrary: port)
  case Nil
  then show ?case by simp
next
  case (Cons c p)
  show ?case
  proof (cases "ISA_DIGIT c")
    case True
    then have c: "0 \<le> uint c - 0x30" "terminated p"
      using Cons.prems(1) by (auto simp: ISA_DIGIT_def word_le_def)
    then show ?thesis using Cons.IH [OF c(2), of "port * 10 + (uint c - 0x30)"] Cons.prems(2) True by (auto simp: Let_def)
  next
    case False
    then show ?thesis using Cons.prems by auto
  qed
qed

lemma parsed_Port [parsed_intros]:
  assumes "uri_safe u" "terminated str"
  shows "parsed mem (xmlParse3986Port (Some u) str mem)"
proof -
  obtain c q where p: "str = c # q" using assms(2) by (cases str) auto
  obtain r where r: "port_loop str 0 = Some r" "\<forall>n q. r = Some (n, q) \<longrightarrow> 0 \<le> n \<and> n \<le> INT_MAX \<and> terminated q"
    using port_loop_safe [OF assms(2), of 0] by (auto simp: INT_MAX_def)
  have "c \<noteq> 0 \<or> terminated str" using assms(2) by simp
  then show ?thesis
    using assms r p by (cases r) (auto simp: xmlParse3986Port_def rd_def PORT_EMPTY_SERVER_def intro!: parsedI)
qed

lemma parsed_Userinfo:
  assumes "uri_safe u" "terminated str"
  shows "parsed mem (xmlParse3986Userinfo (Some u) str mem)"
proof -
  let ?x = "\<lambda>c. ISA_SUB_DELIM c \<or> c = 0x3A"
  obtain cur where cur: "scan (uri_char (Some u) ?x) str = Some cur" "terminated cur"
    using uri_char_scan [OF assms, of ?x] by auto
  obtain c q where q: "rd cur 0 = Some c" using terminated_rd [OF cur(2)] by blast
  have "parsed mem (do { (s, mem) \<leftarrow> uri_part u str (length str - length cur) mem;
      Some (if s = None then (-1, Some (u\<lparr>u_user := s\<rparr>), str, mem) else (0, Some (u\<lparr>u_user := s\<rparr>), cur, mem)) })"
    by (rule dup_parsed) (use assms cur in \<open>auto intro: uri_part_ok\<close>)
  then show ?thesis using cur(1) q assms by (auto simp: xmlParse3986Userinfo_def intro!: parsedI)
qed

lemma rd_Cons_numeral [simp]: "rd (c # p) 1 = rd p 0" "rd (c # p) 2 = rd p 1"
  by (simp_all add: rd_def)

lemma digit_terminated: "terminated (c # p) \<Longrightarrow> ISA_DIGIT c \<Longrightarrow> \<exists>d q. p = d # q \<and> terminated p"
  by (cases p) (auto simp: ISA_DIGIT_def)

lemma DecOctet_safe:
  assumes "terminated str"
  shows "\<exists>r q. xmlParse3986DecOctet str = Some (r, q) \<and> terminated q"
proof (cases "ISA_DIGIT (hd str)")
  case True
  obtain c0 q0 where s0: "str = c0 # q0" using assms by (cases str) auto
  obtain c1 q1 where s1: "str = c0 # c1 # q1" "ISA_DIGIT c0" "terminated (c1 # q1)"
    using digit_terminated [of c0 q0] assms True s0 by auto
  show ?thesis
  proof (cases "ISA_DIGIT c1")
    case d1: True
    then obtain c2 q2 where s2: "q1 = c2 # q2" "terminated (c2 # q2)" using s1(3) digit_terminated by blast
    then have "ISA_DIGIT c2 \<longrightarrow> terminated q2" using digit_terminated by blast
    then show ?thesis using assms s1 s2 d1 unfolding xmlParse3986DecOctet_def by auto
  next
    case False
    then show ?thesis using assms s1 unfolding xmlParse3986DecOctet_def by auto
  qed
next
  case False
  then show ?thesis using assms unfolding xmlParse3986DecOctet_def by (cases str) auto
qed

lemma host_ipv4_never: "host_ipv4 str = None \<or> host_ipv4 str = Some None"
proof -
  have dot: "xmlParse3986DecOctet cur = Some (1, cur)" if "rd cur 0 = Some 0x2E" for cur
    using that by (simp add: xmlParse3986DecOctet_def ISA_DIGIT_def)
  show ?thesis unfolding host_ipv4_def by (auto simp: dot split: bind_splits if_splits)
qed

lemma host_ipv4_safe:
  assumes "terminated str"
  shows "host_ipv4 str = Some None"
proof -
  obtain r1 q1 where o1: "xmlParse3986DecOctet str = Some (r1, q1)" "terminated q1" using DecOctet_safe [OF assms] by blast
  obtain c1 p1 where c1: "q1 = c1 # p1" using o1(2) by (cases q1) auto
  have "host_ipv4 str \<noteq> None"
  proof (cases "r1 = 0 \<and> c1 = 0x2E")
    case True
    then have "terminated p1" using o1(2) c1 by auto
    then obtain r2 q2 where o2: "xmlParse3986DecOctet p1 = Some (r2, q2)" "terminated q2" using DecOctet_safe by blast
    obtain c2 p2 where c2: "q2 = c2 # p2" using o2(2) by (cases q2) auto
    have "c2 = 0x2E \<longrightarrow> xmlParse3986DecOctet q2 = Some (1, q2)"
      using c2 by (simp add: xmlParse3986DecOctet_def ISA_DIGIT_def)
    then show ?thesis using True o1(1) c1 o2(1) c2 by (simp add: host_ipv4_def)
  next
    case False
    then show ?thesis using o1(1) c1 by (auto simp: host_ipv4_def)
  qed
  then show ?thesis using host_ipv4_never [of str] by auto
qed

lemma host_found_parsed:
  assumes "uri_safe u" "terminated str" "terminated cur"
  shows "parsed mem (host_found (Some u) str cur mem)"
proof -
  have "parsed mem (do { (s, mem) \<leftarrow> uri_part u str (length str - length cur) mem;
      Some (if s = None then (-1, Some (u\<lparr>u_authority := None, u_server := s\<rparr>), str, mem)
            else (0, Some (u\<lparr>u_authority := None, u_server := s\<rparr>), cur, mem)) })"
    by (rule dup_parsed) (use assms in \<open>auto intro: uri_part_ok\<close>)
  then show ?thesis using assms by (auto simp: host_found_def intro!: parsedI)
qed

lemma parsed_Host:
  assumes "uri_safe u" "terminated str"
  shows "parsed mem (xmlParse3986Host (Some u) str mem)"
proof -
  obtain c q where p: "str = c # q" using assms(2) by (cases str) auto
  show ?thesis
  proof (cases "c = 0x5B")
    case True
    then have "terminated q" using assms(2) p by simp
    then obtain cur where cur: "skip_while (\<lambda>c. c \<noteq> 0x5D \<and> c \<noteq> 0) q = Some cur" "terminated cur"
      using skip_while_safe [of q "\<lambda>c. c \<noteq> 0x5D \<and> c \<noteq> 0"] by auto
    obtain d r where d: "cur = d # r" using cur(2) by (cases cur) auto
    have "d = 0x5D \<longrightarrow> terminated r" using cur(2) d by auto
    then show ?thesis
      using True cur(1) d p assms host_found_parsed [OF assms, of r mem] by (auto simp: xmlParse3986Host_def intro!: parsedI)
  next
    case False
    obtain cur where cur: "scan (uri_char (Some u) ISA_SUB_DELIM) str = Some cur" "terminated cur"
      using uri_char_scan [OF assms, of ISA_SUB_DELIM] by auto
    then show ?thesis
      using False p host_ipv4_safe [OF assms(2)] host_found_parsed [OF assms cur(2)] by (simp add: xmlParse3986Host_def)
  qed
qed

lemma parsed_Authority:
  assumes "uri_safe u" "terminated str"
  shows "parsed mem (xmlParse3986Authority (Some u) str mem)"
proof -
  obtain ret u1 cur mem1 where 1: "xmlParse3986Userinfo (Some u) str mem = Some (ret, Some u1, cur, mem1)"
    "ret \<in> {-1, 0, 1}" "ret = -1 \<longrightarrow> False \<in> set mem" "uri_safe u1" "terminated cur" "set mem1 \<subseteq> set mem"
    using parsed_Userinfo [OF assms] by (rule parsedE)
  obtain c q where c: "cur = c # q" using 1(5) by (cases cur) auto
  define cur1 where "cur1 = (if ret \<noteq> 0 then str else if c \<noteq> 0x40 then str else q)"
  have t1: "terminated cur1" using assms(2) 1(5) c by (auto simp: cur1_def)
  obtain ret2 u2 cur2 mem2 where 2: "xmlParse3986Host (Some u1) cur1 mem1 = Some (ret2, Some u2, cur2, mem2)"
    "ret2 \<in> {-1, 0, 1}" "ret2 = -1 \<longrightarrow> False \<in> set mem1" "uri_safe u2" "terminated cur2" "set mem2 \<subseteq> set mem1"
    using parsed_Host [OF 1(4) t1] by (rule parsedE)
  obtain d r where d: "cur2 = d # r" using 2(5) by (cases cur2) auto
  have sub: "set mem2 \<subseteq> set mem" "ret2 = -1 \<longrightarrow> False \<in> set mem" using 1(6) 2(3,6) by auto
  show ?thesis
  proof (cases "ret < 0")
    case True
    then show ?thesis using 1 assms by (auto simp: xmlParse3986Authority_def intro!: parsedI)
  next
    case False
    note run = xmlParse3986Authority_def cur1_def
    show ?thesis
    proof (cases "ret2 = 0 \<and> d = 0x3A")
      case True
      then have "terminated r" using 2(5) d by simp
      then obtain ret3 u3 cur3 mem3 where 3: "xmlParse3986Port (Some u2) r mem2 = Some (ret3, Some u3, cur3, mem3)"
        "ret3 \<in> {-1, 0, 1}" "ret3 = -1 \<longrightarrow> False \<in> set mem2" "uri_safe u3" "terminated cur3" "set mem3 \<subseteq> set mem2"
        using parsed_Port [OF 2(4)] by (metis parsedE)
      then have "xmlParse3986Authority (Some u) str mem = Some (ret3, Some u3, if ret3 \<noteq> 0 then str else cur3, mem3)"
        using False True 1(1) 2(1) c d by (auto simp: run)
      then show ?thesis using 3 sub assms(2) by (auto intro!: parsedI)
    next
      case no: False
      then have "xmlParse3986Authority (Some u) str mem = Some (ret2, Some u2, if ret2 \<noteq> 0 then str else cur2, mem2)"
        using False 1(1) 2(1) c d by (auto simp: run)
      then show ?thesis using 2 sub assms(2) by (auto intro!: parsedI)
    qed
  qed
qed

lemma Segment_safe:
  assumes "uri_safe u" "terminated str"
  shows "\<exists>ret q. xmlParse3986Segment (Some u) str forbid emp = Some (ret, q) \<and> terminated q \<and> ret \<in> {0, 1} \<and> (emp \<longrightarrow> ret = 0)"
proof -
  let ?test = "\<lambda>p. do { b \<leftarrow> ISA_PCHAR (Some u) p; if \<not> b then Some False else do { c \<leftarrow> rd p 0; Some (c \<noteq> forbid) } }"
  have "stops ?test"
    unfolding stops_def
  proof (intro allI impI)
    fix p :: "u8 list" assume t: "terminated p"
    obtain b where "ISA_PCHAR (Some u) p = Some b" "b \<longrightarrow> terminated (NEXT p)" using ISA_PCHAR_safe [OF assms(1) t] by blast
    then show "\<exists>b. ?test p = Some b \<and> (b \<longrightarrow> terminated (NEXT p))" using terminated_rd [OF t] by auto
  qed
  then obtain q where q: "scan ?test str = Some q" "terminated q" using scan_safe assms(2) by blast
  obtain b where "ISA_PCHAR (Some u) str = Some b" using ISA_PCHAR_safe [OF assms] by blast
  then show ?thesis using q assms(2) by (auto simp: xmlParse3986Segment_def)
qed

lemma segments_loop_safe:
  "terminated p \<Longrightarrow> uri_safe u \<Longrightarrow> \<exists>q. segments_loop (Some u) p = Some (0, q) \<and> terminated q"
proof (induction "length p" arbitrary: p rule: less_induct)
  case less
  obtain c q where p: "p = c # q" using less.prems(1) by (cases p) auto
  show ?case
  proof (cases "c = 0x2F")
    case True
    then have "terminated q" using less.prems(1) p by simp
    then obtain r where r: "xmlParse3986Segment (Some u) q 0 True = Some (0, r)" "terminated r"
      using Segment_safe [OF less.prems(2), of q 0 True] by auto
    have "length r < length p" using xmlParse3986Segment_length [OF r(1)] p by simp
    then show ?thesis using less.hyps [OF _ r(2) less.prems(2)] True p r(1) by (subst segments_loop.simps) simp
  next
    case False
    then show ?thesis using less.prems p by (subst segments_loop.simps) simp
  qed
qed

lemma store_path_parsed:
  assumes "uri_safe u" "terminated str" "terminated cur"
  shows "parsed mem (store_path (Some u) str cur mem)"
proof -
  have "parsed mem (do { (s, mem) \<leftarrow> uri_part u str (length str - length cur) mem;
      Some (if s = None then (-1, Some (u\<lparr>u_path := s\<rparr>), str, mem) else (0, Some (u\<lparr>u_path := s\<rparr>), cur, mem)) })"
    by (rule dup_parsed) (use assms in \<open>auto intro: uri_part_ok\<close>)
  then show ?thesis using assms by (auto simp: store_path_def intro!: parsedI)
qed

lemma parsed_PathAbEmpty:
  assumes "uri_safe u" "terminated str"
  shows "parsed mem (xmlParse3986PathAbEmpty (Some u) str mem)"
  using segments_loop_safe [OF assms(2,1)] store_path_parsed [OF assms] by (auto simp: xmlParse3986PathAbEmpty_def)

lemma parsed_PathAbsolute:
  assumes "uri_safe u" "terminated str"
  shows "parsed mem (xmlParse3986PathAbsolute (Some u) str mem)"
proof -
  obtain c q where p: "str = c # q" using assms(2) by (cases str) auto
  show ?thesis
  proof (cases "c = 0x2F")
    case True
    then have "terminated q" using assms(2) p by simp
    then obtain ret r where r: "xmlParse3986Segment (Some u) q 0 False = Some (ret, r)" "terminated r"
      using Segment_safe [OF assms(1), of q 0 False] by auto
    obtain r' where r': "segments_loop (Some u) r = Some (0, r')" "terminated r'" using segments_loop_safe [OF r(2) assms(1)] by blast
    show ?thesis
      using True p r r' store_path_parsed [OF assms r(2)] store_path_parsed [OF assms r'(2)]
      by (auto simp: xmlParse3986PathAbsolute_def)
  next
    case False
    then show ?thesis using p assms by (auto simp: xmlParse3986PathAbsolute_def intro!: parsedI)
  qed
qed

lemma parsed_path_segments:
  assumes "uri_safe u" "terminated str"
  shows "parsed mem (path_segments forbid (Some u) str mem)"
proof -
  obtain ret r where r: "xmlParse3986Segment (Some u) str forbid False = Some (ret, r)" "terminated r" "ret \<in> {0, 1}"
    using Segment_safe [OF assms, of forbid False] by auto
  obtain r' where "segments_loop (Some u) r = Some (0, r')" "terminated r'" using segments_loop_safe [OF r(2) assms(1)] by blast
  then show ?thesis
    using r store_path_parsed [OF assms] assms by (auto simp: path_segments_def intro!: parsedI)
qed

lemma path_empty_safe: "uri_safe u \<Longrightarrow> \<exists>v. path_empty (Some u) = Some v \<and> uri_safe v"
  by (simp add: path_empty_def)

lemma two_slashes_safe:
  "terminated str \<Longrightarrow> \<exists>c b. rd str 0 = Some c \<and>
     (if c = 0x2F then do { d \<leftarrow> rd str 1; Some (d = 0x2F) } else Some False) = Some b \<and> (b \<longrightarrow> terminated (drop 2 str))"
  by (cases str; cases "tl str") auto

lemma parsed_HierPart:
  assumes "uri_safe u" "terminated str"
  shows "parsed mem (xmlParse3986HierPart (Some u) str mem)"
proof -
  obtain c b where c: "rd str 0 = Some c"
    "(if c = 0x2F then do { d \<leftarrow> rd str 1; Some (d = 0x2F) } else Some False) = Some b" "b \<longrightarrow> terminated (drop 2 str)"
    using two_slashes_safe [OF assms(2)] by blast
  obtain pc where pc: "ISA_PCHAR (Some u) str = Some pc" using ISA_PCHAR_safe [OF assms] by blast
  show ?thesis
  proof (cases b)
    case True
    then have "terminated (drop 2 str)" using c(3) by simp
    with assms(1) obtain ret u1 cur mem1 where 1: "xmlParse3986Authority (Some u) (drop 2 str) mem = Some (ret, Some u1, cur, mem1)"
      "ret \<in> {-1, 0, 1}" "ret = -1 \<longrightarrow> False \<in> set mem" "uri_safe u1" "terminated cur" "set mem1 \<subseteq> set mem"
      using parsed_Authority by (metis parsedE)
    define u2 where "u2 = (if u_server u1 = None \<and> u_port u1 = PORT_EMPTY then u1\<lparr>u_port := PORT_EMPTY_SERVER\<rparr> else u1)"
    have "uri_safe u2" using 1(4) by (simp add: u2_def PORT_EMPTY_SERVER_def INT_MAX_def)
    then obtain ret3 u3 cur3 mem3 where 3: "xmlParse3986PathAbEmpty (Some u2) cur mem1 = Some (ret3, Some u3, cur3, mem3)"
      "ret3 \<in> {-1, 0, 1}" "ret3 = -1 \<longrightarrow> False \<in> set mem1" "uri_safe u3" "terminated cur3" "set mem3 \<subseteq> set mem1"
      using parsed_PathAbEmpty 1(5) by (metis parsedE)
    show ?thesis
      using True c 1 3 assms(2) by (auto simp: xmlParse3986HierPart_def u2_def [symmetric] Let_def intro!: parsedI)
  next
    case False
    then show ?thesis
      using c pc parsed_PathAbsolute [OF assms] parsed_path_segments [OF assms] path_empty_safe [OF assms(1)] assms
      by (auto simp: xmlParse3986HierPart_def xmlParse3986PathRootless_def intro!: parsedI)
  qed
qed

text \<open>The same promise for the parsers of a whole string.\<close>

definition parsed_all :: "bool list \<Rightarrow> (int \<times> xmlURI option \<times> bool list) option \<Rightarrow> bool" where
  "parsed_all mem r \<longleftrightarrow> (\<exists>ret u mem'. r = Some (ret, Some u, mem') \<and> ret \<in> {-1, 0, 1} \<and>
     (ret = -1 \<longrightarrow> False \<in> set mem) \<and> uri_safe u \<and> set mem' \<subseteq> set mem)"

lemma parsed_allE:
  assumes "parsed_all mem r"
  obtains ret u mem' where "r = Some (ret, Some u, mem')" "ret \<in> {-1, 0, 1}" "ret = -1 \<longrightarrow> False \<in> set mem"
    "uri_safe u" "set mem' \<subseteq> set mem"
  using assms unfolding parsed_all_def by blast

lemma parsed_all_mono: "parsed_all mem' r \<Longrightarrow> set mem' \<subseteq> set mem \<Longrightarrow> parsed_all mem r"
  unfolding parsed_all_def by blast

lemma parsed_all_query_fragment:
  assumes "uri_safe u" "terminated str"
  shows "parsed_all mem (query_fragment (Some u) str mem)"
proof -
  obtain c q where p: "str = c # q" using assms(2) by (cases str) auto
  have "parsed mem (if c = 0x3F then xmlParse3986Query (Some u) q mem else Some (0, Some u, str, mem))"
    using parsed_Query [OF assms(1), of q] assms p by (auto intro!: parsedI)
  then obtain ret1 u1 s1 mem1 where 1: "(if c = 0x3F then xmlParse3986Query (Some u) q mem else Some (0, Some u, str, mem)) =
      Some (ret1, Some u1, s1, mem1)" "ret1 \<in> {-1, 0, 1}" "ret1 = -1 \<longrightarrow> False \<in> set mem" "uri_safe u1" "terminated s1"
      "set mem1 \<subseteq> set mem" by (rule parsedE)
  obtain d r where s1: "s1 = d # r" using 1(5) by (cases s1) auto
  have "parsed mem1 (if d = 0x23 then xmlParse3986Fragment (Some u1) r mem1 else Some (0, Some u1, s1, mem1))"
    using parsed_Fragment [OF 1(4), of r] 1(4,5) s1 by (auto intro!: parsedI)
  then obtain ret2 u2 s2 mem2 where 2: "(if d = 0x23 then xmlParse3986Fragment (Some u1) r mem1 else Some (0, Some u1, s1, mem1)) =
      Some (ret2, Some u2, s2, mem2)" "ret2 \<in> {-1, 0, 1}" "ret2 = -1 \<longrightarrow> False \<in> set mem1" "uri_safe u2" "terminated s2"
      "set mem2 \<subseteq> set mem1" by (rule parsedE)
  obtain e t where s2: "s2 = e # t" using 2(5) by (cases s2) auto
  obtain v where v: "xmlCleanURI (Some u2) = Some v" "uri_safe v" using uri_safe_clean [OF 2(4)] by blast
  have "query_fragment (Some u) str mem =
      (if ret1 \<noteq> 0 then Some (ret1, Some u1, mem1) else if ret2 \<noteq> 0 then Some (ret2, Some u2, mem2)
       else Some (if e \<noteq> 0 then (1, Some v, mem2) else (0, Some u2, mem2)))"
    using 1(1) 2(1) p s1 s2 v(1) by (cases "c = 0x3F"; cases "d = 0x23") (auto simp: query_fragment_def)
  then show ?thesis using 1(2-6) 2(2-6) v(2) by (auto simp: parsed_all_def)
qed

lemma parsed_all_RelativeRef:
  assumes "uri_safe u" "terminated str"
  shows "parsed_all mem (xmlParse3986RelativeRef (Some u) str mem)"
proof -
  obtain c b where c: "rd str 0 = Some c"
    "(if c = 0x2F then do { d \<leftarrow> rd str 1; Some (d = 0x2F) } else Some False) = Some b" "b \<longrightarrow> terminated (drop 2 str)"
    using two_slashes_safe [OF assms(2)] by blast
  obtain pc where pc: "ISA_PCHAR (Some u) str = Some pc" using ISA_PCHAR_safe [OF assms] by blast
  let ?r = "if b
        then do {
          (ret, uri, cur, mem) \<leftarrow> xmlParse3986Authority (Some u) (drop 2 str) mem;
          if ret \<noteq> 0 then Some (ret, uri, str, mem) else xmlParse3986PathAbEmpty uri cur mem
        }
        else if c = 0x2F then xmlParse3986PathAbsolute (Some u) str mem
        else do {
          b \<leftarrow> ISA_PCHAR (Some u) str;
          if b then xmlParse3986PathNoScheme (Some u) str mem else Some (0, path_empty (Some u), str, mem)
        }"
  have "parsed mem ?r"
  proof (cases b)
    case True
    then have "terminated (drop 2 str)" using c(3) by simp
    with assms(1) obtain ret u1 cur mem1 where 1: "xmlParse3986Authority (Some u) (drop 2 str) mem = Some (ret, Some u1, cur, mem1)"
      "ret \<in> {-1, 0, 1}" "ret = -1 \<longrightarrow> False \<in> set mem" "uri_safe u1" "terminated cur" "set mem1 \<subseteq> set mem"
      using parsed_Authority by (metis parsedE)
    have "parsed mem (xmlParse3986PathAbEmpty (Some u1) cur mem1)"
      using parsed_PathAbEmpty [OF 1(4,5)] 1(6) by (rule parsed_mono)
    then show ?thesis using True 1 assms(2) by (auto intro!: parsedI)
  next
    case False
    then show ?thesis
      using c pc parsed_PathAbsolute [OF assms] parsed_path_segments [OF assms] path_empty_safe [OF assms(1)] assms
      by (auto simp: xmlParse3986PathNoScheme_def intro!: parsedI)
  qed
  then obtain ret u1 cur mem1 where 1: "?r = Some (ret, Some u1, cur, mem1)" "ret \<in> {-1, 0, 1}"
    "ret = -1 \<longrightarrow> False \<in> set mem" "uri_safe u1" "terminated cur" "set mem1 \<subseteq> set mem" by (rule parsedE)
  have "xmlParse3986RelativeRef (Some u) str mem =
      (if ret \<noteq> 0 then Some (ret, Some u1, mem1) else query_fragment (Some u1) cur mem1)"
    unfolding xmlParse3986RelativeRef_def using c(1,2) 1(1) by (simp split del: if_split)
  then show ?thesis
    using 1(2-6) parsed_all_mono [OF parsed_all_query_fragment [OF 1(4,5)] 1(6)] by (auto simp: parsed_all_def)
qed

lemma parsed_all_URI:
  assumes "uri_safe u" "terminated str"
  shows "parsed_all mem (xmlParse3986URI (Some u) str mem)"
proof -
  obtain ret u1 cur mem1 where 1: "xmlParse3986Scheme (Some u) str mem = Some (ret, Some u1, cur, mem1)"
    "ret \<in> {-1, 0, 1}" "ret = -1 \<longrightarrow> False \<in> set mem" "uri_safe u1" "terminated cur" "set mem1 \<subseteq> set mem"
    using parsed_Scheme [OF assms] by (rule parsedE)
  obtain c q where c: "cur = c # q" using 1(5) by (cases cur) auto
  show ?thesis
  proof (cases "ret = 0 \<and> c = 0x3A")
    case True
    then have "terminated q" using 1(5) c by simp
    with 1(4) obtain ret2 u2 cur2 mem2 where 2: "xmlParse3986HierPart (Some u1) q mem1 = Some (ret2, Some u2, cur2, mem2)"
      "ret2 \<in> {-1, 0, 1}" "ret2 = -1 \<longrightarrow> False \<in> set mem1" "uri_safe u2" "terminated cur2" "set mem2 \<subseteq> set mem1"
      using parsed_HierPart by (metis parsedE)
    have "parsed_all mem (query_fragment (Some u2) cur2 mem2)"
      using parsed_all_query_fragment [OF 2(4,5)] 1(6) 2(6) by (metis parsed_all_mono subset_trans)
    then show ?thesis using True 1(1,6) c 2 by (auto simp: xmlParse3986URI_def parsed_all_def)
  next
    case False
    then show ?thesis using 1 c by (auto simp: xmlParse3986URI_def parsed_all_def)
  qed
qed

lemma parsed_all_URIReference:
  assumes "uri_safe u" "terminated str"
  shows "parsed_all mem (xmlParseURIReference (Some u) (Some str) mem)"
proof -
  obtain u0 where u0: "xmlCleanURI (Some u) = Some u0" "uri_safe u0" using uri_safe_clean [OF assms(1)] by blast
  obtain ret1 u1 mem1 where 1: "xmlParse3986URI (Some u0) str mem = Some (ret1, Some u1, mem1)" "ret1 \<in> {-1, 0, 1}"
    "ret1 = -1 \<longrightarrow> False \<in> set mem" "uri_safe u1" "set mem1 \<subseteq> set mem"
    using parsed_all_URI [OF u0(2) assms(2)] by (rule parsed_allE)
  obtain u1' where u1': "xmlCleanURI (Some u1) = Some u1'" "uri_safe u1'" using uri_safe_clean [OF 1(4)] by blast
  obtain ret2 u2 mem2 where 2: "xmlParse3986RelativeRef (Some u1') str mem1 = Some (ret2, Some u2, mem2)" "ret2 \<in> {-1, 0, 1}"
    "ret2 = -1 \<longrightarrow> False \<in> set mem1" "uri_safe u2" "set mem2 \<subseteq> set mem1"
    using parsed_all_RelativeRef [OF u1'(2) assms(2)] by (rule parsed_allE)
  obtain u2' where u2': "xmlCleanURI (Some u2) = Some u2'" "uri_safe u2'" using uri_safe_clean [OF 2(4)] by blast
  have "xmlParseURIReference (Some u) (Some str) mem =
      (if ret1 < 0 \<or> ret1 = 0 then Some (ret1, Some u1, mem1)
       else if ret2 \<noteq> 0 then Some (ret2, Some u2', mem2) else Some (0, Some u2, mem2))"
    using u0(1) 1(1) u1'(1) 2(1) u2'(1) by (simp add: xmlParseURIReference_def xmlParse3986URIReference_def)
  then show ?thesis using 1 2 u2'(2) by (auto simp: parsed_all_def)
qed

lemma xmlParseURISafe_ok:
  assumes "terminated s"
  shows "\<exists>ret uri mem'. xmlParseURISafe (Some s) mem = Some (ret, uri, mem') \<and> ret \<in> {-1, 0, 1} \<and>
     (ret = -1 \<longrightarrow> False \<in> set mem) \<and> (ret = 0 \<longleftrightarrow> uri \<noteq> None) \<and> (\<forall>u. uri = Some u \<longrightarrow> uri_safe u) \<and> set mem' \<subseteq> set mem"
proof -
  let ?u = "\<lparr>u_scheme = None, u_opaque = None, u_authority = None, u_server = None, u_user = None, u_port = PORT_EMPTY,
    u_path = None, u_query = None, u_fragment = None, u_cleanup = 0, u_query_raw = None\<rparr>"
  obtain ok mem1 where m: "malloc mem = (ok, mem1)" "set mem1 \<subseteq> set mem" "\<not> ok \<longrightarrow> False \<in> set mem"
    by (rule malloc_cases [of mem])
  have "uri_safe ?u" by (simp add: uri_safe_def PORT_EMPTY_def PORT_EMPTY_SERVER_def INT_MAX_def)
  then obtain ret u mem2 where r: "xmlParseURIReference (Some ?u) (Some s) mem1 = Some (ret, Some u, mem2)" "ret \<in> {-1, 0, 1}"
    "ret = -1 \<longrightarrow> False \<in> set mem1" "uri_safe u" "set mem2 \<subseteq> set mem1"
    using parsed_all_URIReference [OF _ assms] by (metis parsed_allE)
  show ?thesis
  proof (cases ok)
    case True
    then have "xmlParseURISafe (Some s) mem = Some (if ret \<noteq> 0 then (ret, None, mem2) else (0, Some u, mem2))"
      using m(1) r(1) by (simp add: xmlParseURISafe_def xmlCreateURI_def xmlParseURIReference_def)
    then show ?thesis using r m(2) by (cases "ret = 0") auto
  next
    case False
    then show ?thesis using m by (simp add: xmlParseURISafe_def xmlCreateURI_def)
  qed
qed

section \<open>Properties\<close>

text \<open>
  C20 The URI parser is memory safe and total: on every NUL-terminated string, and whatever
  allocations fail, \<open>xmlParseURISafe\<close> returns 0, 1 or -1 without reading past the
  terminator; -1 only when an allocation failed, a structure exactly when it returns 0, and
  then all its strings are terminated and the port is between -1 and \<open>INT_MAX\<close>.
\<close>

theorem xml_uri_parse_safe:
  assumes "terminated s"
  shows "\<exists>ret uri mem'. xmlParseURISafe (Some s) mem = Some (ret, uri, mem') \<and> ret \<in> {-1, 0, 1} \<and>
     (ret = -1 \<longrightarrow> \<not> mem_ok mem) \<and> (ret = 0 \<longleftrightarrow> uri \<noteq> None) \<and> (\<forall>u. uri = Some u \<longrightarrow> uri_safe u)"
  using xmlParseURISafe_ok [OF assms, of mem] by (fastforce simp: mem_ok_def)

theorem xml_uri_parse_safe_witness:
  "\<exists>ret uri mem'. xmlParseURISafe (Some [0x68, 0x3A, 0x2F, 0x2F, 0x25, 0x34, 0]) [True, False] = Some (ret, uri, mem') \<and>
     ret \<in> {-1, 0, 1} \<and> (ret = 0 \<longleftrightarrow> uri \<noteq> None)"
  using xml_uri_parse_safe [of "[0x68, 0x3A, 0x2F, 0x2F, 0x25, 0x34, 0]" "[True, False]"] by (simp only: terminated_simps) blast

text \<open>
  Where the parser departs from its grammar.  The IPv4 branch of
  \<open>xmlParse3986Host\<close> never succeeds (the second dot is not skipped), an empty user
  or query takes the rest of the string (a length of 0 makes \<open>xmlURIUnescapeString\<close>
  measure the string itself), a \<open>NULL\<close> structure is dereferenced, and the flag
  \<open>XML_URI_ALLOW_UCSCHAR\<close> makes the terminator a character, so that the parser reads on
  behind the string.
\<close>

theorem xml_uri_quirks:
  "host_ipv4 str \<noteq> Some (Some cur) \<and>
   map_option (\<lambda>(ret, uri, mem). map_option u_user uri) (xmlParseURISafe (Some (lit ''//@h/p'')) []) = Some (Some (Some (lit ''@h/p''))) \<and>
   map_option (\<lambda>(ret, uri, mem). map_option u_query uri) (xmlParseURISafe (Some (lit ''?#f'')) []) = Some (Some (Some (lit ''#f''))) \<and>
   xmlParseURIReference None (Some (lit ''a://b'')) [] = None \<and>
   xmlParseURIReference (map_option (\<lambda>u. u\<lparr>u_cleanup := XML_URI_ALLOW_UCSCHAR\<rparr>) (fst (xmlCreateURI []))) (Some (lit ''a'')) [] = None"
proof -
  have 1: "map_option (\<lambda>(ret, uri, mem). map_option u_user uri) (xmlParseURISafe (Some (lit ''//@h/p'')) []) = Some (Some (Some (lit ''@h/p'')))"
    by code_simp
  have 2: "map_option (\<lambda>(ret, uri, mem). map_option u_query uri) (xmlParseURISafe (Some (lit ''?#f'')) []) = Some (Some (Some (lit ''#f'')))"
    by code_simp
  have 3: "xmlParseURIReference None (Some (lit ''a://b'')) [] = None" by code_simp
  have 4: "xmlParseURIReference (map_option (\<lambda>u. u\<lparr>u_cleanup := XML_URI_ALLOW_UCSCHAR\<rparr>) (fst (xmlCreateURI [])))
      (Some (lit ''a'')) [] = None" by code_simp
  have "host_ipv4 str \<noteq> Some (Some cur)" using host_ipv4_never [of str] by auto
  then show ?thesis using 1 2 3 4 by blast
qed

end
