(* ===== verification/Xml_Uri_Save.thy ===== *)
theory Xml_Uri_Save
  imports Xml_Uri
begin

text \<open>
  Saving an URI as a string (\<open>xmlSaveUri\<close> in \<open>src/testbed/libxml2/uri.c\<close>).  The
  source's tests for room and its reallocations are kept: the buffer is the list of the
  bytes written, and a write past the end of the block is the outer \<open>None\<close>.  The lemmas
  show that what is saved is the text of the structure.
\<close>

section \<open>Steps\<close>

text \<open>
  Routines that build a result in many steps and give up at the first failure
  (\<open>goto mem_error\<close>, \<open>goto done\<close>): a step returns whether it succeeded.
\<close>

type_synonym 's step = "'s \<Rightarrow> (bool \<times> 's) option"

fun run_steps :: "'s step list \<Rightarrow> 's step" where
  "run_steps [] s = Some (True, s)"
| "run_steps (f # fs) s = do { (ok, s) \<leftarrow> f s; if ok then run_steps fs s else Some (False, s) }"

section \<open>Saving\<close>

definition MAX_URI_LENGTH :: int where "MAX_URI_LENGTH = 1024 * 1024"

text \<open>The variables of \<open>xmlSaveUri\<close>: the bytes written to \<open>ret\<close> (\<open>len\<close> of them), \<open>max\<close>, and the memory.\<close>

record sbuf =
  sb_buf :: "u8 list"
  sb_max :: int
  sb_mem :: "bool list"

definition xmlSaveUriRealloc :: "sbuf step" where
  "xmlSaveUriRealloc s =
     (if sb_max s > MAX_URI_LENGTH then Some (False, s)
      else let tmp = sb_max s * 2; (ok, mem) = malloc (sb_mem s)
           in if ok then Some (True, s\<lparr>sb_max := tmp, sb_mem := mem\<rparr>) else Some (False, s\<lparr>sb_mem := mem\<rparr>))"

text \<open>\<open>if (len + k >= max)\<close>, reallocate.\<close>

definition room :: "int \<Rightarrow> sbuf step" where
  "room k s = (if int (length (sb_buf s)) + k \<ge> sb_max s then xmlSaveUriRealloc s else Some (True, s))"

text \<open>Writes to \<open>ret[len++]\<close>; the block has \<open>max + 1\<close> bytes.\<close>

definition emit :: "u8 list \<Rightarrow> sbuf step" where
  "emit bs s =
     (if int (length (sb_buf s) + length bs) \<le> sb_max s + 1
      then Some (True, s\<lparr>sb_buf := sb_buf s @ bs\<rparr>) else None)"

definition hex_digit :: "u8 \<Rightarrow> u8" where
  "hex_digit v = v + (if v > 9 then 0x37 else 0x30)"

definition pct_encode :: "u8 \<Rightarrow> u8 list" where
  "pct_encode c = [0x25, hex_digit (c div 16), hex_digit (c mod 16)]"

primrec save_copy :: "int \<Rightarrow> u8 list \<Rightarrow> sbuf step" where
  "save_copy k [] = (\<lambda>s. None)"
| "save_copy k (c # p) =
     (if c = 0 then (\<lambda>s. Some (True, s)) else run_steps [room k, emit [c], save_copy k p])"

primrec save_escaped :: "(u8 \<Rightarrow> bool) \<Rightarrow> u8 list \<Rightarrow> sbuf step" where
  "save_escaped keep [] = (\<lambda>s. None)"
| "save_escaped keep (c # p) =
     (if c = 0 then (\<lambda>s. Some (True, s))
      else run_steps [room 3, emit (if keep c then [c] else pct_encode c), save_escaped keep p])"

function dec_digits :: "int \<Rightarrow> u8 list" where
  "dec_digits n = (if n < 10 then [0x30 + word_of_int n] else dec_digits (n div 10) @ [0x30 + word_of_int (n mod 10)])"
  by pat_completeness auto
termination by (relation "measure nat") auto

declare dec_digits.simps [simp del]

text \<open>
  \<open>len += snprintf(&ret[len], max - len, ":%d", port)\<close>: a text as long as the size
  given is cut by one byte for the terminator, and \<open>len\<close> is advanced by the full length.
  A longer one would leave unwritten bytes in the string.
\<close>

definition print_port :: "int \<Rightarrow> sbuf step" where
  "print_port port s =
     (let text = 0x3A # dec_digits port; size = sb_max s - int (length (sb_buf s))
      in if int (length text) < size then emit text s
         else if int (length text) = size then emit (butlast text @ [0]) s
         else None)"

definition user_char :: "u8 \<Rightarrow> bool" where
  "user_char c \<longleftrightarrow> IS_UNRESERVED c \<or> c \<in> {0x3B, 0x3A, 0x26, 0x3D, 0x2B, 0x24, 0x2C}"

definition authority_char :: "u8 \<Rightarrow> bool" where
  "authority_char c \<longleftrightarrow> IS_UNRESERVED c \<or> c \<in> {0x24, 0x2C, 0x3B, 0x3A, 0x40, 0x26, 0x3D, 0x2B}"

definition path_char :: "u8 \<Rightarrow> bool" where
  "path_char c \<longleftrightarrow> IS_UNRESERVED c \<or> c \<in> {0x2F, 0x3B, 0x40, 0x26, 0x3D, 0x2B, 0x24, 0x2C}"

definition uric_char :: "u8 \<Rightarrow> bool" where
  "uric_char c \<longleftrightarrow> IS_RESERVED c \<or> IS_UNRESERVED c"

definition save_scheme :: "xmlURI \<Rightarrow> sbuf step list" where
  "save_scheme u = (case u_scheme u of None \<Rightarrow> [] | Some p \<Rightarrow> [save_copy 0 p, room 0, emit [0x3A]])"

definition save_server :: "xmlURI \<Rightarrow> sbuf step list" where
  "save_server u =
     [room 3, emit [0x2F, 0x2F]] @
     (case u_user u of None \<Rightarrow> [] | Some p \<Rightarrow> [save_escaped user_char p, room 3, emit [0x40]]) @
     (case u_server u of None \<Rightarrow> [] | Some p \<Rightarrow> [save_copy 0 p]) @
     (if u_port u > 0 then [room 10, print_port (u_port u)] else [])"

definition save_authority :: "xmlURI \<Rightarrow> sbuf step list" where
  "save_authority u =
     (if u_server u \<noteq> None \<or> u_port u \<noteq> PORT_EMPTY then save_server u
      else case u_authority u of
             Some p \<Rightarrow> [room 3, emit [0x2F, 0x2F], save_escaped authority_char p]
           | None \<Rightarrow> if u_scheme u \<noteq> None then [room 3] else [])"

text \<open>The test for a path such as \<open>/d:\<close> under the scheme \<open>file\<close>, with its reads in order.\<close>

definition drive_path :: "xmlURI \<Rightarrow> u8 list \<Rightarrow> bool option" where
  "drive_path u p =
     (if u_scheme u = None then Some False
      else do {
        a \<leftarrow> rd p 0;
        if a \<noteq> 0x2F then Some False
        else do {
          b \<leftarrow> rd p 1;
          if \<not> ((0x61 \<le> b \<and> b \<le> 0x7A) \<or> (0x41 \<le> b \<and> b \<le> 0x5A)) then Some False
          else do {
            c \<leftarrow> rd p 2;
            if c \<noteq> 0x3A then Some False
            else do { e \<leftarrow> xmlStrEqual False (u_scheme u) (Some (lit ''file'')); Some (e \<noteq> 0) }
          }
        }
      })"

definition save_path :: "xmlURI \<Rightarrow> sbuf step list" where
  "save_path u =
     (case u_path u of
        None \<Rightarrow> []
      | Some p \<Rightarrow>
          [\<lambda>s. do {
             d \<leftarrow> drive_path u p;
             if d then run_steps [room 3, emit (take 3 p), save_escaped path_char (drop 3 p)] s
             else save_escaped path_char p s
           }])"

definition save_query :: "xmlURI \<Rightarrow> sbuf step list" where
  "save_query u =
     (case u_query_raw u of
        Some p \<Rightarrow> [room 1, emit [0x3F], save_copy 1 p]
      | None \<Rightarrow> (case u_query u of None \<Rightarrow> [] | Some p \<Rightarrow> [room 3, emit [0x3F], save_escaped uric_char p]))"

definition save_fragment :: "xmlURI \<Rightarrow> sbuf step list" where
  "save_fragment u =
     (case u_fragment u of None \<Rightarrow> [] | Some p \<Rightarrow> [room 3, emit [0x23], save_escaped uric_char p])"

definition save_steps :: "xmlURI \<Rightarrow> sbuf step list" where
  "save_steps u =
     save_scheme u @
     (case u_opaque u of
        Some p \<Rightarrow> [save_escaped uric_char p]
      | None \<Rightarrow> save_authority u @ save_path u @ save_query u) @
     save_fragment u @ [room 0, emit [0]]"

definition xmlSaveUri :: "xmlURI option \<Rightarrow> bool list \<Rightarrow> (xptr \<times> bool list) option" where
  "xmlSaveUri uri mem =
     (case uri of
        None \<Rightarrow> Some (None, mem)
      | Some u \<Rightarrow>
          (let (ok, mem) = malloc mem
           in if \<not> ok then Some (None, mem)
              else do {
                (ok, s) \<leftarrow> run_steps (save_steps u) \<lparr>sb_buf = [], sb_max = 80, sb_mem = mem\<rparr>;
                Some (if ok then Some (sb_buf s) else None, sb_mem s)
              }))"

section \<open>The saved string\<close>

text \<open>
  What a step of \<open>xmlSaveUri\<close> promises: it keeps what is written within the block and
  appends a text of \<open>B\<close>, or fails because an allocation does or because the whole is too long.
\<close>

definition sbuf_inv :: "sbuf \<Rightarrow> bool" where
  "sbuf_inv s \<longleftrightarrow> 80 \<le> sb_max s \<and> int (length (sb_buf s)) \<le> sb_max s"

definition writes :: "sbuf step \<Rightarrow> u8 list set \<Rightarrow> bool" where
  "writes f B \<longleftrightarrow> (\<forall>s. sbuf_inv s \<longrightarrow> (\<exists>ok s'. f s = Some (ok, s') \<and> sbuf_inv s' \<and> set (sb_mem s') \<subseteq> set (sb_mem s) \<and>
     (ok \<longrightarrow> (\<exists>bs\<in>B. sb_buf s' = sb_buf s @ bs)) \<and>
     (\<not> ok \<longrightarrow> False \<in> set (sb_mem s) \<or> (\<exists>bs\<in>B. int (length (sb_buf s) + length bs) + 10 > MAX_URI_LENGTH))))"

definition conc :: "u8 list set \<Rightarrow> u8 list set \<Rightarrow> u8 list set" where
  "conc A B = {a @ b |a b. a \<in> A \<and> b \<in> B}"

lemma conc_single [simp]: "conc {a} {b} = {a @ b}"
  by (auto simp: conc_def)

lemma run_steps_append:
  "run_steps (fs @ gs) s = do { (ok, s) \<leftarrow> run_steps fs s; if ok then run_steps gs s else Some (False, s) }"
  by (induction fs arbitrary: s) (auto split: bind_split)

lemma writes_Nil: "writes (run_steps []) {[]}"
  by (auto simp: writes_def)

lemma writes_append:
  assumes "writes (run_steps fs) A" "writes (run_steps gs) B" "B \<noteq> {}"
  shows "writes (run_steps (fs @ gs)) (conc A B)"
  unfolding writes_def
proof (intro allI impI)
  fix s assume s: "sbuf_inv s"
  obtain ok1 s1 where 1: "run_steps fs s = Some (ok1, s1)" "sbuf_inv s1" "set (sb_mem s1) \<subseteq> set (sb_mem s)"
    "ok1 \<longrightarrow> (\<exists>bs\<in>A. sb_buf s1 = sb_buf s @ bs)"
    "\<not> ok1 \<longrightarrow> False \<in> set (sb_mem s) \<or> (\<exists>bs\<in>A. int (length (sb_buf s) + length bs) + 10 > MAX_URI_LENGTH)"
    using assms(1) s unfolding writes_def by blast
  obtain ok2 s2 where 2: "run_steps gs s1 = Some (ok2, s2)" "sbuf_inv s2" "set (sb_mem s2) \<subseteq> set (sb_mem s1)"
    "ok2 \<longrightarrow> (\<exists>bs\<in>B. sb_buf s2 = sb_buf s1 @ bs)"
    "\<not> ok2 \<longrightarrow> False \<in> set (sb_mem s1) \<or> (\<exists>bs\<in>B. int (length (sb_buf s1) + length bs) + 10 > MAX_URI_LENGTH)"
    using assms(2) 1(2) unfolding writes_def by blast
  show "\<exists>ok s'. run_steps (fs @ gs) s = Some (ok, s') \<and> sbuf_inv s' \<and> set (sb_mem s') \<subseteq> set (sb_mem s) \<and>
     (ok \<longrightarrow> (\<exists>bs\<in>conc A B. sb_buf s' = sb_buf s @ bs)) \<and>
     (\<not> ok \<longrightarrow> False \<in> set (sb_mem s) \<or> (\<exists>bs\<in>conc A B. int (length (sb_buf s) + length bs) + 10 > MAX_URI_LENGTH))"
  proof (cases ok1)
    case True
    then obtain a where a: "a \<in> A" "sb_buf s1 = sb_buf s @ a" using 1(4) by blast
    have "\<not> ok2 \<longrightarrow> False \<in> set (sb_mem s) \<or> (\<exists>bs\<in>conc A B. int (length (sb_buf s) + length bs) + 10 > MAX_URI_LENGTH)"
      using 2(5) 1(3) a by (force simp: conc_def)
    moreover have "ok2 \<longrightarrow> (\<exists>bs\<in>conc A B. sb_buf s2 = sb_buf s @ bs)" using 2(4) a by (force simp: conc_def)
    ultimately show ?thesis using True 1(1,3) 2(1-3) by (auto simp: run_steps_append)
  next
    case False
    obtain b where "b \<in> B" using assms(3) by blast
    then have "\<exists>bs\<in>A. int (length (sb_buf s) + length bs) + 10 > MAX_URI_LENGTH \<Longrightarrow>
        \<exists>bs\<in>conc A B. int (length (sb_buf s) + length bs) + 10 > MAX_URI_LENGTH" by (force simp: conc_def)
    then show ?thesis using False 1 by (auto simp: run_steps_append)
  qed
qed

lemma run_steps_one: "run_steps [f] = f"
proof
  fix s
  show "run_steps [f] s = f s" by (cases "f s") auto
qed

lemma writes_one: "writes f A \<Longrightarrow> writes (run_steps [f]) A"
  by (simp only: run_steps_one)

lemma writes_cons: "writes f {a} \<Longrightarrow> writes (run_steps fs) {b} \<Longrightarrow> writes (run_steps (f # fs)) {a @ b}"
  using writes_append [of "[f]" "{a}" fs "{b}"] writes_one by simp

lemma room_ok:
  assumes "sbuf_inv s" "0 \<le> k" "k \<le> 10"
  obtains ok s' where "room k s = Some (ok, s')" "sbuf_inv s'" "set (sb_mem s') \<subseteq> set (sb_mem s)" "sb_buf s' = sb_buf s"
    "ok \<longrightarrow> int (length (sb_buf s)) + k < sb_max s'"
    "\<not> ok \<longrightarrow> False \<in> set (sb_mem s) \<or> int (length (sb_buf s)) + 10 > MAX_URI_LENGTH"
proof -
  obtain ok mem' where m: "malloc (sb_mem s) = (ok, mem')" "set mem' \<subseteq> set (sb_mem s)" "\<not> ok \<longrightarrow> False \<in> set (sb_mem s)"
    by (rule malloc_cases [of "sb_mem s"])
  show thesis
  proof (cases "int (length (sb_buf s)) + k \<ge> sb_max s")
    case full: True
    show thesis
    proof (cases "sb_max s > MAX_URI_LENGTH")
      case True
      then have "room k s = Some (False, s)" using full by (simp add: room_def xmlSaveUriRealloc_def)
      then show thesis using that [of False s] assms full True by simp
    next
      case False
      then have "room k s = Some (ok, if ok then s\<lparr>sb_max := sb_max s * 2, sb_mem := mem'\<rparr> else s\<lparr>sb_mem := mem'\<rparr>)"
        using full m(1) by (simp add: room_def xmlSaveUriRealloc_def)
      then show thesis using that m(2,3) assms by (cases ok) (simp_all add: sbuf_inv_def)
    qed
  next
    case False
    then show thesis using that [of True s] assms by (simp add: room_def)
  qed
qed

lemma writes_room: "0 \<le> k \<Longrightarrow> k \<le> 10 \<Longrightarrow> writes (room k) {[]}"
  unfolding writes_def by (metis append_Nil2 insertI1 list.size(3) add.right_neutral room_ok)

lemma writes_room_emit:
  assumes "0 \<le> k" "k \<le> 10" "int (length bs) \<le> max 1 k"
  shows "writes (run_steps [room k, emit bs]) {bs}"
  unfolding writes_def
proof (intro allI impI)
  fix s assume s: "sbuf_inv s"
  obtain ok s' where r: "room k s = Some (ok, s')" "sbuf_inv s'" "set (sb_mem s') \<subseteq> set (sb_mem s)" "sb_buf s' = sb_buf s"
    "ok \<longrightarrow> int (length (sb_buf s)) + k < sb_max s'"
    "\<not> ok \<longrightarrow> False \<in> set (sb_mem s) \<or> int (length (sb_buf s)) + 10 > MAX_URI_LENGTH"
    using s assms(1,2) by (rule room_ok)
  show "\<exists>ok s'. run_steps [room k, emit bs] s = Some (ok, s') \<and> sbuf_inv s' \<and> set (sb_mem s') \<subseteq> set (sb_mem s) \<and>
     (ok \<longrightarrow> (\<exists>b\<in>{bs}. sb_buf s' = sb_buf s @ b)) \<and>
     (\<not> ok \<longrightarrow> False \<in> set (sb_mem s) \<or> (\<exists>b\<in>{bs}. int (length (sb_buf s) + length b) + 10 > MAX_URI_LENGTH))"
  proof (cases ok)
    case True
    then have fit: "int (length (sb_buf s) + length bs) \<le> sb_max s'" using r(5) assms by auto
    then have "run_steps [room k, emit bs] s = Some (True, s'\<lparr>sb_buf := sb_buf s @ bs\<rparr>)"
      using True r(1,4) by (simp add: emit_def)
    moreover have "sbuf_inv (s'\<lparr>sb_buf := sb_buf s @ bs\<rparr>)" using fit r(2) by (simp add: sbuf_inv_def)
    ultimately show ?thesis using r(3) by (intro exI [of _ True] exI [of _ "s'\<lparr>sb_buf := sb_buf s @ bs\<rparr>"]) simp
  next
    case False
    then have "run_steps [room k, emit bs] s = Some (False, s')" using r(1) by simp
    then show ?thesis using False r(2,3,6) by (intro exI [of _ False] exI [of _ s']) auto
  qed
qed

lemma writes_save_copy: "0 \<le> k \<Longrightarrow> k \<le> 10 \<Longrightarrow> terminated p \<Longrightarrow> writes (save_copy k p) {ctext p}"
proof (induction p)
  case Nil
  then show ?case by simp
next
  case (Cons c p)
  show ?case
  proof (cases "c = 0")
    case True
    then show ?thesis by (auto simp: writes_def)
  next
    case False
    then have "writes (run_steps ([room k, emit [c]] @ [save_copy k p])) (conc {[c]} {ctext p})"
      using Cons by (intro writes_append writes_room_emit writes_one) auto
    then show ?thesis using False by (simp del: run_steps.simps)
  qed
qed

definition escape_bytes :: "(u8 \<Rightarrow> bool) \<Rightarrow> u8 list \<Rightarrow> u8 list" where
  "escape_bytes keep s = concat (map (\<lambda>c. if keep c then [c] else pct_encode c) s)"

lemma escape_bytes_simps [simp]:
  "escape_bytes keep [] = []"
  "escape_bytes keep (c # s) = (if keep c then [c] else pct_encode c) @ escape_bytes keep s"
  by (simp_all add: escape_bytes_def)

definition escape_text :: "(u8 \<Rightarrow> bool) \<Rightarrow> u8 list \<Rightarrow> u8 list" where
  "escape_text keep p = escape_bytes keep (ctext p)"

lemma writes_save_escaped: "terminated p \<Longrightarrow> writes (save_escaped keep p) {escape_text keep p}"
proof (induction p)
  case Nil
  then show ?case by simp
next
  case (Cons c p)
  let ?bs = "if keep c then [c] else pct_encode c"
  show ?case
  proof (cases "c = 0")
    case True
    then show ?thesis by (auto simp: writes_def escape_text_def)
  next
    case False
    then have "writes (run_steps ([room 3, emit ?bs] @ [save_escaped keep p])) (conc {?bs} {escape_text keep p})"
      using Cons by (intro writes_append writes_room_emit writes_one) (auto simp: pct_encode_def)
    moreover have "escape_text keep (c # p) = ?bs @ escape_text keep p" using False by (simp add: escape_text_def)
    ultimately show ?thesis using False by (simp del: run_steps.simps)
  qed
qed

lemma dec_digits_length: "n < 10 ^ Suc k \<Longrightarrow> length (dec_digits n) \<le> Suc k"
proof (induction k arbitrary: n)
  case 0
  then show ?case by (simp add: dec_digits.simps)
next
  case (Suc k)
  have "n div 10 < 10 ^ Suc k" using Suc.prems by simp
  then show ?case using Suc.IH [of "n div 10"] by (subst dec_digits.simps) simp
qed

text \<open>
  The text of a port; \<open>ct\<close> is the case in which \<open>snprintf\<close> has room for all but the
  last digit, which is lost to the terminator.  Only ports of ten digits can be cut.
\<close>

definition port_text :: "bool \<Rightarrow> int \<Rightarrow> u8 list" where
  "port_text ct port = (let t = 0x3A # dec_digits port in if ct then butlast t @ [0] else t)"

definition cuts :: "xmlURI \<Rightarrow> bool set" where
  "cuts u = {ct. ct \<longrightarrow> 10 ^ 9 \<le> u_port u}"

lemma cuts_False: "False \<in> cuts u"
  by (simp add: cuts_def)

lemma writes_port:
  assumes "0 < u_port u" "u_port u \<le> INT_MAX"
  shows "writes (run_steps [room 10, print_port (u_port u)]) ((\<lambda>ct. port_text ct (u_port u)) ` cuts u)" (is "writes ?f ?B")
  unfolding writes_def
proof (intro allI impI)
  fix s assume s: "sbuf_inv s"
  let ?t = "0x3A # dec_digits (u_port u)"
  have len: "length ?t \<le> 11" using dec_digits_length [of "u_port u" 9] assms(2) by (simp add: INT_MAX_def)
  have cutl: "length ?t = 11 \<Longrightarrow> True \<in> cuts u" using dec_digits_length [of "u_port u" 8] by (force simp: cuts_def)
  obtain ok s' where r: "room 10 s = Some (ok, s')" "sbuf_inv s'" "set (sb_mem s') \<subseteq> set (sb_mem s)" "sb_buf s' = sb_buf s"
    "ok \<longrightarrow> int (length (sb_buf s)) + 10 < sb_max s'"
    "\<not> ok \<longrightarrow> False \<in> set (sb_mem s) \<or> int (length (sb_buf s)) + 10 > MAX_URI_LENGTH"
    using s by (rule room_ok [of s 10]) simp_all
  show "\<exists>ok s'. ?f s = Some (ok, s') \<and> sbuf_inv s' \<and> set (sb_mem s') \<subseteq> set (sb_mem s) \<and>
     (ok \<longrightarrow> (\<exists>bs\<in>?B. sb_buf s' = sb_buf s @ bs)) \<and>
     (\<not> ok \<longrightarrow> False \<in> set (sb_mem s) \<or> (\<exists>bs\<in>?B. int (length (sb_buf s) + length bs) + 10 > MAX_URI_LENGTH))"
  proof (cases ok)
    case True
    define short where "short = (\<not> int (length ?t) < sb_max s' - int (length (sb_buf s)))"
    let ?b = "port_text short (u_port u)"
    have size: "int (length ?t) \<le> sb_max s' - int (length (sb_buf s))" using True r(5) len by simp
    have "short \<Longrightarrow> length ?t = 11" using True r(5) len by (simp add: short_def)
    then have "short \<in> cuts u" using cutl cuts_False [of u] by (cases short) simp_all
    then have b: "?b \<in> ?B" "length ?b = length ?t" by (simp_all add: port_text_def Let_def)
    have "print_port (u_port u) s' = emit ?b s'"
      using size r(4) by (auto simp: print_port_def port_text_def short_def Let_def)
    then have "?f s = Some (True, s'\<lparr>sb_buf := sb_buf s @ ?b\<rparr>)"
      using True r(1,4) size b(2) by (simp add: emit_def)
    moreover have "sbuf_inv (s'\<lparr>sb_buf := sb_buf s @ ?b\<rparr>)" using size b(2) r(2) by (simp add: sbuf_inv_def)
    ultimately show ?thesis
      using r(3) b(1) by (intro exI [of _ True] exI [of _ "s'\<lparr>sb_buf := sb_buf s @ ?b\<rparr>"]) auto
  next
    case False
    then have "?f s = Some (False, s')" using r(1) by simp
    moreover have "int (length (sb_buf s)) + 10 > MAX_URI_LENGTH \<Longrightarrow>
        \<exists>bs\<in>?B. int (length (sb_buf s) + length bs) + 10 > MAX_URI_LENGTH"
      using cuts_False [of u] by force
    ultimately show ?thesis using False r(2,3,6) by (intro exI [of _ False] exI [of _ s']) auto
  qed
qed

text \<open>The text of a whole structure.\<close>

definition opt_text :: "(u8 list \<Rightarrow> u8 list) \<Rightarrow> xptr \<Rightarrow> u8 list" where
  "opt_text f p = (case p of None \<Rightarrow> [] | Some s \<Rightarrow> f s)"

definition authority_text :: "bool \<Rightarrow> xmlURI \<Rightarrow> u8 list" where
  "authority_text ct u =
     (if u_server u \<noteq> None \<or> u_port u \<noteq> PORT_EMPTY
      then [0x2F, 0x2F] @ opt_text (\<lambda>p. escape_text user_char p @ [0x40]) (u_user u) @ opt_text ctext (u_server u) @
           (if u_port u > 0 then port_text ct (u_port u) else [])
      else opt_text (\<lambda>p. [0x2F, 0x2F] @ escape_text authority_char p) (u_authority u))"

definition path_text :: "xmlURI \<Rightarrow> u8 list \<Rightarrow> u8 list" where
  "path_text u p =
     (if drive_path u p = Some True then take 3 p @ escape_text path_char (drop 3 p) else escape_text path_char p)"

definition query_text :: "xmlURI \<Rightarrow> u8 list" where
  "query_text u =
     (if u_query_raw u \<noteq> None then opt_text (\<lambda>p. 0x3F # ctext p) (u_query_raw u)
      else opt_text (\<lambda>p. 0x3F # escape_text uric_char p) (u_query u))"

definition uri_text :: "bool \<Rightarrow> xmlURI \<Rightarrow> u8 list" where
  "uri_text ct u =
     opt_text (\<lambda>p. ctext p @ [0x3A]) (u_scheme u) @
     (case u_opaque u of
        Some p \<Rightarrow> escape_text uric_char p
      | None \<Rightarrow> authority_text ct u @ opt_text (path_text u) (u_path u) @ query_text u) @
     opt_text (\<lambda>p. 0x23 # escape_text uric_char p) (u_fragment u)"

lemma conc_image [simp]:
  "conc {a} (f ` C) = (\<lambda>c. a @ f c) ` C" "conc (f ` C) {b} = (\<lambda>c. f c @ b) ` C"
  by (auto simp: conc_def)

lemma save_scheme_writes: "uri_safe u \<Longrightarrow> writes (run_steps (save_scheme u)) {opt_text (\<lambda>p. ctext p @ [0x3A]) (u_scheme u)}"
proof (cases "u_scheme u")
  case None
  then show ?thesis using writes_Nil by (simp add: save_scheme_def opt_text_def)
next
  case (Some p)
  assume "uri_safe u"
  then have "writes (run_steps ([save_copy 0 p] @ [room 0, emit [0x3A]])) (conc {ctext p} {[0x3A]})"
    using Some by (intro writes_append writes_one writes_save_copy writes_room_emit) (auto simp: uri_safe_def)
  then show ?thesis using Some by (simp add: save_scheme_def opt_text_def del: run_steps.simps)
qed

lemma save_server_writes:
  assumes "uri_safe u"
  shows "writes (run_steps (save_server u))
     ((\<lambda>ct. [0x2F, 0x2F] @ opt_text (\<lambda>p. escape_text user_char p @ [0x40]) (u_user u) @ opt_text ctext (u_server u) @
        (if u_port u > 0 then port_text ct (u_port u) else [])) ` cuts u)"
proof -
  have user: "writes (run_steps (case u_user u of None \<Rightarrow> [] | Some p \<Rightarrow> [save_escaped user_char p, room 3, emit [0x40]]))
      {opt_text (\<lambda>p. escape_text user_char p @ [0x40]) (u_user u)}"
  proof (cases "u_user u")
    case None
    then show ?thesis using writes_Nil by (simp add: opt_text_def)
  next
    case (Some p)
    then have "writes (run_steps ([save_escaped user_char p] @ [room 3, emit [0x40]])) (conc {escape_text user_char p} {[0x40]})"
      using assms by (intro writes_append writes_one writes_save_escaped writes_room_emit) (auto simp: uri_safe_def)
    then show ?thesis using Some by (simp add: opt_text_def del: run_steps.simps)
  qed
  have server: "writes (run_steps (case u_server u of None \<Rightarrow> [] | Some p \<Rightarrow> [save_copy 0 p])) {opt_text ctext (u_server u)}"
    using assms writes_Nil by (cases "u_server u") (auto simp: opt_text_def uri_safe_def simp del: run_steps.simps
        intro!: writes_one writes_save_copy)
  have port: "writes (run_steps (if u_port u > 0 then [room 10, print_port (u_port u)] else []))
      ((\<lambda>ct. if u_port u > 0 then port_text ct (u_port u) else []) ` cuts u)"
    using writes_port [of u] writes_Nil assms cuts_False [of u] by (auto simp: uri_safe_def image_constant_conv simp del: run_steps.simps)
  have "writes (run_steps ([room 3, emit [0x2F, 0x2F]] @
      (case u_user u of None \<Rightarrow> [] | Some p \<Rightarrow> [save_escaped user_char p, room 3, emit [0x40]]) @
      (case u_server u of None \<Rightarrow> [] | Some p \<Rightarrow> [save_copy 0 p]) @
      (if u_port u > 0 then [room 10, print_port (u_port u)] else [])))
    (conc {[0x2F, 0x2F]} (conc {opt_text (\<lambda>p. escape_text user_char p @ [0x40]) (u_user u)}
       (conc {opt_text ctext (u_server u)} ((\<lambda>ct. if u_port u > 0 then port_text ct (u_port u) else []) ` cuts u))))"
    using cuts_False [of u] by (intro writes_append writes_room_emit user server port) (auto simp: conc_def)
  then show ?thesis by (simp only: save_server_def conc_image)
qed

lemma save_authority_writes:
  assumes "uri_safe u"
  shows "writes (run_steps (save_authority u)) ((\<lambda>ct. authority_text ct u) ` cuts u)"
proof (cases "u_server u \<noteq> None \<or> u_port u \<noteq> PORT_EMPTY")
  case True
  then show ?thesis using save_server_writes [OF assms] by (simp add: save_authority_def authority_text_def del: run_steps.simps)
next
  case False
  have im: "(\<lambda>ct. authority_text ct u) ` cuts u = {opt_text (\<lambda>p. [0x2F, 0x2F] @ escape_text authority_char p) (u_authority u)}"
    using False cuts_False [of u] by (auto simp: authority_text_def)
  show ?thesis
  proof (cases "u_authority u")
    case None
    then show ?thesis
      unfolding im using False writes_Nil writes_one [OF writes_room, of 3] by (auto simp: save_authority_def opt_text_def simp del: run_steps.simps)
  next
    case (Some p)
    have "writes (run_steps ([room 3, emit [0x2F, 0x2F]] @ [save_escaped authority_char p]))
        (conc {[0x2F, 0x2F]} {escape_text authority_char p})"
      using assms Some by (intro writes_append writes_one writes_save_escaped writes_room_emit) (auto simp: uri_safe_def)
    then show ?thesis unfolding im using Some False by (simp add: save_authority_def opt_text_def del: run_steps.simps)
  qed
qed

lemma drive_path_safe:
  assumes "uri_safe u" "terminated p"
  shows "\<exists>d. drive_path u p = Some d \<and> (d \<longrightarrow> terminated (drop 3 p) \<and> 3 \<le> length p)"
proof (cases "u_scheme u")
  case None
  then show ?thesis by (auto simp: drive_path_def)
next
  case (Some q)
  have "terminated q" "terminated (lit ''file'')" using assms(1) Some by (simp_all add: uri_safe_def lit_def)
  then have "xmlStrEqual False (Some q) (Some (lit ''file'')) \<noteq> None"
    using strequal_loop_safe [of q "lit ''file''"] by (simp add: xmlStrEqual_def)
  then obtain e where e: "xmlStrEqual False (Some q) (Some (lit ''file'')) = Some e" by blast
  show ?thesis
    using assms(2) Some e by (cases p; cases "tl p"; cases "tl (tl p)") (auto simp: drive_path_def)
qed

lemma save_path_writes:
  assumes "uri_safe u"
  shows "writes (run_steps (save_path u)) {opt_text (path_text u) (u_path u)}"
proof (cases "u_path u")
  case None
  then show ?thesis using writes_Nil by (simp add: save_path_def opt_text_def)
next
  case (Some p)
  have t: "terminated p" using assms Some by (simp add: uri_safe_def)
  obtain d where d: "drive_path u p = Some d" "d \<longrightarrow> terminated (drop 3 p) \<and> 3 \<le> length p"
    using drive_path_safe [OF assms t] by blast
  have "writes (\<lambda>s. do {
             d \<leftarrow> drive_path u p;
             if d then run_steps [room 3, emit (take 3 p), save_escaped path_char (drop 3 p)] s
             else save_escaped path_char p s
           }) {path_text u p}"
  proof (cases d)
    case True
    then have "writes (run_steps ([room 3, emit (take 3 p)] @ [save_escaped path_char (drop 3 p)]))
        (conc {take 3 p} {escape_text path_char (drop 3 p)})"
      using d(2) by (intro writes_append writes_one writes_save_escaped writes_room_emit) auto
    then show ?thesis using True d(1) by (simp add: path_text_def del: run_steps.simps)
  next
    case False
    then show ?thesis using d(1) writes_save_escaped [OF t] by (simp add: path_text_def)
  qed
  then show ?thesis using Some writes_one by (simp add: save_path_def opt_text_def del: run_steps.simps)
qed

lemma save_query_writes:
  assumes "uri_safe u"
  shows "writes (run_steps (save_query u)) {query_text u}"
proof (cases "u_query_raw u")
  case None
  show ?thesis
  proof (cases "u_query u")
    case (Some p)
    have "writes (run_steps ([room 3, emit [0x3F]] @ [save_escaped uric_char p])) (conc {[0x3F]} {escape_text uric_char p})"
      using assms Some by (intro writes_append writes_one writes_save_escaped writes_room_emit) (auto simp: uri_safe_def)
    then show ?thesis using None Some by (simp add: save_query_def query_text_def opt_text_def del: run_steps.simps)
  qed (use None writes_Nil in \<open>simp add: save_query_def query_text_def opt_text_def\<close>)
next
  case (Some p)
  have "writes (run_steps ([room 1, emit [0x3F]] @ [save_copy 1 p])) (conc {[0x3F]} {ctext p})"
    using assms Some by (intro writes_append writes_one writes_save_copy writes_room_emit) (auto simp: uri_safe_def)
  then show ?thesis using Some by (simp add: save_query_def query_text_def opt_text_def del: run_steps.simps)
qed

lemma save_fragment_writes:
  assumes "uri_safe u"
  shows "writes (run_steps (save_fragment u)) {opt_text (\<lambda>p. 0x23 # escape_text uric_char p) (u_fragment u)}"
proof (cases "u_fragment u")
  case None
  then show ?thesis using writes_Nil by (simp add: save_fragment_def opt_text_def)
next
  case (Some p)
  have "writes (run_steps ([room 3, emit [0x23]] @ [save_escaped uric_char p])) (conc {[0x23]} {escape_text uric_char p})"
    using assms Some by (intro writes_append writes_one writes_save_escaped writes_room_emit) (auto simp: uri_safe_def)
  then show ?thesis using Some by (simp add: save_fragment_def opt_text_def del: run_steps.simps)
qed

lemma save_middle_writes:
  assumes "uri_safe u"
  shows "writes (run_steps (case u_opaque u of Some p \<Rightarrow> [save_escaped uric_char p]
      | None \<Rightarrow> save_authority u @ save_path u @ save_query u))
    ((\<lambda>ct. case u_opaque u of Some p \<Rightarrow> escape_text uric_char p
        | None \<Rightarrow> authority_text ct u @ opt_text (path_text u) (u_path u) @ query_text u) ` cuts u)"
proof (cases "u_opaque u")
  case None
  have "writes (run_steps (save_authority u @ save_path u @ save_query u))
      (conc ((\<lambda>ct. authority_text ct u) ` cuts u) (conc {opt_text (path_text u) (u_path u)} {query_text u}))"
    by (intro writes_append save_authority_writes save_path_writes save_query_writes assms) simp_all
  then show ?thesis using None by (simp del: run_steps.simps)
next
  case (Some p)
  then have "writes (run_steps [save_escaped uric_char p]) {escape_text uric_char p}"
    using assms by (intro writes_one writes_save_escaped) (auto simp: uri_safe_def)
  moreover have "(\<lambda>ct. escape_text uric_char p) ` cuts u = {escape_text uric_char p}" using cuts_False [of u] by blast
  ultimately show ?thesis using Some by (simp del: run_steps.simps)
qed

lemma save_steps_writes:
  assumes "uri_safe u"
  shows "writes (run_steps (save_steps u)) ((\<lambda>ct. uri_text ct u @ [0]) ` cuts u)"
proof -
  have "writes (run_steps (save_scheme u @ (case u_opaque u of Some p \<Rightarrow> [save_escaped uric_char p]
        | None \<Rightarrow> save_authority u @ save_path u @ save_query u) @ save_fragment u @ [room 0, emit [0]]))
      (conc {opt_text (\<lambda>p. ctext p @ [0x3A]) (u_scheme u)}
        (conc ((\<lambda>ct. case u_opaque u of Some p \<Rightarrow> escape_text uric_char p
            | None \<Rightarrow> authority_text ct u @ opt_text (path_text u) (u_path u) @ query_text u) ` cuts u)
          (conc {opt_text (\<lambda>p. 0x23 # escape_text uric_char p) (u_fragment u)} {[0]})))"
    using cuts_False [of u]
    by (intro writes_append save_scheme_writes save_middle_writes save_fragment_writes writes_room_emit assms)
      (auto simp: conc_def)
  then show ?thesis by (simp only: save_steps_def conc_image conc_single uri_text_def append_assoc)
qed

lemma xmlSaveUri_spec:
  assumes "uri_safe u"
  shows "\<exists>val mem'. xmlSaveUri (Some u) mem = Some (val, mem') \<and> set mem' \<subseteq> set mem \<and>
    (\<forall>v. val = Some v \<longrightarrow> (\<exists>ct\<in>cuts u. v = uri_text ct u @ [0])) \<and>
    (val = None \<longrightarrow> False \<in> set mem \<or> (\<exists>ct\<in>cuts u. int (length (uri_text ct u)) + 11 > MAX_URI_LENGTH))"
proof -
  obtain ok mem1 where m: "malloc mem = (ok, mem1)" "set mem1 \<subseteq> set mem" "\<not> ok \<longrightarrow> False \<in> set mem"
    by (rule malloc_cases [of mem])
  let ?s = "\<lparr>sb_buf = [], sb_max = 80, sb_mem = mem1\<rparr>"
  let ?B = "(\<lambda>ct. uri_text ct u @ [0]) ` cuts u"
  have inv: "sbuf_inv ?s" by (simp add: sbuf_inv_def)
  have "\<exists>ok s'. run_steps (save_steps u) ?s = Some (ok, s') \<and> sbuf_inv s' \<and> set (sb_mem s') \<subseteq> set (sb_mem ?s) \<and>
     (ok \<longrightarrow> (\<exists>bs\<in>?B. sb_buf s' = sb_buf ?s @ bs)) \<and>
     (\<not> ok \<longrightarrow> False \<in> set (sb_mem ?s) \<or> (\<exists>bs\<in>?B. int (length (sb_buf ?s) + length bs) + 10 > MAX_URI_LENGTH))"
    using save_steps_writes [OF assms, unfolded writes_def] inv by blast
  then obtain ok2 s where s: "run_steps (save_steps u) ?s = Some (ok2, s)" "set (sb_mem s) \<subseteq> set mem1"
    "ok2 \<longrightarrow> (\<exists>ct\<in>cuts u. sb_buf s = uri_text ct u @ [0])"
    "\<not> ok2 \<longrightarrow> False \<in> set mem1 \<or> (\<exists>ct\<in>cuts u. int (length (uri_text ct u)) + 11 > MAX_URI_LENGTH)"
    by (auto simp: add.commute)
  show ?thesis
  proof (cases ok)
    case True
    then have "xmlSaveUri (Some u) mem = Some (if ok2 then Some (sb_buf s) else None, sb_mem s)"
      using m(1) s(1) by (simp add: xmlSaveUri_def)
    then show ?thesis using s(2-4) m(2) by (cases ok2) auto
  next
    case False
    then show ?thesis using m by (simp add: xmlSaveUri_def)
  qed
qed

text \<open>
  A structure whose port is printed at the end of the first buffer of 80 bytes.
\<close>

definition long_port_uri :: xmlURI where
  "long_port_uri =
     \<lparr>u_scheme = Some (lit ''http''), u_opaque = None, u_authority = None, u_server = Some (replicate 62 0x61 @ [0]),
      u_user = None, u_port = 2000000001, u_path = Some (lit ''/p''), u_query = None, u_fragment = None, u_cleanup = 0,
      u_query_raw = None\<rparr>"

text \<open>
  C21 For every well-formed structure \<open>xmlSaveUri\<close> stays inside its
  buffer and what it returns is terminated; when memory suffices, the text is shorter
  than \<open>MAX_URI_LENGTH\<close> and the port has fewer than ten digits, it returns the text of
  the components, escaped and in order.  A port of ten digits can lose its last digit,
  and end the string there: the room made for \<open>snprintf\<close> is one byte less than it needs.
\<close>

theorem xml_uri_save_text:
  assumes "uri_safe u"
  shows "(\<exists>val mem'. xmlSaveUri (Some u) mem = Some (val, mem') \<and> ptr_ok val \<and>
       (mem_ok mem \<and> u_port u < 10 ^ 9 \<and> int (length (uri_text False u)) + 11 \<le> MAX_URI_LENGTH \<longrightarrow>
        val = Some (uri_text False u @ [0]))) \<and>
     xmlSaveUri (Some long_port_uri) [] =
       Some (Some (map of_char ''http://'' @ replicate 62 0x61 @ lit '':200000000'' @ lit ''/p''), [])"
proof -
  obtain val mem' where "xmlSaveUri (Some u) mem = Some (val, mem')"
    "\<forall>v. val = Some v \<longrightarrow> (\<exists>ct\<in>cuts u. v = uri_text ct u @ [0])"
    "val = None \<longrightarrow> False \<in> set mem \<or> (\<exists>ct\<in>cuts u. int (length (uri_text ct u)) + 11 > MAX_URI_LENGTH)"
    using xmlSaveUri_spec [OF assms] by blast
  then have "\<exists>val mem'. xmlSaveUri (Some u) mem = Some (val, mem') \<and> ptr_ok val \<and>
       (mem_ok mem \<and> u_port u < 10 ^ 9 \<and> int (length (uri_text False u)) + 11 \<le> MAX_URI_LENGTH \<longrightarrow>
        val = Some (uri_text False u @ [0]))"
    by (cases val) (auto simp: cuts_def mem_ok_def)
  moreover have "xmlSaveUri (Some long_port_uri) [] =
       Some (Some (map of_char ''http://'' @ replicate 62 0x61 @ lit '':200000000'' @ lit ''/p''), [])"
    by code_simp
  ultimately show ?thesis by blast
qed

theorem xml_uri_save_text_witness:
  "\<exists>mem'. xmlSaveUri (Some (long_port_uri\<lparr>u_port := 80\<rparr>)) [] =
     Some (Some (map of_char ''http://'' @ replicate 62 0x61 @ lit '':80/p''), mem')"
proof -
  have "uri_safe (long_port_uri\<lparr>u_port := 80\<rparr>)" by code_simp
  moreover have t: "uri_text False (long_port_uri\<lparr>u_port := 80\<rparr>) @ [0] = map of_char ''http://'' @ replicate 62 0x61 @ lit '':80/p''"
    by code_simp
  moreover have "length (uri_text False (long_port_uri\<lparr>u_port := 80\<rparr>)) = 74" by code_simp
  ultimately show ?thesis
    using xml_uri_save_text [of "long_port_uri\<lparr>u_port := 80\<rparr>" "[]"] unfolding t by (auto simp: mem_ok_def MAX_URI_LENGTH_def)
qed

end
