(* ===== verification/Xml_Path.thy ===== *)
theory Xml_Path
  imports Xml_Uri
begin

text \<open>
  Normalising paths (\<open>xmlNormalizePath\<close> in \<open>src/testbed/libxml2/uri.c\<close>).  The
  routine works in place, so the model updates one list by index; the loops are partial
  functions, and the lemmas show that they end and what they leave in the buffer.
\<close>

section \<open>Normalising\<close>

definition xmlIsPathSeparator :: "u8 \<Rightarrow> bool \<Rightarrow> bool" where
  "xmlIsPathSeparator c isFile \<longleftrightarrow> c = 0x2F"

definition wr :: "u8 list \<Rightarrow> nat \<Rightarrow> u8 \<Rightarrow> u8 list option" where
  "wr buf i c = (if i < length buf then Some (buf[i := c]) else None)"

text \<open>The loops: over separators, back over the last segment, and over a segment.\<close>

partial_function (option) skip_seps :: "bool \<Rightarrow> u8 list \<Rightarrow> nat \<Rightarrow> nat option" where
  "skip_seps isFile buf cur = do {
     c \<leftarrow> rd buf cur;
     if xmlIsPathSeparator c isFile then skip_seps isFile buf (cur + 1) else Some cur
   }"

partial_function (option) back_seg :: "bool \<Rightarrow> u8 list \<Rightarrow> nat \<Rightarrow> nat option" where
  "back_seg isFile buf out =
     (if out = 0 then None
      else if out - 1 > 0
      then do {
        c \<leftarrow> rd buf (out - 2);
        if \<not> xmlIsPathSeparator c isFile then back_seg isFile buf (out - 1) else Some (out - 1)
      }
      else Some (out - 1))"

partial_function (option) copy_seg :: "bool \<Rightarrow> u8 list \<Rightarrow> nat \<Rightarrow> nat \<Rightarrow> (u8 list \<times> nat \<times> nat) option" where
  "copy_seg isFile buf cur out = do {
     c \<leftarrow> rd buf cur;
     if c \<noteq> 0 \<and> \<not> xmlIsPathSeparator c isFile
     then do { buf \<leftarrow> wr buf out c; copy_seg isFile buf (cur + 1) (out + 1) }
     else Some (buf, cur, out)
   }"

text \<open>
  What the tests on a segment that starts with a dot decide: leave the loop with
  \<open>out\<close>, go on with \<open>cur\<close>, \<open>out\<close> and \<open>numSeg\<close>, or copy the segment with \<open>numSeg\<close>.
\<close>

datatype norm_act = NormBreak nat | NormContinue nat nat int | NormCopy int

definition dot_segment :: "bool \<Rightarrow> u8 list \<Rightarrow> nat \<Rightarrow> nat \<Rightarrow> int \<Rightarrow> norm_act option" where
  "dot_segment isFile buf cur out numSeg = do {
     c1 \<leftarrow> rd buf (cur + 1);
     if c1 = 0 then Some (NormBreak out)
     else if xmlIsPathSeparator c1 isFile then Some (NormContinue (cur + 2) out numSeg)
     else if c1 \<noteq> 0x2E then Some (NormCopy numSeg)
     else do {
       c2 \<leftarrow> rd buf (cur + 2);
       if \<not> (c2 = 0 \<or> xmlIsPathSeparator c2 isFile) then Some (NormCopy numSeg)
       else if numSeg > 0
       then do {
         out \<leftarrow> back_seg isFile buf out;
         Some (if c2 = 0 then NormBreak out else NormContinue (cur + 3) out (numSeg - 1))
       }
       else do {
         o0 \<leftarrow> rd buf out;
         Some (if o0 = 0x2F then if c2 = 0 then NormBreak out else NormContinue (cur + 3) out numSeg
               else NormCopy (numSeg - 1))
       }
     }
   }"

partial_function (option) normalize_loop ::
    "bool \<Rightarrow> u8 list \<Rightarrow> nat \<Rightarrow> nat \<Rightarrow> int \<Rightarrow> (u8 list \<times> nat) option" where
  "normalize_loop isFile buf cur out numSeg = do {
     c \<leftarrow> rd buf cur;
     if c = 0 then Some (buf, out)
     else do {
       cur \<leftarrow> skip_seps isFile buf cur;
       c \<leftarrow> rd buf cur;
       act \<leftarrow> (if c = 0x2E then dot_segment isFile buf cur out numSeg else Some (NormCopy numSeg));
       (case act of
          NormBreak out \<Rightarrow> Some (buf, out)
        | NormContinue cur out numSeg \<Rightarrow> normalize_loop isFile buf cur out numSeg
        | NormCopy numSeg \<Rightarrow> do {
            (buf, cur, out) \<leftarrow> copy_seg isFile buf cur out;
            c \<leftarrow> rd buf cur;
            if c \<noteq> 0
            then do { buf \<leftarrow> wr buf out 0x2F; normalize_loop isFile buf (cur + 1) (out + 1) (numSeg + 1) }
            else normalize_loop isFile buf cur out (numSeg + 1)
          })
     }
   }"

declare skip_seps.simps [code] back_seg.simps [code] copy_seg.simps [code] normalize_loop.simps [code]

definition xmlNormalizePath :: "xptr \<Rightarrow> bool \<Rightarrow> (int \<times> xptr) option" where
  "xmlNormalizePath path isFile =
     (case path of
        None \<Rightarrow> Some (-1, None)
      | Some buf \<Rightarrow> do {
          c \<leftarrow> rd buf 0;
          if c = 0 then Some (0, path)
          else do {
            (buf, out) \<leftarrow>
              (if xmlIsPathSeparator c isFile then do { buf \<leftarrow> wr buf 0 0x2F; normalize_loop isFile buf 1 1 0 }
               else normalize_loop isFile buf 0 0 0);
            (buf, out) \<leftarrow> (if isFile \<and> out = 0 then do { buf \<leftarrow> wr buf 0 0x2E; Some (buf, 1) } else Some (buf, out));
            buf \<leftarrow> wr buf out 0;
            Some (0, Some buf)
          }
        })"

definition xmlNormalizeURIPath :: "xptr \<Rightarrow> (int \<times> xptr) option" where
  "xmlNormalizeURIPath path = xmlNormalizePath path False"

section \<open>Normalised paths\<close>

text \<open>
  The buffer of \<open>xmlNormalizePath\<close> is \<open>out @ gap @ rest\<close>: what is written, bytes left
  behind, and the rest of the input from \<open>cur\<close> on.  A segment is a list without
  separators and terminators.
\<close>

definition segment :: "u8 list \<Rightarrow> bool" where
  "segment s \<longleftrightarrow> 0 \<notin> set s \<and> 0x2F \<notin> set s"

lemma rd_append: "rd (xs @ ys) (length xs + i) = rd ys i"
  by (simp add: rd_def nth_append)

lemma rd_append0: "rd (xs @ ys) (length xs) = rd ys 0"
  using rd_append [of xs ys 0] by simp

lemma skip_seps_spec:
  "rest \<noteq> [] \<Longrightarrow> hd rest \<noteq> 0x2F \<Longrightarrow>
   skip_seps f (pre @ replicate n 0x2F @ rest) (length pre) = Some (length pre + n)"
proof (induction n arbitrary: pre)
  case 0
  then show ?case
    by (subst skip_seps.simps) (cases rest, simp_all add: rd_append0 xmlIsPathSeparator_def)
next
  case (Suc n)
  have "skip_seps f ((pre @ [0x2F]) @ replicate n 0x2F @ rest) (length (pre @ [0x2F])) = Some (length (pre @ [0x2F]) + n)"
    using Suc.prems by (rule Suc.IH)
  then show ?case by (subst skip_seps.simps) (simp add: rd_append0 xmlIsPathSeparator_def)
qed

lemma back_seg_spec:
  assumes "pre = [] \<or> last pre = 0x2F"
  shows "segment s \<Longrightarrow> back_seg f (pre @ s @ c # rest) (length pre + length s + 1) = Some (length pre)"
proof (induction s arbitrary: c rest rule: rev_induct)
  case Nil
  show ?case
  proof (cases pre rule: rev_cases)
    case Nil
    then show ?thesis by (subst back_seg.simps) simp
  next
    case (snoc ys y)
    then have "y = 0x2F" using assms by simp
    then show ?thesis using snoc by (subst back_seg.simps) (simp add: rd_append0 xmlIsPathSeparator_def)
  qed
next
  case (snoc x s)
  have x: "x \<noteq> 0x2F" "segment s" using snoc.prems by (auto simp: segment_def)
  have "rd (pre @ (s @ [x]) @ c # rest) (length pre + length s) = Some x"
    using rd_append0 [of "pre @ s"] by simp
  then show ?case
    using snoc.IH [OF x(2), of x "c # rest"] x(1) by (subst back_seg.simps) (simp add: xmlIsPathSeparator_def)
qed

text \<open>Copying a segment down over the gap.\<close>

lemma copy_seg_spec:
  "segment s \<Longrightarrow> rest = 0 # r \<or> rest = 0x2F # r \<Longrightarrow>
   \<exists>gap'. copy_seg f (out @ gap @ s @ rest) (length out + length gap) (length out) =
     Some (out @ s @ gap' @ rest, length out + length gap + length s, length out + length s) \<and> length gap' = length gap"
proof (induction s arbitrary: out gap)
  case Nil
  then show ?case
    using rd_append0 [of "out @ gap" rest] by (subst copy_seg.simps) (auto simp: xmlIsPathSeparator_def)
next
  case (Cons c s)
  have c: "c \<noteq> 0" "c \<noteq> 0x2F" "segment s" using Cons.prems(1) by (auto simp: segment_def)
  define gap1 where "gap1 = (if gap = [] then [] else tl gap @ [c])"
  have g: "length gap1 = length gap" by (cases gap) (simp_all add: gap1_def)
  have rdc: "rd (out @ gap @ (c # s) @ rest) (length out + length gap) = Some c" using rd_append0 [of "out @ gap"] by simp
  have "wr (out @ gap @ (c # s) @ rest) (length out) c = Some ((out @ [c]) @ gap1 @ s @ rest)"
    by (cases gap) (simp_all add: wr_def gap1_def)
  moreover obtain gap' where "copy_seg f ((out @ [c]) @ gap1 @ s @ rest) (length (out @ [c]) + length gap1) (length (out @ [c])) =
      Some ((out @ [c]) @ s @ gap' @ rest, length (out @ [c]) + length gap1 + length s, length (out @ [c]) + length s)"
      "length gap' = length gap1"
    using Cons.IH [OF c(3) Cons.prems(2), of "out @ [c]" gap1] by blast
  ultimately show ?case
    using rdc c(1,2) g by (subst copy_seg.simps) (auto simp: xmlIsPathSeparator_def)
qed

text \<open>A copied segment, with its separator or at the end of the path.\<close>

lemma copy_last:
  assumes "segment s"
  shows "\<exists>gap'. (do {
     (buf, cur, out) \<leftarrow> copy_seg f (out @ gap @ s @ 0 # r) (length out + length gap) (length out);
     c \<leftarrow> rd buf cur;
     if c \<noteq> 0
     then do { buf \<leftarrow> wr buf out 0x2F; normalize_loop f buf (cur + 1) (out + 1) (n + 1) }
     else normalize_loop f buf cur out (n + 1)
   }) = Some (out @ s @ gap', length (out @ s)) \<and> length gap' = Suc (length gap + length r)"
proof -
  obtain gap' where g: "copy_seg f (out @ gap @ s @ 0 # r) (length out + length gap) (length out) =
      Some (out @ s @ gap' @ 0 # r, length out + length gap + length s, length out + length s)" "length gap' = length gap"
    using copy_seg_spec [OF assms, of "0 # r" r] by blast
  have "rd (out @ s @ gap' @ 0 # r) (length out + length gap + length s) = Some 0"
    using rd_append0 [of "out @ s @ gap'" "0 # r"] g(2) by (simp add: algebra_simps)
  then show ?thesis
    using g by (auto simp: normalize_loop.simps intro!: exI [of _ "gap' @ 0 # r"])
qed

lemma copy_next:
  assumes "segment s"
  shows "\<exists>gap'. (do {
     (buf, cur, out) \<leftarrow> copy_seg f (out @ gap @ s @ 0x2F # r) (length out + length gap) (length out);
     c \<leftarrow> rd buf cur;
     if c \<noteq> 0
     then do { buf \<leftarrow> wr buf out 0x2F; normalize_loop f buf (cur + 1) (out + 1) (n + 1) }
     else normalize_loop f buf cur out (n + 1)
   }) = normalize_loop f ((out @ s @ [0x2F]) @ gap' @ r) (length (out @ s @ [0x2F]) + length gap') (length (out @ s @ [0x2F])) (n + 1) \<and> length gap' = length gap"
proof -
  obtain gap' where g: "copy_seg f (out @ gap @ s @ 0x2F # r) (length out + length gap) (length out) =
      Some (out @ s @ gap' @ 0x2F # r, length out + length gap + length s, length out + length s)" "length gap' = length gap"
    using copy_seg_spec [OF assms, of "0x2F # r" r] by blast
  define gap2 where "gap2 = (if gap' = [] then [] else tl gap' @ [0x2F])"
  have g2: "length gap2 = length gap" using g(2) by (cases gap') (simp_all add: gap2_def)
  have "rd (out @ s @ gap' @ 0x2F # r) (length out + length gap + length s) = Some 0x2F"
    using rd_append0 [of "out @ s @ gap'" "0x2F # r"] g(2) by (simp add: algebra_simps)
  moreover have "wr (out @ s @ gap' @ 0x2F # r) (length out + length s) 0x2F = Some ((out @ s @ [0x2F]) @ gap2 @ r)"
    by (cases gap') (simp_all add: wr_def gap2_def list_update_append nth_append)
  moreover have "(0x2F :: u8) \<noteq> 0" by simp
  ultimately show ?thesis using g(1) g2 by (intro exI [of _ gap2]) (simp add: ac_simps)
qed

lemma normalize_loop_sep:
  assumes "rd buf cur = Some 0x2F"
  shows "normalize_loop f buf cur out n = normalize_loop f buf (cur + 1) out n"
proof -
  have sk: "skip_seps f buf cur = skip_seps f buf (cur + 1)"
    using assms by (subst skip_seps.simps) (simp add: xmlIsPathSeparator_def)
  show ?thesis
  proof (cases "rd buf (cur + 1) = Some 0")
    case True
    then have "skip_seps f buf (cur + 1) = Some (cur + 1)" by (subst skip_seps.simps) (simp add: xmlIsPathSeparator_def)
    moreover have "copy_seg f buf (cur + 1) out = Some (buf, cur + 1, out)"
      using True by (subst copy_seg.simps) simp
    moreover have "normalize_loop f buf (cur + 1) out m = Some (buf, out)" for m
      using True by (subst normalize_loop.simps) simp
    ultimately show ?thesis using assms sk True by (subst normalize_loop.simps) simp
  next
    case False
    define K where "K = (\<lambda>cur. do {
       c \<leftarrow> rd buf cur;
       act \<leftarrow> (if c = 0x2E then dot_segment f buf cur out n else Some (NormCopy n));
       (case act of
          NormBreak out \<Rightarrow> Some (buf, out)
        | NormContinue cur out n \<Rightarrow> normalize_loop f buf cur out n
        | NormCopy n \<Rightarrow> do {
            (buf, cur, out) \<leftarrow> copy_seg f buf cur out;
            c \<leftarrow> rd buf cur;
            if c \<noteq> 0
            then do { buf \<leftarrow> wr buf out 0x2F; normalize_loop f buf (cur + 1) (out + 1) (n + 1) }
            else normalize_loop f buf cur out (n + 1)
          }) })"
    have step: "normalize_loop f buf c0 out n = skip_seps f buf c0 \<bind> K" if "rd buf c0 \<noteq> Some 0" for c0
    proof (cases "rd buf c0")
      case None
      then show ?thesis by (simp add: normalize_loop.simps [of f buf c0] skip_seps.simps [of f buf c0])
    next
      case (Some c)
      then show ?thesis using that by (simp add: normalize_loop.simps [of f buf c0] K_def)
    qed
    show ?thesis using step [of cur] step [of "cur + 1"] assms False sk by simp
  qed
qed

text \<open>One iteration at the beginning of a segment \<open>s\<close> that is followed by \<open>d\<close>.\<close>

lemma dot_segment_eval:
  assumes "segment (0x2E # s)" "d = 0 \<or> d = 0x2F" "buf = pre @ (0x2E # s) @ d # r" "cur = length pre"
  shows "dot_segment f buf cur out n =
    (if s = [] then Some (if d = 0 then NormBreak out else NormContinue (cur + 2) out n)
     else if s = [0x2E] then
       if n > 0 then do { out \<leftarrow> back_seg f buf out; Some (if d = 0 then NormBreak out else NormContinue (cur + 3) out (n - 1)) }
       else do { o0 \<leftarrow> rd buf out; Some (if o0 = 0x2F then if d = 0 then NormBreak out else NormContinue (cur + 3) out n
               else NormCopy (n - 1)) }
     else Some (NormCopy n))"
proof -
  have rd: "rd buf (cur + i) = rd ((0x2E # s) @ d # r) i" for i unfolding assms(3,4) by (rule rd_append)
  consider "s = []" | c where "s = [c]" "c \<noteq> 0" "c \<noteq> 0x2F" | c c2 s' where "s = c # c2 # s'" "c \<noteq> 0" "c \<noteq> 0x2F" "c2 \<noteq> 0" "c2 \<noteq> 0x2F"
    using assms(1) by (cases s; cases "tl s") (auto simp: segment_def)
  then show ?thesis
  proof cases
    case 1
    then show ?thesis using assms(2) rd [of 1] by (auto simp: dot_segment_def xmlIsPathSeparator_def)
  next
    case 2
    then show ?thesis using assms(2) rd [of 1] rd [of 2] by (auto simp: dot_segment_def xmlIsPathSeparator_def)
  next
    case 3
    then show ?thesis using rd [of 1] rd [of 2] by (auto simp: dot_segment_def xmlIsPathSeparator_def)
  qed
qed

lemma normalize_step:
  assumes "segment s" "s \<noteq> []" "buf = pre @ s @ d # r" "cur = length pre"
    and act: "(if hd s = 0x2E then dot_segment f buf cur out n else Some (NormCopy n)) = Some act"
  shows "normalize_loop f buf cur out n =
       (case act of
          NormBreak out \<Rightarrow> Some (buf, out)
        | NormContinue cur out n \<Rightarrow> normalize_loop f buf cur out n
        | NormCopy n \<Rightarrow> do {
            (buf, cur, out) \<leftarrow> copy_seg f buf cur out;
            c \<leftarrow> rd buf cur;
            if c \<noteq> 0
            then do { buf \<leftarrow> wr buf out 0x2F; normalize_loop f buf (cur + 1) (out + 1) (n + 1) }
            else normalize_loop f buf cur out (n + 1)
          })"
proof -
  obtain c s' where s: "s = c # s'" "c \<noteq> 0" "c \<noteq> 0x2F" using assms(1,2) by (cases s) (auto simp: segment_def)
  have rd: "rd buf cur = Some c" using assms(3,4) s(1) rd_append0 [of pre] by simp
  have "skip_seps f buf cur = Some cur"
    using skip_seps_spec [of "s @ d # r" f pre 0] assms(3,4) s by simp
  moreover have "(if c = 0x2E then dot_segment f buf cur out n else Some (NormCopy n)) = Some act" using act s(1) by simp
  ultimately show ?thesis using rd s(2) by (simp only: normalize_loop.simps [of f buf cur out n] bind.bind_lunit if_False)
qed

text \<open>
  The specification.  A state \<open>(k, st)\<close> stands for \<open>k\<close> leading \<open>../\<close> and the
  segments \<open>st\<close>, last first.  A \<open>..\<close> with nothing to remove is kept or dropped
  (\<open>drop\<close>): the code decides by a byte it has left behind, so the specification leaves it open.
\<close>

definition norm_seg :: "bool \<Rightarrow> nat \<times> u8 list list \<Rightarrow> u8 list \<Rightarrow> nat \<times> u8 list list" where
  "norm_seg drop_it = (\<lambda>(k, st) s.
     if s = [] \<or> s = [0x2E] then (k, st)
     else if s = [0x2E, 0x2E] then
       (case st of _ # xs \<Rightarrow> (k, xs) | [] \<Rightarrow> if drop_it then (k, []) else (Suc k, []))
     else (k, s # st))"

definition norm_text :: "nat \<times> u8 list list \<Rightarrow> u8 list" where
  "norm_text = (\<lambda>(k, st). concat (replicate k [0x2E, 0x2E, 0x2F]) @ concat (map (\<lambda>s. s @ [0x2F]) (rev st)))"

definition norm_last :: "bool \<Rightarrow> nat \<times> u8 list list \<Rightarrow> u8 list \<Rightarrow> u8 list" where
  "norm_last drop_it = (\<lambda>(k, st) t.
     if t = [] \<or> t = [0x2E] then norm_text (k, st)
     else if t = [0x2E, 0x2E] then
       (case st of _ # xs \<Rightarrow> norm_text (k, xs) | [] \<Rightarrow> norm_text (k, []) @ (if drop_it then [] else t))
     else norm_text (k, st) @ t)"

inductive normalised :: "nat \<times> u8 list list \<Rightarrow> u8 list list \<Rightarrow> u8 list \<Rightarrow> u8 list \<Rightarrow> bool" where
  last: "normalised st [] t (norm_last d st t)"
| seg: "normalised (norm_seg d st s) ss t out \<Longrightarrow> normalised st (s # ss) t out"

definition path_of :: "u8 list list \<Rightarrow> u8 list \<Rightarrow> u8 list" where
  "path_of segs t = concat (map (\<lambda>s. s @ [0x2F]) segs) @ t"

lemma norm_text_simps:
  "norm_text (k, s # st) = norm_text (k, st) @ s @ [0x2F]"
  "norm_text (Suc k, []) = norm_text (k, []) @ [0x2E, 0x2E, 0x2F]"
  by (simp_all add: norm_text_def replicate_append_same [symmetric])

lemma norm_text_end: "pre = [] \<or> pre = [0x2F] \<Longrightarrow> pre @ norm_text (k, st) = [] \<or> last (pre @ norm_text (k, st)) = 0x2F"
proof (cases st)
  case Nil
  assume "pre = [] \<or> pre = [0x2F]"
  then show ?thesis using Nil norm_text_simps(2) by (cases k) (auto simp: norm_text_def)
next
  case (Cons s st')
  then show ?thesis by (simp add: norm_text_simps)
qed

lemma back_seg_text:
  assumes "pre = [] \<or> pre = [0x2F]" "segment x"
  shows "back_seg f ((pre @ norm_text (k, x # xs)) @ rest) (length (pre @ norm_text (k, x # xs))) = Some (length (pre @ norm_text (k, xs)))"
  using back_seg_spec [OF norm_text_end [OF assms(1)] assms(2), of f k xs "0x2F" rest] by (simp add: norm_text_simps add.assoc)

definition written :: "u8 list \<Rightarrow> nat \<times> u8 list list \<Rightarrow> u8 list" where
  "written pre kst = pre @ norm_text kst"

text \<open>How far one segment takes the loop.\<close>

lemma normalize_segment:
  assumes pre: "pre = [] \<or> pre = [0x2F]" and s: "segment s" and st: "\<forall>x\<in>set st. segment x"
  shows "\<exists>d gap' k' st'. normalize_loop f (written pre (k, st) @ gap @ s @ 0x2F # rest) (length (written pre (k, st)) + length gap)
        (length (written pre (k, st))) (int (length st)) =
      normalize_loop f (written pre (k', st') @ gap' @ rest) (length (written pre (k', st')) + length gap') (length (written pre (k', st'))) (int (length st')) \<and>
      norm_seg d (k, st) s = (k', st') \<and> (\<forall>x\<in>set st'. segment x) \<and>
      length (written pre (k', st') @ gap') = Suc (length (written pre (k, st) @ gap @ s))"
proof -
  let ?O = "written pre (k, st)"
  let ?buf = "?O @ gap @ s @ 0x2F # rest"
  let ?go = "\<lambda>k' st' gap'. normalize_loop f (written pre (k', st') @ gap' @ rest) (length (written pre (k', st')) + length gap')
      (length (written pre (k', st'))) (int (length st'))"
  have goal: ?thesis if "normalize_loop f ?buf (length ?O + length gap) (length ?O) (int (length st)) = ?go k' st' gap'"
      "norm_seg d (k, st) s = (k', st')" "\<forall>x\<in>set st'. segment x"
      "length (written pre (k', st') @ gap') = Suc (length (?O @ gap @ s))" for d gap' k' st'
    using that by blast
  have copy: ?thesis if run: "normalize_loop f ?buf (length ?O + length gap) (length ?O) (int (length st)) = do {
     (buf, cur, out) \<leftarrow> copy_seg f ?buf (length ?O + length gap) (length ?O);
     c \<leftarrow> rd buf cur;
     if c \<noteq> 0
     then do { buf \<leftarrow> wr buf out 0x2F; normalize_loop f buf (cur + 1) (out + 1) (n + 1) }
     else normalize_loop f buf cur out (n + 1) }"
    and o': "?O @ s @ [0x2F] = written pre (k', st')" "n + 1 = int (length st')" "norm_seg d (k, st) s = (k', st')"
      "\<forall>x\<in>set st'. segment x" for n d k' st'
  proof -
    obtain gap' where "normalize_loop f ?buf (length ?O + length gap) (length ?O) (int (length st)) = ?go k' st' gap'"
      "length gap' = length gap"
      unfolding run using copy_next [OF s, of f ?O gap rest n] unfolding o'(1,2) by blast
    moreover have "length (written pre (k', st')) = length (?O @ s @ [0x2F])" by (simp only: o'(1))
    ultimately show ?thesis by (intro goal [of k' st' gap' d]) (simp_all add: o'(3,4))
  qed
  show ?thesis
  proof (cases "s = []")
    case True
    have "rd ?buf (length ?O + length gap) = Some 0x2F" using True rd_append0 [of "?O @ gap"] by simp
    then have "normalize_loop f ?buf (length ?O + length gap) (length ?O) (int (length st)) = ?go k st (gap @ [0x2F])"
      using True by (simp add: normalize_loop_sep)
    then show ?thesis using goal [of k st "gap @ [0x2F]"] True st by (simp add: norm_seg_def)
  next
    case False
    note step = normalize_step [OF s False, of ?buf "?O @ gap" "0x2F" rest "length ?O + length gap" f "length ?O" "int (length st)", simplified length_append append_assoc]
    show ?thesis
    proof (cases "s = [0x2E] \<or> s = [0x2E, 0x2E]")
      case no: False
      have "(if hd s = 0x2E then dot_segment f ?buf (length ?O + length gap) (length ?O) (int (length st)) else Some (NormCopy (int (length st)))) =
          Some (NormCopy (int (length st)))"
        using dot_segment_eval [of "tl s" "0x2F" ?buf "?O @ gap" rest "length ?O + length gap" f "length ?O" "int (length st)"] s False no
        by (cases s) auto
      then have "normalize_loop f ?buf (length ?O + length gap) (length ?O) (int (length st)) = do {
         (buf, cur, out) \<leftarrow> copy_seg f ?buf (length ?O + length gap) (length ?O);
         c \<leftarrow> rd buf cur;
         if c \<noteq> 0
         then do { buf \<leftarrow> wr buf out 0x2F; normalize_loop f buf (cur + 1) (out + 1) (int (length st) + 1) }
         else normalize_loop f buf cur out (int (length st) + 1) }"
        using step by (simp only: norm_act.case)
      then show ?thesis
        by (rule copy [of _ k "s # st"]) (use False no s st in \<open>auto simp: written_def norm_text_simps norm_seg_def\<close>)
    next
      case dots: True
      then show ?thesis
      proof (cases "s = [0x2E]")
        case True
        have "dot_segment f ?buf (length ?O + length gap) (length ?O) (int (length st)) =
            Some (NormContinue (length ?O + length gap + 2) (length ?O) (int (length st)))"
          using dot_segment_eval [of "[]" "0x2F" ?buf "?O @ gap" rest "length ?O + length gap" f "length ?O" "int (length st)"] s True by simp
        then have "normalize_loop f ?buf (length ?O + length gap) (length ?O) (int (length st)) = ?go k st (gap @ [0x2E, 0x2F])"
          using step [of "NormContinue (length ?O + length gap + 2) (length ?O) (int (length st))"] True by simp
        then show ?thesis using goal [of k st "gap @ [0x2E, 0x2F]"] True st by (simp add: norm_seg_def)
      next
        case no1: False
        then have dd: "s = [0x2E, 0x2E]" using dots by simp
        have dot: "dot_segment f ?buf (length ?O + length gap) (length ?O) (int (length st)) =
            (if int (length st) > 0
             then do { out \<leftarrow> back_seg f ?buf (length ?O); Some (NormContinue (length ?O + length gap + 3) out (int (length st) - 1)) }
             else do { o0 \<leftarrow> rd ?buf (length ?O); Some (if o0 = 0x2F then NormContinue (length ?O + length gap + 3) (length ?O) (int (length st))
                     else NormCopy (int (length st) - 1)) })"
          using dot_segment_eval [of "[0x2E]" "0x2F" ?buf "?O @ gap" rest "length ?O + length gap" f "length ?O" "int (length st)"] s dd by simp
        show ?thesis
        proof (cases st)
          case (Cons x xs)
          let ?gap = "x @ [0x2F] @ gap @ [0x2E, 0x2E, 0x2F]"
          have "back_seg f ?buf (length ?O) = Some (length (written pre (k, xs)))"
            using back_seg_text [OF pre, of x f k xs "gap @ s @ 0x2F # rest"] st Cons by (simp add: written_def)
          then have "dot_segment f ?buf (length ?O + length gap) (length ?O) (int (length st)) =
              Some (NormContinue (length ?O + length gap + 3) (length (written pre (k, xs))) (int (length st) - 1))"
            using dot Cons by simp
          then have "normalize_loop f ?buf (length ?O + length gap) (length ?O) (int (length st)) =
              normalize_loop f ?buf (length ?O + length gap + 3) (length (written pre (k, xs))) (int (length st) - 1)"
            using step [of "NormContinue (length ?O + length gap + 3) (length (written pre (k, xs))) (int (length st) - 1)"] dd by simp
          moreover have e: "?buf = written pre (k, xs) @ ?gap @ rest"
            "length ?O + length gap + 3 = length (written pre (k, xs)) + length ?gap" "int (length st) - 1 = int (length xs)"
            using dd Cons by (simp_all add: written_def norm_text_simps)
          have "normalize_loop f ?buf (length ?O + length gap + 3) (length (written pre (k, xs))) (int (length st) - 1) = ?go k xs ?gap"
            by (simp only: e(1) [symmetric] e(2) [symmetric] e(3))
          ultimately show ?thesis by (intro goal [of k xs ?gap]) (use dd st Cons in \<open>auto simp: norm_seg_def written_def norm_text_simps\<close>)
        next
          case Nil
          obtain o0 where o0: "rd ?buf (length ?O) = Some o0" using rd_append0 [of ?O] dd by (cases gap) auto
          show ?thesis
          proof (cases "o0 = 0x2F")
            case True
            then have "normalize_loop f ?buf (length ?O + length gap) (length ?O) (int (length st)) =
                normalize_loop f ?buf (length ?O + length gap + 3) (length ?O) (int (length st))"
              using step [of "NormContinue (length ?O + length gap + 3) (length ?O) (int (length st))"] dot dd Nil o0 by simp
            also have "\<dots> = ?go k [] (gap @ [0x2E, 0x2E, 0x2F])" using dd Nil by (simp add: numeral_3_eq_3)
            finally show ?thesis by (rule goal [of k "[]" _ True]) (use dd Nil in \<open>auto simp: norm_seg_def\<close>)
          next
            case keep: False
            have "normalize_loop f ?buf (length ?O + length gap) (length ?O) (int (length st)) = do {
               (buf, cur, out) \<leftarrow> copy_seg f ?buf (length ?O + length gap) (length ?O);
               c \<leftarrow> rd buf cur;
               if c \<noteq> 0
               then do { buf \<leftarrow> wr buf out 0x2F; normalize_loop f buf (cur + 1) (out + 1) (-1 + 1) }
               else normalize_loop f buf cur out (-1 + 1) }"
              using step [of "NormCopy (-1)"] dot dd Nil o0 keep by simp
            then show ?thesis
              by (rule copy [of _ "Suc k" "[]" False]) (use dd Nil in \<open>auto simp: written_def norm_text_simps norm_seg_def\<close>)
          qed
        qed
      qed
    qed
  qed
qed

lemma normalize_last:
  assumes pre: "pre = [] \<or> pre = [0x2F]" and t: "segment t" and st: "\<forall>x\<in>set st. segment x"
  shows "\<exists>d gap'. normalize_loop f (written pre (k, st) @ gap @ t @ 0 # r) (length (written pre (k, st)) + length gap)
        (length (written pre (k, st))) (int (length st)) =
      Some ((pre @ norm_last d (k, st) t) @ gap', length (pre @ norm_last d (k, st) t)) \<and> gap' \<noteq> [] \<and>
      length ((pre @ norm_last d (k, st) t) @ gap') = length (written pre (k, st) @ gap @ t @ 0 # r)"
proof -
  let ?O = "written pre (k, st)"
  let ?buf = "?O @ gap @ t @ 0 # r"
  let ?run = "normalize_loop f ?buf (length ?O + length gap) (length ?O) (int (length st))"
  have goal: ?thesis if "?run = Some (?buf, length p)" "?buf = p @ g" "g \<noteq> []" "pre @ norm_last d (k, st) t = p" for d p g
    using that by (metis append_assoc)
  show ?thesis
  proof (cases "t = []")
    case True
    have "?run = Some (?buf, length ?O)" using True rd_append0 [of "?O @ gap"] by (subst normalize_loop.simps) simp
    then show ?thesis by (rule goal) (use True in \<open>auto simp: norm_last_def written_def\<close>)
  next
    case False
    note step = normalize_step [OF t False, of ?buf "?O @ gap" 0 r "length ?O + length gap" f "length ?O" "int (length st)",
        simplified length_append append_assoc]
    note dot = dot_segment_eval [of _ 0 ?buf "?O @ gap" r "length ?O + length gap" f "length ?O" "int (length st)"]
    have copy: ?thesis if act: "(if hd t = 0x2E then dot_segment f ?buf (length ?O + length gap) (length ?O) (int (length st))
        else Some (NormCopy (int (length st)))) = Some (NormCopy n)" and last: "norm_last d (k, st) t = norm_text (k, st) @ t" for n d
    proof -
      obtain gap' where "?run = Some (?O @ t @ gap', length (?O @ t)) \<and> length gap' = Suc (length gap + length r)"
        using step [OF refl refl act] copy_last [OF t, of f ?O gap r n] by (auto simp only: norm_act.case)
      then show ?thesis using last by (intro exI [of _ d] exI [of _ gap']) (auto simp: written_def)
    qed
    show ?thesis
    proof (cases "t = [0x2E] \<or> t = [0x2E, 0x2E]")
      case no: False
      show ?thesis
        by (rule copy [of "int (length st)" True]) (use dot [of "tl t"] t False no in \<open>cases t; auto simp: norm_last_def\<close>)+
    next
      case dots: True
      show ?thesis
      proof (cases "t = [0x2E]")
        case True
        have "?run = Some (?buf, length ?O)"
          using step [of "NormBreak (length ?O)"] dot [of "[]"] t True by simp
        then show ?thesis by (rule goal) (use True in \<open>auto simp: norm_last_def written_def\<close>)
      next
        case no1: False
        then have dd: "t = [0x2E, 0x2E]" using dots by simp
        show ?thesis
        proof (cases st)
          case (Cons x xs)
          have "back_seg f ?buf (length ?O) = Some (length (written pre (k, xs)))"
            using back_seg_text [OF pre, of x f k xs "gap @ t @ 0 # r"] st Cons by (simp add: written_def)
          then have "?run = Some (?buf, length (written pre (k, xs)))"
            using step [of "NormBreak (length (written pre (k, xs)))"] dot [of "[0x2E]"] t dd Cons by simp
          then show ?thesis
            by (rule goal [of _ "x @ [0x2F] @ gap @ t @ 0 # r"])
              (use dd Cons in \<open>auto simp: norm_last_def written_def norm_text_simps\<close>)
        next
          case Nil
          obtain o0 where o0: "rd ?buf (length ?O) = Some o0" using rd_append0 [of ?O] dd by (cases gap) auto
          show ?thesis
          proof (cases "o0 = 0x2F")
            case True
            then have "?run = Some (?buf, length ?O)"
              using step [of "NormBreak (length ?O)"] dot [of "[0x2E]"] t dd Nil o0 by simp
            then show ?thesis by (rule goal [of _ _ True]) (use dd Nil in \<open>auto simp: norm_last_def written_def\<close>)
          next
            case False
            then show ?thesis
              by (intro copy [of "-1" False]) (use dot [of "[0x2E]"] t dd Nil o0 in \<open>auto simp: norm_last_def\<close>)
          qed
        qed
      qed
    qed
  qed
qed

lemma normalize_loop_spec:
  assumes pre: "pre = [] \<or> pre = [0x2F]" and t: "segment t"
  shows "\<forall>s\<in>set segs. segment s \<Longrightarrow> \<forall>x\<in>set st. segment x \<Longrightarrow>
    \<exists>out gap'. normalize_loop f (written pre (k, st) @ gap @ path_of segs t @ 0 # r) (length (written pre (k, st)) + length gap)
        (length (written pre (k, st))) (int (length st)) = Some ((pre @ out) @ gap', length (pre @ out)) \<and>
      gap' \<noteq> [] \<and> normalised (k, st) segs t out \<and>
      length ((pre @ out) @ gap') = length (written pre (k, st) @ gap @ path_of segs t @ 0 # r)"
proof (induction segs arbitrary: k st gap)
  case Nil
  obtain d gap' where "normalize_loop f (written pre (k, st) @ gap @ t @ 0 # r) (length (written pre (k, st)) + length gap)
        (length (written pre (k, st))) (int (length st)) =
      Some ((pre @ norm_last d (k, st) t) @ gap', length (pre @ norm_last d (k, st) t))" "gap' \<noteq> []"
      "length ((pre @ norm_last d (k, st) t) @ gap') = length (written pre (k, st) @ gap @ t @ 0 # r)"
    using normalize_last [OF pre t Nil.prems(2)] by blast
  then show ?case using normalised.last [of "(k, st)" t d] by (auto simp: path_of_def)
next
  case (Cons s segs)
  have s: "segment s" "\<forall>s\<in>set segs. segment s" using Cons.prems(1) by simp_all
  have p: "path_of (s # segs) t @ 0 # r = s @ 0x2F # path_of segs t @ 0 # r" by (simp add: path_of_def)
  obtain d gap1 k1 st1 where 1: "normalize_loop f (written pre (k, st) @ gap @ s @ 0x2F # path_of segs t @ 0 # r)
      (length (written pre (k, st)) + length gap) (length (written pre (k, st))) (int (length st)) =
      normalize_loop f (written pre (k1, st1) @ gap1 @ path_of segs t @ 0 # r) (length (written pre (k1, st1)) + length gap1)
        (length (written pre (k1, st1))) (int (length st1))"
      "norm_seg d (k, st) s = (k1, st1)" "\<forall>x\<in>set st1. segment x"
      "length (written pre (k1, st1) @ gap1) = Suc (length (written pre (k, st) @ gap @ s))"
    using normalize_segment [OF pre s(1) Cons.prems(2)] by blast
  obtain out gap' where "normalize_loop f (written pre (k1, st1) @ gap1 @ path_of segs t @ 0 # r)
      (length (written pre (k1, st1)) + length gap1) (length (written pre (k1, st1))) (int (length st1)) =
      Some ((pre @ out) @ gap', length (pre @ out))" "gap' \<noteq> []" "normalised (k1, st1) segs t out"
      "length ((pre @ out) @ gap') = length (written pre (k1, st1) @ gap1 @ path_of segs t @ 0 # r)"
    using Cons.IH [OF s(2) 1(3)] by blast
  then show ?case unfolding p using 1(1,2,4) normalised.seg [of d "(k, st)" s segs t out]
    by (intro exI [of _ out] exI [of _ gap']) auto
qed

text \<open>Every path is a sequence of segments.\<close>

lemma path_decomp: "cstring p \<Longrightarrow> \<exists>segs t. p = path_of segs t \<and> (\<forall>s\<in>set segs. segment s) \<and> segment t"
proof (induction p)
  case Nil
  then show ?case by (intro exI [of _ "[]"]) (simp add: path_of_def segment_def)
next
  case (Cons c p)
  then obtain segs t where p: "p = path_of segs t" "\<forall>s\<in>set segs. segment s" "segment t" "c \<noteq> 0" by (auto simp: cstring_def)
  consider "c = 0x2F" | "c \<noteq> 0x2F" "segs = []" | s ss where "c \<noteq> 0x2F" "segs = s # ss" by (cases segs) auto
  then show ?case
  proof cases
    case 1
    then show ?thesis using p by (intro exI [of _ "[] # segs"] exI [of _ t]) (simp add: path_of_def segment_def)
  next
    case 2
    then show ?thesis using p by (intro exI [of _ "[]"] exI [of _ "c # t"]) (simp add: path_of_def segment_def)
  next
    case 3
    then show ?thesis using p by (intro exI [of _ "(c # s) # ss"] exI [of _ t]) (simp add: path_of_def segment_def)
  qed
qed

lemma norm_text_nonzero: "\<forall>x\<in>set st. segment x \<Longrightarrow> 0 \<notin> set (norm_text (k, st))"
  by (auto simp: norm_text_def segment_def)

lemma normalised_nonzero:
  "normalised kst segs t out \<Longrightarrow> \<forall>s\<in>set segs. segment s \<Longrightarrow> segment t \<Longrightarrow> \<forall>x\<in>set (snd kst). segment x \<Longrightarrow> cstring out"
proof (induction rule: normalised.induct)
  case (last st t d)
  then show ?case using norm_text_nonzero
    by (cases st; cases "snd st") (auto simp: norm_last_def cstring_def segment_def split: if_splits)
next
  case (seg d st s ss t out)
  then show ?case by (cases st; cases "snd st") (auto simp: norm_seg_def split: if_splits)
qed

lemma wr_at: "wr (p @ c # q) (length p) d = Some (p @ d # q)"
  by (simp add: wr_def)

lemma xmlNormalizePath_spec:
  assumes segs: "\<forall>s\<in>set segs. segment s" "segment t" and pre: "pre = [] \<and> (segs = [] \<or> hd segs \<noteq> []) \<or> pre = [0x2F]"
    and p: "pre @ path_of segs t \<noteq> []"
  shows "\<exists>out buf. xmlNormalizePath (Some (pre @ path_of segs t @ 0 # r)) isFile = Some (0, Some buf) \<and>
     normalised (0, []) segs t out \<and>
     ctext buf = (if isFile \<and> pre @ out = [] then [0x2E] else pre @ out) \<and> terminated buf"
proof -
  let ?buf = "pre @ path_of segs t @ 0 # r"
  have pre': "pre = [] \<or> pre = [0x2F]" using pre by blast
  obtain out gap' where 1: "normalize_loop isFile ?buf (length pre) (length pre) 0 = Some ((pre @ out) @ gap', length (pre @ out))"
    "gap' \<noteq> []" "normalised (0, []) segs t out" "length ((pre @ out) @ gap') = length ?buf"
    using normalize_loop_spec [OF pre' segs(2,1), of "[]" isFile 0 "[]" r] by (auto simp: written_def norm_text_def)
  have nz: "cstring (pre @ out)" using normalised_nonzero [OF 1(3) segs] pre' by (auto simp: cstring_def)
  obtain g gs where g: "gap' = g # gs" using 1(2) by (cases gap') auto
  have start: "\<exists>c. rd ?buf 0 = Some c \<and> c \<noteq> 0 \<and> (if xmlIsPathSeparator c isFile then do { buf \<leftarrow> wr ?buf 0 0x2F; normalize_loop isFile buf 1 1 0 }
      else normalize_loop isFile ?buf 0 0 0) = Some ((pre @ out) @ gap', length (pre @ out))"
  proof (cases "pre = []")
    case True
    then obtain c q where c: "path_of segs t = c # q" "c \<noteq> 0" "c \<noteq> 0x2F"
      using p pre segs by (cases segs; cases t; cases "hd segs") (auto simp: path_of_def segment_def)
    then show ?thesis using 1(1) True by (simp add: xmlIsPathSeparator_def)
  next
    case False
    then show ?thesis using 1(1) pre' by (simp add: xmlIsPathSeparator_def wr_def)
  qed
  show ?thesis
  proof (cases "isFile \<and> pre @ out = []")
    case True
    then have "gs \<noteq> []" using 1(4) p g by auto
    then have "xmlNormalizePath (Some ?buf) isFile = Some (0, Some (0x2E # 0 # tl gs))"
      using start True g by (cases gs) (auto simp: xmlNormalizePath_def wr_def)
    then show ?thesis using 1(3) True by (intro exI [of _ out] exI [of _ "0x2E # 0 # tl gs"]) simp
  next
    case False
    have "xmlNormalizePath (Some ?buf) isFile = Some (0, Some ((pre @ out) @ 0 # gs))"
      using start False g wr_at [of "pre @ out" g gs 0] by (auto simp: xmlNormalizePath_def)
    then show ?thesis
      using 1(3) False ctext_cstring [OF nz, of gs] by (intro exI [of _ out] exI [of _ "(pre @ out) @ 0 # gs"]) simp
  qed
qed

lemma xmlNormalizePath_safe:
  assumes "terminated p"
  shows "\<exists>buf. xmlNormalizePath (Some p) isFile = Some (0, Some buf) \<and> terminated buf"
proof -
  obtain s r where p: "p = s @ 0 # r" "cstring s" using assms terminated_cstring by blast
  show ?thesis
  proof (cases s)
    case Nil
    then show ?thesis using p by (simp add: xmlNormalizePath_def)
  next
    case (Cons c q)
    show ?thesis
    proof (cases "c = 0x2F")
      case True
      obtain segs t where d: "q = path_of segs t" "\<forall>s\<in>set segs. segment s" "segment t"
        using path_decomp [of q] p(2) Cons by (auto simp: cstring_def)
      then show ?thesis using xmlNormalizePath_spec [OF d(2,3), of "[0x2F]" r isFile] p(1) Cons True by auto
    next
      case False
      obtain segs t where d: "s = path_of segs t" "\<forall>s\<in>set segs. segment s" "segment t" using path_decomp [OF p(2)] by blast
      have "segs = [] \<or> hd segs \<noteq> []" using d(1) False Cons by (cases segs) (auto simp: path_of_def)
      moreover have "path_of segs t \<noteq> []" using d(1) Cons by (metis list.distinct(1))
      ultimately show ?thesis using xmlNormalizePath_spec [OF d(2,3), of "[]" r isFile] p(1) d(1) by auto
    qed
  qed
qed

text \<open>A path that never climbs above its start has one normal form.\<close>

fun stays_inside :: "nat \<Rightarrow> u8 list list \<Rightarrow> bool" where
  "stays_inside n [] = True"
| "stays_inside n (s # ss) =
     (if s = [] \<or> s = [0x2E] then stays_inside n ss
      else if s = [0x2E, 0x2E] then 0 < n \<and> stays_inside (n - 1) ss
      else stays_inside (Suc n) ss)"

lemma normalised_unique:
  "normalised kst segs t out \<Longrightarrow> stays_inside (length (snd kst)) (segs @ [t]) \<Longrightarrow>
   out = norm_last False (foldl (norm_seg False) kst segs) t"
proof (induction rule: normalised.induct)
  case (last st t d)
  then show ?case by (cases st; cases "snd st") (auto simp: norm_last_def split: if_splits)
next
  case (seg d st s ss t out)
  have e: "norm_seg d st s = norm_seg False st s" "stays_inside (length (snd (norm_seg d st s))) (ss @ [t])"
    using seg.prems by (cases st; cases "snd st"; auto simp: norm_seg_def split: if_splits)+
  then show ?case using seg.IH by simp
qed

text \<open>The normal form of a path that never climbs above its start.\<close>

definition normal_path :: "u8 list list \<Rightarrow> u8 list \<Rightarrow> u8 list" where
  "normal_path segs t = norm_last False (foldl (norm_seg False) (0, []) segs) t"

lemma extraneous_dots:
  "map_option (map_option ctext \<circ> snd) (xmlNormalizePath (Some (lit ''/../a'')) isFile) = Some (Some (map of_char ''/../a''))"
  "map_option (map_option ctext \<circ> snd) (xmlNormalizePath (Some (lit ''//../a'')) isFile) = Some (Some (map of_char ''/a''))"
proof -
  let ?n = "\<lambda>s f. map_option (map_option ctext \<circ> snd) (xmlNormalizePath (Some (lit s)) f)"
  have "?n ''/../a'' True = Some (Some (map of_char ''/../a''))" "?n ''/../a'' False = Some (Some (map of_char ''/../a''))"
    "?n ''//../a'' True = Some (Some (map of_char ''/a''))" "?n ''//../a'' False = Some (Some (map of_char ''/a''))"
    by code_simp+
  then show "?n ''/../a'' isFile = Some (Some (map of_char ''/../a''))" "?n ''//../a'' isFile = Some (Some (map of_char ''/a''))"
    by (cases isFile; simp only:)+
qed

text \<open>
  C22 \<open>xmlNormalizePath\<close> ends and stays inside the buffer for every
  terminated path.  A path that never climbs above its start becomes the path with its
  empty and \<open>.\<close> segments dropped and each \<open>..\<close> taking back one segment; an empty
  result is replaced by \<open>.\<close> for files.  An extraneous \<open>..\<close> is dropped or kept
  depending on a byte of the old text under the output position: it is kept in
  \<open>/../a\<close> and dropped in \<open>//../a\<close>.
\<close>

theorem xml_normalize_path:
  assumes "\<forall>s\<in>set segs. segment s" "segment t" "stays_inside 0 (segs @ [t])"
    and "pre = [] \<and> (segs = [] \<or> hd segs \<noteq> []) \<or> pre = [0x2F]" "pre @ path_of segs t \<noteq> []"
  shows "(\<exists>buf. xmlNormalizePath (Some (pre @ path_of segs t @ 0 # r)) isFile = Some (0, Some buf) \<and> terminated buf \<and>
       ctext buf = (if isFile \<and> pre @ normal_path segs t = [] then [0x2E] else pre @ normal_path segs t)) \<and>
     (terminated p \<longrightarrow> (\<exists>buf. xmlNormalizePath (Some p) isFile = Some (0, Some buf) \<and> terminated buf)) \<and>
     map_option (map_option ctext \<circ> snd) (xmlNormalizePath (Some (lit ''/../a'')) isFile) = Some (Some (map of_char ''/../a'')) \<and>
     map_option (map_option ctext \<circ> snd) (xmlNormalizePath (Some (lit ''//../a'')) isFile) = Some (Some (map of_char ''/a''))"
proof -
  obtain out buf where "xmlNormalizePath (Some (pre @ path_of segs t @ 0 # r)) isFile = Some (0, Some buf)"
    "normalised (0, []) segs t out" "ctext buf = (if isFile \<and> pre @ out = [] then [0x2E] else pre @ out)" "terminated buf"
    using xmlNormalizePath_spec [OF assms(1,2,4,5)] by blast
  moreover from this(2) have "out = normal_path segs t"
    using normalised_unique assms(3) by (fastforce simp: normal_path_def)
  ultimately show ?thesis using xmlNormalizePath_safe extraneous_dots by blast
qed

theorem xml_normalize_path_witness:
  "\<exists>buf. xmlNormalizePath (Some (lit ''/a/./b//../c'')) False = Some (0, Some buf) \<and> ctext buf = map of_char ''/a/c''"
proof -
  have "\<exists>buf. xmlNormalizePath (Some ([0x2F] @ path_of [[0x61], [0x2E], [0x62], [], [0x2E, 0x2E]] [0x63] @ 0 # [])) False = Some (0, Some buf) \<and>
     terminated buf \<and>
     ctext buf = (if False \<and> [0x2F] @ normal_path [[0x61], [0x2E], [0x62], [], [0x2E, 0x2E]] [0x63] = [] then [0x2E]
       else [0x2F] @ normal_path [[0x61], [0x2E], [0x62], [], [0x2E, 0x2E]] [0x63])"
    by (intro xml_normalize_path [THEN conjunct1]) (simp_all add: segment_def)
  moreover have "[0x2F] @ path_of [[0x61], [0x2E], [0x62], [], [0x2E, 0x2E]] [0x63] @ 0 # [] = lit ''/a/./b//../c''"
    "[0x2F] @ normal_path [[0x61], [0x2E], [0x62], [], [0x2E, 0x2E]] [0x63] = map of_char ''/a/c''" by code_simp+
  ultimately show ?thesis by auto
qed

end
