(* ===== verification/Xml_Uri_Build.thy ===== *)
theory Xml_Uri_Build
  imports Xml_Uri_Save Xml_Path
begin

text \<open>
  Escaping and resolving URIs (\<open>src/testbed/libxml2/uri.c\<close>): the routines that build new
  strings from parsed ones.
\<close>

section \<open>Escaping\<close>

text \<open>
  The loop of \<open>xmlURIEscapeStr\<close>: \<open>out\<close> are the bytes written to the block of
  \<open>len\<close> bytes.
\<close>

fun escape_loop :: "xptr \<Rightarrow> u8 list \<Rightarrow> u8 list \<Rightarrow> int \<Rightarrow> bool list \<Rightarrow> (xptr \<times> bool list) option" where
  "escape_loop list [] out len mem = None"
| "escape_loop list (ch # p) out len mem =
     (if ch = 0
      then if int (length out) < len then Some (Some (out @ [0]), mem) else None
      else
        let full = len - int (length out) \<le> 3
        in if full \<and> len > INT_MAX div 2 then Some (None, mem)
           else
             let (ok, mem) = (if full then malloc mem else (True, mem));
                 len = (if full then len * 2 else len)
             in if \<not> ok then Some (None, mem)
                else do {
                  keep \<leftarrow> (if ch \<noteq> 0x40 \<and> \<not> IS_UNRESERVED ch
                           then do { r \<leftarrow> xmlStrchr list ch; Some (r \<noteq> None) } else Some True);
                  let bs = (if keep then [ch] else pct_encode ch);
                  if int (length out + length bs) \<le> len then escape_loop list p (out @ bs) len mem else None
                })"

definition xmlURIEscapeStr :: "xptr \<Rightarrow> xptr \<Rightarrow> bool list \<Rightarrow> (xptr \<times> bool list) option" where
  "xmlURIEscapeStr str list mem =
     (case str of
        None \<Rightarrow> Some (None, mem)
      | Some p \<Rightarrow> do {
          c \<leftarrow> rd p 0;
          let (ok, mem) = malloc mem;
          if c = 0 then do { r \<leftarrow> xmlStrdup ok str; Some (r, mem) }
          else do {
            n \<leftarrow> xmlStrlen str;
            if \<not> ok then Some (None, mem) else escape_loop list p [] (n + 20) mem
          }
        })"

text \<open>
  \<open>xmlStrcat\<close> with its allocation: none when there is nothing to add to an existing
  string.
\<close>

definition strcat :: "xptr \<Rightarrow> u8 list \<Rightarrow> bool list \<Rightarrow> (xptr \<times> bool list) option" where
  "strcat cur add mem = do {
     allocates \<leftarrow> (if cur = None then Some True else do { c \<leftarrow> rd add 0; Some (c \<noteq> 0) });
     let (ok, mem) = (if allocates then malloc mem else (True, mem));
     r \<leftarrow> xmlStrcat ok cur (Some add);
     Some (r, mem)
   }"

text \<open>The variable \<open>ret\<close> of \<open>xmlURIEscape\<close> and the memory; a part appends strings to it.\<close>

definition cat_step :: "u8 list \<Rightarrow> (xptr \<times> bool list) step" where
  "cat_step add = (\<lambda>(ret, mem). do { r \<leftarrow> strcat ret add mem; Some (True, r) })"

definition escape_part ::
    "xptr \<Rightarrow> string \<Rightarrow> u8 list list \<Rightarrow> u8 list list \<Rightarrow> (xptr \<times> bool list) step list" where
  "escape_part part exceptions pre post =
     (case part of
        None \<Rightarrow> []
      | Some _ \<Rightarrow>
          [\<lambda>(ret, mem). do {
             (segment, mem) \<leftarrow> xmlURIEscapeStr part (Some (lit exceptions)) mem;
             (case segment of
                None \<Rightarrow> Some (False, None, mem)
              | Some sg \<Rightarrow> run_steps (map cat_step (pre @ [sg] @ post)) (ret, mem))
           }])"

definition escape_steps :: "xmlURI \<Rightarrow> (xptr \<times> bool list) step list" where
  "escape_steps u =
     escape_part (u_scheme u) ''+-.'' [] [lit '':''] @
     escape_part (u_authority u) ''/?;:@'' [lit ''//''] [] @
     escape_part (u_user u) '';:&=+$,'' [lit ''//''] [lit ''@''] @
     escape_part (u_server u) ''/?;:@'' (if u_user u = None then [lit ''//''] else []) [] @
     (if u_port u > 0 then map cat_step [lit '':'', dec_digits (u_port u) @ [0]] else []) @
     escape_part (u_path u) '':@&=+$,/?;'' [] [] @
     (case u_query_raw u of
        Some q \<Rightarrow> map cat_step [lit ''?'', q]
      | None \<Rightarrow> escape_part (u_query u) '';/?:@&=+,$'' [lit ''?''] []) @
     escape_part (u_opaque u) [] [] [] @
     escape_part (u_fragment u) ''#'' [lit ''#''] []"

definition xmlURIEscape :: "xptr \<Rightarrow> bool list \<Rightarrow> (xptr \<times> bool list) option" where
  "xmlURIEscape str mem =
     (if str = None then Some (None, mem)
      else
        let (uri, mem) = xmlCreateURI mem
        in case uri of
             None \<Rightarrow> Some (None, mem)
           | Some u \<Rightarrow> do {
               (ret2, uri, mem) \<leftarrow> xmlParseURIReference (Some (u\<lparr>u_cleanup := XML_URI_ALLOW_UNWISE\<rparr>)) str mem;
               (case uri of
                  None \<Rightarrow> None
                | Some u \<Rightarrow>
                    if ret2 \<noteq> 0 then Some (None, mem)
                    else do {
                      (ok, ret, mem) \<leftarrow> run_steps (escape_steps u) (None, mem);
                      Some (if ok then ret else None, mem)
                    })
             })"

section \<open>Resolving file system paths\<close>

definition xmlIsAbsolutePath :: "u8 list \<Rightarrow> bool option" where
  "xmlIsAbsolutePath path = do { c \<leftarrow> rd path 0; Some (xmlIsPathSeparator c True) }"

text \<open>\<open>while ((i > 0) && !xmlIsPathSeparator(base[i-1], 1)) i--;\<close>\<close>

fun last_separator :: "u8 list \<Rightarrow> nat \<Rightarrow> nat" where
  "last_separator base 0 = 0"
| "last_separator base (Suc i) = (if xmlIsPathSeparator (base ! i) True then Suc i else last_separator base i)"

text \<open>From the label \<open>done\<close> of \<open>xmlResolvePath\<close>.\<close>

definition resolve_done :: "u8 list \<Rightarrow> xptr \<Rightarrow> bool list \<Rightarrow> (int \<times> xptr \<times> bool list) option" where
  "resolve_done result fragment mem =
     (case fragment of
        None \<Rightarrow> Some (0, Some result, mem)
      | Some f \<Rightarrow> do {
          (r, mem) \<leftarrow> strcat (Some result) f mem;
          Some (if r = None then (-1, None, mem) else (0, r, mem))
        })"

text \<open>The concatenation and normalisation in \<open>xmlResolvePath\<close>; the result is \<open>result\<close> or else \<open>ref\<close>.\<close>

definition resolve_relative :: "u8 list \<Rightarrow> u8 list \<Rightarrow> xptr \<Rightarrow> bool list \<Rightarrow> (int \<times> xptr \<times> bool list) option" where
  "resolve_relative ref base fragment mem = do {
     n \<leftarrow> strlen base;
     let i = last_separator base n;
     if i = 0 then resolve_done ref fragment mem
     else do {
       refLen \<leftarrow> strlen ref;
       let (ok, mem) = malloc mem;
       if \<not> ok then Some (-1, None, mem)
       else do {
         (ret, result) \<leftarrow> xmlNormalizePath (Some (take i base @ take (refLen + 1) ref)) True;
         r \<leftarrow> result;
         resolve_done r fragment mem
       }
     }
   }"

definition xmlResolvePath :: "xptr \<Rightarrow> xptr \<Rightarrow> bool list \<Rightarrow> (int \<times> xptr \<times> bool list) option" where
  "xmlResolvePath escRef base mem = do {
     noRef \<leftarrow> (case escRef of None \<Rightarrow> Some True | Some p \<Rightarrow> do { c \<leftarrow> rd p 0; Some (c = 0) });
     noBase \<leftarrow> (case base of None \<Rightarrow> Some True | Some p \<Rightarrow> do { c \<leftarrow> rd p 0; Some (c = 0) });
     if noRef
     then if noBase then Some (1, None, mem)
          else let (ok, mem) = malloc mem
               in do { r \<leftarrow> xmlStrdup ok base; Some (if r = None then (-1, None, mem) else (0, r, mem)) }
     else do {
       p \<leftarrow> escRef;
       fragment \<leftarrow> xmlStrchr escRef 0x23;
       (p, mem) \<leftarrow>
         (case fragment of
            None \<Rightarrow> Some (Some p, mem)
          | Some f \<Rightarrow> STRNDUP p (length p - length f) mem);
       (case p of
          None \<Rightarrow> Some (-1, None, mem)
        | Some p \<Rightarrow> do {
            (ref, mem) \<leftarrow> xmlURIUnescapeString (Some p) (-1) None mem;
            (case ref of
               None \<Rightarrow> Some (-1, None, mem)
             | Some r \<Rightarrow>
                 if noBase then resolve_done r fragment mem
                 else do {
                   a \<leftarrow> xmlIsAbsolutePath r;
                   if a then resolve_done r fragment mem
                   else do { b \<leftarrow> base; resolve_relative r b fragment mem }
                 })
          })
     }
   }"

section \<open>Resolving references\<close>

text \<open>
  The result of \<open>xmlBuildURISafe\<close> under construction and the memory.  \<open>copy_field\<close>
  is \<open>if (src != NULL) { res->f = xmlMemStrdup(src); if (res->f == NULL) goto done; }\<close>.
\<close>

type_synonym build = "xmlURI \<times> bool list"

definition copy_field :: "((xptr \<Rightarrow> xptr) \<Rightarrow> xmlURI \<Rightarrow> xmlURI) \<Rightarrow> xptr \<Rightarrow> build step" where
  "copy_field upd src = (\<lambda>(res, mem).
     case src of
       None \<Rightarrow> Some (True, res, mem)
     | Some p \<Rightarrow>
         (let (ok, mem) = malloc mem
          in do { r \<leftarrow> xmlStrdup ok src; Some (r \<noteq> None, upd (\<lambda>_. r) res, mem) }))"

definition set_port :: "int \<Rightarrow> build step" where
  "set_port port = (\<lambda>(res, mem). Some (True, res\<lparr>u_port := port\<rparr>, mem))"

definition copy_server :: "xmlURI \<Rightarrow> build step list" where
  "copy_server u = [copy_field u_server_update (u_server u), copy_field u_user_update (u_user u), set_port (u_port u)]"

definition copy_query :: "xmlURI \<Rightarrow> build step list" where
  "copy_query u =
     (if u_query_raw u \<noteq> None then [copy_field u_query_raw_update (u_query_raw u)]
      else [copy_field u_query_update (u_query u)])"

text \<open>Step 2: a reference to the current document.\<close>

definition build_same_document :: "xmlURI \<Rightarrow> xmlURI \<Rightarrow> build step list" where
  "build_same_document ref bas =
     copy_field u_scheme_update (u_scheme bas) #
     (if u_authority bas \<noteq> None then [copy_field u_authority_update (u_authority bas)] else copy_server bas) @
     [copy_field u_path_update (u_path bas)] @
     (if u_query_raw ref \<noteq> None \<or> u_query ref \<noteq> None then copy_query ref else copy_query bas) @
     [copy_field u_fragment_update (u_fragment ref)]"

text \<open>
  Step 6: everything up to the last slash of the base's path, then the reference's
  path, normalised.  \<open>dir_length\<close> is the value of \<open>out\<close> after the nested loops of
  step a.
\<close>

fun dir_length :: "u8 list \<Rightarrow> nat \<Rightarrow> nat \<Rightarrow> nat option" where
  "dir_length [] cur out = None"
| "dir_length (c # p) cur out =
     (if c = 0 then Some out
      else if c = 0x2F then dir_length p (cur + 1) (cur + 1) else dir_length p (cur + 1) out)"

definition strlen_ptr :: "xptr \<Rightarrow> nat option" where
  "strlen_ptr p = (case p of None \<Rightarrow> Some 0 | Some s \<Rightarrow> strlen s)"

definition merge_paths :: "xmlURI \<Rightarrow> xmlURI \<Rightarrow> u8 list option" where
  "merge_paths ref bas = do {
     n \<leftarrow> strlen_ptr (u_path ref);
     out \<leftarrow> (case u_path bas of None \<Rightarrow> Some 0 | Some b \<Rightarrow> dir_length b 0 0);
     let dir = (case u_path bas of None \<Rightarrow> [] | Some b \<Rightarrow> take out b);
     Some (case u_path ref of
             None \<Rightarrow> dir @ [0]
           | Some r \<Rightarrow>
               if n = 0 then dir @ [0]
               else (if out = 0 \<and> (u_server bas \<noteq> None \<or> u_port bas \<noteq> PORT_EMPTY) then [0x2F] else dir) @ take n r @ [0])
   }"

definition build_merged_path :: "xmlURI \<Rightarrow> xmlURI \<Rightarrow> build step" where
  "build_merged_path ref bas = (\<lambda>(res, mem). do {
     n \<leftarrow> strlen_ptr (u_path ref);
     m \<leftarrow> strlen_ptr (u_path bas);
     let (ok, mem) = malloc mem;
     if \<not> ok then Some (False, res\<lparr>u_path := None\<rparr>, mem)
     else do {
       path \<leftarrow> merge_paths ref bas;
       if length path > n + m + 2 then None
       else do {
         (ret, p) \<leftarrow> xmlNormalizeURIPath (Some path);
         Some (True, res\<lparr>u_path := p\<rparr>, mem)
       }
     }
   })"

text \<open>Steps 3 to 6 for a reference without scheme.\<close>

definition build_relative :: "xmlURI \<Rightarrow> xmlURI \<Rightarrow> build step list option" where
  "build_relative ref bas = do {
     absolute \<leftarrow> (case u_path ref of None \<Rightarrow> Some False | Some p \<Rightarrow> do { c \<leftarrow> rd p 0; Some (c = 0x2F) });
     Some (
       copy_field u_scheme_update (u_scheme bas) #
       copy_query ref @
       [copy_field u_fragment_update (u_fragment ref)] @
       (if u_authority ref \<noteq> None \<or> u_server ref \<noteq> None \<or> u_port ref \<noteq> PORT_EMPTY
        then (if u_authority ref \<noteq> None then [copy_field u_authority_update (u_authority ref)] else copy_server ref) @
             [copy_field u_path_update (u_path ref)]
        else (if u_authority bas \<noteq> None then [copy_field u_authority_update (u_authority bas)]
              else if u_server bas \<noteq> None \<or> u_port bas \<noteq> PORT_EMPTY then copy_server bas else []) @
             (if absolute then [copy_field u_path_update (u_path ref)] else [build_merged_path ref bas])))
   }"

definition saved :: "xmlURI option \<Rightarrow> bool list \<Rightarrow> (int \<times> xptr \<times> bool list) option" where
  "saved uri mem = do { (val, mem) \<leftarrow> xmlSaveUri uri mem; Some (if val = None then -1 else 0, val, mem) }"

text \<open>Steps 2 to 7 for two parsed structures.\<close>

definition build_resolved :: "xmlURI \<Rightarrow> xmlURI \<Rightarrow> bool list \<Rightarrow> (int \<times> xptr \<times> bool list) option" where
  "build_resolved ref bas mem =
     (let (res, mem) = xmlCreateURI mem
      in case res of
           None \<Rightarrow> Some (-1, None, mem)
         | Some res \<Rightarrow>
             if u_scheme ref = None \<and> u_path ref = None \<and> u_authority ref = None \<and> u_server ref = None \<and>
                u_port ref = PORT_EMPTY
             then do {
               (ok, res, mem) \<leftarrow> run_steps (build_same_document ref bas) (res, mem);
               if ok then saved (Some res) mem else Some (-1, None, mem)
             }
             else if u_scheme ref \<noteq> None then saved (Some ref) mem
             else do {
               steps \<leftarrow> build_relative ref bas;
               (ok, res, mem) \<leftarrow> run_steps steps (res, mem);
               if ok then saved (Some res) mem else Some (-1, None, mem)
             })"

definition xmlBuildURISafe :: "xptr \<Rightarrow> xptr \<Rightarrow> bool list \<Rightarrow> (int \<times> xptr \<times> bool list) option" where
  "xmlBuildURISafe URI base mem = do {
     (ret, ref, mem) \<leftarrow>
       (case URI of
          None \<Rightarrow> Some (1, None, mem)
        | Some p \<Rightarrow> do { c \<leftarrow> rd p 0; if c \<noteq> 0 then xmlParseURISafe URI mem else Some (0, None, mem) });
     if ret \<noteq> 0 then Some (ret, None, mem)
     else if (case ref of None \<Rightarrow> False | Some r \<Rightarrow> u_scheme r \<noteq> None)
     then let (ok, mem) = malloc mem
          in do { val \<leftarrow> xmlStrdup ok URI; Some (if val = None then -1 else 0, val, mem) }
     else do {
       sep \<leftarrow> xmlStrstr base (Some (lit ''://''));
       if sep = None then xmlResolvePath URI base mem
       else do {
         (ret, bas, mem) \<leftarrow> xmlParseURISafe base mem;
         if ret < 0 then Some (ret, None, mem)
         else if ret \<noteq> 0 then if ref = None then Some (ret, None, mem) else saved ref mem
         else do {
           b \<leftarrow> bas;
           (case ref of
              None \<Rightarrow> saved (Some (b\<lparr>u_fragment := None\<rparr>)) mem
            | Some r \<Rightarrow> build_resolved r b mem)
         }
       }
     }
   }"

definition xmlBuildURI :: "xptr \<Rightarrow> xptr \<Rightarrow> bool list \<Rightarrow> (xptr \<times> bool list) option" where
  "xmlBuildURI URI base mem = do { (ret, out, mem) \<leftarrow> xmlBuildURISafe URI base mem; Some (out, mem) }"

section \<open>Relative references\<close>

text \<open>Parse \<open>URI\<close> or take it as a path when it starts with a dot.\<close>

definition relative_parse :: "u8 list \<Rightarrow> bool list \<Rightarrow> (int \<times> xmlURI \<times> bool list) option" where
  "relative_parse s mem =
     (let (uri, mem) = xmlCreateURI mem;
          none = \<lparr>u_scheme = None, u_opaque = None, u_authority = None, u_server = None, u_user = None,
            u_port = PORT_EMPTY, u_path = None, u_query = None, u_fragment = None, u_cleanup = 0, u_query_raw = None\<rparr>
      in case uri of
           None \<Rightarrow> Some (-1, none, mem)
         | Some u \<Rightarrow> do {
             c \<leftarrow> rd s 0;
             if c \<noteq> 0x2E
             then do {
               (ret, uri, mem) \<leftarrow> xmlParseURIReference (Some u) (Some s) mem;
               u \<leftarrow> uri;
               Some (ret, u, mem)
             }
             else let (ok, mem) = malloc mem
                  in do { p \<leftarrow> xmlStrdup ok (Some s); Some (if p = None then -1 else 0, u\<lparr>u_path := p\<rparr>, mem) }
           })"

text \<open>The loops of the comparison: the common prefix, back to a slash, and the slashes left.\<close>

fun common_prefix :: "u8 list \<Rightarrow> u8 list \<Rightarrow> nat option" where
  "common_prefix (a # p) (b # q) = (if a = b \<and> a \<noteq> 0 then map_option Suc (common_prefix p q) else Some 0)"
| "common_prefix _ _ = None"

fun back_to_slash :: "u8 list \<Rightarrow> nat \<Rightarrow> nat" where
  "back_to_slash r 0 = 0"
| "back_to_slash r (Suc i) = (if r ! i = 0x2F then Suc i else back_to_slash r i)"

fun count_slashes :: "u8 list \<Rightarrow> nat option" where
  "count_slashes [] = None"
| "count_slashes (c # p) =
     (if c = 0 then Some 0 else map_option (\<lambda>n. if c = 0x2F then Suc n else n) (count_slashes p))"

definition dup_result :: "u8 list \<Rightarrow> bool list \<Rightarrow> (int \<times> xptr \<times> bool list) option" where
  "dup_result s mem =
     (let (ok, mem) = malloc mem
      in do { v \<leftarrow> xmlStrdup ok (Some s); Some (if v = None then -1 else 0, v, mem) })"

definition escape_result :: "u8 list \<Rightarrow> bool list \<Rightarrow> (int \<times> xptr \<times> bool list) option" where
  "escape_result s mem = do {
     (v, mem) \<leftarrow> xmlURIEscapeStr (Some s) (Some (lit ''/;&=+$,'')) mem;
     Some (if v = None then -1 else 0, v, mem)
   }"

text \<open>
  The comparison of the two paths: where the paths differ, the suffix of the reference
  from the slash before it, and a \<open>../\<close> for every slash of the base after it.
\<close>

definition relative_suffix :: "u8 list \<Rightarrow> nat \<Rightarrow> bool list \<Rightarrow> (int \<times> xptr \<times> bool list) option" where
  "relative_suffix uptr nbslash mem = do {
     u0 \<leftarrow> rd uptr 0;
     if nbslash = 0 \<and> u0 = 0 then dup_result (lit ''./'') mem
     else do {
       n \<leftarrow> strlen uptr;
       if nbslash = 0 then escape_result uptr mem
       else let (ok, mem) = malloc mem
            in if \<not> ok then Some (-1, None, mem)
               else escape_result
                 (concat (replicate nbslash [0x2E, 0x2E, 0x2F]) @
                  (if u0 = 0x2F then take (n - 1) (drop 1 uptr) else take n uptr) @ [0]) mem
     }
   }"

definition relative_compare :: "u8 list \<Rightarrow> u8 list \<Rightarrow> bool list \<Rightarrow> (int \<times> xptr \<times> bool list) option" where
  "relative_compare rptr bptr mem = do {
     pos \<leftarrow> common_prefix bptr rptr;
     b \<leftarrow> rd bptr pos;
     r \<leftarrow> rd rptr pos;
     if b = r then dup_result [0] mem
     else do {
       let ix = back_to_slash rptr pos;
       nbslash \<leftarrow> count_slashes (drop ix bptr);
       relative_suffix (drop ix rptr) nbslash mem
     }
   }"

definition leading_dot :: "u8 list \<Rightarrow> u8 \<Rightarrow> bool option" where
  "leading_dot p c = (if c = 0x2E then do { d \<leftarrow> rd p 1; Some (d = 0x2F) } else Some False)"

definition relative_paths :: "u8 list \<Rightarrow> u8 list \<Rightarrow> bool list \<Rightarrow> (int \<times> xptr \<times> bool list) option" where
  "relative_paths rpath bpath mem = do {
     r0 \<leftarrow> rd rpath 0;
     rdot \<leftarrow> leading_dot rpath r0;
     let rptr = (if rdot then drop 2 rpath else rpath);
     b0 \<leftarrow> rd bpath 0;
     bdot \<leftarrow> leading_dot bpath b0;
     r0 \<leftarrow> rd rptr 0;
     let bptr = (if bdot then drop 2 bpath else if b0 = 0x2F \<and> r0 \<noteq> 0x2F then drop 1 bpath else bpath);
     relative_compare rptr bptr mem
   }"

definition relative_result :: "u8 list \<Rightarrow> xmlURI \<Rightarrow> xmlURI \<Rightarrow> bool list \<Rightarrow> (int \<times> xptr \<times> bool list) option" where
  "relative_result URI ref bas mem = do {
     other \<leftarrow>
       (if u_scheme ref = None then Some False
        else if u_scheme bas = None then Some True
        else do {
          c \<leftarrow> xmlStrcmp False (u_scheme bas) (u_scheme ref);
          if c \<noteq> 0 then Some True
          else do {
            c \<leftarrow> xmlStrcmp False (u_server bas) (u_server ref);
            Some (c \<noteq> 0 \<or> u_port bas \<noteq> u_port ref)
          }
        });
     if other then dup_result URI mem
     else do {
       eq \<leftarrow> xmlStrEqual False (u_path bas) (u_path ref);
       if eq \<noteq> 0 then dup_result [0] mem
       else case u_path bas of
              None \<Rightarrow> do { p \<leftarrow> u_path ref; dup_result p mem }
            | Some b \<Rightarrow> relative_paths (case u_path ref of None \<Rightarrow> lit ''/'' | Some r \<Rightarrow> r) b mem
     }
   }"

text \<open>\<open>xmlBuildRelativeURISafe\<close>; at its end a code other than 0 drops the value.\<close>

definition xmlBuildRelativeURISafe :: "xptr \<Rightarrow> xptr \<Rightarrow> bool list \<Rightarrow> (int \<times> xptr \<times> bool list) option" where
  "xmlBuildRelativeURISafe URI base mem =
     (case URI of
        None \<Rightarrow> Some (1, None, mem)
      | Some s \<Rightarrow> do {
          c \<leftarrow> rd s 0;
          if c = 0 then Some (1, None, mem)
          else do {
            (ret, ref, mem) \<leftarrow> relative_parse s mem;
            if ret \<noteq> 0 then Some (ret, None, mem)
            else do {
              noBase \<leftarrow> (case base of None \<Rightarrow> Some True | Some b \<Rightarrow> do { c \<leftarrow> rd b 0; Some (c = 0) });
              if noBase then dup_result s mem
              else do {
                b \<leftarrow> base;
                (ret, bas, mem) \<leftarrow> relative_parse b mem;
                if ret \<noteq> 0 then Some (ret, None, mem) else relative_result s ref bas mem
              }
            }
          }
        })"

definition xmlBuildRelativeURI :: "xptr \<Rightarrow> xptr \<Rightarrow> bool list \<Rightarrow> (xptr \<times> bool list) option" where
  "xmlBuildRelativeURI URI base mem = do { (ret, val, mem) \<leftarrow> xmlBuildRelativeURISafe URI base mem; Some (val, mem) }"

definition xmlCanonicPath :: "xptr \<Rightarrow> bool list \<Rightarrow> (xptr \<times> bool list) option" where
  "xmlCanonicPath path mem =
     (case path of
        None \<Rightarrow> Some (None, mem)
      | Some p \<Rightarrow> do {
          sep \<leftarrow> xmlStrstr path (Some (lit ''://''));
          if sep \<noteq> None then xmlURIEscapeStr path (Some (map of_char '':/?#[]@!$&()*+,;='' @ [0x27, 0x25, 0])) mem
          else let (ok, mem) = malloc mem in do { r \<leftarrow> xmlStrdup ok path; Some (r, mem) }
        })"

definition xmlPathToURI :: "xptr \<Rightarrow> bool list \<Rightarrow> (xptr \<times> bool list) option" where
  "xmlPathToURI path mem = xmlCanonicPath path mem"

section \<open>Escaping and unescaping\<close>

lemma malloc_ok: "mem_ok mem \<Longrightarrow> \<exists>mem'. malloc mem = (True, mem') \<and> mem_ok mem'"
  by (cases mem) (auto simp: malloc_def mem_ok_def)

lemma pct_encode_hex:
  "is_hex (hex_digit (c div 16)) \<and> is_hex (hex_digit (c mod 16)) \<and>
   hex_value (hex_digit (c div 16)) * 16 + hex_value (hex_digit (c mod 16)) = c"
proof -
  have "\<forall>c::u8. is_hex (hex_digit (c div 16)) \<and> is_hex (hex_digit (c mod 16)) \<and>
     hex_value (hex_digit (c div 16)) * 16 + hex_value (hex_digit (c mod 16)) = c"
    unfolding is_hex_def hex_digit_def hex_value_def by (rule byte_forall) code_simp
  then show ?thesis by blast
qed

text \<open>The escaped form of a string: \<open>l\<close> are the exceptions.\<close>

definition escape_keep :: "u8 list \<Rightarrow> u8 \<Rightarrow> bool" where
  "escape_keep l c \<longleftrightarrow> c = 0x40 \<or> IS_UNRESERVED c \<or> c \<in> set l"

definition escaped :: "u8 list \<Rightarrow> u8 list \<Rightarrow> u8 list" where
  "escaped l = escape_bytes (escape_keep l)"

lemma xmlStrchr_list: "cstring l \<Longrightarrow> c \<noteq> 0 \<Longrightarrow> \<exists>r. xmlStrchr (Some (l @ 0 # t)) c = Some r \<and> (r \<noteq> None \<longleftrightarrow> c \<in> set l)"
  by (induction l) (auto simp: xmlStrchr_def cstring_def)

lemma escape_loop_spec:
  assumes "cstring l"
  shows "cstring s \<Longrightarrow> int (length out) < len \<Longrightarrow> 10 < len \<Longrightarrow>
    \<exists>mem'. (escape_loop (Some (l @ 0 # t)) (s @ 0 # r) out len mem = Some (Some (out @ escaped l s @ [0]), mem') \<or>
            escape_loop (Some (l @ 0 # t)) (s @ 0 # r) out len mem = Some (None, mem') \<and>
              (mem_ok mem \<longrightarrow> int (length out) + 3 * int (length s) + 3 > INT_MAX div 2)) \<and> set mem' \<subseteq> set mem"
proof (induction s arbitrary: out len mem)
  case Nil
  then show ?case by (simp add: escaped_def)
next
  case (Cons c s)
  have c: "c \<noteq> 0" "cstring s" using Cons.prems(1) by (auto simp: cstring_def)
  let ?full = "len - int (length out) \<le> 3"
  let ?bs = "if escape_keep l c then [c] else pct_encode c"
  have bs: "length ?bs \<le> 3" "0 < length ?bs" by (simp_all add: pct_encode_def)
  obtain r' where r': "xmlStrchr (Some (l @ 0 # t)) c = Some r'" "r' \<noteq> None \<longleftrightarrow> c \<in> set l"
    using xmlStrchr_list [OF assms c(1)] by blast
  show ?case
  proof (cases "?full \<and> len > INT_MAX div 2")
    case True
    then show ?thesis using c(1) by (auto simp: Let_def)
  next
    case False
    obtain ok mem1 where m: "(if ?full then malloc mem else (True, mem)) = (ok, mem1)" "set mem1 \<subseteq> set mem"
      "\<not> ok \<longrightarrow> False \<in> set mem"
      by (cases ?full; rule malloc_cases [of mem]) auto
    define len' where "len' = (if ?full then len * 2 else len)"
    have len': "10 < len'" "int (length (out @ ?bs)) < len'"
      using Cons.prems(2,3) bs(1) by (auto simp: len'_def)
    show ?thesis
    proof (cases ok)
      case False
      then have "escape_loop (Some (l @ 0 # t)) ((c # s) @ 0 # r) out len mem = Some (None, mem1)"
        using c(1) m(1) \<open>\<not> (?full \<and> len > INT_MAX div 2)\<close> by (auto simp: Let_def split: if_splits)
      then show ?thesis using m(2,3) False by (auto simp: mem_ok_def)
    next
      case ok: True
      have step: "escape_loop (Some (l @ 0 # t)) ((c # s) @ 0 # r) out len mem =
          escape_loop (Some (l @ 0 # t)) (s @ 0 # r) (out @ ?bs) len' mem1"
        using c(1) m(1) ok False len'(2) r' unfolding len'_def [symmetric]
        by (auto simp: Let_def escape_keep_def len'_def split: if_splits)
      have e: "escaped l (c # s) = ?bs @ escaped l s" by (simp add: escaped_def)
      have "mem_ok mem \<Longrightarrow> mem_ok mem1" using m(2) by (auto simp: mem_ok_def)
      moreover have "int (length (out @ ?bs)) + 3 * int (length s) + 3 \<le> int (length out) + 3 * int (length (c # s)) + 3"
        using bs(1) by simp
      ultimately show ?thesis
        using Cons.IH [OF c(2) len'(2,1), of mem1] m(2) unfolding step e append_assoc
        by (meson dual_order.trans less_le_trans)
    qed
  qed
qed


lemma xmlURIEscapeStr_spec:
  assumes "cstring l" "cstring s"
  shows "\<exists>mem'. (xmlURIEscapeStr (Some (s @ 0 # r)) (Some (l @ 0 # t)) mem = Some (Some (escaped l s @ [0]), mem') \<or>
      xmlURIEscapeStr (Some (s @ 0 # r)) (Some (l @ 0 # t)) mem = Some (None, mem') \<and>
        (mem_ok mem \<longrightarrow> 3 * int (length s) + 3 > INT_MAX div 2)) \<and> set mem' \<subseteq> set mem"
proof -
  obtain ok mem1 where m: "malloc mem = (ok, mem1)" "set mem1 \<subseteq> set mem" "\<not> ok \<longrightarrow> False \<in> set mem"
    by (rule malloc_cases [of mem])
  show ?thesis
  proof (cases "s = [] \<or> \<not> ok")
    case True
    then show ?thesis
      using m assms(2) by (cases s) (auto simp: xmlURIEscapeStr_def rd_def xmlStrdup_def xmlStrndup_def memcpy_def
          escaped_def mem_ok_def cstring_def xmlStrlen_def strlen_cstring)
  next
    case False
    let ?n = "if int (length s) > INT_MAX then 0 else int (length s)"
    have "xmlURIEscapeStr (Some (s @ 0 # r)) (Some (l @ 0 # t)) mem = escape_loop (Some (l @ 0 # t)) (s @ 0 # r) [] (?n + 20) mem1"
      using m(1) False assms(2) by (cases s) (auto simp: xmlURIEscapeStr_def rd_def xmlStrlen_def cstring_def)
    moreover have "mem_ok mem \<Longrightarrow> mem_ok mem1" using m(2) by (auto simp: mem_ok_def)
    ultimately show ?thesis
      using escape_loop_spec [OF assms, of "[]" "?n + 20" t r mem1] m(2) by fastforce
  qed
qed

text \<open>Unescaping an escaped string.\<close>

lemma at_escape_pct: "at_escape (Suc (Suc (Suc n))) (pct_encode c @ p) = Some True"
  using pct_encode_hex [of c] by (simp add: at_escape_def pct_encode_def rd_def)

lemma at_escape_plain: "c \<noteq> 0x25 \<Longrightarrow> at_escape n (c # p) = Some False"
  by (simp add: at_escape_def rd_def)

lemma unescape_bytes:
  assumes "\<not> keep 0x25"
  shows "unescape_loop (length (escape_bytes keep s)) (escape_bytes keep s @ r) = Some s"
proof (induction s)
  case Nil
  then show ?case by (simp add: unescape_loop.simps)
next
  case (Cons c s)
  show ?case
  proof (cases "keep c")
    case True
    then have "c \<noteq> 0x25" using assms by blast
    then show ?thesis using True Cons.IH by (subst unescape_loop.simps) (simp add: at_escape_plain)
  next
    case False
    have "unescape_loop (length (escape_bytes keep (c # s))) (escape_bytes keep (c # s) @ r) =
        map_option ((#) c) (unescape_loop (length (escape_bytes keep s)) (escape_bytes keep s @ r))"
      using False pct_encode_hex [of c]
      by (subst unescape_loop.simps) (simp add: pct_encode_def at_escape_def)
    then show ?thesis using Cons.IH by simp
  qed
qed

lemma not_unreserved: "\<not> IS_UNRESERVED 0x25" "\<not> IS_UNRESERVED 0"
  by (simp_all add: IS_UNRESERVED_def IS_ALPHANUM_def IS_ALPHA_def IS_LOWALPHA_def IS_UPALPHA_def IS_DIGIT_def IS_MARK_def)

lemma unescape_escaped:
  assumes "0x25 \<notin> set l"
  shows "unescape_loop (length (escaped l s)) (escaped l s @ r) = Some s"
  unfolding escaped_def by (rule unescape_bytes) (simp add: escape_keep_def not_unreserved assms)

section \<open>Resolving is memory safe\<close>

text \<open>What a routine that returns a code and a string promises.\<close>

definition built :: "(int \<times> xptr \<times> bool list) option \<Rightarrow> bool" where
  "built r \<longleftrightarrow> (\<exists>ret val mem. r = Some (ret, val, mem) \<and> ret \<in> {-1, 0, 1} \<and> (ret = 0 \<longleftrightarrow> val \<noteq> None) \<and> ptr_ok val)"

named_theorems built_intros \<open>routines that return a code and a terminated string\<close>

lemma xmlStrdup_ok:
  assumes "terminated p"
  obtains r where "xmlStrdup ok (Some p) = Some r" "ptr_ok r"
  using assms strlen_safe [of p] strlen_length [of p]
  by (cases ok) (auto simp: xmlStrdup_def xmlStrndup_def memcpy_def)

lemma malloc_bind: "(let (ok, mem) = malloc mem in f ok mem) = f (fst (malloc mem)) (snd (malloc mem))"
  by (simp add: split_beta)

lemma dup_result_built [built_intros]:
  assumes "terminated p"
  shows "built (dup_result p mem)"
  using xmlStrdup_ok [OF assms, of "fst (malloc mem)"] unfolding dup_result_def malloc_bind
  by (cases rule: xmlStrdup_ok [OF assms, of "fst (malloc mem)"]) (auto simp: built_def)

lemma saved_built [built_intros]:
  assumes "uri_safe u"
  shows "built (saved (Some u) mem)"
proof -
  obtain val mem' where "xmlSaveUri (Some u) mem = Some (val, mem')" "\<forall>v. val = Some v \<longrightarrow> (\<exists>ct\<in>cuts u. v = uri_text ct u @ [0])"
    using xmlSaveUri_spec [OF assms] by blast
  then show ?thesis by (cases val) (auto simp: saved_def built_def)
qed

lemma strchr_suffix:
  "terminated p \<Longrightarrow> \<exists>r. xmlStrchr (Some p) c = Some r \<and> (\<forall>f. r = Some f \<longrightarrow> terminated f \<and> length f \<le> length p)"
  by (induction p) (auto simp: xmlStrchr_def intro: le_SucI)

lemma strcat_safe:
  assumes "terminated p" "terminated q"
  obtains r mem' where "strcat (Some p) q mem = Some (r, mem')" "ptr_ok r"
proof -
  obtain n where n: "strlen q = Some n" "n < length q" using assms(2) strlen_safe strlen_length by blast
  obtain m where m: "strlen p = Some m" "m < length p" using assms(1) strlen_safe strlen_length by blast
  obtain c where "rd q 0 = Some c" using terminated_rd [OF assms(2)] by blast
  moreover have "\<exists>r. xmlStrcat ok (Some p) (Some q) = Some r \<and> ptr_ok r" for ok
    using n m assms by (auto simp: xmlStrcat_def xmlStrncat_def xmlStrlen_def memcpy_def)
  then obtain f where "\<And>ok. xmlStrcat ok (Some p) (Some q) = Some (f ok) \<and> ptr_ok (f ok)" by metis
  ultimately show ?thesis
    using that unfolding strcat_def Let_def by (simp add: split_beta)
qed

lemma resolve_done_built [built_intros]:
  assumes "terminated result" "ptr_ok fragment"
  shows "built (resolve_done result fragment mem)"
proof (cases fragment)
  case None
  then show ?thesis using assms by (simp add: resolve_done_def built_def)
next
  case (Some f)
  then have "terminated f" using assms(2) by simp
  then obtain r mem' where "strcat (Some result) f mem = Some (r, mem')" "ptr_ok r"
    by (rule strcat_safe [OF assms(1)])
  then show ?thesis using Some by (auto simp: resolve_done_def built_def)
qed

lemma strlen_at: "strlen p = Some n \<Longrightarrow> n < length p \<and> p ! n = 0"
  by (induction p arbitrary: n) (auto split: if_splits)

lemma resolve_relative_built [built_intros]:
  assumes "terminated ref" "terminated base" "ptr_ok fragment"
  shows "built (resolve_relative ref base fragment mem)"
proof -
  obtain n where n: "strlen base = Some n" using assms(2) strlen_safe by blast
  obtain m where m: "strlen ref = Some m" using assms(1) strlen_safe by blast
  have "terminated (take (m + 1) ref)" using strlen_at [OF m] by (simp add: take_Suc_conv_app_nth)
  then obtain buf where buf: "xmlNormalizePath (Some (take (last_separator base n) base @ take (m + 1) ref)) True = Some (0, Some buf)"
    "terminated buf" using xmlNormalizePath_safe [of "take (last_separator base n) base @ take (m + 1) ref" True] by auto
  show ?thesis
  proof (cases "last_separator base n = 0")
    case True
    then show ?thesis using n resolve_done_built [OF assms(1,3)] by (simp add: resolve_relative_def)
  next
    case False
    obtain ok mem1 where ok: "malloc mem = (ok, mem1)" by fastforce
    then show ?thesis
      using n m buf False resolve_done_built [OF buf(2) assms(3), of mem1]
      by (cases ok) (simp_all add: resolve_relative_def built_def)
  qed
qed

lemma at_start: "terminated p \<Longrightarrow> \<exists>c. rd p 0 = Some c"
  using terminated_rd by blast

lemma xmlResolvePath_built [built_intros]:
  assumes "ptr_ok escRef" "ptr_ok base"
  shows "built (xmlResolvePath escRef base mem)"
proof -
  let ?none = "\<lambda>q::xptr. case q of None \<Rightarrow> Some True | Some p \<Rightarrow> do { c \<leftarrow> rd p 0; Some (c = 0) }"
  have none: "\<exists>b. ?none q = Some b \<and> (\<not> b \<longrightarrow> q \<noteq> None)" if "ptr_ok q" for q
    using that at_start by (cases q) fastforce+
  obtain b1 where b1: "?none escRef = Some b1" "\<not> b1 \<longrightarrow> escRef \<noteq> None" using none [OF assms(1)] by blast
  obtain b2 where b2: "?none base = Some b2" "\<not> b2 \<longrightarrow> base \<noteq> None" using none [OF assms(2)] by blast
  show ?thesis
  proof (cases b1)
    case True
    show ?thesis
    proof (cases b2)
      case True
      then show ?thesis using b1(1) b2(1) \<open>b1\<close> by (simp add: xmlResolvePath_def built_def)
    next
      case False
      then obtain p where p: "base = Some p" "terminated p" using b2 assms(2) by auto
      obtain r where "xmlStrdup (fst (malloc mem)) (Some p) = Some r" "ptr_ok r" using xmlStrdup_ok [OF p(2)] .
      then show ?thesis using b1(1) b2(1) \<open>b1\<close> False p(1) unfolding xmlResolvePath_def
        by (cases r) (simp_all add: built_def split_beta)
    qed
  next
    case False
    then obtain p where p: "escRef = Some p" "terminated p" using b1(2) assms(1) by auto
    obtain fr where fr: "xmlStrchr (Some p) 0x23 = Some fr" "\<forall>f. fr = Some f \<longrightarrow> terminated f \<and> length f \<le> length p"
      using strchr_suffix [OF p(2)] by blast
    then have frok: "ptr_ok fr" by (cases fr) auto
    have "\<exists>q mem1. (case fr of None \<Rightarrow> Some (Some p, mem) | Some f \<Rightarrow> STRNDUP p (length p - length f) mem) = Some (q, mem1) \<and> ptr_ok q"
    proof (cases fr)
      case (Some f)
      then show ?thesis using STRNDUP_ok [of "length p - length f" p mem] by (auto simp: dup_ok_def)
    qed (simp add: p(2))
    then obtain q mem1 where q: "(case fr of None \<Rightarrow> Some (Some p, mem) | Some f \<Rightarrow> STRNDUP p (length p - length f) mem) = Some (q, mem1)"
      "ptr_ok q" by blast
    show ?thesis
    proof (cases q)
      case None
      then show ?thesis using b1(1) b2(1) False p(1) fr(1) q(1) by (simp add: xmlResolvePath_def built_def)
    next
      case (Some q1)
      then have "dup_ok mem1 (xmlURIUnescapeString (Some q1) (-1) None mem1)" using xmlURIUnescapeString_ok q(2) by simp
      then obtain r mem2 where r: "xmlURIUnescapeString (Some q1) (-1) None mem1 = Some (r, mem2)" "ptr_ok r" by (auto simp: dup_ok_def)
      note rs = b1(1) b2 False p(1) fr(1) q(1) Some r(1)
      show ?thesis
      proof (cases r)
        case None
        then show ?thesis using rs by (simp add: xmlResolvePath_def built_def)
      next
        case (Some r1)
        then have r1: "terminated r1" using r(2) by simp
        then obtain c where "rd r1 0 = Some c" using at_start by blast
        moreover have "\<exists>b. base = Some b \<and> terminated b" if "\<not> b2" using that b2(2) assms(2) by auto
        ultimately show ?thesis using rs Some resolve_done_built [OF r1 frok] resolve_relative_built [OF r1 _ frok]
          by (cases b2) (auto simp: xmlResolvePath_def xmlIsAbsolutePath_def)
      qed
    qed
  qed
qed

text \<open>Steps on the structure under construction keep it well formed.\<close>

definition usafe :: "build step \<Rightarrow> bool" where
  "usafe f \<longleftrightarrow> (\<forall>u mem. uri_safe u \<longrightarrow> (\<exists>ok v mem'. f (u, mem) = Some (ok, v, mem') \<and> uri_safe v))"

named_theorems usafe_intros \<open>steps that keep the structure well formed\<close>

lemma run_steps_usafe: "list_all usafe fs \<Longrightarrow> usafe (run_steps fs)"
proof (induction fs)
  case Nil
  then show ?case by (auto simp: usafe_def)
next
  case (Cons f fs)
  show ?case unfolding usafe_def
  proof (intro allI impI)
    fix u mem assume "uri_safe u"
    then obtain ok v mem' where 1: "f (u, mem) = Some (ok, v, mem')" "uri_safe v" using Cons.prems by (simp add: usafe_def) metis
    then obtain ok' w mem'' where "run_steps fs (v, mem') = Some (ok', w, mem'')" "uri_safe w"
      using Cons by (simp add: usafe_def) metis
    then show "\<exists>ok v mem'. run_steps (f # fs) (u, mem) = Some (ok, v, mem') \<and> uri_safe v"
      using 1 by (cases ok) auto
  qed
qed

lemma usafe_copy_field [usafe_intros]:
  assumes "ptr_ok src" "\<And>u r. uri_safe u \<Longrightarrow> ptr_ok r \<Longrightarrow> uri_safe (upd (\<lambda>_. r) u)"
  shows "usafe (copy_field upd src)"
proof (cases src)
  case None
  then show ?thesis by (auto simp: usafe_def copy_field_def)
next
  case (Some p)
  then have p: "terminated p" using assms(1) by simp
  have "\<exists>ok v mem'. copy_field upd src (u, mem) = Some (ok, v, mem') \<and> uri_safe v" if "uri_safe u" for u mem
  proof -
    obtain r where "xmlStrdup (fst (malloc mem)) (Some p) = Some r" "ptr_ok r" using xmlStrdup_ok [OF p] .
    then show ?thesis using Some assms(2) [OF that] by (simp add: copy_field_def split_beta)
  qed
  then show ?thesis by (simp add: usafe_def)
qed

lemma usafe_set_port [usafe_intros]: "PORT_EMPTY_SERVER \<le> n \<Longrightarrow> n \<le> INT_MAX \<Longrightarrow> usafe (set_port n)"
  by (auto simp: usafe_def set_port_def)

lemma dir_length_safe: "terminated b \<Longrightarrow> \<exists>n. dir_length b cur out = Some n"
  by (induction b arbitrary: cur out) auto

lemma strlen_ptr_safe: "ptr_ok p \<Longrightarrow> \<exists>n. strlen_ptr p = Some n"
  using strlen_safe by (cases p) (auto simp: strlen_ptr_def)

lemma dir_length_strlen: "dir_length b cur out = Some n \<Longrightarrow> strlen b = Some m \<Longrightarrow> out \<le> cur \<Longrightarrow> n \<le> cur + m"
  by (induction b arbitrary: cur out m) (fastforce split: if_splits)+

lemma merge_paths_ok:
  assumes "strlen_ptr (u_path ref) = Some n" "(case u_path bas of None \<Rightarrow> Some 0 | Some b \<Rightarrow> dir_length b 0 0) = Some k" "k \<le> m"
  obtains path where "merge_paths ref bas = Some path" "terminated path" "length path \<le> n + m + 2"
proof -
  define dir where "dir = (case u_path bas of None \<Rightarrow> [] | Some b \<Rightarrow> take k b)"
  have "length dir \<le> m" using assms(3) by (auto simp: dir_def split: option.split)
  then show ?thesis
    using that assms(1,2) by (cases "u_path ref") (auto simp: merge_paths_def dir_def [symmetric] min_def split: if_splits)
qed

lemma usafe_merged_path [usafe_intros]:
  assumes "uri_safe ref" "uri_safe bas"
  shows "usafe (build_merged_path ref bas)"
  unfolding usafe_def
proof (intro allI impI)
  fix u mem assume u: "uri_safe u"
  obtain n where n: "strlen_ptr (u_path ref) = Some n" using strlen_ptr_safe assms(1) by (auto simp: uri_safe_def)
  obtain m where m: "strlen_ptr (u_path bas) = Some m" using strlen_ptr_safe assms(2) by (auto simp: uri_safe_def)
  have "\<exists>k. (case u_path bas of None \<Rightarrow> Some 0 | Some b \<Rightarrow> dir_length b 0 0) = Some k \<and> k \<le> m"
  proof (cases "u_path bas")
    case (Some b)
    then obtain k where k: "dir_length b 0 0 = Some k" using dir_length_safe assms(2) by (fastforce simp: uri_safe_def)
    then show ?thesis using dir_length_strlen [OF k] m Some by (simp add: strlen_ptr_def)
  qed simp
  then obtain k where k: "(case u_path bas of None \<Rightarrow> Some 0 | Some b \<Rightarrow> dir_length b 0 0) = Some k" "k \<le> m" by blast
  obtain path where path: "merge_paths ref bas = Some path" "terminated path" "length path \<le> n + m + 2"
    using n k by (rule merge_paths_ok)
  obtain buf where "xmlNormalizePath (Some path) False = Some (0, Some buf)" "terminated buf"
    using xmlNormalizePath_safe [OF path(2)] by blast
  then show "\<exists>ok v mem'. build_merged_path ref bas (u, mem) = Some (ok, v, mem') \<and> uri_safe v"
    using n m path u by (cases "fst (malloc mem)") (auto simp: build_merged_path_def split_beta xmlNormalizeURIPath_def)
qed

lemma uri_safe_fields:
  assumes "uri_safe u"
  shows "ptr_ok (u_scheme u)" "ptr_ok (u_authority u)" "ptr_ok (u_server u)" "ptr_ok (u_user u)" "ptr_ok (u_path u)"
    "ptr_ok (u_query u)" "ptr_ok (u_fragment u)" "ptr_ok (u_query_raw u)" "PORT_EMPTY_SERVER \<le> u_port u" "u_port u \<le> INT_MAX"
  using assms by (simp_all add: uri_safe_def)

lemma usafe_copies:
  assumes "uri_safe u"
  shows "usafe (copy_field u_scheme_update (u_scheme u))" "usafe (copy_field u_authority_update (u_authority u))"
    "usafe (copy_field u_path_update (u_path u))" "usafe (copy_field u_fragment_update (u_fragment u))"
    "list_all usafe (copy_server u)" "list_all usafe (copy_query u)"
  using uri_safe_fields [OF assms] by (simp_all add: copy_server_def copy_query_def usafe_intros)

lemma usafe_same_document:
  assumes "uri_safe ref" "uri_safe bas"
  shows "list_all usafe (build_same_document ref bas)"
  by (simp add: build_same_document_def usafe_copies [OF assms(1)] usafe_copies [OF assms(2)])

lemma usafe_relative:
  assumes "uri_safe ref" "uri_safe bas"
  obtains fs where "build_relative ref bas = Some fs" "list_all usafe fs"
proof -
  obtain b where "(case u_path ref of None \<Rightarrow> Some False | Some p \<Rightarrow> do { c \<leftarrow> rd p 0; Some (c = 0x2F) }) = Some b"
    using uri_safe_fields(5) [OF assms(1)] at_start by (cases "u_path ref") fastforce+
  then show ?thesis
    using that usafe_merged_path [OF assms]
    by (simp add: build_relative_def usafe_copies [OF assms(1)] usafe_copies [OF assms(2)])
qed

lemma xmlCreateURI_ok:
  obtains uri mem' where "xmlCreateURI mem = (uri, mem')" "\<forall>u. uri = Some u \<longrightarrow> uri_safe u"
  by (cases "xmlCreateURI mem") (auto simp: xmlCreateURI_def uri_safe_def PORT_EMPTY_def PORT_EMPTY_SERVER_def INT_MAX_def split: prod.splits if_splits)

lemma build_resolved_built [built_intros]:
  assumes "uri_safe ref" "uri_safe bas"
  shows "built (build_resolved ref bas mem)"
proof -
  obtain uri mem' where c: "xmlCreateURI mem = (uri, mem')" "\<forall>u. uri = Some u \<longrightarrow> uri_safe u" by (rule xmlCreateURI_ok)
  obtain fs where fs: "build_relative ref bas = Some fs" "list_all usafe fs" by (rule usafe_relative [OF assms])
  have steps: "built (do { (ok, res, mem) \<leftarrow> run_steps gs (u, mem'); if ok then saved (Some res) mem else Some (-1, None, mem) })"
    if gs: "list_all usafe gs" and u: "uri_safe u" for gs u
  proof -
    obtain ok v mem2 where "run_steps gs (u, mem') = Some (ok, v, mem2)" "uri_safe v"
      using run_steps_usafe [OF gs] u unfolding usafe_def by blast
    then show ?thesis using saved_built by (cases ok) (simp_all add: built_def)
  qed
  show ?thesis
  proof (cases uri)
    case None
    then show ?thesis using c(1) by (simp add: build_resolved_def built_def)
  next
    case (Some u)
    then have u: "uri_safe u" using c(2) by simp
    show ?thesis
      using steps [OF usafe_same_document [OF assms] u] steps [OF fs(2) u] saved_built [OF assms(1)]
        c(1) Some fs(1)
      unfolding build_resolved_def by (simp split: if_splits)
  qed
qed

lemma xmlStrstr_ok: "ptr_ok p \<Longrightarrow> terminated q \<Longrightarrow> \<exists>r. xmlStrstr p (Some q) = Some r \<and> (r \<noteq> None \<longrightarrow> p \<noteq> None)"
  using strlen_safe [of q] strstr_loop_safe [of "\<lambda>c. c" q]
  by (cases p) (fastforce simp: xmlStrstr_def xmlStrlen_def)+

lemma lit_terminated [simp]: "terminated (lit s)"
  by (simp add: lit_def)

lemma xmlBuildURISafe_built [built_intros]:
  assumes "terminated p" "ptr_ok base"
  shows "built (xmlBuildURISafe (Some p) base mem)"
proof -
  obtain c where c: "rd p 0 = Some c" using at_start [OF assms(1)] by blast
  obtain ret ref mem1 where 1: "(if c \<noteq> 0 then xmlParseURISafe (Some p) mem else Some (0, None, mem)) = Some (ret, ref, mem1)"
    "ret \<in> {-1, 0, 1}" "\<forall>u. ref = Some u \<longrightarrow> uri_safe u"
    using xmlParseURISafe_ok [OF assms(1), of mem] by (cases "c = 0") auto
  obtain sep where sep: "xmlStrstr base (Some (lit ''://'')) = Some sep" "sep \<noteq> None \<longrightarrow> base \<noteq> None"
    using xmlStrstr_ok [OF assms(2) lit_terminated] by blast
  consider (error) "ret \<noteq> 0" | (absolute) "ret = 0" "case ref of None \<Rightarrow> False | Some r \<Rightarrow> u_scheme r \<noteq> None"
    | (path) "ret = 0" "\<not> (case ref of None \<Rightarrow> False | Some r \<Rightarrow> u_scheme r \<noteq> None)" "sep = None"
    | (uri) "ret = 0" "\<not> (case ref of None \<Rightarrow> False | Some r \<Rightarrow> u_scheme r \<noteq> None)" "sep \<noteq> None" by blast
  then show ?thesis
  proof cases
    case error
    then show ?thesis using 1(1,2) c by (simp add: xmlBuildURISafe_def built_def)
  next
    case absolute
    have "xmlBuildURISafe (Some p) base mem = dup_result p mem1"
      using 1(1) c absolute by (simp add: xmlBuildURISafe_def dup_result_def)
    then show ?thesis using dup_result_built [OF assms(1)] by simp
  next
    case path
    have "xmlBuildURISafe (Some p) base mem = xmlResolvePath (Some p) base mem1"
      using 1(1) c path sep(1) by (simp add: xmlBuildURISafe_def)
    then show ?thesis using xmlResolvePath_built assms by simp
  next
    case uri
    then obtain b where b: "base = Some b" "terminated b" using sep(2) assms(2) by auto
    obtain ret2 bas mem2 where 2: "xmlParseURISafe (Some b) mem1 = Some (ret2, bas, mem2)" "ret2 \<in> {-1, 0, 1}"
      "ret2 = 0 \<longleftrightarrow> bas \<noteq> None" "\<forall>u. bas = Some u \<longrightarrow> uri_safe u"
      using xmlParseURISafe_ok [OF b(2)] by blast
    have e: "xmlBuildURISafe (Some p) base mem =
       (if ret2 < 0 then Some (ret2, None, mem2)
        else if ret2 \<noteq> 0 then if ref = None then Some (ret2, None, mem2) else saved ref mem2
        else do { b \<leftarrow> bas;
          (case ref of None \<Rightarrow> saved (Some (b\<lparr>u_fragment := None\<rparr>)) mem2 | Some r \<Rightarrow> build_resolved r b mem2) })"
      using 1(1) c uri sep(1) b(1) 2(1) by (auto simp: xmlBuildURISafe_def)
    show ?thesis
    proof (cases bas)
      case None
      then show ?thesis unfolding e using 2(2,3) 1(3) saved_built by (cases ref) (auto simp: built_def)
    next
      case (Some bs)
      then show ?thesis unfolding e using 2(3,4) 1(3) saved_built build_resolved_built by (cases ref) auto
    qed
  qed
qed

text \<open>The comparison of two paths.\<close>

lemma escape_result_built [built_intros]:
  assumes "terminated p"
  shows "built (escape_result p mem)"
proof -
  obtain s r where p: "p = s @ 0 # r" "cstring s" using assms terminated_cstring by blast
  have l: "cstring (map of_char ''/;&=+$,'')" by (simp add: cstring_def)
  have "lit ''/;&=+$,'' = map of_char ''/;&=+$,'' @ 0 # []" by (simp add: lit_def)
  then obtain v mem' where "xmlURIEscapeStr (Some p) (Some (lit ''/;&=+$,'')) mem = Some (v, mem')" "ptr_ok v"
    using xmlURIEscapeStr_spec [OF l p(2), of r "[]" mem] p(1) by auto
  then show ?thesis by (cases v) (auto simp: escape_result_def built_def)
qed

lemma common_prefix_spec:
  "terminated p \<Longrightarrow> terminated q \<Longrightarrow> \<exists>n. common_prefix p q = Some n \<and> n < length p \<and> n < length q \<and> take n p = take n q \<and>
     terminated (drop n p) \<and> terminated (drop n q)"
  by (induction p q rule: common_prefix.induct) (auto split: if_splits)

lemma back_to_slash_le: "back_to_slash r i \<le> i"
  by (induction i) (auto simp: le_SucI)

lemma terminated_drop: "terminated (drop n p) \<Longrightarrow> m \<le> n \<Longrightarrow> terminated (drop m p)"
  unfolding terminated_def by (meson set_drop_subset_set_drop subsetD)

lemma count_slashes_safe: "terminated p \<Longrightarrow> \<exists>n. count_slashes p = Some n"
  by (induction p) auto

lemma relative_suffix_built [built_intros]:
  assumes "terminated uptr"
  shows "built (relative_suffix uptr k mem)"
proof -
  obtain u0 where u0: "rd uptr 0 = Some u0" using at_start [OF assms] by blast
  obtain n where n: "strlen uptr = Some n" using strlen_safe [OF assms] by blast
  have b: "built (Some (-1, None, m))" for m by (simp add: built_def)
  show ?thesis
    using u0 n assms b dup_result_built escape_result_built by (simp add: relative_suffix_def split_beta)
qed

lemma relative_compare_built [built_intros]:
  assumes "terminated rptr" "terminated bptr"
  shows "built (relative_compare rptr bptr mem)"
proof -
  obtain pos where pos: "common_prefix bptr rptr = Some pos" "pos < length bptr" "pos < length rptr"
    "terminated (drop pos bptr)" "terminated (drop pos rptr)"
    using common_prefix_spec [OF assms(2,1)] by blast
  let ?ix = "back_to_slash rptr pos"
  have t: "terminated (drop ?ix rptr)" "terminated (drop ?ix bptr)"
    using terminated_drop pos(4,5) back_to_slash_le by blast+
  obtain k where k: "count_slashes (drop ?ix bptr) = Some k" using count_slashes_safe [OF t(2)] by blast
  have rd: "rd bptr pos = Some (bptr ! pos)" "rd rptr pos = Some (rptr ! pos)" using pos by (simp_all add: rd_def)
  show ?thesis
    using pos(1) k rd relative_suffix_built [OF t(1)] dup_result_built by (simp add: relative_compare_def)
qed

lemma leading_dot_safe:
  assumes "terminated p"
  obtains c d where "rd p 0 = Some c" "leading_dot p c = Some d" "d \<longrightarrow> terminated (drop 2 p)" "c = 0x2F \<longrightarrow> terminated (drop 1 p)"
proof (cases p)
  case (Cons c q)
  then show ?thesis
    using assms by (intro that [of c "c = 0x2E \<and> hd q = 0x2F"]) (cases q; auto simp: leading_dot_def)+
qed (use assms in simp)

lemma relative_paths_built [built_intros]:
  assumes "terminated rpath" "terminated bpath"
  shows "built (relative_paths rpath bpath mem)"
proof -
  obtain r0 rdot where r: "rd rpath 0 = Some r0" "leading_dot rpath r0 = Some rdot" "rdot \<longrightarrow> terminated (drop 2 rpath)"
    using assms(1) by (rule leading_dot_safe)
  obtain b0 bdot where b: "rd bpath 0 = Some b0" "leading_dot bpath b0 = Some bdot" "bdot \<longrightarrow> terminated (drop 2 bpath)"
    "b0 = 0x2F \<longrightarrow> terminated (drop 1 bpath)" using assms(2) by (rule leading_dot_safe)
  define rptr where "rptr = (if rdot then drop 2 rpath else rpath)"
  have t: "terminated rptr" using r(3) assms(1) by (simp add: rptr_def)
  obtain r1 where r1: "rd rptr 0 = Some r1" using at_start [OF t] by blast
  define bptr where "bptr = (if bdot then drop 2 bpath else if b0 = 0x2F \<and> r1 \<noteq> 0x2F then drop 1 bpath else bpath)"
  have "terminated bptr" using b(3,4) assms(2) by (simp add: bptr_def)
  moreover have "relative_paths rpath bpath mem = relative_compare rptr bptr mem"
    using r b r1 unfolding relative_paths_def Let_def by (simp add: rptr_def [symmetric] bptr_def [symmetric])
  ultimately show ?thesis using relative_compare_built [OF t] by simp
qed

lemma relative_parse_safe:
  assumes "terminated s"
  obtains ret u mem' where "relative_parse s mem = Some (ret, u, mem')" "ret \<in> {-1, 0, 1}" "ret = 0 \<longrightarrow> uri_safe u"
proof -
  obtain uri mem1 where c: "xmlCreateURI mem = (uri, mem1)" "\<forall>u. uri = Some u \<longrightarrow> uri_safe u" by (rule xmlCreateURI_ok)
  obtain ch where ch: "rd s 0 = Some ch" using at_start [OF assms] by blast
  show ?thesis
  proof (cases uri)
    case None
    then show ?thesis using that c(1) by (simp add: relative_parse_def)
  next
    case (Some u)
    then have u: "uri_safe u" using c(2) by simp
    show ?thesis
    proof (cases "ch = 0x2E")
      case True
      obtain r where "xmlStrdup (fst (malloc mem1)) (Some s) = Some r" "ptr_ok r" using xmlStrdup_ok [OF assms] .
      then show ?thesis using that True c(1) Some ch u by (cases r) (simp_all add: relative_parse_def split_beta)
    next
      case False
      obtain ret v mem2 where "xmlParseURIReference (Some u) (Some s) mem1 = Some (ret, Some v, mem2)" "ret \<in> {-1, 0, 1}" "uri_safe v"
        using parsed_all_URIReference [OF u assms, of mem1] by (rule parsed_allE)
      then show ?thesis using that False c(1) Some ch by (simp add: relative_parse_def)
    qed
  qed
qed

lemma cmp_ptr_safe:
  assumes "ptr_ok p" "ptr_ok q"
  shows "\<exists>c. xmlStrcmp False p q = Some c" "\<exists>c. xmlStrEqual False p q = Some c \<and> (p = None \<longrightarrow> q = None \<longrightarrow> c \<noteq> 0)"
  using assms strcmp_loop_safe [of "\<lambda>c. c"] strequal_loop_safe
  by (cases p; cases q; fastforce simp: xmlStrcmp_def cmp_pointers_def xmlStrEqual_def)+

lemma relative_result_built [built_intros]:
  assumes "terminated s" "uri_safe ref" "uri_safe bas"
  shows "built (relative_result s ref bas mem)"
proof -
  let ?other = "if u_scheme ref = None then Some False
        else if u_scheme bas = None then Some True
        else do {
          c \<leftarrow> xmlStrcmp False (u_scheme bas) (u_scheme ref);
          if c \<noteq> 0 then Some True
          else do {
            c \<leftarrow> xmlStrcmp False (u_server bas) (u_server ref);
            Some (c \<noteq> 0 \<or> u_port bas \<noteq> u_port ref)
          }
        }"
  note r = uri_safe_fields [OF assms(2)] and b = uri_safe_fields [OF assms(3)]
  obtain c1 where c1: "xmlStrcmp False (u_scheme bas) (u_scheme ref) = Some c1" using cmp_ptr_safe(1) [OF b(1) r(1)] by blast
  obtain c2 where c2: "xmlStrcmp False (u_server bas) (u_server ref) = Some c2" using cmp_ptr_safe(1) [OF b(3) r(3)] by blast
  have "\<exists>other. ?other = Some other" using c1 c2 by (cases "u_scheme ref"; cases "u_scheme bas") auto
  then obtain other where o: "?other = Some other" by blast
  obtain eq where eq: "xmlStrEqual False (u_path bas) (u_path ref) = Some eq \<and> (u_path bas = None \<longrightarrow> u_path ref = None \<longrightarrow> eq \<noteq> 0)"
    using cmp_ptr_safe(2) [OF b(5) r(5)] by (rule exE)
  have "built (relative_paths (case u_path ref of None \<Rightarrow> lit ''/'' | Some r \<Rightarrow> r) p mem)" if "u_path bas = Some p" for p
    using that r(5) b(5) by (intro relative_paths_built) (auto split: option.split)
  moreover have "built (do { p \<leftarrow> u_path ref; dup_result p mem })" if "u_path ref \<noteq> None"
    using that r(5) dup_result_built by auto
  ultimately show ?thesis
    using eq dup_result_built [OF assms(1)] dup_result_built [of "[0]"] unfolding relative_result_def o
    by (cases "u_path bas"; cases "u_path ref") auto
qed

lemma xmlBuildRelativeURISafe_built [built_intros]:
  assumes "terminated s" "ptr_ok base"
  shows "built (xmlBuildRelativeURISafe (Some s) base mem)"
proof -
  obtain c where c: "rd s 0 = Some c" using at_start [OF assms(1)] by blast
  obtain ret ref mem1 where 1: "relative_parse s mem = Some (ret, ref, mem1)" "ret \<in> {-1, 0, 1}" "ret = 0 \<longrightarrow> uri_safe ref"
    using assms(1) by (rule relative_parse_safe)
  obtain nb where nb: "(case base of None \<Rightarrow> Some True | Some b \<Rightarrow> do { c \<leftarrow> rd b 0; Some (c = 0) }) = Some nb" "\<not> nb \<longrightarrow> base \<noteq> None"
    using assms(2) at_start by (cases base) fastforce+
  show ?thesis
  proof (cases "c = 0 \<or> ret \<noteq> 0 \<or> nb")
    case True
    then show ?thesis using c 1 nb(1) dup_result_built [OF assms(1), of mem1]
      by (auto simp: xmlBuildRelativeURISafe_def built_def)
  next
    case False
    then obtain b where b: "base = Some b" "terminated b" using nb(2) assms(2) by auto
    obtain ret2 bas mem2 where 2: "relative_parse b mem1 = Some (ret2, bas, mem2)" "ret2 \<in> {-1, 0, 1}" "ret2 = 0 \<longrightarrow> uri_safe bas"
      using b(2) by (rule relative_parse_safe)
    have "xmlBuildRelativeURISafe (Some s) base mem = (if ret2 \<noteq> 0 then Some (ret2, None, mem2) else relative_result s ref bas mem2)"
      using False c 1(1) nb(1) b(1) 2(1) by (simp add: xmlBuildRelativeURISafe_def)
    then show ?thesis using 1(3) 2(2,3) False relative_result_built [OF assms(1)] by (auto simp: built_def)
  qed
qed



text \<open>
  \<open>xmlBuildURI\<close> resolves the examples of appendix C of
  RFC 2396, which its comment names, as the RFC says, \<open>..\<close> segments that would leave
  the root included; a query alone keeps the last segment, as in RFC 3986.
  \<open>xmlBuildRelativeURI\<close> gives the results its comment lists, but it drops a query and
  a fragment and one slash of an empty first segment, so that resolving its result
  does not give the reference back.
\<close>

theorem xml_build_uri_examples:
  "map (\<lambda>r. xmlBuildURI (Some (lit r)) (Some (lit ''http://a/b/c/d;p?q'')) [])
     [''g'', ''//g'', ''?y'', ''#s'', ''../g'', ''../../../g'', ''/./g''] =
   map (\<lambda>res. Some (Some (lit res), []))
     [''http://a/b/c/g'', ''http://g'', ''http://a/b/c/d;p?y'', ''http://a/b/c/d;p?q#s'', ''http://a/b/g'',
      ''http://a/../g'', ''http://a/./g''] \<and>
   map (\<lambda>r. xmlBuildRelativeURI (Some (lit r)) (Some (lit ''docs/book1.html'')) [])
     [''docs/pic1.gif'', ''img/pic1.gif'', ''http://site1.com/docs/pic1.gif''] =
   map (\<lambda>res. Some (Some (lit res), [])) [''pic1.gif'', ''../img/pic1.gif'', ''http://site1.com/docs/pic1.gif''] \<and>
   map (\<lambda>r. xmlBuildRelativeURI (Some (lit r)) (Some (lit ''http://a/b/c'')) []) [''http://a/x?q#f'', ''http://a//x''] =
   map (\<lambda>res. Some (Some (lit res), [])) [''../x'', ''../x'']"
  by (intro conjI; code_simp)

lemma is_hex_0: "\<not> is_hex 0"
  by (simp add: is_hex_def)



end
