(* ===== verification/Xml_Uri_Roundtrip.thy ===== *)
theory Xml_Uri_Roundtrip
  imports Xml_Uri_Build
begin

text \<open>
  Parsing what the serialiser wrote (\<open>src/testbed/libxml2/uri.c\<close>): for canonical
  structures \<open>xmlParseURISafe\<close> inverts \<open>xmlSaveUri\<close>.
\<close>

section \<open>Parsing what was saved\<close>

lemma malloc_mem_ok [simp]: "mem_ok mem \<Longrightarrow> malloc mem = (True, tl mem)" "mem_ok mem \<Longrightarrow> mem_ok (tl mem)"
  by (cases mem; simp add: malloc_def mem_ok_def)+

lemma STRNDUP_eq [simp]: "mem_ok mem \<Longrightarrow> STRNDUP (s @ r) (length s) mem = Some (Some (s @ [0]), tl mem)"
  by (simp add: STRNDUP_def xmlStrndup_def memcpy_def)

lemma escape_bytes_length: "length s \<le> length (escape_bytes keep s)"
  by (induction s) (simp_all add: pct_encode_def)

text \<open>A part of the text, read back.\<close>

lemma uri_part_escaped:
  assumes "mem_ok mem" "u_cleanup u = 0" "\<not> keep 0x25" "s \<noteq> []"
  shows "uri_part u (escape_bytes keep s @ r) (length (escape_bytes keep s)) mem = Some (Some (s @ [0]), tl mem)"
proof -
  have "0 < length (escape_bytes keep s)" using escape_bytes_length [of s keep] assms(4) by (cases s) auto
  then show ?thesis using assms(1,2) unescape_bytes [of keep, OF assms(3)] by (simp add: uri_part_def xmlURIUnescapeString_def)
qed

text \<open>The scanning loops run over escaped text up to the first character that ends them.\<close>

lemma pct_encoded_pct [simp]: "ISA_PCT_ENCODED (pct_encode c @ p) = Some True"
proof -
  have "is_hex d \<longleftrightarrow> ISA_HEXDIG d" for d by (auto simp: is_hex_def ISA_HEXDIG_def ISA_DIGIT_def)
  then show ?thesis using pct_encode_hex [of c] by (simp add: ISA_PCT_ENCODED_def pct_encode_def)
qed

definition scannable :: "xmlURI \<Rightarrow> (u8 \<Rightarrow> bool) \<Rightarrow> (u8 \<Rightarrow> bool) \<Rightarrow> bool" where
  "scannable u extra keep \<longleftrightarrow> (\<forall>c. keep c \<longrightarrow> c \<noteq> 0x25 \<and> (xmlIsUnreserved (Some u) c \<or> extra c))"

lemma uri_char_keep: "scannable u extra keep \<Longrightarrow> keep c \<Longrightarrow> uri_char (Some u) extra (c # p) = Some True"
  by (auto simp: scannable_def uri_char_def ISA_PCT_ENCODED_def)

lemma uri_char_pct: "uri_char (Some u) extra (pct_encode c @ p) = Some True"
  using pct_encoded_pct [of c p] by (simp add: uri_char_def pct_encode_def)

lemma scan_escaped:
  assumes "scannable u extra keep" "uri_char (Some u) extra q = Some False" "q \<noteq> []"
  shows "scan (uri_char (Some u) extra) (escape_bytes keep s @ q) = Some q"
proof (induction s)
  case Nil
  then show ?case using assms(2,3) by (simp add: scan.simps)
next
  case (Cons c s)
  show ?case
  proof (cases "keep c")
    case True
    then show ?thesis using Cons uri_char_keep [OF assms(1) True] assms(1)
      by (subst scan.simps) (simp add: NEXT_def scannable_def)
  next
    case False
    then show ?thesis using Cons uri_char_pct [of u extra c "escape_bytes keep s @ q"]
      by (subst scan.simps) (simp add: NEXT_def pct_encode_def)
  qed
qed

lemma uri_char_stop: "\<not> xmlIsUnreserved (Some u) c \<Longrightarrow> \<not> extra c \<Longrightarrow> c \<noteq> 0x25 \<Longrightarrow> uri_char (Some u) extra (c # p) = Some False"
  by (simp add: uri_char_def ISA_PCT_ENCODED_def)

text \<open>The character classes of the serialiser are among those of the parser.\<close>

lemma unreserved_classes: "IS_UNRESERVED c \<Longrightarrow> ISA_STRICTLY_UNRESERVED c \<or> ISA_SUB_DELIM c"
  unfolding IS_UNRESERVED_def IS_ALPHANUM_def IS_ALPHA_def IS_LOWALPHA_def IS_UPALPHA_def IS_DIGIT_def IS_MARK_def
    ISA_STRICTLY_UNRESERVED_def ISA_ALPHA_def ISA_DIGIT_def ISA_SUB_DELIM_def by auto

lemma strictly_unreserved: "ISA_STRICTLY_UNRESERVED c \<Longrightarrow> xmlIsUnreserved (Some u) c"
  by (simp add: xmlIsUnreserved_def)

lemma plain_unreserved: "u_cleanup u = 0 \<Longrightarrow> xmlIsUnreserved (Some u) c \<longleftrightarrow> ISA_STRICTLY_UNRESERVED c"
  by (simp add: xmlIsUnreserved_def)

lemma unreserved_delims:
  "c \<in> {0, 0x23, 0x2F, 0x3A, 0x3F, 0x40} \<Longrightarrow> \<not> ISA_STRICTLY_UNRESERVED c \<and> \<not> ISA_SUB_DELIM c \<and> c \<noteq> 0x25 \<and> c \<noteq> 0x5B \<and> c \<noteq> 0x5D"
  by (auto simp: ISA_STRICTLY_UNRESERVED_def ISA_ALPHA_def ISA_DIGIT_def ISA_SUB_DELIM_def)

text \<open>The parts, one by one.\<close>

definition scheme_char :: "u8 \<Rightarrow> bool" where
  "scheme_char c \<longleftrightarrow> ISA_ALPHA c \<or> ISA_DIGIT c \<or> c = 0x2B \<or> c = 0x2D \<or> c = 0x2E"

lemma skip_while_app: "\<forall>c\<in>set s. f c \<Longrightarrow> \<not> f d \<Longrightarrow> skip_while f (s @ d # r) = Some (d # r)"
  by (induction s) auto

lemma parse_scheme:
  assumes "mem_ok mem" "sc \<noteq> []" "ISA_ALPHA (hd sc)" "\<forall>c\<in>set sc. scheme_char c"
  shows "xmlParse3986Scheme (Some u) (sc @ 0x3A # r) mem = Some (0, Some (u\<lparr>u_scheme := Some (sc @ [0])\<rparr>), 0x3A # r, tl mem)"
proof -
  obtain c s where sc: "sc = c # s" using assms(2) by (cases sc) auto
  have "\<not> scheme_char 0x3A" by (simp add: scheme_char_def ISA_ALPHA_def ISA_DIGIT_def)
  then have "skip_while scheme_char (s @ 0x3A # r) = Some (0x3A # r)" using assms(4) sc by (intro skip_while_app) auto
  moreover have "(\<lambda>c. ISA_ALPHA c \<or> ISA_DIGIT c \<or> c = 0x2B \<or> c = 0x2D \<or> c = 0x2E) = scheme_char" by (auto simp: scheme_char_def)
  ultimately show ?thesis
    using assms(1,3) sc STRNDUP_eq [OF assms(1), of sc "0x3A # r"] by (simp add: xmlParse3986Scheme_def)
qed

lemma user_scannable: "u_cleanup u = 0 \<Longrightarrow> scannable u (\<lambda>c. ISA_SUB_DELIM c \<or> c = 0x3A) user_char"
  unfolding scannable_def user_char_def
  using unreserved_classes not_unreserved(1) by (auto simp: plain_unreserved ISA_SUB_DELIM_def)

lemma parse_user:
  assumes "mem_ok mem" "u_cleanup u = 0" "us \<noteq> []"
  shows "xmlParse3986Userinfo (Some u) (escape_bytes user_char us @ 0x40 # r) mem =
     Some (0, Some (u\<lparr>u_user := Some (us @ [0])\<rparr>), 0x40 # r, tl mem)"
proof -
  have "uri_char (Some u) (\<lambda>c. ISA_SUB_DELIM c \<or> c = 0x3A) (0x40 # r) = Some False"
    using unreserved_delims [of "0x40"] assms(2) by (intro uri_char_stop) (simp_all add: plain_unreserved)
  then have "scan (uri_char (Some u) (\<lambda>c. ISA_SUB_DELIM c \<or> c = 0x3A)) (escape_bytes user_char us @ 0x40 # r) = Some (0x40 # r)"
    by (intro scan_escaped user_scannable assms(2)) simp_all
  moreover have "\<not> user_char 0x25" by (simp add: user_char_def not_unreserved)
  ultimately show ?thesis
    using uri_part_escaped [OF assms(1,2) _ assms(3), of user_char "0x40 # r"] by (simp add: xmlParse3986Userinfo_def)
qed

definition host_char :: "u8 \<Rightarrow> bool" where
  "host_char c \<longleftrightarrow> ISA_STRICTLY_UNRESERVED c \<or> ISA_SUB_DELIM c"

lemma escape_bytes_keep: "\<forall>c\<in>set s. keep c \<Longrightarrow> escape_bytes keep s = s"
  by (induction s) auto

lemma host_char_pct: "\<not> host_char 0x25"
  by (simp add: host_char_def ISA_STRICTLY_UNRESERVED_def ISA_ALPHA_def ISA_DIGIT_def ISA_SUB_DELIM_def)

lemma host_scannable: "scannable u ISA_SUB_DELIM host_char"
  using host_char_pct by (auto simp: scannable_def host_char_def xmlIsUnreserved_def)

lemma parse_host:
  assumes "mem_ok mem" "u_cleanup u = 0" "h \<noteq> []" "\<forall>c\<in>set h. host_char c" "d \<in> {0, 0x23, 0x2F, 0x3A, 0x3F}" "terminated (d # r)"
  shows "xmlParse3986Host (Some u) (h @ d # r) mem =
     Some (0, Some (u\<lparr>u_authority := None, u_server := Some (h @ [0])\<rparr>), d # r, tl mem)"
proof -
  have d: "\<not> ISA_STRICTLY_UNRESERVED d \<and> \<not> ISA_SUB_DELIM d \<and> d \<noteq> 0x25" using unreserved_delims [of d] assms(5) by auto
  then have "uri_char (Some u) ISA_SUB_DELIM (d # r) = Some False"
    using assms(2) by (intro uri_char_stop) (simp_all add: plain_unreserved)
  then have sc: "scan (uri_char (Some u) ISA_SUB_DELIM) (h @ d # r) = Some (d # r)"
    using scan_escaped [OF host_scannable, of u "d # r" h] escape_bytes_keep [OF assms(4)] by simp
  obtain c h' where h: "h = c # h'" using assms(3) by (cases h) auto
  have c: "c \<noteq> 0x5B" using assms(4) h by (auto simp: host_char_def ISA_STRICTLY_UNRESERVED_def ISA_ALPHA_def ISA_DIGIT_def ISA_SUB_DELIM_def)
  have v4: "(if ISA_DIGIT c then host_ipv4 (h @ d # r) else Some None) = Some None"
    using host_ipv4_never [of "h @ d # r"] host_ipv4_safe [of "h @ d # r"] assms(6) by auto
  have "host_found (Some u) (h @ d # r) (d # r) mem = Some (0, Some (u\<lparr>u_authority := None, u_server := Some (h @ [0])\<rparr>), d # r, tl mem)"
    using uri_part_escaped [OF assms(1,2) _ assms(3), of host_char "d # r"] host_char_pct escape_bytes_keep [OF assms(4)] assms(3)
    by (simp add: host_found_def)
  then show ?thesis using c v4 sc unfolding xmlParse3986Host_def h by simp
qed

lemma digit_value: "0 \<le> k \<Longrightarrow> k < 10 \<Longrightarrow> ISA_DIGIT (0x30 + word_of_int k) \<and> uint (0x30 + word_of_int k :: u8) = 0x30 + k"
proof -
  assume k: "0 \<le> k" "k < 10"
  then have "k = 0 \<or> k = 1 \<or> k = 2 \<or> k = 3 \<or> k = 4 \<or> k = 5 \<or> k = 6 \<or> k = 7 \<or> k = 8 \<or> k = 9" by presburger
  then show ?thesis by (auto simp: ISA_DIGIT_def)
qed

lemma port_digit:
  assumes "0 \<le> k" "k < 10" "0 \<le> n" "n * 10 + k \<le> INT_MAX"
  shows "port_loop ((0x30 + word_of_int k) # q) n = port_loop q (n * 10 + k)"
  using digit_value [OF assms(1,2)] assms(1,3,4) by (auto simp: INT_MAX_def Let_def)

lemma port_digits: "0 \<le> n \<Longrightarrow> n \<le> INT_MAX \<Longrightarrow> port_loop (dec_digits n @ q) 0 = port_loop q n"
proof (induction n arbitrary: q rule: dec_digits.induct)
  case (1 n)
  show ?case
  proof (cases "n < 10")
    case True
    then show ?thesis using 1(2,3) port_digit [of n 0 q] by (simp add: dec_digits.simps)
  next
    case False
    then have "port_loop (dec_digits n @ q) 0 = port_loop ((0x30 + word_of_int (n mod 10)) # q) (n div 10)"
      using "1.IH" "1.prems" by (subst dec_digits.simps) simp
    then show ?thesis using False 1(2,3) port_digit [of "n mod 10" "n div 10" q] by simp
  qed
qed

lemma dec_digits_hd: "0 \<le> n \<Longrightarrow> \<exists>c p. dec_digits n = c # p \<and> ISA_DIGIT c"
proof (induction n rule: dec_digits.induct)
  case (1 n)
  show ?case using 1 digit_value [of n] by (cases "n < 10") (fastforce simp: dec_digits.simps [of n])+
qed

lemma parse_port:
  assumes "0 \<le> n" "n \<le> INT_MAX" "d \<in> {0, 0x23, 0x2F, 0x3F}"
  shows "xmlParse3986Port (Some u) (dec_digits n @ d # r) mem = Some (0, Some (u\<lparr>u_port := n\<rparr>), d # r, mem)"
proof -
  have "\<not> ISA_DIGIT d" using assms(3) by (auto simp: ISA_DIGIT_def)
  then have "port_loop (dec_digits n @ d # r) 0 = Some (Some (n, d # r))" using port_digits [OF assms(1,2)] by simp
  then show ?thesis using dec_digits_hd [OF assms(1)] by (auto simp: xmlParse3986Port_def)
qed

text \<open>Paths: the segments begin with a slash each.\<close>

definition abs_path :: "u8 list list \<Rightarrow> u8 list" where
  "abs_path segs = concat (map (\<lambda>s. 0x2F # s) segs)"

lemma path_scannable: "u_cleanup u = 0 \<Longrightarrow> keep = (\<lambda>c. path_char c \<and> c \<noteq> 0x2F) \<Longrightarrow>
    scannable u (\<lambda>c. ISA_SUB_DELIM c \<or> c = 0x3A \<or> c = 0x40) keep"
  unfolding scannable_def path_char_def
  using unreserved_classes not_unreserved(1) by (auto simp: plain_unreserved ISA_SUB_DELIM_def)

lemma escape_path_seg: "0x2F \<notin> set s \<Longrightarrow> escape_bytes path_char s = escape_bytes (\<lambda>c. path_char c \<and> c \<noteq> 0x2F) s"
  by (induction s) auto

lemma pchar_stop: "u_cleanup u = 0 \<Longrightarrow> d \<in> {0, 0x23, 0x2F, 0x3F} \<Longrightarrow> ISA_PCHAR (Some u) (d # r) = Some False"
  unfolding ISA_PCHAR_def using unreserved_delims [of d] by (intro uri_char_stop) (auto simp: plain_unreserved)

lemma segment_test:
  assumes "u_cleanup u = 0"
  shows "(\<lambda>p. do { b \<leftarrow> ISA_PCHAR (Some u) p; if \<not> b then Some False else do { c \<leftarrow> rd p 0; Some (c \<noteq> 0) } }) = ISA_PCHAR (Some u)"
proof
  fix p show "do { b \<leftarrow> ISA_PCHAR (Some u) p; if \<not> b then Some False else do { c \<leftarrow> rd p 0; Some (c \<noteq> 0) } } = ISA_PCHAR (Some u) p"
    using pchar_stop [OF assms, of 0 "tl p"] by (cases p; cases "ISA_PCHAR (Some u) p") (auto simp: ISA_PCHAR_def uri_char_def)
qed

lemma parse_segment:
  assumes "u_cleanup u = 0" "0x2F \<notin> set s" "d \<in> {0, 0x23, 0x2F, 0x3F}"
  shows "xmlParse3986Segment (Some u) (escape_bytes path_char s @ d # r) 0 True = Some (0, d # r)"
proof -
  have "scan (ISA_PCHAR (Some u)) (escape_bytes path_char s @ d # r) = Some (d # r)"
    unfolding ISA_PCHAR_def escape_path_seg [OF assms(2)]
    using pchar_stop [OF assms(1,3), of r] by (intro scan_escaped path_scannable assms(1)) (simp_all add: ISA_PCHAR_def)
  moreover have "\<exists>b. ISA_PCHAR (Some u) (escape_bytes path_char s @ d # r) = Some b \<and> (\<not> b \<longrightarrow> s = [])"
  proof (cases s)
    case Nil
    then show ?thesis using pchar_stop [OF assms(1,3), of r] by auto
  next
    case (Cons c t)
    have "uri_char (Some u) (\<lambda>c. ISA_SUB_DELIM c \<or> c = 0x3A \<or> c = 0x40) (escape_bytes path_char s @ d # r) = Some True"
      using uri_char_keep [OF path_scannable [OF assms(1) refl], of c] uri_char_pct [of u _ c] Cons assms(2) by auto
    then show ?thesis by (auto simp: ISA_PCHAR_def)
  qed
  ultimately show ?thesis unfolding xmlParse3986Segment_def segment_test [OF assms(1)] by auto
qed

lemma escape_bytes_append [simp]: "escape_bytes keep (s @ t) = escape_bytes keep s @ escape_bytes keep t"
  by (simp add: escape_bytes_def)

lemma parse_segments:
  assumes "u_cleanup u = 0" "d \<in> {0, 0x23, 0x3F}"
  shows "\<forall>s\<in>set segs. 0x2F \<notin> set s \<Longrightarrow> segments_loop (Some u) (escape_bytes path_char (abs_path segs) @ d # r) = Some (0, d # r)"
proof (induction segs)
  case Nil
  then show ?case using assms(2) by (subst segments_loop.simps) (auto simp: abs_path_def)
next
  case (Cons s segs)
  let ?t = "escape_bytes path_char (abs_path segs) @ d # r"
  have sl: "path_char 0x2F" by (simp add: path_char_def)
  then obtain d' r' where t: "?t = d' # r'" "d' \<in> {0, 0x23, 0x2F, 0x3F}"
    using assms(2) by (cases segs) (auto simp: abs_path_def)
  have "xmlParse3986Segment (Some u) (escape_bytes path_char s @ ?t) 0 True = Some (0, ?t)"
    using parse_segment [OF assms(1) _ t(2), of s r'] Cons.prems t(1) by simp
  then show ?case using Cons sl by (subst segments_loop.simps) (simp add: abs_path_def)
qed

lemma parse_path:
  assumes "mem_ok mem" "u_cleanup u = 0" "d \<in> {0, 0x23, 0x3F}" "\<forall>s\<in>set segs. 0x2F \<notin> set s"
  shows "xmlParse3986PathAbEmpty (Some u) (escape_bytes path_char (abs_path segs) @ d # r) mem =
     Some (0, Some (u\<lparr>u_path := if segs = [] then None else Some (abs_path segs @ [0])\<rparr>), d # r, if segs = [] then mem else tl mem)"
proof (cases "segs = []")
  case True
  then show ?thesis using parse_segments [OF assms(2,3,4), of r] by (simp add: xmlParse3986PathAbEmpty_def store_path_def abs_path_def)
next
  case False
  then have p: "abs_path segs \<noteq> []" by (cases segs) (simp_all add: abs_path_def)
  then have "escape_bytes path_char (abs_path segs) \<noteq> []" using escape_bytes_length [of "abs_path segs" path_char] by auto
  moreover have "\<not> path_char 0x25" by (simp add: path_char_def not_unreserved)
  ultimately show ?thesis
    using parse_segments [OF assms(2,3,4), of r] uri_part_escaped [OF assms(1,2) _ p, of path_char "d # r"] False
    by (simp add: xmlParse3986PathAbEmpty_def store_path_def)
qed

text \<open>Query and fragment.  A query is kept raw with all but the characters of a query escaped.\<close>

definition query_char :: "u8 \<Rightarrow> bool" where
  "query_char c \<longleftrightarrow> uric_char c \<and> c \<noteq> 0x5B \<and> c \<noteq> 0x5D"

lemma uric_scannable:
  "u_cleanup u = 0 \<Longrightarrow> scannable u (\<lambda>c. ISA_SUB_DELIM c \<or> c \<in> {0x3A, 0x40, 0x2F, 0x3F}) query_char"
  "u_cleanup u = 0 \<Longrightarrow> scannable u (\<lambda>c. ISA_SUB_DELIM c \<or> c \<in> {0x3A, 0x40, 0x2F, 0x3F, 0x5B, 0x5D}) uric_char"
  unfolding scannable_def query_char_def uric_char_def IS_RESERVED_def
  using unreserved_classes not_unreserved(1) by (auto simp: plain_unreserved ISA_SUB_DELIM_def)

lemma not_uric: "\<not> query_char 0x25" "\<not> uric_char 0x25"
  by (simp_all add: query_char_def uric_char_def not_unreserved IS_RESERVED_def)

lemma parse_query:
  assumes "mem_ok mem" "u_cleanup u = 0" "d \<in> {0, 0x23}" "q \<noteq> []"
  shows "xmlParse3986Query (Some u) (escape_bytes query_char q @ d # r) mem =
     Some (0, Some (u\<lparr>u_query := Some (q @ [0]), u_query_raw := Some (escape_bytes query_char q @ [0])\<rparr>), d # r, tl (tl mem))"
proof -
  have "uri_char (Some u) (\<lambda>c. ISA_SUB_DELIM c \<or> c \<in> {0x3A, 0x40, 0x2F, 0x3F}) (d # r) = Some False"
    using unreserved_delims [of d] assms(2,3) by (intro uri_char_stop) (auto simp: plain_unreserved)
  then have "scan (uri_char (Some u) (\<lambda>c. ISA_SUB_DELIM c \<or> c \<in> {0x3A, 0x40, 0x2F, 0x3F})) (escape_bytes query_char q @ d # r) = Some (d # r)"
    by (intro scan_escaped uric_scannable assms(2)) simp_all
  then show ?thesis
    using uri_part_escaped [OF assms(1,2) _ assms(4), of query_char "d # r"] not_uric(1) assms(1)
    by (simp add: xmlParse3986Query_def)
qed

lemma parse_fragment:
  assumes "mem_ok mem" "u_cleanup u = 0" "f \<noteq> []"
  shows "xmlParse3986Fragment (Some u) (escape_bytes uric_char f @ 0 # r) mem =
     Some (0, Some (u\<lparr>u_fragment := Some (f @ [0])\<rparr>), 0 # r, tl mem)"
proof -
  let ?extra = "\<lambda>c::u8. ISA_SUB_DELIM c \<or> c \<in> {0x3A, 0x40, 0x2F, 0x3F, 0x5B, 0x5D}"
  have "uri_char (Some u) ?extra (0 # r) = Some False"
    using unreserved_delims [of 0] assms(2) by (intro uri_char_stop) (auto simp: plain_unreserved)
  then have "scan (uri_char (Some u) ?extra) (escape_bytes uric_char f @ 0 # r) = Some (0 # r)"
    by (intro scan_escaped uric_scannable assms(2)) simp_all
  then show ?thesis
    using uri_part_escaped [OF assms(1,2) _ assms(3), of uric_char "0 # r"] not_uric(2)
    by (simp add: xmlParse3986Fragment_def)
qed

text \<open>The parts together.\<close>

definition part_text :: "u8 \<Rightarrow> (u8 \<Rightarrow> bool) \<Rightarrow> u8 list option \<Rightarrow> u8 list" where
  "part_text c keep p = (case p of None \<Rightarrow> [] | Some s \<Rightarrow> c # escape_bytes keep s)"

definition cptr :: "u8 list option \<Rightarrow> xptr" where
  "cptr p = map_option (\<lambda>s. s @ [0]) p"

lemma part_text_simps [simp]:
  "part_text c keep None = []" "part_text c keep (Some s) = c # escape_bytes keep s" "cptr None = None" "cptr (Some s) = Some (s @ [0])"
  by (simp_all add: part_text_def cptr_def)

lemma parse_query_fragment:
  assumes "mem_ok mem" "u_cleanup u = 0" "u_query u = None" "u_query_raw u = None" "u_fragment u = None" "q \<noteq> Some []" "f \<noteq> Some []"
  shows "\<exists>mem'. query_fragment (Some u) (part_text 0x3F query_char q @ part_text 0x23 uric_char f @ [0]) mem =
     Some (0, Some (u\<lparr>u_query := cptr q, u_query_raw := cptr (map_option (escape_bytes query_char) q), u_fragment := cptr f\<rparr>), mem')"
proof -
  let ?ft = "part_text 0x23 uric_char f @ [0]"
  let ?u = "u\<lparr>u_query := cptr q, u_query_raw := cptr (map_option (escape_bytes query_char) q)\<rparr>"
  obtain d r where d: "?ft = d # r" "d \<in> {0, 0x23}" "d = 0x23 \<longleftrightarrow> f \<noteq> None" by (cases f) auto
  obtain mem1 where 1: "(if hd (part_text 0x3F query_char q @ ?ft) = 0x3F
      then xmlParse3986Query (Some u) (drop 1 (part_text 0x3F query_char q @ ?ft)) mem
      else Some (0, Some u, part_text 0x3F query_char q @ ?ft, mem)) = Some (0, Some ?u, ?ft, mem1)" "mem_ok mem1"
  proof (cases q)
    case None
    then have "?u = u" using assms(3,4) by (cases u) simp
    then show ?thesis using that [of mem] None d assms(1) by auto
  next
    case (Some q')
    then have "q' \<noteq> []" using assms(6) by auto
    then show ?thesis
      using that [of "tl (tl mem)"] Some parse_query [OF assms(1,2) d(2), of q' r] d(1) assms(1) by simp
  qed
  have rd: "rd (part_text 0x3F query_char q @ ?ft) 0 = Some (hd (part_text 0x3F query_char q @ ?ft))"
    using d(1) by (cases q) auto
  have "\<exists>mem2. (if d = 0x23 then xmlParse3986Fragment (Some ?u) (drop 1 ?ft) mem1 else Some (0, Some ?u, ?ft, mem1)) =
      Some (0, Some (?u\<lparr>u_fragment := cptr f\<rparr>), [0], mem2)"
  proof (cases f)
    case None
    then have "?u\<lparr>u_fragment := cptr f\<rparr> = ?u" using assms(5) by (cases u) simp
    then show ?thesis using None d by auto
  next
    case (Some f')
    then have "f' \<noteq> []" using assms(7) by auto
    then show ?thesis using Some d parse_fragment [OF 1(2), of ?u f' "[]"] assms(2) by simp
  qed
  then obtain mem2 where 2: "(if d = 0x23 then xmlParse3986Fragment (Some ?u) (drop 1 ?ft) mem1 else Some (0, Some ?u, ?ft, mem1)) =
      Some (0, Some (?u\<lparr>u_fragment := cptr f\<rparr>), [0], mem2)" by blast
  have rd2: "rd ?ft 0 = Some d" unfolding d(1) by simp
  have "query_fragment (Some u) (part_text 0x3F query_char q @ ?ft) mem = Some (0, Some (?u\<lparr>u_fragment := cptr f\<rparr>), mem2)"
    unfolding query_fragment_def rd bind.bind_lunit 1(1) by (simp add: rd2 2 del: append_assoc)
  then show ?thesis by simp
qed

lemma dec_digits_set: "0 \<le> n \<Longrightarrow> c \<in> set (dec_digits n) \<Longrightarrow> ISA_DIGIT c"
proof (induction n rule: dec_digits.induct)
  case (1 n)
  show ?case
  proof (cases "n < 10")
    case True
    then show ?thesis using 1(2,3) digit_value [of n] by (simp add: dec_digits.simps [of n])
  next
    case False
    then show ?thesis using 1 digit_value [of "n mod 10"] by (auto simp: dec_digits.simps [of n])
  qed
qed

definition port_suffix :: "int \<Rightarrow> u8 list" where
  "port_suffix port = (if port > 0 then 0x3A # dec_digits port else [])"

lemma parse_no_user:
  assumes "u_cleanup u = 0" "\<forall>c\<in>set h. host_char c" "d \<in> {0, 0x23, 0x2F, 0x3F}"
  shows "xmlParse3986Userinfo (Some u) (h @ port_suffix port @ d # r) mem = Some (1, Some u, h @ port_suffix port @ d # r, mem)"
proof -
  let ?keep = "\<lambda>c. host_char c \<or> c = 0x3A"
  let ?extra = "\<lambda>c::u8. ISA_SUB_DELIM c \<or> c = 0x3A"
  have "c \<in> set (port_suffix port) \<Longrightarrow> ?keep c" for c
    using dec_digits_set [of port c] by (auto simp: port_suffix_def host_char_def ISA_STRICTLY_UNRESERVED_def split: if_splits)
  then have t: "escape_bytes ?keep (h @ port_suffix port) = h @ port_suffix port" using assms(2) by (intro escape_bytes_keep) auto
  have "scannable u ?extra ?keep" using host_scannable [of u] by (auto simp: scannable_def)
  moreover have "uri_char (Some u) ?extra (d # r) = Some False"
    using unreserved_delims [of d] assms(1,3) by (intro uri_char_stop) (auto simp: plain_unreserved)
  ultimately have "scan (uri_char (Some u) ?extra) (escape_bytes ?keep (h @ port_suffix port) @ d # r) = Some (d # r)"
    by (intro scan_escaped) simp_all
  then show ?thesis using assms(3) unfolding t by (auto simp: xmlParse3986Userinfo_def)
qed

definition user_text :: "u8 list option \<Rightarrow> u8 list" where
  "user_text us = (case us of None \<Rightarrow> [] | Some s \<Rightarrow> escape_bytes user_char s @ [0x40])"

lemma parse_authority:
  assumes "mem_ok mem" "u_cleanup u = 0" "u_user u = None" "us \<noteq> Some []"
    and h: "h \<noteq> []" "\<forall>c\<in>set h. host_char c" and port: "0 \<le> port" "port \<le> INT_MAX" "u_port u = 0"
    and d: "d \<in> {0, 0x23, 0x2F, 0x3F}" "terminated (d # r)"
  shows "\<exists>mem'. xmlParse3986Authority (Some u) (user_text us @ h @ port_suffix port @ d # r) mem =
     Some (0, Some (u\<lparr>u_user := cptr us, u_authority := None, u_server := Some (h @ [0]), u_port := port\<rparr>), d # r, mem') \<and> mem_ok mem'"
proof -
  let ?t = "h @ port_suffix port @ d # r"
  let ?u = "u\<lparr>u_user := cptr us\<rparr>"
  let ?v = "?u\<lparr>u_authority := None, u_server := Some (h @ [0])\<rparr>"
  obtain e s where e: "port_suffix port @ d # r = e # s" "e \<in> {0, 0x23, 0x2F, 0x3A, 0x3F}" "terminated (e # s)"
    "e = 0x3A \<longleftrightarrow> port > 0" using d by (cases "port > 0") (auto simp: port_suffix_def)
  have host: "xmlParse3986Host (Some ?u) ?t m = Some (0, Some ?v, e # s, tl m)" if "mem_ok m" for m
    using parse_host [OF that _ h e(2,3), of ?u] assms(2) e(1) by simp
  have tail: "(if e = 0x3A then do { (ret, uri, cur, mem) \<leftarrow> xmlParse3986Port (Some ?v) s m; Some (ret, uri, if ret \<noteq> 0 then str else cur, mem) }
      else Some (0, Some ?v, e # s, m)) = Some (0, Some (?v\<lparr>u_port := port\<rparr>), d # r, m)" for m str
  proof (cases "port > 0")
    case True
    then show ?thesis using e parse_port [OF port(1,2) d(1), of ?v r m] by (auto simp: port_suffix_def)
  next
    case False
    then have "?v\<lparr>u_port := port\<rparr> = ?v" using port by (cases u) simp
    then show ?thesis using False e by (auto simp: port_suffix_def)
  qed
  show ?thesis
  proof (cases us)
    case None
    then have "?u = u" using assms(3) by (cases u) simp
    then show ?thesis
      using None parse_no_user [OF assms(2) h(2) d(1), of port r mem] host [OF assms(1)] tail assms(1)
      by (cases "e = 0x3A") (simp_all add: xmlParse3986Authority_def user_text_def)
  next
    case (Some us')
    then have "us' \<noteq> []" using assms(4) by auto
    then show ?thesis
      using Some parse_user [OF assms(1,2), of us' ?t] host [of "tl mem"] tail assms(1)
      by (cases "e = 0x3A") (simp_all add: xmlParse3986Authority_def user_text_def)
  qed
qed

section \<open>The round trip\<close>

text \<open>
  A canonical structure: a scheme, a server, and optional user, port, absolute path,
  query and fragment, none of them empty.  The query is kept in its escaped and its plain
  form; user, path, query and fragment may contain any bytes.
\<close>

definition canonical_uri ::
    "u8 list \<Rightarrow> u8 list option \<Rightarrow> u8 list \<Rightarrow> int \<Rightarrow> u8 list list \<Rightarrow> u8 list option \<Rightarrow> u8 list option \<Rightarrow> xmlURI" where
  "canonical_uri sc us h port segs q f =
     \<lparr>u_scheme = Some (sc @ [0]), u_opaque = None, u_authority = None, u_server = Some (h @ [0]), u_user = cptr us,
      u_port = port, u_path = (if segs = [] then None else Some (abs_path segs @ [0])), u_query = cptr q,
      u_fragment = cptr f, u_cleanup = 0, u_query_raw = cptr (map_option (escape_bytes query_char) q)\<rparr>"

definition plain_part :: "u8 list option \<Rightarrow> bool" where
  "plain_part p \<longleftrightarrow> (case p of None \<Rightarrow> True | Some s \<Rightarrow> s \<noteq> [] \<and> cstring s)"

inductive canonical :: "xmlURI \<Rightarrow> bool" where
  "sc \<noteq> [] \<Longrightarrow> ISA_ALPHA (hd sc) \<Longrightarrow> list_all scheme_char sc \<Longrightarrow> h \<noteq> [] \<Longrightarrow> list_all host_char h \<Longrightarrow>
   0 \<le> port \<Longrightarrow> port < 10 ^ 9 \<Longrightarrow> list_all (\<lambda>s. cstring s \<and> 0x2F \<notin> set s) segs \<Longrightarrow>
   plain_part us \<Longrightarrow> plain_part q \<Longrightarrow> plain_part f \<Longrightarrow>
   drive_path (canonical_uri sc us h port segs q f) (abs_path segs @ [0]) \<noteq> Some True \<Longrightarrow>
   canonical (canonical_uri sc us h port segs q f)"

lemma cstring_bytes: "cstring s \<Longrightarrow> cstring (escape_bytes keep s)"
  using pct_encode_hex is_hex_0
  by (induction s) (auto simp: cstring_def pct_encode_def, metis+)

lemma char_nonzero: "\<not> scheme_char 0" "\<not> host_char 0"
  by (simp_all add: scheme_char_def host_char_def ISA_STRICTLY_UNRESERVED_def ISA_SUB_DELIM_def ISA_ALPHA_def ISA_DIGIT_def)

lemma list_all_cstring: "list_all P s \<Longrightarrow> \<not> P 0 \<Longrightarrow> cstring s"
  by (auto simp: list_all_iff cstring_def)

lemma abs_path_cstring: "list_all (\<lambda>s. cstring s \<and> 0x2F \<notin> set s) segs \<Longrightarrow> cstring (abs_path segs)"
  by (induction segs) (auto simp: abs_path_def cstring_def)

lemma ctext_snoc [simp]: "cstring s \<Longrightarrow> ctext (s @ [0]) = s"
  using ctext_cstring [of s "[]"] by simp

lemma part_escape_text:
  "plain_part p \<Longrightarrow> opt_text (\<lambda>s. c # escape_text keep s) (cptr p) = part_text c keep p"
  by (cases p) (simp_all add: opt_text_def escape_text_def plain_part_def)

definition canonical_text ::
    "u8 list \<Rightarrow> u8 list option \<Rightarrow> u8 list \<Rightarrow> int \<Rightarrow> u8 list list \<Rightarrow> u8 list option \<Rightarrow> u8 list option \<Rightarrow> u8 list" where
  "canonical_text sc us h port segs q f =
     sc @ 0x3A # 0x2F # 0x2F # user_text us @ h @ port_suffix port @ escape_bytes path_char (abs_path segs) @
     part_text 0x3F query_char q @ part_text 0x23 uric_char f"

lemma uri_text_canonical:
  assumes "list_all scheme_char sc" "list_all host_char h" "0 \<le> port"
    and "list_all (\<lambda>s. cstring s \<and> 0x2F \<notin> set s) segs" "plain_part us" "plain_part q" "plain_part f"
    and "drive_path (canonical_uri sc us h port segs q f) (abs_path segs @ [0]) \<noteq> Some True"
  shows "uri_text False (canonical_uri sc us h port segs q f) = canonical_text sc us h port segs q f"
proof -
  let ?u = "canonical_uri sc us h port segs q f"
  have c: "cstring sc" "cstring h" "cstring (abs_path segs)"
    using list_all_cstring [OF assms(1)] list_all_cstring [OF assms(2)] char_nonzero abs_path_cstring [OF assms(4)] by auto
  have user: "opt_text (\<lambda>p. escape_text user_char p @ [0x40]) (cptr us) = user_text us"
    using assms(5) by (cases us) (simp_all add: opt_text_def user_text_def escape_text_def plain_part_def)
  have path: "opt_text (path_text ?u) (u_path ?u) = escape_bytes path_char (abs_path segs)"
  proof (cases "segs = []")
    case True
    then show ?thesis by (simp add: canonical_uri_def opt_text_def abs_path_def)
  next
    case False
    then have "u_path ?u = Some (abs_path segs @ [0])" by (simp add: canonical_uri_def)
    then show ?thesis using assms(8) c(3) by (simp add: opt_text_def path_text_def escape_text_def)
  qed
  have query: "query_text ?u = part_text 0x3F query_char q"
    using assms(6) cstring_bytes [of "the q" query_char]
    by (cases q) (simp_all add: query_text_def canonical_uri_def opt_text_def plain_part_def)
  have auth: "authority_text False ?u = 0x2F # 0x2F # user_text us @ h @ port_suffix port"
    using user c(2) by (simp add: authority_text_def canonical_uri_def opt_text_def port_text_def port_suffix_def Let_def)
  show ?thesis
    unfolding uri_text_def auth path query using c(1) part_escape_text [OF assms(7), of "0x23" uric_char]
    by (simp add: canonical_uri_def canonical_text_def opt_text_def)
qed

lemma tail_head:
  obtains d r where "part_text 0x3F query_char q @ part_text 0x23 uric_char f @ [0] = d # r" "d \<in> {0, 0x23, 0x3F}" "terminated (d # r)"
proof -
  let ?t = "part_text 0x3F query_char q @ part_text 0x23 uric_char f @ [0]"
  have "?t = hd ?t # tl ?t" "hd ?t \<in> {0, 0x23, 0x3F}" by (cases q; cases f; simp)+
  moreover have "terminated ?t" by simp
  ultimately show ?thesis using that by metis
qed

lemma path_head:
  assumes "d \<in> {0, 0x23, 0x3F}" "terminated (d # r)"
  obtains d' r' where "escape_bytes path_char (abs_path segs) @ d # r = d' # r'" "d' \<in> {0, 0x23, 0x2F, 0x3F}" "terminated (d' # r')"
proof (cases segs)
  case Nil
  then show ?thesis using that [of d r] assms by (auto simp: abs_path_def)
next
  case (Cons s ss)
  have "path_char 0x2F" by (simp add: path_char_def)
  then show ?thesis using that [of "0x2F"] Cons assms(2) by (simp add: abs_path_def)
qed

lemma parse_canonical:
  assumes "mem_ok mem" and sc: "sc \<noteq> []" "ISA_ALPHA (hd sc)" "list_all scheme_char sc" and h: "h \<noteq> []" "list_all host_char h"
    and port: "0 \<le> port" "port < 10 ^ 9" and segs: "list_all (\<lambda>s. cstring s \<and> 0x2F \<notin> set s) segs"
    and parts: "plain_part us" "plain_part q" "plain_part f"
  shows "\<exists>mem'. xmlParseURISafe (Some (canonical_text sc us h port segs q f @ [0])) mem =
     Some (0, Some (canonical_uri sc us h port segs q f), mem')"
proof -
  let ?u0 = "\<lparr>u_scheme = None, u_opaque = None, u_authority = None, u_server = None, u_user = None, u_port = 0,
    u_path = None, u_query = None, u_fragment = None, u_cleanup = 0, u_query_raw = None\<rparr>"
  let ?u1 = "?u0\<lparr>u_scheme := Some (sc @ [0])\<rparr>"
  let ?u2 = "?u1\<lparr>u_user := cptr us, u_authority := None, u_server := Some (h @ [0]), u_port := port\<rparr>"
  let ?u3 = "?u2\<lparr>u_path := if segs = [] then None else Some (abs_path segs @ [0])\<rparr>"
  let ?qf = "part_text 0x3F query_char q @ part_text 0x23 uric_char f @ [0]"
  obtain d r where d: "?qf = d # r" "d \<in> {0, 0x23, 0x3F}" "terminated (d # r)" by (rule tail_head)
  obtain d' r' where d': "escape_bytes path_char (abs_path segs) @ d # r = d' # r'" "d' \<in> {0, 0x23, 0x2F, 0x3F}" "terminated (d' # r')"
    using d(2,3) by (rule path_head)
  let ?auth = "user_text us @ h @ port_suffix port @ d' # r'"
  have tx: "canonical_text sc us h port segs q f @ [0] = sc @ 0x3A # 0x2F # 0x2F # ?auth"
    using d(1) d'(1) by (simp add: canonical_text_def)
  have ne: "us \<noteq> Some []" "q \<noteq> Some []" "f \<noteq> Some []" using parts by (auto simp: plain_part_def)
  have m1: "mem_ok (tl mem)" "mem_ok (tl (tl mem))" using assms(1) by simp_all
  have 1: "xmlParse3986Scheme (Some ?u0) (sc @ 0x3A # 0x2F # 0x2F # ?auth) (tl mem) = Some (0, Some ?u1, 0x3A # 0x2F # 0x2F # ?auth, tl (tl mem))"
    using parse_scheme [OF m1(1) sc(1,2), of ?u0] sc(3) by (simp add: list_all_iff)
  obtain mem2 where 2: "xmlParse3986Authority (Some ?u1) ?auth (tl (tl mem)) = Some (0, Some ?u2, d' # r', mem2)" "mem_ok mem2"
    using parse_authority [OF m1(2), of ?u1 us h port d' r'] ne(1) h port d'(2,3) by (auto simp: list_all_iff INT_MAX_def)
  obtain mem3 where 3: "xmlParse3986PathAbEmpty (Some ?u2) (d' # r') mem2 = Some (0, Some ?u3, d # r, mem3)" "mem_ok mem3"
    using parse_path [OF 2(2) _ d(2), of ?u2 segs r] segs d'(1) 2(2) by (cases "segs = []") (auto simp: list_all_iff)
  obtain mem4 where 4: "query_fragment (Some ?u3) (d # r) mem3 = Some (0, Some (canonical_uri sc us h port segs q f), mem4)"
    using parse_query_fragment [OF 3(2), of ?u3 q f] ne d(1) by (auto simp: canonical_uri_def)
  have "xmlParse3986HierPart (Some ?u1) (0x2F # 0x2F # ?auth) (tl (tl mem)) = Some (0, Some ?u3, d # r, mem3)"
    using 2(1) 3(1) by (simp add: xmlParse3986HierPart_def)
  then have "xmlParse3986URI (Some ?u0) (sc @ 0x3A # 0x2F # 0x2F # ?auth) (tl mem) = Some (0, Some (canonical_uri sc us h port segs q f), mem4)"
    using 1 4 by (simp add: xmlParse3986URI_def)
  then show ?thesis
    unfolding tx using assms(1)
    by (simp add: xmlParseURISafe_def xmlCreateURI_def xmlParse3986URIReference_def xmlCleanURI_def PORT_EMPTY_def)
qed

text \<open>The parser as decoder of the serialised text; the contract holds for canonical structures.\<close>

definition uri_decode :: "u8 list \<Rightarrow> xmlURI option" where
  "uri_decode s = (case xmlParseURISafe (Some s) [] of Some (ret, uri, mem) \<Rightarrow> uri | None \<Rightarrow> None)"

lemma canonical_parse:
  assumes "canonical u" "mem_ok mem"
  shows "\<exists>mem'. xmlParseURISafe (Some (uri_text False u @ [0])) mem = Some (0, Some u, mem')"
  using assms(1)
proof cases
  case (1 sc h port segs us q f)
  then show ?thesis
    using uri_text_canonical [of sc h port segs us q f] parse_canonical [OF assms(2), of sc h port segs us q f] by simp
qed

interpretation uri_text: codec canonical "\<lambda>u. uri_text False u @ [0]" uri_decode
  by unfold_locales (use canonical_parse [of _ "[]"] in \<open>fastforce simp: uri_decode_def mem_ok_def\<close>)

lemma canonical_safe: "canonical u \<Longrightarrow> uri_safe u \<and> u_port u < 10 ^ 9"
proof (induction rule: canonical.induct)
  case (1 sc h port segs us q f)
  have "ptr_ok (cptr p)" for p by (cases p) simp_all
  then show ?case using 1 by (simp add: canonical_uri_def uri_safe_def PORT_EMPTY_SERVER_def INT_MAX_def)
qed

text \<open>
  C18 For a canonical structure and enough memory \<open>xmlSaveUri\<close> returns a text
  that \<open>xmlParseURISafe\<close> reads back as exactly this structure, bytes that had to be
  escaped included; so different canonical structures are never written as the same text.
\<close>

theorem xml_uri_roundtrip:
  assumes "canonical u" "mem_ok mem" "int (length (uri_text False u)) + 11 \<le> MAX_URI_LENGTH"
  shows "(\<exists>s mem' mem''. xmlSaveUri (Some u) mem = Some (Some s, mem') \<and> xmlParseURISafe (Some s) mem' = Some (0, Some u, mem'')) \<and>
    (canonical v \<and> uri_text False v = uri_text False u \<longrightarrow> v = u)"
proof -
  have s: "uri_safe u" "u_port u < 10 ^ 9" using canonical_safe [OF assms(1)] by auto
  then obtain val mem' where v: "xmlSaveUri (Some u) mem = Some (val, mem')" "set mem' \<subseteq> set mem"
    "\<forall>v. val = Some v \<longrightarrow> (\<exists>ct\<in>cuts u. v = uri_text ct u @ [0])"
    "val = None \<longrightarrow> False \<in> set mem \<or> (\<exists>ct\<in>cuts u. int (length (uri_text ct u)) + 11 > MAX_URI_LENGTH)"
    using xmlSaveUri_spec [OF s(1)] by blast
  have "cuts u = {False}" using s(2) by (auto simp: cuts_def)
  then have "val = Some (uri_text False u @ [0])" using v(3,4) assms(2,3) by (cases val) (auto simp: mem_ok_def)
  moreover have "mem_ok mem'" using v(2) assms(2) by (auto simp: mem_ok_def)
  ultimately show ?thesis
    using v(1) canonical_parse [OF assms(1), of mem'] uri_text.enc_inj [of v u] assms(1) by fastforce
qed

theorem xml_uri_roundtrip_witness:
  "\<exists>s mem' mem''. xmlSaveUri (Some (canonical_uri [0x68] (Some [0x75, 0x20]) [0x61] 80 [[0x62], [0x25, 0xFF]] (Some [0x71, 0x5B]) None)) [] =
       Some (Some s, mem') \<and>
     xmlParseURISafe (Some s) mem' =
       Some (0, Some (canonical_uri [0x68] (Some [0x75, 0x20]) [0x61] 80 [[0x62], [0x25, 0xFF]] (Some [0x71, 0x5B]) None), mem'')"
proof -
  let ?u = "canonical_uri [0x68] (Some [0x75, 0x20]) [0x61] 80 [[0x62], [0x25, 0xFF]] (Some [0x71, 0x5B]) None"
  have "ISA_ALPHA 0x68" "scheme_char 0x68" "host_char 0x61" by code_simp+
  moreover have "drive_path ?u (abs_path [[0x62], [0x25, 0xFF]] @ [0]) = Some False" by code_simp
  ultimately have "canonical ?u" by (intro canonical.intros) (simp_all add: plain_part_def cstring_def)
  moreover have "int (length (uri_text False ?u)) + 11 \<le> MAX_URI_LENGTH" by code_simp
  ultimately show ?thesis using xml_uri_roundtrip [of ?u "[]"] by (simp add: mem_ok_def)
qed

end
