(* ===== verification/Xml_Robin.thy ===== *)
theory Xml_Robin
  imports Prelude "HOL-Library.Monad_Syntax" "HOL-Library.Multiset"
begin

text \<open>
  The open addressing with linear probing and Robin Hood reordering that the hash tables
  (\<open>src/testbed/libxml2/hash.c\<close>) and the dictionaries (\<open>dict.c\<close>) of libxml2 share: the two
  files contain the same loops over different entries.  The loops are parametrised by the
  field \<open>hashValue\<close> of an entry, \<open>hv\<close>, whose value 0 marks an empty slot.

  A table is the list of its slots; a pointer to an entry is its index.  A read or a
  \<open>memmove\<close> outside the table is \<open>None\<close>, and so is a probing loop that does not end.

  The invariant \<open>robin_hood\<close> bounds the displacement of an entry by that of the entry before
  it.  With it a search finds an entry exactly when there is one (\<open>searched_found\<close>), and
  inserting (\<open>inserted_robin_hood\<close>), removing with a backward shift (\<open>removed_robin_hood\<close>) and
  growing (\<open>grow_table_spec\<close>) keep it and change the multiset of the entries as they should.
\<close>


section \<open>The loops on the table\<close>

text \<open>\<open>memmove\<close> within the table; outside it is undefined.\<close>

definition memmove :: "'e list \<Rightarrow> nat \<Rightarrow> nat \<Rightarrow> nat \<Rightarrow> 'e list option" where
  "memmove T dst src n =
     (if dst + n \<le> length T \<and> src + n \<le> length T
      then Some (take dst T @ take n (drop src T) @ drop (dst + n) T) else None)"

text \<open>
  The search: \<open>i\<close> is the index of \<open>entry\<close>; \<open>matches\<close> is the comparison of the keys, which
  reads strings.
\<close>

partial_function (option) find_loop ::
    "('e \<Rightarrow> u32) \<Rightarrow> ('e \<Rightarrow> bool option) \<Rightarrow> 'e list \<Rightarrow> u32 \<Rightarrow> u32 \<Rightarrow> u32 \<Rightarrow> u32 \<Rightarrow> nat \<Rightarrow> (bool \<times> nat) option" where
  "find_loop hv matches T msk hashValue displ pos i = do {
     entry \<leftarrow> slot T i;
     m \<leftarrow> (if hv entry = hashValue then matches entry else Some False);
     if m then Some (True, i)
     else do {
       let displ = displ + 1;
       let pos = pos + 1;
       let i = (if pos AND msk = 0 then 0 else i + 1);
       entry \<leftarrow> slot T i;
       if hv entry \<noteq> 0 \<and> (pos - hv entry) AND msk \<ge> displ
       then find_loop hv matches T msk hashValue displ pos i
       else Some (False, i)
     }
   }"

definition find_entry ::
    "('e \<Rightarrow> u32) \<Rightarrow> ('e \<Rightarrow> bool option) \<Rightarrow> 'e list \<Rightarrow> u32 \<Rightarrow> u32 \<Rightarrow> u32 \<Rightarrow> (bool \<times> nat) option" where
  "find_entry hv matches T sz hashValue target = do {
     let msk = sz - 1;
     let pos = hashValue AND msk;
     entry \<leftarrow> slot T (unat pos);
     if hv entry \<noteq> 0 then find_loop hv matches T msk target 0 pos (unat pos) else Some (False, unat pos)
   }"

text \<open>\<open>while (entry->hashValue != 0) if (++entry >= end) entry = table;\<close>\<close>

partial_function (option) gap_loop :: "('e \<Rightarrow> u32) \<Rightarrow> 'e list \<Rightarrow> nat \<Rightarrow> nat option" where
  "gap_loop hv T i = do {
     entry \<leftarrow> slot T i;
     if hv entry \<noteq> 0 then gap_loop hv T (if i + 1 \<ge> length T then 0 else i + 1) else Some i
   }"

text \<open>Growing: the loop over the old entries.\<close>

fun grow_loop :: "('e \<Rightarrow> u32) \<Rightarrow> 'e list \<Rightarrow> u32 \<Rightarrow> nat \<Rightarrow> nat \<Rightarrow> 'e list \<Rightarrow> 'e list option" where
  "grow_loop hv old sz 0 j table = Some table"
| "grow_loop hv old sz (Suc k) j table = do {
     oldentry \<leftarrow> slot old j;
     table \<leftarrow> (if hv oldentry \<noteq> 0
              then do { i \<leftarrow> gap_loop hv table (unat (hv oldentry AND (sz - 1))); Some (table[i := oldentry]) }
              else Some table);
     grow_loop hv old sz k (if j + 1 \<ge> length old then 0 else j + 1) table
   }"

definition grow_table :: "('e \<Rightarrow> u32) \<Rightarrow> 'e \<Rightarrow> 'e list \<Rightarrow> u32 \<Rightarrow> 'e list option" where
  "grow_table hv zero old sz = do {
     let table = replicate (unat sz) zero;
     if old = [] then Some table
     else do { j \<leftarrow> gap_loop hv old 0; grow_loop hv old sz (length old) j table }
   }"

text \<open>Shifting the remainder of the probe sequence to the right to make room at \<open>i\<close>.\<close>

definition shift_right :: "('e \<Rightarrow> u32) \<Rightarrow> 'e list \<Rightarrow> nat \<Rightarrow> 'e list option" where
  "shift_right hv T i = do {
     entry \<leftarrow> slot T i;
     if hv entry \<noteq> 0
     then do {
       cur \<leftarrow> gap_loop hv T (if i + 1 \<ge> length T then 0 else i + 1);
       (T, cur) \<leftarrow>
         (if cur < i
          then do {
            T \<leftarrow> memmove T 1 0 cur;
            let cur = length T - 1;
            e \<leftarrow> slot T cur;
            Some (T[0 := e], cur)
          }
          else Some (T, cur));
       memmove T (i + 1) i (cur - i)
     }
     else Some T
   }"

text \<open>Removing: the end of the probe sequence, and the shift to the left.\<close>

partial_function (option) chain_end :: "('e \<Rightarrow> u32) \<Rightarrow> 'e list \<Rightarrow> u32 \<Rightarrow> u32 \<Rightarrow> nat \<Rightarrow> nat option" where
  "chain_end hv T msk pos cur = do {
     let nextpos = pos + 1;
     let nxt = (if nextpos AND msk = 0 then 0 else cur + 1);
     e \<leftarrow> slot T nxt;
     if hv e = 0 \<or> (hv e - nextpos) AND msk = 0 then Some cur
     else chain_end hv T msk nextpos nxt
   }"

definition shift_left :: "('e \<Rightarrow> u32) \<Rightarrow> ('e \<Rightarrow> 'e) \<Rightarrow> 'e list \<Rightarrow> u32 \<Rightarrow> nat \<Rightarrow> 'e list option" where
  "shift_left hv clear T sz entry = do {
     let msk = sz - 1;
     cur \<leftarrow> chain_end hv T msk (of_nat entry) entry;
     (T, i) \<leftarrow>
       (if cur < entry
        then do {
          T \<leftarrow> memmove T entry (entry + 1) (length T - (entry + 1));
          e \<leftarrow> slot T 0;
          Some (T[length T - 1 := e], 0)
        }
        else Some (T, entry));
     T \<leftarrow> memmove T i (i + 1) (cur - i);
     e \<leftarrow> slot T cur;
     Some (T[cur := clear e])
   }"

section \<open>Displacements\<close>

text \<open>Positions from \<open>p\<close> on around the table, and the displacement of an entry with hash \<open>h\<close> at position \<open>i\<close>.\<close>

definition hdist :: "nat \<Rightarrow> u32 \<Rightarrow> nat \<Rightarrow> nat" where
  "hdist n h i = nat ((int i - uint h) mod int n)"

abbreviation occ :: "('e \<Rightarrow> u32) \<Rightarrow> 'e list \<Rightarrow> nat \<Rightarrow> bool" where
  "occ hv T i \<equiv> hv (T ! (i mod length T)) \<noteq> 0"

definition displ :: "('e \<Rightarrow> u32) \<Rightarrow> 'e list \<Rightarrow> nat \<Rightarrow> nat" where
  "displ hv T i = hdist (length T) (hv (T ! (i mod length T))) i"

text \<open>
  The invariant: an entry that is not at its home follows an entry whose displacement is
  at most one less.
\<close>

definition robin_hood :: "('e \<Rightarrow> u32) \<Rightarrow> 'e list \<Rightarrow> bool" where
  "robin_hood hv T \<longleftrightarrow>
     (\<forall>i. occ hv T (Suc i) \<longrightarrow> displ hv T (Suc i) = 0 \<or> occ hv T i \<and> displ hv T (Suc i) \<le> Suc (displ hv T i))"

lemma hdist_mod: "0 < n \<Longrightarrow> hdist n h (i mod n) = hdist n h i"
  by (simp add: hdist_def of_nat_mod mod_diff_left_eq)

lemma displ_mod: "T \<noteq> [] \<Longrightarrow> displ hv T (i mod length T) = displ hv T i"
  by (simp add: displ_def hdist_mod)

lemma hdist_less: "0 < n \<Longrightarrow> hdist n h i < n"
  by (simp add: hdist_def nat_less_iff)

lemma hdist_Suc: "0 < n \<Longrightarrow> Suc (hdist n h i) < n \<Longrightarrow> hdist n h (Suc i) = Suc (hdist n h i)"
proof -
  assume n: "0 < n" "Suc (hdist n h i) < n"
  have "(int (Suc i) - uint h) mod int n = ((int i - uint h) mod int n + 1) mod int n"
    using mod_add_left_eq [of "int i - uint h" "int n" 1] by (simp add: add.commute add_diff_eq)
  also have "\<dots> = (int i - uint h) mod int n + 1" using n by (intro mod_pos_pos_trivial) (auto simp: hdist_def)
  finally show ?thesis using n by (simp add: hdist_def nat_add_distrib)
qed

lemma hdist_back: "0 < n \<Longrightarrow> hdist n h (Suc i) \<noteq> 0 \<Longrightarrow> hdist n h (Suc i) = Suc (hdist n h i)"
proof -
  assume n: "0 < n" "hdist n h (Suc i) \<noteq> 0"
  let ?a = "(int (Suc i) - uint h) mod int n"
  have a: "0 < ?a" using n by (simp add: hdist_def)
  have b: "?a < int n" using n(1) by (intro pos_mod_bound) simp
  have "(int i - uint h) mod int n = (?a - 1) mod int n"
    using mod_diff_left_eq [of "int (Suc i) - uint h" "int n" 1] by simp
  also have "\<dots> = ?a - 1" using a b by (intro mod_pos_pos_trivial) linarith+
  finally show ?thesis using a by (simp add: hdist_def nat_diff_distrib)
qed

lemma hdist_home: "0 < n \<Longrightarrow> d < n \<Longrightarrow> hdist n h (unat h mod n + d) = d"
proof -
  assume n: "0 < n" "d < n"
  have "(int (unat h mod n + d) - uint h) mod int n = int d mod int n"
    by (simp add: of_nat_mod mod_simps unsigned_of_nat) (metis (no_types, opaque_lifting) add.commute add_diff_cancel_right' mod_add_left_eq mod_diff_left_eq)
  then show ?thesis using n by (simp add: hdist_def)
qed

text \<open>Table sizes: the masks compute remainders.\<close>

definition table_size :: "u32 \<Rightarrow> nat \<Rightarrow> bool" where
  "table_size sz n \<longleftrightarrow> (\<exists>k\<le>31. n = 2 ^ k \<and> unat sz = n)"

lemma table_size_pos: "table_size sz n \<Longrightarrow> 0 < n \<and> n \<le> 2 ^ 31"
  unfolding table_size_def using power_increasing [of _ 31 "2::nat"] by fastforce

lemma and_size: "table_size sz n \<Longrightarrow> unat (p AND (sz - 1)) = unat p mod n"
proof -
  assume "table_size sz n"
  then obtain k where k: "k \<le> 31" "n = 2 ^ k" "unat sz = 2 ^ k" by (auto simp: table_size_def)
  have "sz = of_nat (unat sz)" by simp
  then have "sz = 2 ^ k" unfolding k(3) by simp
  then have "sz - 1 = mask k" by (simp add: mask_eq_exp_minus_1)
  then have "p AND (sz - 1) = take_bit k p" by (simp add: take_bit_eq_mask)
  then show ?thesis using k(2) unsigned_take_bit_eq [where 'a = nat, of k p] by (simp only: take_bit_eq_mod)
qed

lemma and_size_diff:
  assumes "table_size sz n"
  shows "unat ((p - h) AND (sz - 1)) = hdist n h (unat p)"
proof -
  obtain k where k: "k \<le> 31" "n = 2 ^ k" using assms by (auto simp: table_size_def)
  have "(2::int) ^ k dvd 2 ^ 32" using k(1) by (intro le_imp_power_dvd) simp
  then have "uint (p - h) mod 2 ^ k = (uint p - uint h) mod 2 ^ k"
    by (simp add: uint_word_ariths mod_mod_cancel)
  then have "int (unat (p - h) mod n) = (int (unat p) - uint h) mod int n" using k(2) by (simp add: of_nat_mod)
  then show ?thesis unfolding and_size [OF assms] hdist_def by linarith
qed

lemma home_iff:
  assumes "table_size sz n"
  shows "(h - p) AND (sz - 1) = 0 \<longleftrightarrow> hdist n h (unat p) = 0"
proof -
  have n: "0 < n" using table_size_pos [OF assms] by blast
  have "(h - p) AND (sz - 1) = 0 \<longleftrightarrow> unat ((h - p) AND (sz - 1)) = 0" by (simp add: unat_eq_0)
  also have "\<dots> \<longleftrightarrow> (int (unat h) - uint p) mod int n = 0"
    using n unfolding and_size_diff [OF assms] hdist_def by (simp add: order.antisym)
  also have "\<dots> \<longleftrightarrow> (int (unat p) - uint h) mod int n = 0"
    by (simp add: mod_eq_0_iff_dvd dvd_diff_commute)
  also have "\<dots> \<longleftrightarrow> hdist n h (unat p) = 0" using n unfolding hdist_def by (simp add: order.antisym)
  finally show ?thesis .
qed

section \<open>Searching\<close>

text \<open>The step from one slot to the next.\<close>

lemma unat32: "m < 2 ^ 32 \<Longrightarrow> unat (of_nat m :: u32) = m"
  by (simp add: unsigned_of_nat take_bit_nat_eq_self)

lemma next_slot:
  assumes "table_size sz n" "unat pos mod n = i" "unat pos + 1 < 2 ^ 32"
  shows "(if (pos + 1) AND (sz - 1) = 0 then 0 else i + 1) = Suc i mod n"
proof -
  have n: "0 < n" using table_size_pos assms(1) by blast
  have p: "unat (pos + 1) = Suc (unat pos)" using assms(3) by (simp add: unat_word_ariths)
  have "(pos + 1) AND (sz - 1) = 0 \<longleftrightarrow> unat ((pos + 1) AND (sz - 1)) = 0" by (simp add: unat_eq_0)
  also have "\<dots> \<longleftrightarrow> Suc (unat pos) mod n = 0" unfolding and_size [OF assms(1)] p ..
  finally show ?thesis using assms(2) mod_less_divisor [OF n, of "unat pos"] by (auto simp: mod_Suc)
qed

lemma wrap_slot: "i < n \<Longrightarrow> (if i + 1 \<ge> n then 0 else i + 1) = Suc i mod n"
  by (simp add: mod_Suc)

lemma slot_mod: "T \<noteq> [] \<Longrightarrow> slot T (i mod length T) = Some (T ! (i mod length T))"
  by (simp add: slot_def)

text \<open>What a search finds from displacement \<open>d\<close> on.\<close>

definition searched :: "('e \<Rightarrow> u32) \<Rightarrow> ('e \<Rightarrow> bool) \<Rightarrow> 'e list \<Rightarrow> nat \<Rightarrow> nat \<Rightarrow> bool \<Rightarrow> nat \<Rightarrow> bool" where
  "searched hv hit T p d found d' \<longleftrightarrow> d \<le> d' \<and> d' < length T \<and>
     (\<forall>t. d \<le> t \<and> t < d' \<longrightarrow> occ hv T (p + t) \<and> t \<le> displ hv T (p + t) \<and> \<not> hit (T ! ((p + t) mod length T))) \<and>
     (found \<longrightarrow> occ hv T (p + d') \<and> d' \<le> displ hv T (p + d') \<and> hit (T ! ((p + d') mod length T))) \<and>
     (\<not> found \<longrightarrow> \<not> occ hv T (p + d') \<or> displ hv T (p + d') < d')"

lemma searched_step:
  assumes "searched hv hit T p (Suc d) found d'" "occ hv T (p + d)" "d \<le> displ hv T (p + d)" "\<not> hit (T ! ((p + d) mod length T))"
  shows "searched hv hit T p d found d'"
proof -
  have "d = t \<or> Suc d \<le> t" if "d \<le> t" for t using that by linarith
  then show ?thesis using assms unfolding searched_def by (metis Suc_leD)
qed

lemma find_loop_searched:
  assumes sz: "table_size sz (length T)" and home: "p < length T"
    and safe: "\<forall>e\<in>set T. hv e = target \<longrightarrow> matches e \<noteq> None"
    and d: "d < length T" "occ hv T (p + d)" "d \<le> displ hv T (p + d)"
    and gap: "\<exists>t\<ge>d. t < length T \<and> \<not> occ hv T (p + t)"
  shows "\<exists>found d'. find_loop hv matches T (sz - 1) target (of_nat d) (of_nat (p + d)) ((p + d) mod length T) =
     Some (found, (p + d') mod length T) \<and> searched hv (\<lambda>e. hv e = target \<and> matches e = Some True) T p d found d'"
  using d gap
proof (induction "length T - d" arbitrary: d rule: less_induct)
  case less
  let ?n = "length T"
  let ?hit = "\<lambda>e. hv e = target \<and> matches e = Some True"
  let ?e = "T ! ((p + d) mod ?n)"
  have n: "0 < ?n" "?n \<le> 2 ^ 31" using table_size_pos [OF sz] by auto
  have e: "slot T ((p + d) mod ?n) = Some ?e" "?e \<in> set T" using n(1) by (simp_all add: slot_def)
  obtain m where m: "(if hv ?e = target then matches ?e else Some False) = Some m" "m \<longleftrightarrow> ?hit ?e"
    using safe e(2) by (cases "hv ?e = target") auto
  show ?case
  proof (cases m)
    case True
    then have "find_loop hv matches T (sz - 1) target (of_nat d) (of_nat (p + d)) ((p + d) mod ?n) = Some (True, (p + d) mod ?n)"
      using e(1) m(1) by (subst find_loop.simps) simp
    moreover have "searched hv ?hit T p d True d" using True m(2) less.prems by (auto simp: searched_def)
    ultimately show ?thesis by blast
  next
    case False
    have lt: "Suc d < ?n" using less.prems(2,4) by (metis Suc_lessI le_eq_less_or_eq less_trans_Suc)
    have small: "p + d + 1 < 2 ^ 32" "unat (of_nat (p + d) :: u32) = p + d" "unat (of_nat (Suc d) :: u32) = Suc d"
      using home less.prems(1) n(2) lt unat32 [of "p + d"] unat32 [of "Suc d"] by simp_all
    have words: "of_nat d + 1 = (of_nat (Suc d) :: u32)" "of_nat (p + d) + 1 = (of_nat (p + Suc d) :: u32)" by simp_all
    have pos: "unat (of_nat (p + Suc d) :: u32) = p + Suc d" using small(1) unat32 [of "p + Suc d"] by simp
    have i': "(if (of_nat (p + Suc d) :: u32) AND (sz - 1) = 0 then 0 else (p + d) mod ?n + 1) = (p + Suc d) mod ?n"
    proof -
      have "(if (of_nat (p + d) + 1 :: u32) AND (sz - 1) = 0 then 0 else (p + d) mod ?n + 1) = Suc ((p + d) mod ?n) mod ?n"
        by (rule next_slot [OF sz]) (simp_all only: small)
      then show ?thesis unfolding words(2) by (simp only: mod_Suc_eq add_Suc_right)
    qed
    let ?e' = "T ! ((p + Suc d) mod ?n)"
    have e': "slot T ((p + Suc d) mod ?n) = Some ?e'" using n(1) by (simp add: slot_def)
    have cond: "(of_nat (Suc d) :: u32) \<le> (of_nat (p + Suc d) - hv ?e') AND (sz - 1) \<longleftrightarrow> Suc d \<le> displ hv T (p + Suc d)"
      unfolding word_le_nat_alt and_size_diff [OF sz] pos small(3) displ_def ..
    have step: "find_loop hv matches T (sz - 1) target (of_nat d) (of_nat (p + d)) ((p + d) mod ?n) =
       (if hv ?e' \<noteq> 0 \<and> Suc d \<le> displ hv T (p + Suc d)
        then find_loop hv matches T (sz - 1) target (of_nat (Suc d)) (of_nat (p + Suc d)) ((p + Suc d) mod ?n)
        else Some (False, (p + Suc d) mod ?n))"
      by (subst find_loop.simps) (simp only: e(1) bind.bind_lunit m(1) Let_def False if_False words i' e' cond)
    have nohit: "\<not> ?hit ?e" using False m(2) by blast
    show ?thesis
    proof (cases "hv ?e' \<noteq> 0 \<and> Suc d \<le> displ hv T (p + Suc d)")
      case True
      have g: "\<exists>t\<ge>Suc d. t < ?n \<and> \<not> occ hv T (p + t)" using less.prems(2,4) by (metis Suc_leI le_neq_implies_less)
      have "length T - Suc d < length T - d" using lt by simp
      from less.hyps [OF this lt conjunct1 [OF True] conjunct2 [OF True] g] obtain found d' where ih:
        "find_loop hv matches T (sz - 1) target (of_nat (Suc d)) (of_nat (p + Suc d)) ((p + Suc d) mod ?n) = Some (found, (p + d') mod ?n)"
        "searched hv ?hit T p (Suc d) found d'"
        by (elim exE conjE)
      have "searched hv ?hit T p d found d'" using ih(2) less.prems(2,3) nohit by (rule searched_step)
      then show ?thesis unfolding step if_P [OF True] ih(1) by (intro exI [of _ found] exI [of _ d'] conjI refl)
    next
      case stop: False
      then have "searched hv ?hit T p (Suc d) False (Suc d)" using lt by (auto simp: searched_def)
      then have "searched hv ?hit T p d False (Suc d)" using less.prems(2,3) nohit by (rule searched_step)
      then show ?thesis unfolding step if_not_P [OF stop] by (intro exI [of _ False] exI [of _ "Suc d"] conjI refl)
    qed
  qed
qed

lemma find_entry_searched:
  assumes sz: "table_size sz (length T)" and safe: "\<forall>e\<in>set T. hv e = target \<longrightarrow> matches e \<noteq> None"
    and gap: "i < length T" "hv (T ! i) = 0"
  obtains found d' where "find_entry hv matches T sz hashValue target = Some (found, (unat hashValue mod length T + d') mod length T)"
    "searched hv (\<lambda>e. hv e = target \<and> matches e = Some True) T (unat hashValue mod length T) 0 found d'"
proof -
  let ?n = "length T"
  let ?p = "unat hashValue mod ?n"
  let ?hit = "\<lambda>e. hv e = target \<and> matches e = Some True"
  have n: "0 < ?n" using gap by auto
  have p: "unat (hashValue AND (sz - 1)) = ?p" "?p < ?n" using and_size [OF sz] n by simp_all
  have slot: "slot T ?p = Some (T ! ?p)" using p(2) by (simp add: slot_def)
  show ?thesis
  proof (cases "hv (T ! ?p) = 0")
    case True
    then have "find_entry hv matches T sz hashValue target = Some (False, (?p + 0) mod ?n)"
      using slot p n by (simp add: find_entry_def Let_def)
    moreover have "searched hv ?hit T ?p 0 False 0" using True p(2) n by (simp add: searched_def)
    ultimately show ?thesis by (rule that)
  next
    case False
    have g: "\<exists>t\<ge>0. t < ?n \<and> \<not> occ hv T (?p + t)"
    proof (intro exI [of _ "(i + ?n - ?p) mod ?n"] conjI)
      have "(?p + (i + ?n - ?p) mod ?n) mod ?n = i" using gap(1) p(2) by (simp add: mod_add_right_eq)
      then show "\<not> occ hv T (?p + (i + ?n - ?p) mod ?n)" using gap(2) by simp
    qed (use n in simp_all)
    have w: "hashValue AND (sz - 1) = of_nat ?p" using p(1) by (metis of_nat_unat ucast_id)
    obtain found d' where "find_loop hv matches T (sz - 1) target (of_nat 0) (of_nat (?p + 0)) ((?p + 0) mod ?n) = Some (found, (?p + d') mod ?n)"
      and s: "searched hv ?hit T ?p 0 found d'"
      using find_loop_searched [OF sz p(2) safe n _ _ g] False p(2) by auto
    then have "find_entry hv matches T sz hashValue target = Some (found, (?p + d') mod ?n)"
      using slot p False w by (simp add: find_entry_def Let_def)
    then show ?thesis using s by (rule that)
  qed
qed

text \<open>The chain of an entry: the slots from its home to it are occupied.\<close>

lemma robin_hoodD:
  "robin_hood hv T \<Longrightarrow> occ hv T (Suc i) \<Longrightarrow> 0 < displ hv T (Suc i) \<Longrightarrow> occ hv T i \<and> displ hv T (Suc i) \<le> Suc (displ hv T i)"
  by (auto simp: robin_hood_def)

lemma chain_back:
  assumes "robin_hood hv T" "occ hv T (p + d)" "d \<le> displ hv T (p + d)" "t \<le> d"
  shows "occ hv T (p + t) \<and> t \<le> displ hv T (p + t)"
  using assms(4)
proof (induction rule: inc_induct)
  case base
  then show ?case using assms(2,3) by simp
next
  case (step m)
  then show ?case using robin_hoodD [OF assms(1), of "p + m"] by auto
qed

lemma displ_home:
  assumes "i < length T"
  shows "(unat (hv (T ! i)) mod length T + displ hv T i) mod length T = i"
proof -
  let ?n = "int (length T)" and ?h = "uint (hv (T ! i))"
  have nn: "0 \<le> (int i - ?h) mod ?n" using assms by (intro pos_mod_sign) auto
  have "(?h mod ?n + (int i - ?h) mod ?n) mod ?n = int i mod ?n" by (simp add: mod_add_eq)
  then have "int ((unat (hv (T ! i)) mod length T + displ hv T i) mod length T) = int i"
    using assms nn by (simp add: displ_def hdist_def of_nat_mod)
  then show ?thesis by simp
qed

text \<open>A search finds the matching entry exactly when there is one.\<close>

lemma searched_found:
  assumes rh: "robin_hood hv T" and s: "searched hv hit T (unat h mod length T) 0 found d'"
    and hash: "\<forall>e\<in>set T. hit e \<longrightarrow> hv e \<noteq> 0 \<and> unat (hv e) mod length T = unat h mod length T"
  shows "found \<longleftrightarrow> (\<exists>e\<in>set T. hit e)"
proof
  assume found
  then have "hit (T ! ((unat h mod length T + d') mod length T))" "0 < length T" using s by (auto simp: searched_def)
  then show "\<exists>e\<in>set T. hit e" using nth_mem mod_less_divisor by blast
next
  assume "\<exists>e\<in>set T. hit e"
  then obtain i where i: "i < length T" "hit (T ! i)" by (auto simp: in_set_conv_nth)
  let ?p = "unat h mod length T" and ?d = "displ hv T i"
  have h: "hv (T ! i) \<noteq> 0" "unat (hv (T ! i)) mod length T = ?p" using hash i by auto
  have at: "(?p + ?d) mod length T = i" using displ_home [of i T hv] i(1) h(2) by simp
  have ne: "T \<noteq> []" using i(1) by auto
  have "displ hv T (?p + ?d) = ?d" using displ_mod [OF ne, of hv "?p + ?d"] unfolding at by (rule sym)
  then have chain: "t \<le> ?d \<Longrightarrow> occ hv T (?p + t) \<and> t \<le> displ hv T (?p + t)" for t
    using chain_back [OF rh, of ?p ?d t] at h(1) i(1) by simp
  have "d' \<le> ?d"
  proof (rule ccontr)
    assume "\<not> d' \<le> ?d"
    then have "\<not> hit (T ! ((?p + ?d) mod length T))" using s by (simp add: searched_def)
    then show False using at i(2) by simp
  qed
  then show found using s chain [of d'] by (auto simp: searched_def)
qed

section \<open>Making room\<close>

lemma gap_loop_spec:
  assumes "T \<noteq> []" "\<forall>t<L. occ hv T (i + t)" "\<not> occ hv T (i + L)"
  shows "gap_loop hv T (i mod length T) = Some ((i + L) mod length T)"
  using assms(2,3)
proof (induction L arbitrary: i)
  case 0
  then show ?case using assms(1) by (subst gap_loop.simps) (simp add: slot_def)
next
  case (Suc L)
  let ?n = "length T"
  have n: "0 < ?n" using assms(1) by simp
  have "gap_loop hv T (Suc i mod ?n) = Some ((Suc i + L) mod ?n)"
    using Suc.prems by (intro Suc.IH) (auto dest: spec [of _ "Suc _"])
  moreover have "gap_loop hv T (i mod ?n) = gap_loop hv T (Suc i mod ?n)"
    using n spec [OF Suc.prems(1), of 0] wrap_slot [of "i mod ?n" ?n]
    by (subst gap_loop.simps) (simp add: slot_def mod_Suc_eq)
  ultimately show ?case by simp
qed

lemma gap_exists:
  assumes "i < length T" "hv (T ! i) = 0"
  obtains L where "L < length T" "\<forall>t<L. occ hv T (j + t)" "\<not> occ hv T (j + L)"
proof -
  let ?n = "length T"
  have n: "0 < ?n" using assms(1) by auto
  let ?t = "(i + (?n - j mod ?n)) mod ?n"
  have "(j + ?t) mod ?n = (j mod ?n + (i + (?n - j mod ?n))) mod ?n" by (simp add: mod_simps)
  also have "j mod ?n + (i + (?n - j mod ?n)) = i + ?n" using mod_less_divisor [OF n, of j] by linarith
  also have "(i + ?n) mod ?n = i" using assms(1) by simp
  finally have "\<not> occ hv T (j + ?t)" using assms(2) by simp
  then have ex: "\<exists>t. \<not> occ hv T (j + t)" by blast
  let ?L = "LEAST t. \<not> occ hv T (j + t)"
  have "\<not> occ hv T (j + ?L)" using ex by (rule LeastI_ex)
  moreover have "\<forall>t<?L. occ hv T (j + t)" using not_less_Least by blast
  moreover have "?L < ?n"
  proof (rule le_less_trans)
    show "?L \<le> ?t" by (rule Least_le) (fact \<open>\<not> occ hv T (j + ?t)\<close>)
    show "?t < ?n" by (rule mod_less_divisor [OF n])
  qed
  ultimately show ?thesis by (intro that)
qed

text \<open>The effect of a shift to the right, seen from the slot that is made free.\<close>

definition shifted_right :: "'e list \<Rightarrow> nat \<Rightarrow> nat \<Rightarrow> 'e list \<Rightarrow> bool" where
  "shifted_right T i L T' \<longleftrightarrow> length T' = length T \<and>
     (\<forall>t<length T. 0 < t \<longrightarrow> T' ! ((i + t) mod length T) = (if t \<le> L then T ! ((i + t - 1) mod length T) else T ! ((i + t) mod length T)))"

lemma memmove_nth:
  assumes "memmove T dst src k = Some T'"
  shows "length T' = length T" "j < length T \<Longrightarrow> T' ! j = (if dst \<le> j \<and> j < dst + k then T ! (src + (j - dst)) else T ! j)"
proof -
  have b: "dst + k \<le> length T" "src + k \<le> length T" and T': "T' = take dst T @ take k (drop src T) @ drop (dst + k) T"
    using assms by (auto simp: memmove_def split: if_splits)
  show len: "length T' = length T" using b by (simp add: T')
  assume j: "j < length T"
  consider "j < dst" | "dst \<le> j" "j < dst + k" | "dst + k \<le> j" by linarith
  then show "T' ! j = (if dst \<le> j \<and> j < dst + k then T ! (src + (j - dst)) else T ! j)"
    using b j by cases (auto simp: T' nth_append)
qed

lemma shift_right_spec:
  assumes "i < length T" "L < length T" "\<forall>t<L. occ hv T (i + t)" "\<not> occ hv T (i + L)"
  shows "\<exists>T'. shift_right hv T i = Some T' \<and> shifted_right T i L T'"
proof (cases "L = 0")
  case True
  then show ?thesis using assms by (auto simp: shift_right_def slot_def shifted_right_def)
next
  case False
  let ?n = "length T" and ?c = "(i + L) mod length T"
  have "gap_loop hv T (Suc i mod ?n) = Some ((Suc i + (L - 1)) mod ?n)"
  proof (rule gap_loop_spec)
    show "\<forall>t<L - 1. occ hv T (Suc i + t)"
    proof (intro allI impI)
      fix t assume "t < L - 1"
      then have "Suc t < L" by linarith
      then show "occ hv T (Suc i + t)" using assms(3) by (metis add_Suc_shift)
    qed
  qed (use assms False in auto)
  then have gap: "gap_loop hv T (if i + 1 \<ge> ?n then 0 else i + 1) = Some ?c" using assms(1) False wrap_slot [of i ?n] by simp
  have slot: "slot T i = Some (T ! i)" "hv (T ! i) \<noteq> 0" using assms(1,3) False by (auto simp: slot_def dest: spec [of _ 0])
  show ?thesis
  proof (cases "i + L < ?n")
    case True
    then have c: "?c = i + L" by simp
    have "memmove T (i + 1) i L \<noteq> None" using True by (simp add: memmove_def)
    then obtain T' where T': "memmove T (i + 1) i L = Some T'" by blast
    have "shift_right hv T i = Some T'" using slot gap c T' by (simp add: shift_right_def)
    moreover have "shifted_right T i L T'"
      unfolding shifted_right_def
    proof (intro conjI allI impI memmove_nth(1) [OF T'])
      fix t assume t: "t < ?n" "0 < t"
      show "T' ! ((i + t) mod ?n) = (if t \<le> L then T ! ((i + t - 1) mod ?n) else T ! ((i + t) mod ?n))"
      proof (cases "i + t < ?n")
        case inside: True
        then have "T' ! (i + t) = (if t \<le> L then T ! (i + t - 1) else T ! (i + t))"
          using memmove_nth(2) [OF T' inside] t by auto
        then show ?thesis using inside by simp
      next
        case False
        then have "(i + t) mod ?n = i + t - ?n" "i + t - ?n < i" "L < t" using t True assms(1) by (auto simp: le_mod_geq)
        then show ?thesis using memmove_nth(2) [OF T', of "i + t - ?n"] assms(1) by simp
      qed
    qed
    ultimately show ?thesis by blast
  next
    case wrap: False
    define k where "k = i + L - ?n"
    have c: "?c = k" "k < i" "i + L = k + ?n" using wrap assms(1,2) by (auto simp: k_def mod_if)
    have "memmove T 1 0 k \<noteq> None" using c(2) assms(1) by (simp add: memmove_def)
    then obtain T1 where T1: "memmove T 1 0 k = Some T1" by blast
    note m1 = memmove_nth [OF T1]
    have ne: "T \<noteq> []" using assms(1) by auto
    let ?T2 = "T1[0 := T ! (?n - 1)]"
    have T1_last: "T1 ! (?n - 1) = T ! (?n - 1)" using m1(2) [of "?n - 1"] c(2) assms(1) by auto
    have "memmove ?T2 (i + 1) i (?n - 1 - i) \<noteq> None" using m1(1) assms(1) by (simp add: memmove_def)
    then obtain T' where T': "memmove ?T2 (i + 1) i (?n - 1 - i) = Some T'" by blast
    note m2 = memmove_nth [OF T']
    have "shift_right hv T i = Some T'"
      using slot gap c T1 T1_last T' m1(1) assms(1) by (auto simp: shift_right_def slot_def Let_def)
    moreover have "shifted_right T i L T'"
      unfolding shifted_right_def
    proof (intro conjI allI impI)
      show "length T' = ?n" using m1(1) m2(1) by simp
      fix t assume t: "t < ?n" "0 < t"
      show "T' ! ((i + t) mod ?n) = (if t \<le> L then T ! ((i + t - 1) mod ?n) else T ! ((i + t) mod ?n))"
      proof (cases "i + t < ?n")
        case True
        then have "T' ! (i + t) = T1 ! (i + t - 1)" using m2(2) [of "i + t"] m1(1) c(2) t by (auto simp: nth_list_update)
        also have "\<dots> = T ! (i + t - 1)" using m1(2) [of "i + t - 1"] True c(2) t by auto
        finally show ?thesis using True wrap by simp
      next
        case False
        define j where "j = i + t - ?n"
        have j: "(i + t) mod ?n = j" "j < i" "i + t = j + ?n" using False t assms(1) by (auto simp: j_def mod_if)
        have "T' ! j = ?T2 ! j" using m2(2) [of j] j(2) m1(1) assms(1) by simp
        also have "\<dots> = (if j \<le> k then T ! ((i + t - 1) mod ?n) else T ! j)"
          using m1(2) [of j] m1(1) ne j assms(1) c(2) by (cases j) (auto simp: nth_list_update)
        finally show ?thesis using j c(3) by simp
      qed
    qed
    ultimately show ?thesis by blast
  qed
qed


section \<open>Inserting an entry\<close>

text \<open>The multiset of the entries that occupy a slot.\<close>

definition entries :: "('e \<Rightarrow> u32) \<Rightarrow> 'e list \<Rightarrow> 'e multiset" where
  "entries hv T = {#e \<in># mset T. hv e \<noteq> 0#}"

lemma occ_cong: "length T = length U \<Longrightarrow> T ! (i mod length T) = U ! (j mod length T) \<Longrightarrow> occ hv T i = occ hv U j"
  by simp

lemma robin_hoodI:
  assumes "T \<noteq> []"
    and "\<And>t. t < length T \<Longrightarrow> occ hv T (i + Suc t) \<Longrightarrow> displ hv T (i + Suc t) \<noteq> 0 \<Longrightarrow>
      occ hv T (i + t) \<and> displ hv T (i + Suc t) \<le> Suc (displ hv T (i + t))"
  shows "robin_hood hv T"
  unfolding robin_hood_def
proof (intro allI impI)
  fix j
  let ?n = "length T"
  define t where "t = (j + (?n - i mod ?n)) mod ?n"
  have n: "0 < ?n" using assms(1) by simp
  have "(i + t) mod ?n = (i mod ?n + (j + (?n - i mod ?n))) mod ?n" by (simp add: t_def mod_simps)
  also have "i mod ?n + (j + (?n - i mod ?n)) = j + ?n" using mod_less_divisor [OF n, of i] by linarith
  finally have eq: "(i + t) mod ?n = j mod ?n" "(i + Suc t) mod ?n = Suc j mod ?n" by (simp_all, metis mod_Suc_eq)
  then have "displ hv T (i + t) = displ hv T j" "displ hv T (i + Suc t) = displ hv T (Suc j)"
    using displ_mod [OF assms(1)] by metis+
  moreover assume "occ hv T (Suc j)"
  ultimately show "displ hv T (Suc j) = 0 \<or> occ hv T j \<and> displ hv T (Suc j) \<le> Suc (displ hv T j)"
    using assms(2) [of t] eq mod_less_divisor [OF n] by (auto simp: t_def)
qed

lemma displ_gap:
  assumes "robin_hood hv T" "occ hv T x" "\<not> occ hv T g" and ne: "T \<noteq> []"
  shows "Suc (displ hv T x) < length T"
proof (rule ccontr)
  let ?n = "length T"
  assume not: "\<not> ?thesis"
  have full: "displ hv T x = ?n - 1" using not hdist_less [of ?n "hv (T ! (x mod ?n))" x] ne by (simp add: displ_def)
  let ?p = "Suc x"
  have "?p + (?n - 1) = x + ?n" using ne by (cases T) simp_all
  then have "(?p + (?n - 1)) mod ?n = x mod ?n" by (simp only: mod_add_self2)
  then have "occ hv T (?p + (?n - 1))" "?n - 1 \<le> displ hv T (?p + (?n - 1))"
    using assms(2) full displ_mod [OF ne] by (metis, metis order_refl)
  then have all: "t \<le> ?n - 1 \<Longrightarrow> occ hv T (?p + t)" for t using chain_back [OF assms(1), of ?p "?n - 1" t] by blast
  obtain t where "t < ?n" "(?p + t) mod ?n = g mod ?n"
  proof
    show "(g + (?n - ?p mod ?n)) mod ?n < ?n" using ne by simp
    have "(?p + (g + (?n - ?p mod ?n)) mod ?n) mod ?n = (?p mod ?n + (g + (?n - ?p mod ?n))) mod ?n" by (simp only: mod_simps)
    also have "?p mod ?n + (g + (?n - ?p mod ?n)) = g + ?n" using mod_less_divisor [of ?n ?p] ne by (simp del: mod_less_divisor)
    finally show "(?p + (g + (?n - ?p mod ?n)) mod ?n) mod ?n = g mod ?n" by simp
  qed
  moreover from this have "t \<le> ?n - 1" by linarith
  ultimately show False using all [of t] assms(3) by simp
qed

definition inserted :: "'e list \<Rightarrow> nat \<Rightarrow> nat \<Rightarrow> 'e \<Rightarrow> 'e list \<Rightarrow> bool" where
  "inserted T i L e U \<longleftrightarrow> length U = length T \<and>
     (\<forall>t<length T. U ! ((i + t) mod length T) =
        (if t = 0 then e else if t \<le> L then T ! ((i + (t - 1)) mod length T) else T ! ((i + t) mod length T)))"

lemma shifted_right_inserted:
  assumes "i < length T" "shifted_right T i L T'"
  shows "inserted T i L e (T'[i := e])"
proof -
  have "T'[i := e] ! ((i + t) mod length T) = (if t = 0 then e else T' ! ((i + t) mod length T))" if "t < length T" for t
  proof (cases "t = 0")
    case True
    then show ?thesis using assms by (simp add: shifted_right_def)
  next
    case False
    have "(i + t) mod length T \<noteq> i"
    proof
      assume "(i + t) mod length T = i"
      then have "(i + t) mod length T = i mod length T" using assms(1) by simp
      then show False using False that by (simp add: mod_eq_dvd_iff_nat nat_dvd_not_less)
    qed
    then show ?thesis using False by simp
  qed
  then show ?thesis using assms(2) by (auto simp: inserted_def shifted_right_def)
qed

lemma inserted_rotate:
  assumes "inserted T i L e U" "L < length T"
  shows "rotate i U = e # take L (rotate i T) @ drop (Suc L) (rotate i T)"
proof (rule nth_equalityI)
  show "length (rotate i U) = length (e # take L (rotate i T) @ drop (Suc L) (rotate i T))"
    using assms by (simp add: inserted_def)
  fix t assume "t < length (rotate i U)"
  then have t: "t < length T" "length U = length T" using assms(1) by (simp_all add: inserted_def)
  then have "rotate i U ! t = (if t = 0 then e else if t \<le> L then rotate i T ! (t - 1) else rotate i T ! t)"
    using assms(1) by (auto simp: nth_rotate inserted_def)
  also have "\<dots> = (e # take L (rotate i T) @ drop (Suc L) (rotate i T)) ! t"
    using assms(2) t(1) by (auto simp: nth_Cons' nth_append)
  finally show "rotate i U ! t = (e # take L (rotate i T) @ drop (Suc L) (rotate i T)) ! t" .
qed

lemma mset_rotate [simp]: "mset (rotate i T) = mset T"
proof (induction i)
  case (Suc i)
  then show ?case by (cases "rotate i T") simp_all
qed simp

lemma inserted_entries:
  assumes "inserted T i L e U" "L < length T" "\<not> occ hv T (i + L)" "hv e \<noteq> 0"
  shows "entries hv U = add_mset e (entries hv T)"
proof -
  let ?R = "rotate i T"
  have "?R = take L ?R @ ?R ! L # drop (Suc L) ?R" using assms(2) by (simp add: Cons_nth_drop_Suc)
  then have "mset ?R = mset (take L ?R @ ?R ! L # drop (Suc L) ?R)" by simp
  then have T: "mset T = add_mset (?R ! L) (mset (take L ?R) + mset (drop (Suc L) ?R))" by simp
  have "mset (rotate i U) = add_mset e (mset (take L ?R) + mset (drop (Suc L) ?R))"
    unfolding inserted_rotate [OF assms(1,2)] by simp
  moreover have "hv (?R ! L) = 0" using assms(2,3) by (simp add: nth_rotate)
  ultimately show ?thesis using assms(4) by (simp add: entries_def T)
qed

lemma inserted_robin_hood:
  assumes ins: "inserted T i L e U" "L < length T" and rh: "robin_hood hv T"
    and chain: "\<forall>t<L. occ hv T (i + t)" "\<not> occ hv T (i + L)" "hv e \<noteq> 0"
    and p: "i = (p + d) mod length T" "p = unat (hv e) mod length T" "d < length T"
    and prior: "\<forall>t<d. occ hv T (p + t) \<and> t \<le> displ hv T (p + t)"
    and stop: "occ hv T (p + d) \<longrightarrow> displ hv T (p + d) < d"
  shows "robin_hood hv U"
proof -
  let ?n = "length T"
  have ne: "T \<noteq> []" "0 < ?n" "length U = ?n" "U \<noteq> []" using ins by (auto simp: inserted_def)
  have U: "t < ?n \<Longrightarrow> U ! ((i + t) mod ?n) =
      (if t = 0 then e else if t \<le> L then T ! ((i + (t - 1)) mod ?n) else T ! ((i + t) mod ?n))" for t
    using ins(1) by (simp add: inserted_def)
  have disp: "displ hv U (i + t) = hdist ?n (hv (U ! ((i + t) mod ?n))) (i + t)" for t by (simp add: displ_def ne)
  have at_i: "(i + t) mod ?n = (p + d + t) mod ?n" for t by (simp add: p(1) mod_simps)
  have e0: "displ hv U i = d" "displ hv U (i + ?n) = d"
  proof -
    have "U ! (i mod ?n) = e" using U [of 0] ne(2) by simp
    then have "displ hv U i = hdist ?n (hv e) i" by (simp add: displ_def ne(3))
    also have "\<dots> = hdist ?n (hv e) (unat (hv e) mod ?n + d)" by (simp add: p hdist_mod ne)
    finally show "displ hv U i = d" using hdist_home [OF ne(2) p(3)] by simp
    then show "displ hv U (i + ?n) = d" using displ_mod [OF ne(4), of hv i] displ_mod [OF ne(4), of hv "i + ?n"] ne(3) by simp
  qed
  have moved: "displ hv U (i + t) = Suc (displ hv T (i + (t - 1)))" if "0 < t" "t \<le> L" for t
  proof -
    have occ: "occ hv T (i + (t - 1))" using that spec [OF chain(1), of "t - 1"] by simp
    have "displ hv U (i + t) = hdist ?n (hv (T ! ((i + (t - 1)) mod ?n))) (Suc (i + (t - 1)))"
      using U [of t] that ins(2) by (simp add: disp)
    also have "\<dots> = Suc (displ hv T (i + (t - 1)))"
      using displ_gap [OF rh occ chain(2) ne(1)] ne(2) unfolding displ_def by (rule hdist_Suc [rotated])
    finally show ?thesis .
  qed
  have kept: "displ hv U (i + t) = displ hv T (i + t)" if "L < t" "t < ?n" for t
    using U [of t] that ne(3) by (simp add: displ_def)
  show ?thesis
  proof (rule robin_hoodI [OF ne(4), of hv i])
    fix t assume t: "t < length U" and o: "occ hv U (i + Suc t)" and nz: "displ hv U (i + Suc t) \<noteq> 0"
    consider "Suc t = ?n" | "Suc t \<le> L" "t = 0" | "Suc t \<le> L" "0 < t" | "t = L" "Suc t < ?n" | "L < t" "Suc t < ?n"
      using t ne(3) by linarith
    then show "occ hv U (i + t) \<and> displ hv U (i + Suc t) \<le> Suc (displ hv U (i + t))"
    proof cases
      case 1
      have d: "0 < d" using nz e0(2) unfolding 1 by simp
      have "(i + t) mod ?n = (p + (d - 1)) mod ?n"
      proof -
        have "p + d + t = p + (d - 1) + ?n" using 1 d by linarith
        then show ?thesis unfolding at_i by (simp only: mod_add_self2)
      qed
      moreover have pr: "occ hv T (p + (d - 1))" "d - 1 \<le> displ hv T (p + (d - 1))" using spec [OF prior, of "d - 1"] d by simp_all
      ultimately have T: "occ hv T (i + t)" "displ hv T (i + t) = displ hv T (p + (d - 1))"
        using displ_mod [OF ne(1)] by (simp, metis)
      have "L \<noteq> t" using T(1) chain(2) by blast
      then have "L < t" using 1 ins(2) by linarith
      then show ?thesis using U [of t] kept [of t] 1 e0(2) T pr d ne(3) by simp
    next
      case 2
      have "occ hv T i" "displ hv T i < d"
        using chain(1) 2 stop at_i [of 0] displ_mod [OF ne(1), of hv "p + d"] p(1) by (auto dest: spec [of _ 0])
      then show ?thesis using moved [of 1] 2 U [of 0] ne e0(1) chain(3) by simp
    next
      case 3
      then have o: "occ hv T (Suc (i + (t - 1)))" "occ hv T (i + (t - 1))"
        using spec [OF chain(1), of t] spec [OF chain(1), of "t - 1"] by simp_all
      have "displ hv T (i + t) \<le> Suc (displ hv T (i + (t - 1)))"
        using robin_hoodD [OF rh o(1)] 3 by (cases "displ hv T (i + t) = 0") simp_all
      then show ?thesis using moved [of t] moved [of "Suc t"] 3 U [of t] o(2) ne(3) ins(2) by simp
    next
      case 4
      have "displ hv T (i + Suc t) \<noteq> 0" "occ hv T (i + Suc t)" using nz kept [of "Suc t"] 4 U [of "Suc t"] o ne(3) by simp_all
      then show ?thesis using robin_hoodD [OF rh, of "i + t"] chain(2) 4 by simp
    next
      case 5
      have "displ hv T (i + Suc t) \<noteq> 0" "occ hv T (i + Suc t)" using nz kept [of "Suc t"] 5 U [of "Suc t"] o ne(3) by simp_all
      then show ?thesis using robin_hoodD [OF rh, of "i + t"] kept [of t] kept [of "Suc t"] 5 U [of t] ne(3) by simp
    qed
  qed
qed


section \<open>Removing an entry\<close>

text \<open>One step of the search for the end of the probe sequence, at distance \<open>s\<close> from the entry.\<close>

lemma chain_end_step:
  assumes sz: "table_size sz (length T)" and i: "i < length T" and s: "s < length T"
  shows "chain_end hv T (sz - 1) (of_nat (i + s)) ((i + s) mod length T) =
    (if occ hv T (i + Suc s) \<and> displ hv T (i + Suc s) \<noteq> 0
     then chain_end hv T (sz - 1) (of_nat (i + Suc s)) ((i + Suc s) mod length T) else Some ((i + s) mod length T))"
proof -
  let ?n = "length T"
  let ?e = "T ! ((i + Suc s) mod ?n)"
  have n: "0 < ?n" "?n \<le> 2 ^ 31" using table_size_pos [OF sz] by auto
  have small: "unat (of_nat (i + s) :: u32) = i + s" "i + s + 1 < 2 ^ 32" "unat (of_nat (i + Suc s) :: u32) = i + Suc s"
    using i s n(2) unat32 [of "i + s"] unat32 [of "i + Suc s"] by simp_all
  have words: "of_nat (i + s) + 1 = (of_nat (i + Suc s) :: u32)" by simp
  have nxt: "(if (of_nat (i + Suc s) :: u32) AND (sz - 1) = 0 then 0 else (i + s) mod ?n + 1) = (i + Suc s) mod ?n"
  proof -
    have "(if (of_nat (i + s) + 1 :: u32) AND (sz - 1) = 0 then 0 else (i + s) mod ?n + 1) = Suc ((i + s) mod ?n) mod ?n"
      by (rule next_slot [OF sz]) (simp_all only: small)
    then show ?thesis unfolding words by (simp only: mod_Suc_eq add_Suc_right)
  qed
  have e: "slot T ((i + Suc s) mod ?n) = Some ?e" using n(1) by (simp add: slot_def)
  have cond: "(hv ?e - of_nat (i + Suc s)) AND (sz - 1) = 0 \<longleftrightarrow> displ hv T (i + Suc s) = 0"
    unfolding home_iff [OF sz] small(3) displ_def ..
  show ?thesis by (subst chain_end.simps) (simp only: Let_def words nxt e bind.bind_lunit cond, simp)
qed

lemma chain_end_spec:
  assumes sz: "table_size sz (length T)" and i: "i < length T"
    and chain: "\<forall>t. 0 < t \<and> t \<le> m \<longrightarrow> occ hv T (i + t) \<and> displ hv T (i + t) \<noteq> 0"
    and stop: "occ hv T (i + Suc m) \<longrightarrow> displ hv T (i + Suc m) = 0" and m: "s \<le> m" "m < length T"
  shows "chain_end hv T (sz - 1) (of_nat (i + s)) ((i + s) mod length T) = Some ((i + m) mod length T)"
  using m(1)
proof (induction s rule: inc_induct)
  case base
  then show ?case using chain_end_step [OF sz i m(2), of hv] stop by auto
next
  case (step s)
  then have "s < length T" "occ hv T (i + Suc s) \<and> displ hv T (i + Suc s) \<noteq> 0"
    using m(2) spec [OF chain, of "Suc s"] by simp_all
  then show ?case using chain_end_step [OF sz i, of s hv] step.IH by simp
qed

lemma chain_end_exists:
  assumes "i < length T" "occ hv T i" "\<not> occ hv T g"
  obtains m where "Suc m < length T" "\<forall>t. 0 < t \<and> t \<le> m \<longrightarrow> occ hv T (i + t) \<and> displ hv T (i + t) \<noteq> 0"
    "occ hv T (i + Suc m) \<longrightarrow> displ hv T (i + Suc m) = 0"
proof -
  have n: "0 < length T" using assms(1) by linarith
  then have g: "g mod length T < length T" "hv (T ! (g mod length T)) = 0" using assms(3) by simp_all
  obtain L where L: "L < length T" "\<forall>t<L. occ hv T (i + t)" "\<not> occ hv T (i + L)" using gap_exists [of "g mod length T" T hv i] g by blast
  have "L \<noteq> 0" using assms(2) L(3) by (metis add_0_right)
  let ?P = "\<lambda>m. occ hv T (i + Suc m) \<longrightarrow> displ hv T (i + Suc m) = 0"
  have P: "?P (L - 1)" using L(3) \<open>L \<noteq> 0\<close> by simp
  define m where "m = (LEAST m. ?P m)"
  have "?P m" unfolding m_def by (rule LeastI [of ?P, OF P])
  moreover have le: "m \<le> L - 1" unfolding m_def by (rule Least_le [of ?P, OF P])
  moreover have "\<forall>t. 0 < t \<and> t \<le> m \<longrightarrow> occ hv T (i + t) \<and> displ hv T (i + t) \<noteq> 0"
  proof (intro allI impI)
    fix t assume t: "0 < t \<and> t \<le> m"
    then have "\<not> ?P (t - 1)" unfolding m_def by (intro not_less_Least) linarith
    then show "occ hv T (i + t) \<and> displ hv T (i + t) \<noteq> 0" using t by simp
  qed
  ultimately show ?thesis using that [of m] L(1) \<open>L \<noteq> 0\<close> by simp
qed

definition removed :: "('e \<Rightarrow> 'e) \<Rightarrow> 'e list \<Rightarrow> nat \<Rightarrow> nat \<Rightarrow> 'e list \<Rightarrow> bool" where
  "removed clear T i m U \<longleftrightarrow> length U = length T \<and>
     (\<forall>t<length T. U ! ((i + t) mod length T) =
        (if t < m then T ! ((i + Suc t) mod length T)
         else if t = m then clear (T ! ((i + m) mod length T)) else T ! ((i + t) mod length T)))"

lemma shift_left_removed:
  assumes sz: "table_size sz (length T)" and i: "i < length T" and m: "m < length T"
    and ce: "chain_end hv T (sz - 1) (of_nat i) i = Some ((i + m) mod length T)"
  shows "\<exists>U. shift_left hv clear T sz i = Some U \<and> removed clear T i m U"
proof (cases "i + m < length T")
  case True
  let ?n = "length T"
  have "memmove T i (i + 1) m \<noteq> None" using True by (simp add: memmove_def)
  then obtain T1 where T1: "memmove T i (i + 1) m = Some T1" by blast
  note m1 = memmove_nth [OF T1]
  have cur: "T1 ! (i + m) = T ! (i + m)" using m1(2) [OF True] by simp
  let ?U = "T1[i + m := clear (T ! (i + m))]"
  have "shift_left hv clear T sz i = Some ?U"
    using ce True T1 cur m1(1) by (simp add: shift_left_def Let_def slot_def)
  moreover have "removed clear T i m ?U"
    unfolding removed_def
  proof (intro conjI allI impI)
    show "length ?U = ?n" using m1(1) by simp
    fix t assume t: "t < ?n"
    show "?U ! ((i + t) mod ?n) = (if t < m then T ! ((i + Suc t) mod ?n)
         else if t = m then clear (T ! ((i + m) mod ?n)) else T ! ((i + t) mod ?n))"
    proof (cases "i + t < ?n")
      case inside: True
      have "T1 ! (i + t) = (if t < m then T ! (i + Suc t) else T ! (i + t))" using m1(2) [OF inside] by auto
      then show ?thesis using inside True m1(1) by auto
    next
      case False
      then have "(i + t) mod ?n = i + t - ?n" "i + t - ?n < i" "m < t" using t True i by (auto simp: le_mod_geq)
      then show ?thesis using m1 i by simp
    qed
  qed
  ultimately show ?thesis by blast
next
  case wrap: False
  let ?n = "length T"
  define k where "k = i + m - ?n"
  have c: "(i + m) mod ?n = k" "k < i" "i + m = k + ?n" using wrap i m by (auto simp: k_def le_mod_geq)
  have ne: "T \<noteq> []" using i by auto
  have "memmove T i (i + 1) (?n - (i + 1)) \<noteq> None" using i by (simp add: memmove_def)
  then obtain T1 where T1: "memmove T i (i + 1) (?n - (i + 1)) = Some T1" by blast
  note m1 = memmove_nth [OF T1]
  have T1_0: "T1 ! 0 = T ! 0" using m1(2) [of 0] ne c(2) i by auto
  let ?T2 = "T1[?n - 1 := T ! 0]"
  have "memmove ?T2 0 1 k \<noteq> None" using m1(1) c(2) i by (simp add: memmove_def)
  then obtain T3 where T3: "memmove ?T2 0 1 k = Some T3" by blast
  note m3 = memmove_nth [OF T3]
  have T2: "?T2 ! j = (if j = ?n - 1 then T ! 0 else if i \<le> j then T ! Suc j else T ! j)" if "j < ?n" for j
    using m1(1) m1(2) [OF that] that ne by (auto simp: nth_list_update)
  have T3: "T3 ! j = (if j < k then T ! Suc j else ?T2 ! j)" if "j < ?n" for j
    using m3(2) [of j] m1(1) that T2 [of "Suc j"] c(2) i by auto
  let ?U = "T3[k := clear (T ! k)]"
  have "T3 ! k = T ! k" using T3 [of k] T2 [of k] c(2) i by auto
  then have "shift_left hv clear T sz i = Some ?U"
    using ce c T1 \<open>memmove ?T2 0 1 k = Some T3\<close> m1(1) m3(1) T1_0 ne i by (auto simp: shift_left_def Let_def slot_def)
  moreover have "removed clear T i m ?U"
    unfolding removed_def
  proof (intro conjI allI impI)
    show "length ?U = ?n" using m1(1) m3(1) by simp
    fix t assume t: "t < ?n"
    show "?U ! ((i + t) mod ?n) = (if t < m then T ! ((i + Suc t) mod ?n)
         else if t = m then clear (T ! ((i + m) mod ?n)) else T ! ((i + t) mod ?n))"
    proof (cases "i + t < ?n")
      case True
      have "?U ! (i + t) = ?T2 ! (i + t)" using T3 [OF True] c(2) by auto
      moreover have "(i + Suc t) mod ?n = (if i + t = ?n - 1 then 0 else Suc (i + t))" using True by (auto simp: mod_Suc)
      then have "?T2 ! (i + t) = T ! ((i + Suc t) mod ?n)" using T2 [OF True] by simp
      ultimately show ?thesis using True wrap by simp
    next
      case False
      define j where "j = i + t - ?n"
      have j: "(i + t) mod ?n = j" "j < i" "i + t = j + ?n" using False t i by (auto simp: j_def le_mod_geq)
      have "(i + Suc t) mod ?n = Suc j" using j i by (auto simp: le_mod_geq)
      moreover have "?U ! j = (if j < k then T ! Suc j else if j = k then clear (T ! k) else T ! j)"
        using T3 [of j] T2 [of j] j(2) i m1(1) m3(1) by (auto simp: nth_list_update)
      moreover have "t < m \<longleftrightarrow> j < k" "t = m \<longleftrightarrow> j = k" using j(3) c(3) by auto
      ultimately show ?thesis unfolding j(1) c(1) by simp
    qed
  qed
  ultimately show ?thesis by blast
qed


lemma removed_rotate:
  assumes "removed clear T i m U" "m < length T"
  shows "rotate i U = take m (drop 1 (rotate i T)) @ clear (rotate i T ! m) # drop (Suc m) (rotate i T)"
proof (rule nth_equalityI)
  let ?R = "rotate i T"
  show "length (rotate i U) = length (take m (drop 1 ?R) @ clear (?R ! m) # drop (Suc m) ?R)"
    using assms by (simp add: removed_def)
  fix t assume "t < length (rotate i U)"
  then have t: "t < length T" "length U = length T" using assms(1) by (simp_all add: removed_def)
  then have "rotate i U ! t = (if t < m then ?R ! Suc t else if t = m then clear (?R ! m) else ?R ! t)"
    using assms by (auto simp: nth_rotate removed_def)
  also have "\<dots> = (take m (drop 1 ?R) @ clear (?R ! m) # drop (Suc m) ?R) ! t"
    using assms(2) t(1) by (auto simp: nth_append nth_Cons')
  finally show "rotate i U ! t = (take m (drop 1 ?R) @ clear (?R ! m) # drop (Suc m) ?R) ! t" .
qed

lemma removed_entries:
  assumes "removed clear T i m U" "m < length T" "i < length T" "hv (T ! i) \<noteq> 0" "\<And>e. hv (clear e) = 0"
  shows "entries hv T = add_mset (T ! i) (entries hv U)"
proof -
  let ?R = "rotate i T"
  have "?R ! 0 = T ! i" using assms(3) nth_rotate [of 0 T i] by (cases T) simp_all
  then have R0: "?R = T ! i # drop 1 ?R" using Cons_nth_drop_Suc [of 0 ?R] assms(2) by (cases T) simp_all
  have "mset ?R = mset (T ! i # take m (drop 1 ?R) @ drop m (drop 1 ?R))"
    by (subst R0) (simp only: append_take_drop_id)
  then have T: "mset T = add_mset (T ! i) (mset (take m (drop 1 ?R)) + mset (drop (Suc m) ?R))" by simp
  have "mset (rotate i U) = mset (take m (drop 1 ?R) @ clear (?R ! m) # drop (Suc m) ?R)"
    unfolding removed_rotate [OF assms(1,2)] ..
  then have U: "mset U = add_mset (clear (?R ! m)) (mset (take m (drop 1 ?R)) + mset (drop (Suc m) ?R))" by simp
  show ?thesis unfolding entries_def T U using assms(4,5) by simp
qed

lemma removed_robin_hood:
  assumes rem: "removed clear T i m U" "Suc m < length T" and rh: "robin_hood hv T" and i: "i < length T" "occ hv T i"
    and chain: "\<forall>t. 0 < t \<and> t \<le> m \<longrightarrow> occ hv T (i + t) \<and> displ hv T (i + t) \<noteq> 0"
    and stop: "occ hv T (i + Suc m) \<longrightarrow> displ hv T (i + Suc m) = 0" and clear: "\<And>e. hv (clear e) = 0"
  shows "robin_hood hv U"
proof -
  let ?n = "length T"
  have ne: "T \<noteq> []" "0 < ?n" "length U = ?n" "U \<noteq> []" using rem by (auto simp: removed_def)
  have U: "t < ?n \<Longrightarrow> U ! ((i + t) mod ?n) = (if t < m then T ! ((i + Suc t) mod ?n)
         else if t = m then clear (T ! ((i + m) mod ?n)) else T ! ((i + t) mod ?n))" for t
    using rem(1) by (simp add: removed_def)
  have moved: "occ hv U (i + t)" "Suc (displ hv U (i + t)) = displ hv T (i + Suc t)" if "t < m" for t
  proof -
    have c: "occ hv T (i + Suc t)" "displ hv T (i + Suc t) \<noteq> 0" using spec [OF chain, of "Suc t"] that by simp_all
    have Ut: "U ! ((i + t) mod ?n) = T ! ((i + Suc t) mod ?n)" using U [of t] that rem(2) by simp
    show "occ hv U (i + t)" using c(1) Ut ne(3) by simp
    have "displ hv T (i + Suc t) = hdist ?n (hv (T ! ((i + Suc t) mod ?n))) (Suc (i + t))" by (simp add: displ_def)
    also have "\<dots> = Suc (hdist ?n (hv (T ! ((i + Suc t) mod ?n))) (i + t))"
      using c(2) by (intro hdist_back [OF ne(2)]) (simp add: displ_def)
    finally show "Suc (displ hv U (i + t)) = displ hv T (i + Suc t)" by (simp add: displ_def ne(3) Ut)
  qed
  have kept: "occ hv U (i + t) = occ hv T (i + t)" "displ hv U (i + t) = displ hv T (i + t)" if "m < t" "t < ?n" for t
    using U [of t] that ne(3) by (simp_all add: displ_def)
  show ?thesis
  proof (rule robin_hoodI [OF ne(4), of hv i])
    fix t assume t: "t < length U" and o: "occ hv U (i + Suc t)" and nz: "displ hv U (i + Suc t) \<noteq> 0"
    consider "Suc t = ?n" "m = 0" | "Suc t = ?n" "0 < m" | "Suc t < m" | "Suc t = m" | "t = m" "Suc t < ?n" | "m < t" "Suc t < ?n"
      using t ne(3) by linarith
    then show "occ hv U (i + t) \<and> displ hv U (i + Suc t) \<le> Suc (displ hv U (i + t))"
    proof cases
      case 1
      then show ?thesis using o U [of 0] clear ne i(1) by simp
    next
      case 2
      then have around: "(i + Suc t) mod ?n = i mod ?n" by simp
      then have "displ hv U (i + Suc t) = displ hv U i" "displ hv T (i + Suc t) = displ hv T i" "occ hv T (i + Suc t)"
        using displ_mod [OF ne(4), of hv] displ_mod [OF ne(1), of hv] ne(3) i(2) by (metis, metis, simp)
      moreover have "Suc (displ hv U i) = displ hv T (Suc i)" using moved(2) [of 0] 2 by simp
      moreover from this have "displ hv T (Suc i) \<le> Suc (displ hv T i)"
        using robin_hoodD [OF rh, of i] spec [OF chain, of 1] 2 by simp
      moreover have "m < t" using 2 rem(2) by linarith
      moreover from calculation have "occ hv T (i + t) \<and> displ hv T i \<le> Suc (displ hv T (i + t))"
        using robin_hoodD [OF rh, of "i + t"] nz by (simp del: One_nat_def)
      ultimately show ?thesis using kept [of t] 2(1) by simp
    next
      case 3
      have "displ hv T (i + Suc (Suc t)) \<le> Suc (displ hv T (i + Suc t))"
        using robin_hoodD [OF rh, of "i + Suc t"] spec [OF chain, of "Suc (Suc t)"] 3 by simp
      then show ?thesis using moved [of t] moved [of "Suc t"] 3 by simp
    next
      case 4
      then show ?thesis using o U [of m] clear ne(3) rem(2) by simp
    next
      case 5
      then show ?thesis using o nz kept [of "Suc t"] stop by simp
    next
      case 6
      then show ?thesis using o nz kept [of "Suc t"] kept [of t] robin_hoodD [OF rh, of "i + t"] by simp
    qed
  qed
qed


text \<open>Removing the entry of a slot keeps the order of the others, seen from an empty slot \<open>e\<close>.\<close>

lemma removed_from_gap:
  assumes rem: "removed clear T ((e + s) mod length T) m U" and m: "Suc m < length T" and s: "0 < s" "s < length T"
    and chain: "\<forall>t. 0 < t \<and> t \<le> m \<longrightarrow> occ hv T ((e + s) mod length T + t)" and gap: "\<not> occ hv T e"
  shows "rotate e U = take s (rotate e T) @ take m (drop (Suc s) (rotate e T)) @ clear (rotate e T ! (s + m)) # drop (Suc (s + m)) (rotate e T)"
    "s + m < length T"
proof -
  let ?n = "length T" and ?i = "(e + s) mod length T"
  have at: "(?i + t) mod ?n = (e + (s + t)) mod ?n" for t by (simp add: mod_add_left_eq add.assoc)
  show lt: "s + m < ?n"
  proof (rule ccontr)
    assume "\<not> s + m < ?n"
    then have "occ hv T (?i + (?n - s))" using spec [OF chain, of "?n - s"] s by linarith
    moreover have "(?i + (?n - s)) mod ?n = e mod ?n" unfolding at using s by simp
    ultimately show False using gap by (simp only:)
  qed
  have U: "length U = ?n" "t < ?n \<Longrightarrow> U ! ((?i + t) mod ?n) = (if t < m then T ! ((?i + Suc t) mod ?n)
      else if t = m then clear (T ! ((?i + m) mod ?n)) else T ! ((?i + t) mod ?n))" for t
    using rem by (auto simp: removed_def)
  show "rotate e U = take s (rotate e T) @ take m (drop (Suc s) (rotate e T)) @ clear (rotate e T ! (s + m)) # drop (Suc (s + m)) (rotate e T)"
    (is "_ = ?R")
  proof (rule nth_equalityI)
    show "length (rotate e U) = length ?R" using U(1) lt by simp
    fix x assume "x < length (rotate e U)"
    then have x: "x < ?n" using U(1) by simp
    have "rotate e U ! x = U ! ((e + x) mod ?n)" using x U(1) by (simp add: nth_rotate)
    also have "\<dots> = (if x < s then rotate e T ! x else if x < s + m then rotate e T ! Suc x
        else if x = s + m then clear (rotate e T ! x) else rotate e T ! x)"
    proof (cases "x < s")
      case True
      have "e + (s + (x + ?n - s)) = e + x + ?n" using s by linarith
      then have "(?i + (x + ?n - s)) mod ?n = (e + x) mod ?n" unfolding at by (simp only: mod_add_self2)
      moreover have "x + ?n - s < ?n" "\<not> x + ?n - s < m" "x + ?n - s \<noteq> m" using True lt by linarith+
      ultimately show ?thesis using U(2) [of "x + ?n - s"] True x by (simp add: nth_rotate)
    next
      case False
      have "(?i + (x - s)) mod ?n = (e + x) mod ?n" "(?i + Suc (x - s)) mod ?n = (e + Suc x) mod ?n" "(?i + m) mod ?n = (e + (s + m)) mod ?n"
        unfolding at using False by simp_all
      then show ?thesis using U(2) [of "x - s"] False s lt x by (auto simp: nth_rotate)
    qed
    also have "\<dots> = ?R ! x" using x lt s by (auto simp: nth_append nth_Cons')
    finally show "rotate e U ! x = ?R ! x" .
  qed
qed


section \<open>Growing the table\<close>

text \<open>
  Offsets are counted from an empty slot \<open>e\<close> of the old table, modulo its size.  In the old
  table the offset of an entry is that of its home plus its displacement, without wrapping,
  and the homes are in order.
\<close>

definition offset :: "nat \<Rightarrow> nat \<Rightarrow> int \<Rightarrow> int" where
  "offset n e y = (y - int e) mod int n"

abbreviation home_offset :: "('e \<Rightarrow> u32) \<Rightarrow> nat \<Rightarrow> nat \<Rightarrow> 'e \<Rightarrow> int" where
  "home_offset hv n e x \<equiv> offset n e (uint (hv x))"

lemma int_displ: "T \<noteq> [] \<Longrightarrow> int (displ hv T i) = (int i - uint (hv (T ! (i mod length T)))) mod int (length T)"
  by (simp add: displ_def hdist_def)

lemma chain_step:
  assumes "robin_hood hv T" "occ hv T (x + k)" "k \<le> displ hv T (x + k)"
  shows "displ hv T (x + k) \<le> displ hv T x + k"
  using assms(2,3)
proof (induction k)
  case (Suc k)
  then show ?case using robin_hoodD [OF assms(1), of "x + k"] by force
qed simp

lemma old_home:
  assumes "robin_hood hv T" "\<not> occ hv T e" "occ hv T (e + z)" "z < length T"
  shows "displ hv T (e + z) < z" "home_offset hv (length T) e (T ! ((e + z) mod length T)) = int z - int (displ hv T (e + z))"
proof -
  let ?n = "length T" and ?h = "uint (hv (T ! ((e + z) mod length T)))"
  show lt: "displ hv T (e + z) < z"
    using chain_back [OF assms(1), of e z 0] assms(2,3) by (cases "z \<le> displ hv T (e + z)") simp_all
  have ne: "T \<noteq> []" using assms(4) by auto
  have "(?h - int e) mod int ?n = (int z - (int (e + z) - ?h)) mod int ?n" by simp
  also have "\<dots> = (int z - int (displ hv T (e + z))) mod int ?n" unfolding int_displ [OF ne] by (simp only: mod_diff_right_eq)
  also have "\<dots> = int z - int (displ hv T (e + z))" using lt assms(4) by (intro mod_pos_pos_trivial) linarith+
  finally show "home_offset hv ?n e (T ! ((e + z) mod ?n)) = int z - int (displ hv T (e + z))" by (simp add: offset_def)
qed

lemma old_homes_ordered:
  assumes "robin_hood hv T" "\<not> occ hv T e" "occ hv T (e + z)" "occ hv T (e + z')" "z \<le> z'" "z' < length T"
  shows "home_offset hv (length T) e (T ! ((e + z) mod length T)) \<le> home_offset hv (length T) e (T ! ((e + z') mod length T))"
proof -
  have "int z - int (displ hv T (e + z)) \<le> int z' - int (displ hv T (e + z'))"
    using chain_step [OF assms(1), of "e + z" "z' - z"] assms(4,5) by (cases "z' - z \<le> displ hv T (e + z')") simp_all
  then show ?thesis using old_home [OF assms(1,2)] assms(3-6) by simp
qed

definition growing :: "('e \<Rightarrow> u32) \<Rightarrow> 'e list \<Rightarrow> nat \<Rightarrow> nat \<Rightarrow> nat \<Rightarrow> 'e list \<Rightarrow> bool" where
  "growing hv T e N s U \<longleftrightarrow> length U = N \<and> robin_hood hv U \<and>
     (\<forall>y. occ hv U y \<longrightarrow> (\<exists>z < s. occ hv T (e + z) \<and> U ! (y mod N) = T ! ((e + z) mod length T) \<and> displ hv U y \<le> displ hv T (e + z))) \<and>
     entries hv U = {#x \<in># mset (take s (rotate e T)). hv x \<noteq> 0#}"

lemma offset_plus:
  assumes "n dvd N" "0 < N"
  shows "offset n e (int ((q + t) mod N)) = (offset n e (int q) + int t) mod int n"
proof -
  have "int n dvd int N" using assms(1) by simp
  then have "offset n e (int ((q + t) mod N)) = (int (q + t) - int e) mod int n"
    by (metis (no_types, opaque_lifting) mod_diff_left_eq mod_mod_cancel of_nat_mod offset_def)
  also have "\<dots> = (int q - int e + int t) mod int n" by (simp add: algebra_simps)
  finally show ?thesis by (simp add: offset_def mod_add_left_eq)
qed

lemma growing_offset:
  assumes g: "growing hv T e N s U" and rh: "robin_hood hv T" "\<not> occ hv T e" and s: "s \<le> length T"
    and N: "length T dvd N" "0 < N" and o: "occ hv U y"
  shows "\<exists>z < s. occ hv T (e + z) \<and>
    offset (length T) e (int y) = home_offset hv (length T) e (T ! ((e + z) mod length T)) + int (displ hv U y) \<and>
    offset (length T) e (int y) < int s"
proof -
  let ?n = "length T"
  have U: "U \<noteq> []" "length U = N" using g N(2) by (auto simp: growing_def)
  obtain z where z: "z < s" "occ hv T (e + z)" "U ! (y mod N) = T ! ((e + z) mod ?n)" "displ hv U y \<le> displ hv T (e + z)"
    using g o by (auto simp: growing_def)
  let ?x = "T ! ((e + z) mod ?n)"
  have zn: "z < ?n" using z(1) s by simp
  note old = old_home [OF rh z(2) zn]
  have "int (displ hv U y) mod int ?n = (int y - uint (hv ?x)) mod int ?n"
    using N(1) z(3) by (simp add: int_displ [OF U(1)] U(2) mod_mod_cancel)
  moreover have "(int y - int e) mod int ?n = ((int y - uint (hv ?x)) mod int ?n + home_offset hv ?n e ?x) mod int ?n"
    by (simp add: offset_def mod_add_eq)
  ultimately have "(int y - int e) mod int ?n = (int (displ hv U y) + home_offset hv ?n e ?x) mod int ?n"
    by (metis mod_add_left_eq)
  also have "\<dots> = int (displ hv U y) + home_offset hv ?n e ?x"
    using old z(1,4) zn by (intro mod_pos_pos_trivial) linarith+
  finally have "offset ?n e (int y) = home_offset hv ?n e ?x + int (displ hv U y)" by (simp add: offset_def)
  moreover from this have "offset ?n e (int y) < int s" using old z(1,4) by linarith
  ultimately show ?thesis using z(1,2) by blast
qed

lemma growing_step:
  assumes g: "growing hv T e N s U" and rh: "robin_hood hv T" "\<not> occ hv T e" and s: "s < length T"
    and N: "length T dvd N" "0 < N" and o: "occ hv T (e + s)"
  defines "x \<equiv> T ! ((e + s) mod length T)"
  shows "\<exists>i. gap_loop hv U (unat (hv x) mod N) = Some i \<and> growing hv T e N (Suc s) (U[i := x])"
proof -
  let ?n = "length T" and ?q = "unat (hv x) mod N" and ?D = "displ hv T (e + s)"
  have U: "length U = N" "U \<noteq> []" "robin_hood hv U" using g N(2) by (auto simp: growing_def)
  note old = old_home [OF rh o s, folded x_def]
  have nN: "?n \<le> N" using N by (simp add: dvd_imp_le)
  have q: "offset ?n e (int ((?q + t) mod N)) = home_offset hv ?n e x + int t" if "t \<le> ?D" for t
  proof -
    have "offset ?n e (int ?q) = home_offset hv ?n e x"
      using N(1) by (simp add: offset_def of_nat_mod mod_diff_left_eq [symmetric, of "int _ mod _"]) (metis mod_diff_left_eq mod_mod_cancel of_nat_dvd_iff)
    then show ?thesis using that old s by (simp add: offset_plus [OF N]) 
  qed
  have off: "\<exists>z < s. occ hv T (e + z) \<and> offset ?n e (int (y mod N)) = home_offset hv ?n e (T ! ((e + z) mod ?n)) + int (displ hv U y) \<and>
    offset ?n e (int (y mod N)) < int s" if "occ hv U y" for y
    using growing_offset [OF g rh less_imp_le [OF s] N, of "y mod N"] that U displ_mod [OF U(2), of hv y] by simp
  have "\<not> occ hv U (?q + ?D)"
  proof
    assume "occ hv U (?q + ?D)"
    then show False using off [of "?q + ?D"] q [of ?D] old by auto
  qed
  define d where "d = (LEAST t. \<not> occ hv U (?q + t))"
  have free: "\<not> occ hv U (?q + d)" unfolding d_def by (rule LeastI) (fact \<open>\<not> occ hv U (?q + ?D)\<close>)
  have le: "d \<le> ?D" unfolding d_def by (rule Least_le) (fact \<open>\<not> occ hv U (?q + ?D)\<close>)
  have before: "occ hv U (?q + t)" if "t < d" for t using not_less_Least [OF that [unfolded d_def]] by blast
  have prior: "t \<le> displ hv U (?q + t)" if td: "t < d" for t
  proof -
    obtain z where z: "z < s" "occ hv T (e + z)"
      "offset ?n e (int ((?q + t) mod N)) = home_offset hv ?n e (T ! ((e + z) mod ?n)) + int (displ hv U (?q + t))"
      using off [OF before [OF td]] by blast
    moreover have "home_offset hv ?n e (T ! ((e + z) mod ?n)) \<le> home_offset hv ?n e x"
      unfolding x_def using old_homes_ordered [OF rh z(2) o] z(1) s by simp
    ultimately show ?thesis using q [of t] td le by simp
  qed
  let ?i = "(?q + d) mod N"
  have i: "?i < length U" using N(2) U(1) by simp
  have "gap_loop hv U (?q mod length U) = Some ((?q + d) mod length U)"
    using U(2) before free by (intro gap_loop_spec) auto
  then have gap: "gap_loop hv U ?q = Some ?i" using U(1) by simp
  have ins: "inserted U ?i 0 x (U[?i := x])" by (rule shifted_right_inserted [OF i]) (simp add: shifted_right_def)
  have hx: "hv x \<noteq> 0" using o by (simp add: x_def)
  have dN: "d < N" using le old(1) s nN by linarith
  have at_i: "\<not> occ hv U (?i + 0)" using free U(1) by simp
  have rh': "robin_hood hv (U[?i := x])"
    by (rule inserted_robin_hood [OF ins _ U(3), where p = ?q and d = d]) (use N(2) U at_i hx dN before prior free in auto)
  have ent: "entries hv (U[?i := x]) = add_mset x (entries hv U)"
    by (rule inserted_entries [OF ins _ at_i hx]) (use U N(2) in simp)
  have taken: "take (Suc s) (rotate e T) = take s (rotate e T) @ [x]"
    using s by (simp add: take_Suc_conv_app_nth nth_rotate x_def)
  have disp: "displ hv (U[?i := x]) y = (if y mod N = ?i then d else displ hv U y)" for y
  proof (cases "y mod N = ?i")
    case True
    have "displ hv (U[?i := x]) y = hdist N (hv x) y" using True i U(1) by (simp add: displ_def)
    also have "\<dots> = hdist N (hv x) (?q + d)" using hdist_mod [OF N(2)] True by metis
    finally show ?thesis using True hdist_home [OF N(2) dN] by simp
  qed (use U(1) in \<open>simp add: displ_def\<close>)
  have "growing hv T e N (Suc s) (U[?i := x])"
    unfolding growing_def
  proof (intro conjI allI impI rh')
    show "length (U[?i := x]) = N" using U(1) by simp
    show "entries hv (U[?i := x]) = {#x \<in># mset (take (Suc s) (rotate e T)). hv x \<noteq> 0#}"
      using g hx unfolding ent taken by (simp add: growing_def)
    fix y assume oy: "occ hv (U[?i := x]) y"
    show "\<exists>z<Suc s. occ hv T (e + z) \<and> U[?i := x] ! (y mod N) = T ! ((e + z) mod ?n) \<and> displ hv (U[?i := x]) y \<le> displ hv T (e + z)"
    proof (cases "y mod N = ?i")
      case True
      then show ?thesis using o le i disp [of y] by (intro exI [of _ s]) (simp add: x_def)
    next
      case False
      then have "occ hv U y" using oy U(1) by simp
      then show ?thesis using g False unfolding growing_def by (auto simp: disp less_Suc_eq)
    qed
  qed
  then show ?thesis using gap by blast
qed


lemma grow_loop_growing:
  assumes rh: "robin_hood hv T" "\<not> occ hv T e" and sz: "table_size sz N" and N: "length T dvd N"
  shows "growing hv T e N s U \<Longrightarrow> s + k = length T \<Longrightarrow>
     \<exists>V. grow_loop hv T sz k ((e + s) mod length T) U = Some V \<and> growing hv T e N (length T) V"
proof (induction k arbitrary: s U)
  case 0
  then show ?case by simp
next
  case (Suc k)
  let ?x = "T ! ((e + s) mod length T)"
  have s: "s < length T" using Suc.prems(2) by linarith
  have n: "T \<noteq> []" "0 < N" using s table_size_pos [OF sz] by auto
  have slot: "slot T ((e + s) mod length T) = Some ?x" using n(1) by (simp add: slot_def)
  have wrap: "(if (e + s) mod length T + 1 \<ge> length T then 0 else (e + s) mod length T + 1) = (e + Suc s) mod length T"
    using wrap_slot [of "(e + s) mod length T" "length T"] n(1) by (simp add: mod_Suc_eq)
  obtain V where V: "growing hv T e N (Suc s) V"
    "(if hv ?x \<noteq> 0 then do { i \<leftarrow> gap_loop hv U (unat (hv ?x AND (sz - 1))); Some (U[i := ?x]) } else Some U) = Some V"
  proof (cases "hv ?x = 0")
    case True
    have "take (Suc s) (rotate e T) = take s (rotate e T) @ [?x]" using s by (simp add: take_Suc_conv_app_nth nth_rotate)
    then have "growing hv T e N (Suc s) U" using Suc.prems(1) True by (auto simp: growing_def less_Suc_eq)
    then show ?thesis using that [of U] True by simp
  next
    case False
    then obtain i where "gap_loop hv U (unat (hv ?x) mod N) = Some i" "growing hv T e N (Suc s) (U[i := ?x])"
      using growing_step [OF Suc.prems(1) rh s N n(2)] by blast
    then show ?thesis using that [of "U[i := ?x]"] False by (simp add: and_size [OF sz])
  qed
  have "grow_loop hv T sz (Suc k) ((e + s) mod length T) U = grow_loop hv T sz k ((e + Suc s) mod length T) V"
    by (simp only: grow_loop.simps slot bind.bind_lunit V(2) wrap)
  then show ?case using Suc.IH [OF V(1)] Suc.prems(2) by simp
qed

lemma grow_table_spec:
  assumes "robin_hood hv T" "g < length T" "hv (T ! g) = 0" "table_size sz N" "length T dvd N" "hv zero = 0"
  shows "\<exists>V. grow_table hv zero T sz = Some V \<and> length V = N \<and> robin_hood hv V \<and> entries hv V = entries hv T"
proof -
  obtain e where e: "e < length T" "\<forall>t<e. occ hv T (0 + t)" "\<not> occ hv T (0 + e)" using gap_exists [of g T hv 0] assms(2,3) by blast
  have ne: "T \<noteq> []" using assms(2) by auto
  have "unat sz = N" using assms(4) by (auto simp: table_size_def)
  have "gap_loop hv T (0 mod length T) = Some ((0 + e) mod length T)" using gap_loop_spec [OF ne e(2,3)] .
  then have gap: "gap_loop hv T 0 = Some ((e + 0) mod length T)" using ne by simp
  have "growing hv T e N 0 (replicate N zero)"
    using assms(6) table_size_pos [OF assms(4)] by (auto simp: growing_def robin_hood_def entries_def nth_replicate)
  then obtain V where V: "grow_loop hv T sz (length T) ((e + 0) mod length T) (replicate N zero) = Some V" "growing hv T e N (length T) V"
    using grow_loop_growing [OF assms(1) _ assms(4,5)] e(3) by (metis add_0)
  have "grow_table hv zero T sz = Some V" using ne gap V(1) \<open>unat sz = N\<close> by (simp add: grow_table_def Let_def)
  then show ?thesis using V(2) by (auto simp: growing_def entries_def)
qed

section \<open>The interface of the tables\<close>

text \<open>The slot where the search for a hash value that is not found stops, and a new entry goes.\<close>

definition slot_for :: "('e \<Rightarrow> u32) \<Rightarrow> 'e list \<Rightarrow> u32 \<Rightarrow> nat \<Rightarrow> bool" where
  "slot_for hv T h i \<longleftrightarrow> (\<exists>d<length T. let p = unat h mod length T in i = (p + d) mod length T \<and>
     (\<forall>t<d. occ hv T (p + t) \<and> t \<le> displ hv T (p + t)) \<and> (occ hv T (p + d) \<longrightarrow> displ hv T (p + d) < d))"

lemma searched_slot:
  "searched hv hit T (unat h mod length T) 0 False d \<Longrightarrow> slot_for hv T h ((unat h mod length T + d) mod length T)"
  unfolding slot_for_def Let_def searched_def by (intro exI [of _ d]) auto

text \<open>
  The invariant of a table with \<open>cnt\<close> entries: its size is a power of two, a slot is empty, the
  displacements are ordered, every entry is well formed and has the hash value of its key, and no
  key occurs twice.
\<close>

definition table_inv ::
    "('e \<Rightarrow> u32) \<Rightarrow> ('e \<Rightarrow> 'k) \<Rightarrow> ('k \<Rightarrow> u32) \<Rightarrow> ('e \<Rightarrow> bool) \<Rightarrow> u32 \<Rightarrow> 'e list \<Rightarrow> nat \<Rightarrow> bool" where
  "table_inv hv key hash good sz T cnt \<longleftrightarrow> table_size sz (length T) \<and> robin_hood hv T \<and>
     size (entries hv T) = cnt \<and> cnt < length T \<and>
     (\<forall>e\<in>#entries hv T. good e \<and> hv e = hash (key e)) \<and> (\<forall>k. count (image_mset key (entries hv T)) k \<le> 1)"

lemma entries_nth: "i < length T \<Longrightarrow> hv (T ! i) \<noteq> 0 \<Longrightarrow> T ! i \<in># entries hv T"
  by (simp add: entries_def)

lemma table_gap: "size (entries hv T) < length T \<Longrightarrow> \<exists>i<length T. hv (T ! i) = 0"
proof (rule ccontr)
  assume lt: "size (entries hv T) < length T" and "\<not> (\<exists>i<length T. hv (T ! i) = 0)"
  then have "\<forall>e\<in>#mset T. hv e \<noteq> 0" by (auto simp: in_set_conv_nth)
  then have "entries hv T = mset T" by (simp add: entries_def filter_mset_eq_conv)
  then show False using lt by simp
qed

lemma robin_hood_update:
  assumes "i < length T" "hv e = hv (T ! i)"
  shows "robin_hood hv (T[i := e]) \<longleftrightarrow> robin_hood hv T"
proof -
  have "hv (T[i := e] ! (j mod length T)) = hv (T ! (j mod length T))" for j
    using assms by (cases "j mod length T = i") simp_all
  then show ?thesis by (simp add: robin_hood_def displ_def)
qed

lemma entries_update:
  assumes "i < length T" "hv (T ! i) \<noteq> 0" "hv e \<noteq> 0"
  shows "entries hv (T[i := e]) = add_mset e (entries hv T - {#T ! i#})"
  using assms by (simp add: entries_def mset_update)

lemma key_unique:
  assumes inv: "table_inv hv key hash good sz T cnt" and ij: "i < length T" "j < length T" "hv (T ! i) \<noteq> 0" "hv (T ! j) \<noteq> 0"
    and eq: "key (T ! i) = key (T ! j)"
  shows "i = j"
proof (rule ccontr)
  assume "i \<noteq> j"
  let ?rest = "take i T @ drop (Suc i) T"
  have T: "T = take i T @ T ! i # drop (Suc i) T" using ij(1) by (simp add: Cons_nth_drop_Suc)
  have "mset T = mset (take i T @ T ! i # drop (Suc i) T)" using T by (rule arg_cong)
  also have "\<dots> = add_mset (T ! i) (mset ?rest)" by simp
  finally have "mset T = add_mset (T ! i) (mset ?rest)" .
  then have "{#e \<in># mset T. hv e \<noteq> 0#} = {#e \<in># add_mset (T ! i) (mset ?rest). hv e \<noteq> 0#}" by (rule arg_cong)
  also have "\<dots> = add_mset (T ! i) {#e \<in># mset ?rest. hv e \<noteq> 0#}" using ij(3) by simp
  finally have e: "entries hv T = add_mset (T ! i) (entries hv ?rest)" unfolding entries_def .
  have "T ! j \<in> set ?rest"
  proof (cases "j < i")
    case True
    then show ?thesis using nth_mem [of j "take i T"] ij(1) by simp
  next
    case False
    then show ?thesis using nth_mem [of "j - Suc i" "drop (Suc i) T"] ij(1,2) \<open>i \<noteq> j\<close> by simp
  qed
  then have "T ! j \<in># entries hv ?rest" using ij(4) by (simp add: entries_def)
  then have "key (T ! i) \<in># image_mset key (entries hv ?rest)" unfolding eq by simp
  then have "count (image_mset key (entries hv T)) (key (T ! i)) \<ge> 2" unfolding e by (simp add: Suc_le_eq)
  moreover have "count (image_mset key (entries hv T)) (key (T ! i)) \<le> 1" using inv by (simp add: table_inv_def del: split_paired_All)
  ultimately show False by linarith
qed

locale keyed_table =
  fixes hv :: "'e \<Rightarrow> u32" and zero :: 'e and key :: "'e \<Rightarrow> 'k" and hash :: "'k \<Rightarrow> u32" and good :: "'e \<Rightarrow> bool"
  assumes zero_empty: "hv zero = 0" and hash_nonzero: "hash k \<noteq> 0"
begin

lemma inv_gap: "table_inv hv key hash good sz T cnt \<Longrightarrow> \<exists>i<length T. hv (T ! i) = 0"
  using table_gap [of hv T] by (simp add: table_inv_def)

lemma fresh_table: "table_size sz n \<Longrightarrow> table_inv hv key hash good sz (replicate n zero) 0"
proof -
  assume sz: "table_size sz n"
  have "entries hv (replicate n zero) = {#}" using zero_empty by (simp add: entries_def filter_mset_eq_conv)
  moreover have "robin_hood hv (replicate n zero)"
    using zero_empty table_size_pos [OF sz] by (simp add: robin_hood_def)
  ultimately show ?thesis using sz table_size_pos [OF sz] by (simp add: table_inv_def)
qed

text \<open>The search finds the entry of a key exactly when the table has one.\<close>

lemma find:
  assumes inv: "table_inv hv key hash good sz T cnt"
    and match: "\<And>e. good e \<Longrightarrow> hv e = hash k \<Longrightarrow> matches e = Some (key e = k)"
    and home: "unat (hash k) mod length T = unat h mod length T"
  obtains found i where "find_entry hv matches T sz h (hash k) = Some (found, i)" "i < length T"
    "found \<longleftrightarrow> k \<in># image_mset key (entries hv T)"
    "found \<Longrightarrow> T ! i \<in># entries hv T \<and> key (T ! i) = k" "\<not> found \<Longrightarrow> slot_for hv T h i"
proof -
  let ?p = "unat h mod length T"
  let ?hit = "\<lambda>e. hv e = hash k \<and> matches e = Some True"
  have sz: "table_size sz (length T)" and rh: "robin_hood hv T"
    and good: "\<And>e. e \<in> set T \<Longrightarrow> hv e \<noteq> 0 \<Longrightarrow> good e \<and> hv e = hash (key e)"
    using inv by (auto simp: table_inv_def entries_def)
  have hit: "?hit e \<longleftrightarrow> hv e \<noteq> 0 \<and> key e = k" if "e \<in> set T" for e
  proof (cases "hv e = hash k")
    case True
    then have "hv e \<noteq> 0" using hash_nonzero by simp
    then show ?thesis using True good [OF that] match [of e] by simp
  next
    case False
    then show ?thesis using good [OF that] by auto
  qed
  obtain g where g: "g < length T" "hv (T ! g) = 0" using inv_gap [OF inv] by blast
  have safe: "\<forall>e\<in>set T. hv e = hash k \<longrightarrow> matches e \<noteq> None" 
  proof (intro ballI impI)
    fix e assume "e \<in> set T" "hv e = hash k"
    then show "matches e \<noteq> None" using good [of e] match [of e] hash_nonzero [of k] by simp
  qed
  obtain found d where fd: "find_entry hv matches T sz h (hash k) = Some (found, (?p + d) mod length T)"
    and s: "searched hv ?hit T ?p 0 found d"
    by (rule find_entry_searched [OF sz safe g])
  have lt: "(?p + d) mod length T < length T" using g(1) by (intro mod_less_divisor) linarith
  have "found \<longleftrightarrow> (\<exists>e\<in>set T. ?hit e)"
    by (rule searched_found [OF rh s]) (use hash_nonzero home in auto)
  then have found: "found \<longleftrightarrow> k \<in># image_mset key (entries hv T)" using hit by (auto simp: entries_def)
  show ?thesis
  proof (rule that [OF fd lt found])
    assume found
    then have "?hit (T ! ((?p + d) mod length T))" using s by (simp add: searched_def)
    then have "hv (T ! ((?p + d) mod length T)) \<noteq> 0 \<and> key (T ! ((?p + d) mod length T)) = k"
      using hit [OF nth_mem [OF lt]] by simp
    then show "T ! ((?p + d) mod length T) \<in># entries hv T \<and> key (T ! ((?p + d) mod length T)) = k"
      using entries_nth [of _ T hv] lt by blast
  next
    assume "\<not> found"
    then show "slot_for hv T h ((?p + d) mod length T)" using s by (intro searched_slot [where hit = ?hit]) simp
  qed
qed

text \<open>The slot for a key is also what a search returns that compares no keys.\<close>

lemma find_slot:
  assumes inv: "table_inv hv key hash good sz T cnt"
  obtains i where "find_entry hv (\<lambda>_. Some False) T sz h h' = Some (False, i)" "i < length T" "slot_for hv T h i"
proof -
  let ?p = "unat h mod length T"
  obtain g where g: "g < length T" "hv (T ! g) = 0" using inv_gap [OF inv] by blast
  have sz: "table_size sz (length T)" using inv by (simp add: table_inv_def)
  obtain found d where fd: "find_entry hv (\<lambda>_. Some False) T sz h h' = Some (found, (?p + d) mod length T)"
    and s: "searched hv (\<lambda>e. hv e = h' \<and> Some False = Some True) T ?p 0 found d"
    by (rule find_entry_searched [of sz T hv h' "\<lambda>_. Some False" g h]) (use sz g in auto)
  have "\<not> found" using s by (simp add: searched_def)
  moreover have "(?p + d) mod length T < length T" using g(1) by (intro mod_less_divisor) linarith
  ultimately show ?thesis using fd s searched_slot by (intro that) auto
qed

lemma insert:
  assumes inv: "table_inv hv key hash good sz T cnt" and room: "Suc cnt < length T" and i: "slot_for hv T h i"
    and e: "good e" "hv e = hash (key e)" "unat (hv e) mod length T = unat h mod length T"
    and new: "key e \<notin># image_mset key (entries hv T)"
  obtains T' where "shift_right hv T i = Some T'" "table_inv hv key hash good sz (T'[i := e]) (Suc cnt)"
    "entries hv (T'[i := e]) = add_mset e (entries hv T)"
proof -
  let ?p = "unat (hv e) mod length T"
  obtain d where d: "d < length T" "i = (?p + d) mod length T" "\<forall>t<d. occ hv T (?p + t) \<and> t \<le> displ hv T (?p + t)"
    "occ hv T (?p + d) \<longrightarrow> displ hv T (?p + d) < d"
    using i unfolding slot_for_def Let_def e(3) by blast
  have il: "i < length T" unfolding d(2) using d(1) by (intro mod_less_divisor) linarith
  obtain g where g: "g < length T" "hv (T ! g) = 0" using inv_gap [OF inv] by blast
  obtain L where L: "L < length T" "\<forall>t<L. occ hv T (i + t)" "\<not> occ hv T (i + L)"
    using gap_exists [of g T hv i] g by blast
  obtain T' where T': "shift_right hv T i = Some T'" "shifted_right T i L T'" using shift_right_spec [OF il L] by blast
  have ins: "inserted T i L e (T'[i := e])" by (rule shifted_right_inserted [OF il T'(2)])
  have ne: "hv e \<noteq> 0" using e(2) hash_nonzero by simp
  have ent: "entries hv (T'[i := e]) = add_mset e (entries hv T)" by (rule inserted_entries [OF ins L(1,3) ne])
  have rh: "robin_hood hv (T'[i := e])"
    by (rule inserted_robin_hood [OF ins L(1) _ L(2,3) ne d(2) refl d(1,3,4)]) (use inv in \<open>simp add: table_inv_def\<close>)
  have len: "length (T'[i := e]) = length T" using T'(2) by (simp add: shifted_right_def)
  have "count (image_mset key (entries hv T)) (key e) = 0" using new by (simp only: not_in_iff)
  then have "table_inv hv key hash good sz (T'[i := e]) (Suc cnt)"
    using inv room rh e(1,2) unfolding table_inv_def ent len by auto
  then show ?thesis using that T'(1) ent by blast
qed

lemma update:
  assumes inv: "table_inv hv key hash good sz T cnt" and i: "i < length T" "T ! i \<in># entries hv T"
    and e: "good e" "hv e = hv (T ! i)" "key e = key (T ! i)"
  shows "table_inv hv key hash good sz (T[i := e]) cnt" "entries hv (T[i := e]) = add_mset e (entries hv T - {#T ! i#})"
proof -
  have nz: "hv (T ! i) \<noteq> 0" using i(2) by (simp add: entries_def)
  show ent: "entries hv (T[i := e]) = add_mset e (entries hv T - {#T ! i#})" using entries_update [of i T hv e] i(1) nz e(2) by simp
  have "image_mset key (entries hv (T[i := e])) = image_mset key (entries hv T)"
    unfolding ent using e(3) i(2) by (metis add_mset_remove_trivial_eq image_mset_add_mset insert_DiffM)
  moreover have "size (entries hv (T[i := e])) = size (entries hv T)"
    unfolding ent using i(2) by (metis insert_DiffM size_add_mset)
  moreover have "x \<in># entries hv (T[i := e]) \<Longrightarrow> x = e \<or> x \<in># entries hv T" for x
    unfolding ent by (auto dest: in_diffD)
  moreover have "hv e = hash (key e)" using inv i(2) e(2,3) by (simp add: table_inv_def)
  ultimately show "table_inv hv key hash good sz (T[i := e]) cnt"
    using inv e(1) robin_hood_update [of i T hv e] i(1) e(2) unfolding table_inv_def by auto
qed

lemma remove_shape:
  assumes inv: "table_inv hv key hash good sz T cnt" and i: "i < length T" "T ! i \<in># entries hv T"
    and clear: "\<And>e. hv (clear e) = 0"
  obtains U m where "shift_left hv clear T sz i = Some U" "removed clear T i m U" "Suc m < length T"
    "\<forall>t. 0 < t \<and> t \<le> m \<longrightarrow> occ hv T (i + t)" "robin_hood hv U"
proof -
  have sz: "table_size sz (length T)" and rh: "robin_hood hv T" using inv by (auto simp: table_inv_def)
  have nz: "hv (T ! i) \<noteq> 0" using i(2) by (simp add: entries_def)
  then have o: "occ hv T i" using i(1) by simp
  obtain g where g: "g < length T" "hv (T ! g) = 0" using inv_gap [OF inv] by blast
  then have "\<not> occ hv T g" by simp
  from chain_end_exists [where hv = hv, OF i(1) o this] obtain m where m: "Suc m < length T"
    "\<forall>t. 0 < t \<and> t \<le> m \<longrightarrow> occ hv T (i + t) \<and> displ hv T (i + t) \<noteq> 0"
    "occ hv T (i + Suc m) \<longrightarrow> displ hv T (i + Suc m) = 0" by blast
  have ml: "m < length T" using m(1) by linarith
  have "chain_end hv T (sz - 1) (of_nat i) i = Some ((i + m) mod length T)"
    using chain_end_spec [OF sz i(1) m(2,3) _ ml, of 0] i(1) by simp
  then obtain U where U: "shift_left hv clear T sz i = Some U" "removed clear T i m U"
    using shift_left_removed [OF sz i(1) ml] by blast
  have "robin_hood hv U" by (rule removed_robin_hood [OF U(2) m(1) rh i(1) o m(2,3) clear])
  then show ?thesis using that [OF U m(1)] m(2) by blast
qed

lemma remove:
  assumes inv: "table_inv hv key hash good sz T cnt" and i: "i < length T" "T ! i \<in># entries hv T"
    and clear: "\<And>e. hv (clear e) = 0"
  obtains U where "shift_left hv clear T sz i = Some U" "table_inv hv key hash good sz U (cnt - 1)"
    "entries hv T = add_mset (T ! i) (entries hv U)"
proof -
  have nz: "hv (T ! i) \<noteq> 0" using i(2) by (simp add: entries_def)
  obtain U m where U: "shift_left hv clear T sz i = Some U" "removed clear T i m U" "Suc m < length T" "robin_hood hv U"
    by (rule remove_shape [where clear = clear, OF inv i clear]) blast
  have ml: "m < length T" using U(3) by linarith
  have ent: "entries hv T = add_mset (T ! i) (entries hv U)" by (rule removed_entries [OF U(2) ml i(1) nz clear])
  have len: "length U = length T" using U(2) by (simp add: removed_def)
  have "count (image_mset key (entries hv U)) k \<le> count (image_mset key (entries hv T)) k" for k unfolding ent by simp
  then have "\<forall>k. count (image_mset key (entries hv U)) k \<le> 1"
    using inv unfolding table_inv_def by (meson order_trans)
  then have "table_inv hv key hash good sz U (cnt - 1)"
    using inv U(4) len unfolding table_inv_def ent by auto
  then show ?thesis using that U(1) ent by blast
qed

lemma grow:
  assumes inv: "table_inv hv key hash good sz T cnt" and sz': "table_size sz' N" "length T dvd N"
  obtains V where "grow_table hv zero T sz' = Some V" "length V = N" "table_inv hv key hash good sz' V cnt" "entries hv V = entries hv T"
proof -
  obtain g where g: "g < length T" "hv (T ! g) = 0" using inv_gap [OF inv] by blast
  have rh: "robin_hood hv T" using inv by (simp add: table_inv_def)
  obtain V where V: "grow_table hv zero T sz' = Some V" "length V = N" "robin_hood hv V" "entries hv V = entries hv T"
    using grow_table_spec [OF rh g sz' zero_empty] by blast
  have "length T \<le> N" using sz' table_size_pos by (intro dvd_imp_le) auto
  then have "table_inv hv key hash good sz' V cnt" using inv V sz'(1) unfolding table_inv_def by auto
  then show ?thesis using that V by blast
qed

end

end
