(* ===== verification/Xml_Hash.thy ===== *)
theory Xml_Hash
  imports Xml_String Xml_Robin
begin

text \<open>
  The hash tables of libxml2 (\<open>src/testbed/libxml2/hash.c\<close> with the hash macros of
  \<open>include/private/dict.h\<close>), for tables without a dictionary (\<open>xmlHashCreate\<close>): entries with
  up to three string keys and a payload, in the open addressing of \<open>Xml_Robin\<close>.

  A table pointer is an option of a record of the fields, a payload an option (\<open>NULL\<close> is
  \<open>None\<close>), an entry pointer an index into the table.  The outer option of every operation is
  \<open>None\<close> for an access out of bounds or a loop that does not end, so that an equation
  \<open>f x = Some r\<close> says that the operation is safe and returns.  Operations that allocate take
  the results of the allocations to come; those that may call the deallocator of the caller
  return the calls.

  \<open>hash_ok\<close> is the invariant of a table and \<open>hash_map\<close> the map from the texts of the keys to
  the payloads it stands for; the lemmas \<open>..._spec\<close> describe each operation on the map.
\<close>


section \<open>Hash values\<close>

text \<open>The macros of \<open>include/private/dict.h\<close> on the pair of \<open>h1\<close> and \<open>h2\<close>.\<close>

definition HASH_ROL :: "u32 \<Rightarrow> nat \<Rightarrow> u32" where
  "HASH_ROL x n = push_bit n x OR drop_bit (32 - n) (x AND 0xFFFFFFFF)"

definition HASH_ROR :: "u32 \<Rightarrow> nat \<Rightarrow> u32" where
  "HASH_ROR x n = drop_bit n (x AND 0xFFFFFFFF) OR push_bit (32 - n) x"

definition HASH_INIT :: "u32 \<Rightarrow> u32 \<times> u32" where
  "HASH_INIT seed = (seed XOR 0x3b00, HASH_ROL seed 15)"

definition HASH_UPDATE :: "u32 \<times> u32 \<Rightarrow> u32 \<Rightarrow> u32 \<times> u32" where
  "HASH_UPDATE h ch =
     (let (h1, h2) = h;
          h1 = h1 + ch;
          h1 = h1 + push_bit 3 h1;
          h2 = h2 + h1;
          h2 = HASH_ROL h2 7;
          h2 = h2 + push_bit 2 h2
      in (h1, h2))"

definition HASH_FINISH :: "u32 \<times> u32 \<Rightarrow> u32" where
  "HASH_FINISH h =
     (let (h1, h2) = h;
          h1 = h1 XOR h2;
          h1 = h1 + HASH_ROL h2 14;
          h2 = h2 XOR h1; h2 = h2 + HASH_ROR h1 6;
          h1 = h1 XOR h2; h1 = h1 + HASH_ROL h2 5;
          h2 = h2 XOR h1; h2 = h2 + HASH_ROR h1 8
      in h2 AND 0xFFFFFFFF)"

text \<open>The loop over the bytes of a string; the count is its length.\<close>

fun hash_bytes :: "u32 \<times> u32 \<Rightarrow> u8 list \<Rightarrow> nat \<Rightarrow> ((u32 \<times> u32) \<times> nat) option" where
  "hash_bytes h [] i = None"
| "hash_bytes h (c # p) i = (if c = 0 then Some (h, i) else hash_bytes (HASH_UPDATE h (ucast c)) p (i + 1))"

definition hash_optional :: "u32 \<times> u32 \<Rightarrow> xptr \<Rightarrow> ((u32 \<times> u32) \<times> nat) option" where
  "hash_optional h key = (case key of None \<Rightarrow> Some (h, 0) | Some p \<Rightarrow> hash_bytes h p 0)"

text \<open>The result is the hash value with the lengths of the keys.\<close>

definition xmlHashValue :: "u32 \<Rightarrow> xptr \<Rightarrow> xptr \<Rightarrow> xptr \<Rightarrow> (u32 \<times> nat \<times> nat \<times> nat) option" where
  "xmlHashValue seed key key2 key3 = do {
     let h = HASH_INIT seed;
     p \<leftarrow> key;
     (h, len) \<leftarrow> hash_bytes h p 0;
     let h = HASH_UPDATE h 0;
     (h, len2) \<leftarrow> hash_optional h key2;
     let h = HASH_UPDATE h 0;
     (h, len3) \<leftarrow> hash_optional h key3;
     Some (HASH_FINISH h, len, len2, len3)
   }"

definition hash_qname :: "u32 \<times> u32 \<Rightarrow> xptr \<Rightarrow> xptr \<Rightarrow> (u32 \<times> u32) option" where
  "hash_qname h prefix name = do {
     h \<leftarrow> (case prefix of
            None \<Rightarrow> Some h
          | Some p \<Rightarrow> do { (h, _) \<leftarrow> hash_bytes h p 0; Some (HASH_UPDATE h 0x3A) });
     (h, _) \<leftarrow> hash_optional h name;
     Some h
   }"

definition xmlHashQNameValue :: "u32 \<Rightarrow> xptr \<Rightarrow> xptr \<Rightarrow> xptr \<Rightarrow> xptr \<Rightarrow> xptr \<Rightarrow> xptr \<Rightarrow> u32 option" where
  "xmlHashQNameValue seed prefix name prefix2 name2 prefix3 name3 = do {
     let h = HASH_INIT seed;
     h \<leftarrow> hash_qname h prefix name;
     let h = HASH_UPDATE h 0;
     h \<leftarrow> hash_qname h prefix2 name2;
     let h = HASH_UPDATE h 0;
     h \<leftarrow> hash_qname h prefix3 name3;
     Some (HASH_FINISH h)
   }"

section \<open>The table\<close>

definition MIN_HASH_SIZE :: u32 where "MIN_HASH_SIZE = 8"

definition MAX_HASH_SIZE :: u32 where "MAX_HASH_SIZE = 2147483648"

definition SIZE_MAX :: nat where "SIZE_MAX = 18446744073709551615"

record 'p xmlHashEntry =
  e_hashValue :: u32
  e_key :: xptr
  e_key2 :: xptr
  e_key3 :: xptr
  e_payload :: "'p option"

record 'p xmlHashTable =
  h_table :: "'p xmlHashEntry list"
  h_size :: u32
  h_nbElems :: u32
  h_randomSeed :: u32

definition zero_entry :: "'p xmlHashEntry" where
  "zero_entry = \<lparr>e_hashValue = 0, e_key = None, e_key2 = None, e_key3 = None, e_payload = None\<rparr>"

text \<open>\<open>sizeof(xmlHashEntry)\<close> is 40 with 64-bit pointers.\<close>

definition xmlHashGrow :: "'p xmlHashTable \<Rightarrow> u32 \<Rightarrow> bool list \<Rightarrow> (int \<times> 'p xmlHashTable \<times> bool list) option" where
  "xmlHashGrow h sz mem =
     (if unat sz > SIZE_MAX div 40 then Some (-1, h, mem)
      else let (ok, mem) = malloc mem
        in if \<not> ok then Some (-1, h, mem)
           else do {
             T \<leftarrow> grow_table e_hashValue zero_entry (h_table h) sz;
             Some (0, h\<lparr>h_table := T, h_size := sz\<rparr>, mem)
           })"

text \<open>\<open>while ((newSize < (unsigned) size) && (newSize < MAX_HASH_SIZE)) newSize *= 2;\<close>\<close>

partial_function (option) create_size :: "u32 \<Rightarrow> u32 \<Rightarrow> u32 option" where
  "create_size sz newSize =
     (if newSize < sz \<and> newSize < MAX_HASH_SIZE then create_size sz (newSize * 2) else Some newSize)"

text \<open>\<open>seed\<close> is what \<open>xmlRandom\<close> returns.\<close>

definition xmlHashCreate :: "int \<Rightarrow> u32 \<Rightarrow> bool list \<Rightarrow> ('p xmlHashTable option \<times> bool list) option" where
  "xmlHashCreate sz seed mem =
     (let (ok, mem) = malloc mem
      in if \<not> ok then Some (None, mem)
         else let h = \<lparr>h_table = [], h_size = 0, h_nbElems = 0, h_randomSeed = seed\<rparr>
           in if sz > uint MIN_HASH_SIZE
              then do {
                newSize \<leftarrow> create_size (word_of_int sz) (MIN_HASH_SIZE * 2);
                (ret, h, mem) \<leftarrow> xmlHashGrow h newSize mem;
                Some (if ret \<noteq> 0 then None else Some h, mem)
              }
              else Some (Some h, mem))"

text \<open>The calls of the deallocator: payload and key.\<close>

type_synonym 'p dealloc_log = "('p option \<times> xptr) list"

definition xmlHashFree :: "'p xmlHashTable option \<Rightarrow> bool \<Rightarrow> 'p dealloc_log" where
  "xmlHashFree hash dealloc =
     (case hash of
        None \<Rightarrow> []
      | Some h \<Rightarrow>
          concat (map (\<lambda>entry.
             if e_hashValue entry = 0 then []
             else if dealloc \<and> e_payload entry \<noteq> None then [(e_payload entry, e_key entry)] else []) (h_table h)))"

definition strcmp :: "xptr \<Rightarrow> xptr \<Rightarrow> int option" where
  "strcmp s1 s2 = do { p \<leftarrow> s1; q \<leftarrow> s2; strcmp_loop (\<lambda>c. c) p q }"

definition xmlFastStrEqual :: "xptr \<Rightarrow> xptr \<Rightarrow> bool option" where
  "xmlFastStrEqual s1 s2 =
     (if s1 = None then Some (s2 = None)
      else if s2 = None then Some False
      else do { c \<leftarrow> strcmp s1 s2; Some (c = 0) })"

text \<open>The comparison of the keys in a table without a dictionary.\<close>

definition entry_matches :: "xptr \<Rightarrow> xptr \<Rightarrow> xptr \<Rightarrow> 'p xmlHashEntry \<Rightarrow> bool option" where
  "entry_matches key key2 key3 entry = do {
     c \<leftarrow> strcmp (e_key entry) key;
     if c = 0
     then do {
       b \<leftarrow> xmlFastStrEqual (e_key2 entry) key2;
       if b then xmlFastStrEqual (e_key3 entry) key3 else Some False
     }
     else Some False
   }"

definition xmlHashFindEntry :: "'p xmlHashTable \<Rightarrow> xptr \<Rightarrow> xptr \<Rightarrow> xptr \<Rightarrow> u32 \<Rightarrow> (bool \<times> nat) option" where
  "xmlHashFindEntry h key key2 key3 hashValue =
     find_entry e_hashValue (entry_matches key key2 key3) (h_table h) (h_size h) hashValue (hashValue OR MAX_HASH_SIZE)"

section \<open>Adding and updating\<close>

text \<open>
  Growing when the table is full, and the search for the slot in the new table, which
  compares no keys.  The boolean is false for \<open>return(-1)\<close>.
\<close>

definition hash_make_room ::
    "'p xmlHashTable \<Rightarrow> u32 \<Rightarrow> nat \<Rightarrow> bool list \<Rightarrow> (bool \<times> 'p xmlHashTable \<times> nat \<times> bool list) option" where
  "hash_make_room h hashValue entry mem =
     (if h_nbElems h + 1 > h_size h div 8 * 7
      then if h_size h \<noteq> 0 \<and> h_size h \<ge> MAX_HASH_SIZE then Some (False, h, entry, mem)
        else do {
          let newSize = (if h_size h = 0 then MIN_HASH_SIZE else h_size h * 2);
          (ret, h, mem) \<leftarrow> xmlHashGrow h newSize mem;
          if ret \<noteq> 0 then Some (False, h, entry, mem)
          else do {
            (_, entry) \<leftarrow> find_entry e_hashValue (\<lambda>_. Some False) (h_table h) (h_size h) hashValue hashValue;
            Some (True, h, entry, mem)
          }
        }
      else Some (True, h, entry, mem))"

text \<open>A copy of a key; the inner \<open>None\<close> is a failed allocation.\<close>

definition copy_key :: "xptr \<Rightarrow> nat \<Rightarrow> bool list \<Rightarrow> (xptr option \<times> bool list) option" where
  "copy_key key len mem =
     (case key of
        None \<Rightarrow> Some (Some None, mem)
      | Some p \<Rightarrow>
          let (ok, mem) = malloc mem
          in if ok then do { bs \<leftarrow> memcpy p (len + 1); Some (Some (Some bs), mem) } else Some (None, mem))"

definition copy_keys ::
    "xptr \<Rightarrow> xptr \<Rightarrow> xptr \<Rightarrow> nat \<times> nat \<times> nat \<Rightarrow> bool list \<Rightarrow> ((xptr \<times> xptr \<times> xptr) option \<times> bool list) option" where
  "copy_keys key key2 key3 lengths mem =
     (let (len, len2, len3) = lengths
      in do {
        (copy, mem) \<leftarrow> copy_key key len mem;
        case copy of
          None \<Rightarrow> Some (None, mem)
        | Some copy \<Rightarrow> do {
            (copy2, mem) \<leftarrow> copy_key key2 len2 mem;
            case copy2 of
              None \<Rightarrow> Some (None, mem)
            | Some copy2 \<Rightarrow> do {
                (copy3, mem) \<leftarrow> copy_key key3 len3 mem;
                Some (map_option (\<lambda>copy3. (copy, copy2, copy3)) copy3, mem)
              }
          }
      })"

definition xmlHashUpdateInternal ::
    "'p xmlHashTable option \<Rightarrow> xptr \<Rightarrow> xptr \<Rightarrow> xptr \<Rightarrow> 'p option \<Rightarrow> bool \<Rightarrow> bool \<Rightarrow> bool list \<Rightarrow>
     (int \<times> 'p xmlHashTable option \<times> 'p dealloc_log \<times> bool list) option" where
  "xmlHashUpdateInternal hash key key2 key3 payload dealloc upd mem =
     (case hash of
        None \<Rightarrow> Some (-1, None, [], mem)
      | Some h \<Rightarrow>
          if key = None then Some (-1, Some h, [], mem)
          else do {
            (hashValue, lengths) \<leftarrow> xmlHashValue (h_randomSeed h) key key2 key3;
            (found, entry) \<leftarrow> (if h_size h > 0 then xmlHashFindEntry h key key2 key3 hashValue else Some (False, 0));
            if found
            then if upd
              then do {
                e \<leftarrow> slot (h_table h) entry;
                Some (0, Some (h\<lparr>h_table := (h_table h)[entry := e\<lparr>e_payload := payload\<rparr>]\<rparr>),
                      if dealloc then [(e_payload e, e_key e)] else [], mem)
              }
              else Some (0, Some h, [], mem)
            else do {
              (ok, h, entry, mem) \<leftarrow> hash_make_room h hashValue entry mem;
              if \<not> ok then Some (-1, Some h, [], mem)
              else do {
                (copies, mem) \<leftarrow> copy_keys key key2 key3 lengths mem;
                case copies of
                  None \<Rightarrow> Some (-1, Some h, [], mem)
                | Some (copy, copy2, copy3) \<Rightarrow> do {
                    T \<leftarrow> shift_right e_hashValue (h_table h) entry;
                    Some (1, Some (h\<lparr>h_table := T[entry := \<lparr>e_hashValue = hashValue OR MAX_HASH_SIZE, e_key = copy,
                                                         e_key2 = copy2, e_key3 = copy3, e_payload = payload\<rparr>],
                                    h_nbElems := h_nbElems h + 1\<rparr>), [], mem)
                  }
              }
            }
          })"

definition xmlHashAdd3 ::
    "'p xmlHashTable option \<Rightarrow> xptr \<Rightarrow> xptr \<Rightarrow> xptr \<Rightarrow> 'p option \<Rightarrow> bool list \<Rightarrow>
     (int \<times> 'p xmlHashTable option \<times> 'p dealloc_log \<times> bool list) option" where
  "xmlHashAdd3 hash key key2 key3 payload mem = xmlHashUpdateInternal hash key key2 key3 payload False False mem"

definition xmlHashAdd ::
    "'p xmlHashTable option \<Rightarrow> xptr \<Rightarrow> 'p option \<Rightarrow> bool list \<Rightarrow>
     (int \<times> 'p xmlHashTable option \<times> 'p dealloc_log \<times> bool list) option" where
  "xmlHashAdd hash key payload mem = xmlHashUpdateInternal hash key None None payload False False mem"

definition xmlHashAdd2 ::
    "'p xmlHashTable option \<Rightarrow> xptr \<Rightarrow> xptr \<Rightarrow> 'p option \<Rightarrow> bool list \<Rightarrow>
     (int \<times> 'p xmlHashTable option \<times> 'p dealloc_log \<times> bool list) option" where
  "xmlHashAdd2 hash key key2 payload mem = xmlHashUpdateInternal hash key key2 None payload False False mem"

text \<open>\<open>if (res == 0) res = -1; else if (res == 1) res = 0;\<close> in the older interface.\<close>

definition xmlHashAddEntry3 ::
    "'p xmlHashTable option \<Rightarrow> xptr \<Rightarrow> xptr \<Rightarrow> xptr \<Rightarrow> 'p option \<Rightarrow> bool list \<Rightarrow>
     (int \<times> 'p xmlHashTable option \<times> 'p dealloc_log \<times> bool list) option" where
  "xmlHashAddEntry3 hash key key2 key3 payload mem = do {
     (res, h, freed, mem) \<leftarrow> xmlHashUpdateInternal hash key key2 key3 payload False False mem;
     Some (if res = 0 then -1 else if res = 1 then 0 else res, h, freed, mem)
   }"

definition xmlHashAddEntry ::
    "'p xmlHashTable option \<Rightarrow> xptr \<Rightarrow> 'p option \<Rightarrow> bool list \<Rightarrow>
     (int \<times> 'p xmlHashTable option \<times> 'p dealloc_log \<times> bool list) option" where
  "xmlHashAddEntry hash key payload mem = do {
     (res, h, freed, mem) \<leftarrow> xmlHashUpdateInternal hash key None None payload False False mem;
     Some (if res = 0 then -1 else if res = 1 then 0 else res, h, freed, mem)
   }"

definition xmlHashAddEntry2 ::
    "'p xmlHashTable option \<Rightarrow> xptr \<Rightarrow> xptr \<Rightarrow> 'p option \<Rightarrow> bool list \<Rightarrow>
     (int \<times> 'p xmlHashTable option \<times> 'p dealloc_log \<times> bool list) option" where
  "xmlHashAddEntry2 hash key key2 payload mem = do {
     (res, h, freed, mem) \<leftarrow> xmlHashUpdateInternal hash key key2 None payload False False mem;
     Some (if res = 0 then -1 else if res = 1 then 0 else res, h, freed, mem)
   }"

definition xmlHashUpdateEntry3 ::
    "'p xmlHashTable option \<Rightarrow> xptr \<Rightarrow> xptr \<Rightarrow> xptr \<Rightarrow> 'p option \<Rightarrow> bool \<Rightarrow> bool list \<Rightarrow>
     (int \<times> 'p xmlHashTable option \<times> 'p dealloc_log \<times> bool list) option" where
  "xmlHashUpdateEntry3 hash key key2 key3 payload dealloc mem = do {
     (res, h, freed, mem) \<leftarrow> xmlHashUpdateInternal hash key key2 key3 payload dealloc True mem;
     Some (if res = 1 then 0 else res, h, freed, mem)
   }"

definition xmlHashUpdateEntry ::
    "'p xmlHashTable option \<Rightarrow> xptr \<Rightarrow> 'p option \<Rightarrow> bool \<Rightarrow> bool list \<Rightarrow>
     (int \<times> 'p xmlHashTable option \<times> 'p dealloc_log \<times> bool list) option" where
  "xmlHashUpdateEntry hash key payload dealloc mem = do {
     (res, h, freed, mem) \<leftarrow> xmlHashUpdateInternal hash key None None payload dealloc True mem;
     Some (if res = 1 then 0 else res, h, freed, mem)
   }"

definition xmlHashUpdateEntry2 ::
    "'p xmlHashTable option \<Rightarrow> xptr \<Rightarrow> xptr \<Rightarrow> 'p option \<Rightarrow> bool \<Rightarrow> bool list \<Rightarrow>
     (int \<times> 'p xmlHashTable option \<times> 'p dealloc_log \<times> bool list) option" where
  "xmlHashUpdateEntry2 hash key key2 payload dealloc mem = do {
     (res, h, freed, mem) \<leftarrow> xmlHashUpdateInternal hash key key2 None payload dealloc True mem;
     Some (if res = 1 then 0 else res, h, freed, mem)
   }"

section \<open>Looking up\<close>

definition xmlHashLookup3 :: "'p xmlHashTable option \<Rightarrow> xptr \<Rightarrow> xptr \<Rightarrow> xptr \<Rightarrow> 'p option option" where
  "xmlHashLookup3 hash key key2 key3 =
     (case hash of
        None \<Rightarrow> Some None
      | Some h \<Rightarrow>
          if h_size h = 0 \<or> key = None then Some None
          else do {
            (hashValue, _) \<leftarrow> xmlHashValue (h_randomSeed h) key key2 key3;
            (found, entry) \<leftarrow> xmlHashFindEntry h key key2 key3 hashValue;
            if found then do { e \<leftarrow> slot (h_table h) entry; Some (e_payload e) } else Some None
          })"

definition xmlHashLookup :: "'p xmlHashTable option \<Rightarrow> xptr \<Rightarrow> 'p option option" where
  "xmlHashLookup hash key = xmlHashLookup3 hash key None None"

definition xmlHashLookup2 :: "'p xmlHashTable option \<Rightarrow> xptr \<Rightarrow> xptr \<Rightarrow> 'p option option" where
  "xmlHashLookup2 hash key key2 = xmlHashLookup3 hash key key2 None"

text \<open>The keys in the table are its own copies, so that their addresses differ from those of the arguments.\<close>

definition entry_qmatches :: "xptr \<Rightarrow> xptr \<Rightarrow> xptr \<Rightarrow> xptr \<Rightarrow> xptr \<Rightarrow> xptr \<Rightarrow> 'p xmlHashEntry \<Rightarrow> bool option" where
  "entry_qmatches prefix name prefix2 name2 prefix3 name3 entry = do {
     c \<leftarrow> xmlStrQEqual False prefix name (e_key entry);
     if c \<noteq> 0
     then do {
       c2 \<leftarrow> xmlStrQEqual False prefix2 name2 (e_key2 entry);
       if c2 \<noteq> 0
       then do { c3 \<leftarrow> xmlStrQEqual False prefix3 name3 (e_key3 entry); Some (c3 \<noteq> 0) }
       else Some False
     }
     else Some False
   }"

definition xmlHashQLookup3 ::
    "'p xmlHashTable option \<Rightarrow> xptr \<Rightarrow> xptr \<Rightarrow> xptr \<Rightarrow> xptr \<Rightarrow> xptr \<Rightarrow> xptr \<Rightarrow> 'p option option" where
  "xmlHashQLookup3 hash prefix name prefix2 name2 prefix3 name3 =
     (case hash of
        None \<Rightarrow> Some None
      | Some h \<Rightarrow>
          if h_size h = 0 \<or> name = None then Some None
          else do {
            hashValue \<leftarrow> xmlHashQNameValue (h_randomSeed h) prefix name prefix2 name2 prefix3 name3;
            (found, entry) \<leftarrow>
              find_entry e_hashValue (entry_qmatches prefix name prefix2 name2 prefix3 name3) (h_table h) (h_size h)
                hashValue (hashValue OR MAX_HASH_SIZE);
            if found then do { e \<leftarrow> slot (h_table h) entry; Some (e_payload e) } else Some None
          })"

definition xmlHashQLookup :: "'p xmlHashTable option \<Rightarrow> xptr \<Rightarrow> xptr \<Rightarrow> 'p option option" where
  "xmlHashQLookup hash prefix name = xmlHashQLookup3 hash prefix name None None None None"

definition xmlHashQLookup2 :: "'p xmlHashTable option \<Rightarrow> xptr \<Rightarrow> xptr \<Rightarrow> xptr \<Rightarrow> xptr \<Rightarrow> 'p option option" where
  "xmlHashQLookup2 hash prefix name prefix2 name2 = xmlHashQLookup3 hash prefix name prefix2 name2 None None"

definition xmlHashSize :: "'p xmlHashTable option \<Rightarrow> int" where
  "xmlHashSize hash = (case hash of None \<Rightarrow> -1 | Some h \<Rightarrow> sint (h_nbElems h))"

section \<open>Removing\<close>

definition xmlHashRemoveEntry3 ::
    "'p xmlHashTable option \<Rightarrow> xptr \<Rightarrow> xptr \<Rightarrow> xptr \<Rightarrow> bool \<Rightarrow> (int \<times> 'p xmlHashTable option \<times> 'p dealloc_log) option" where
  "xmlHashRemoveEntry3 hash key key2 key3 dealloc =
     (case hash of
        None \<Rightarrow> Some (-1, None, [])
      | Some h \<Rightarrow>
          if h_size h = 0 \<or> key = None then Some (-1, Some h, [])
          else do {
            (hashValue, _) \<leftarrow> xmlHashValue (h_randomSeed h) key key2 key3;
            (found, entry) \<leftarrow> xmlHashFindEntry h key key2 key3 hashValue;
            if \<not> found then Some (-1, Some h, [])
            else do {
              e \<leftarrow> slot (h_table h) entry;
              let freed = (if dealloc \<and> e_payload e \<noteq> None then [(e_payload e, e_key e)] else []);
              T \<leftarrow> shift_left e_hashValue (\<lambda>cur. cur\<lparr>e_hashValue := 0\<rparr>) (h_table h) (h_size h) entry;
              Some (0, Some (h\<lparr>h_table := T, h_nbElems := h_nbElems h - 1\<rparr>), freed)
            }
          })"

definition xmlHashRemoveEntry ::
    "'p xmlHashTable option \<Rightarrow> xptr \<Rightarrow> bool \<Rightarrow> (int \<times> 'p xmlHashTable option \<times> 'p dealloc_log) option" where
  "xmlHashRemoveEntry hash key dealloc = xmlHashRemoveEntry3 hash key None None dealloc"

definition xmlHashRemoveEntry2 ::
    "'p xmlHashTable option \<Rightarrow> xptr \<Rightarrow> xptr \<Rightarrow> bool \<Rightarrow> (int \<times> 'p xmlHashTable option \<times> 'p dealloc_log) option" where
  "xmlHashRemoveEntry2 hash key key2 dealloc = xmlHashRemoveEntry3 hash key key2 None dealloc"

section \<open>Copying\<close>

text \<open>The loop over the entries; the flag is false when it ends at the label \<open>error\<close>.\<close>

fun copy_entries ::
    "('p option \<Rightarrow> xptr \<Rightarrow> 'q option) \<Rightarrow> bool \<Rightarrow> 'p xmlHashEntry list \<Rightarrow> 'q xmlHashTable \<Rightarrow> bool list \<Rightarrow>
     (bool \<times> 'q xmlHashTable option \<times> 'q dealloc_log \<times> bool list) option" where
  "copy_entries copyFunc dealloc [] ret mem = Some (True, Some ret, [], mem)"
| "copy_entries copyFunc dealloc (entry # es) ret mem =
     (if e_hashValue entry \<noteq> 0
      then let copy = copyFunc (e_payload entry) (e_key entry)
        in if copy = None then Some (False, Some ret, [], mem)
           else do {
             (res, ret', _, mem) \<leftarrow> xmlHashAdd3 (Some ret) (e_key entry) (e_key2 entry) (e_key3 entry) copy mem;
             if res \<le> 0 then Some (False, ret', if dealloc then [(copy, e_key entry)] else [], mem)
             else do { ret \<leftarrow> ret'; copy_entries copyFunc dealloc es ret mem }
           }
      else copy_entries copyFunc dealloc es ret mem)"

definition xmlHashCopySafe ::
    "'p xmlHashTable option \<Rightarrow> ('p option \<Rightarrow> xptr \<Rightarrow> 'q option) option \<Rightarrow> bool \<Rightarrow> u32 \<Rightarrow> bool list \<Rightarrow>
     ('q xmlHashTable option \<times> 'q dealloc_log \<times> bool list) option" where
  "xmlHashCopySafe hash copyFunc dealloc seed mem =
     (case (hash, copyFunc) of
        (Some h, Some copyFunc) \<Rightarrow> do {
          (ret, mem) \<leftarrow> xmlHashCreate (sint (h_size h)) seed mem;
          case ret of
            None \<Rightarrow> Some (None, [], mem)
          | Some ret \<Rightarrow>
              if h_size h = 0 then Some (Some ret, [], mem)
              else do {
                (ok, ret, freed, mem) \<leftarrow> copy_entries copyFunc dealloc (h_table h) ret mem;
                Some (if ok then (ret, [], mem) else (None, freed @ xmlHashFree ret dealloc, mem))
              }
        }
      | _ \<Rightarrow> Some (None, [], mem))"

definition xmlHashCopy ::
    "'p xmlHashTable option \<Rightarrow> ('p option \<Rightarrow> xptr \<Rightarrow> 'q option) option \<Rightarrow> u32 \<Rightarrow> bool list \<Rightarrow>
     ('q xmlHashTable option \<times> 'q dealloc_log \<times> bool list) option" where
  "xmlHashCopy hash copy seed mem = xmlHashCopySafe hash copy False seed mem"


section \<open>Scanning\<close>

text \<open>
  The callback gets the payload and the keys of an entry; it may change the table, for
  instance remove the entry, and a state of the caller.  If it makes the table grow, the
  pointer into the old table is dangling.  Two entries of a table have different key
  pointers exactly when their keys differ, since every entry has its own copies.
\<close>

type_synonym ('p, 's) scanner =
  "'p option \<Rightarrow> xptr \<Rightarrow> xptr \<Rightarrow> xptr \<Rightarrow> 'p xmlHashTable \<times> 's \<Rightarrow> ('p xmlHashTable \<times> 's) option"

text \<open>The inner loop on one slot; \<open>skip\<close> is the test that leaves the loop in \<open>xmlHashScanFull3\<close>.\<close>

partial_function (option) scan_slot ::
    "('p xmlHashEntry \<Rightarrow> bool option) \<Rightarrow> ('p, 's) scanner \<Rightarrow> nat \<Rightarrow> 'p xmlHashTable \<times> 's \<Rightarrow> ('p xmlHashTable \<times> 's) option" where
  "scan_slot skip scan i s = do {
     old \<leftarrow> slot (h_table (fst s)) i;
     leave \<leftarrow> skip old;
     if leave then Some s
     else do {
       s' \<leftarrow> scan (e_payload old) (e_key old) (e_key2 old) (e_key3 old) s;
       if h_size (fst s') \<noteq> h_size (fst s) then None
       else do {
         entry \<leftarrow> slot (h_table (fst s')) i;
         if e_hashValue entry \<noteq> 0 \<and> e_payload entry \<noteq> None \<and>
            (e_key entry \<noteq> e_key old \<or> e_key2 entry \<noteq> e_key2 old \<or> e_key3 entry \<noteq> e_key3 old)
         then scan_slot skip scan i s'
         else Some s'
       }
     }
   }"

fun scan_loop ::
    "('p xmlHashEntry \<Rightarrow> bool option) \<Rightarrow> ('p, 's) scanner \<Rightarrow> nat \<Rightarrow> nat \<Rightarrow> 'p xmlHashTable \<times> 's \<Rightarrow> ('p xmlHashTable \<times> 's) option" where
  "scan_loop skip scan 0 j s = Some s"
| "scan_loop skip scan (Suc k) j s = do {
     entry \<leftarrow> slot (h_table (fst s)) j;
     s \<leftarrow> (if e_hashValue entry \<noteq> 0 \<and> e_payload entry \<noteq> None then scan_slot skip scan j s else Some s);
     scan_loop skip scan k (if j + 1 \<ge> length (h_table (fst s)) then 0 else j + 1) s
   }"

definition scan_table ::
    "('p xmlHashEntry \<Rightarrow> bool option) \<Rightarrow> 'p xmlHashTable option \<Rightarrow> ('p, 's) scanner option \<Rightarrow> 's \<Rightarrow> ('p xmlHashTable option \<times> 's) option" where
  "scan_table skip hash scan st =
     (case (hash, scan) of
        (Some h, Some scan) \<Rightarrow>
          if h_size h = 0 then Some (Some h, st)
          else do {
            j \<leftarrow> gap_loop e_hashValue (h_table h) 0;
            (h, st) \<leftarrow> scan_loop skip scan (unat (h_size h)) j (h, st);
            Some (Some h, st)
          }
      | _ \<Rightarrow> Some (hash, st))"

definition xmlHashScanFull ::
    "'p xmlHashTable option \<Rightarrow> ('p, 's) scanner option \<Rightarrow> 's \<Rightarrow> ('p xmlHashTable option \<times> 's) option" where
  "xmlHashScanFull hash scan st = scan_table (\<lambda>_. Some False) hash scan st"

text \<open>\<open>break\<close> when one of the given keys differs from that of the entry.\<close>

definition scan3_skip :: "xptr \<Rightarrow> xptr \<Rightarrow> xptr \<Rightarrow> 'p xmlHashEntry \<Rightarrow> bool option" where
  "scan3_skip key key2 key3 entry = do {
     b \<leftarrow> (if key \<noteq> None then do { c \<leftarrow> strcmp key (e_key entry); Some (c \<noteq> 0) } else Some False);
     if b then Some True
     else do {
       b \<leftarrow> (if key2 \<noteq> None then do { eq \<leftarrow> xmlFastStrEqual key2 (e_key2 entry); Some (\<not> eq) } else Some False);
       if b then Some True
       else if key3 \<noteq> None then do { eq \<leftarrow> xmlFastStrEqual key3 (e_key3 entry); Some (\<not> eq) } else Some False
     }
   }"

definition xmlHashScanFull3 ::
    "'p xmlHashTable option \<Rightarrow> xptr \<Rightarrow> xptr \<Rightarrow> xptr \<Rightarrow> ('p, 's) scanner option \<Rightarrow> 's \<Rightarrow> ('p xmlHashTable option \<times> 's) option" where
  "xmlHashScanFull3 hash key key2 key3 scan st = scan_table (scan3_skip key key2 key3) hash scan st"

text \<open>The simple scanners pass only the first key.\<close>

definition stubHashScannerFull ::
    "('p option \<Rightarrow> xptr \<Rightarrow> 'p xmlHashTable \<times> 's \<Rightarrow> ('p xmlHashTable \<times> 's) option) \<Rightarrow> ('p, 's) scanner" where
  "stubHashScannerFull scan payload key key2 key3 s = scan payload key s"

definition xmlHashScan ::
    "'p xmlHashTable option \<Rightarrow> ('p option \<Rightarrow> xptr \<Rightarrow> 'p xmlHashTable \<times> 's \<Rightarrow> ('p xmlHashTable \<times> 's) option) \<Rightarrow> 's \<Rightarrow>
     ('p xmlHashTable option \<times> 's) option" where
  "xmlHashScan hash scan st = xmlHashScanFull hash (Some (stubHashScannerFull scan)) st"

definition xmlHashScan3 ::
    "'p xmlHashTable option \<Rightarrow> xptr \<Rightarrow> xptr \<Rightarrow> xptr \<Rightarrow>
     ('p option \<Rightarrow> xptr \<Rightarrow> 'p xmlHashTable \<times> 's \<Rightarrow> ('p xmlHashTable \<times> 's) option) \<Rightarrow> 's \<Rightarrow>
     ('p xmlHashTable option \<times> 's) option" where
  "xmlHashScan3 hash key key2 key3 scan st = xmlHashScanFull3 hash key key2 key3 (Some (stubHashScannerFull scan)) st"

section \<open>Keys as texts\<close>

text \<open>The texts of the keys of an entry or a call, and the hash value of such a triple.\<close>

type_synonym hkey = "u8 list \<times> u8 list option \<times> u8 list option"

definition texts :: "xptr \<Rightarrow> xptr \<Rightarrow> xptr \<Rightarrow> hkey" where
  "texts key key2 key3 = (ctext (the key), map_option ctext key2, map_option ctext key3)"

definition entry_key :: "'p xmlHashEntry \<Rightarrow> hkey" where
  "entry_key e = texts (e_key e) (e_key2 e) (e_key3 e)"

definition hash_text :: "u32 \<times> u32 \<Rightarrow> u8 list \<Rightarrow> u32 \<times> u32" where
  "hash_text h s = fold (\<lambda>c h. HASH_UPDATE h (ucast c)) s h"

definition hash_text_opt :: "u32 \<times> u32 \<Rightarrow> u8 list option \<Rightarrow> u32 \<times> u32" where
  "hash_text_opt h s = (case s of None \<Rightarrow> h | Some s \<Rightarrow> hash_text h s)"

lemma hash_text_opt_simps [simp]: "hash_text_opt h None = h" "hash_text_opt h (Some s) = hash_text h s"
  by (simp_all add: hash_text_opt_def)

definition key_hash :: "u32 \<Rightarrow> hkey \<Rightarrow> u32" where
  "key_hash seed k =
     (case k of (s, s2, s3) \<Rightarrow>
        HASH_FINISH (hash_text_opt (HASH_UPDATE (hash_text_opt (HASH_UPDATE (hash_text (HASH_INIT seed) s) 0) s2) 0) s3))"

definition stored_hash :: "u32 \<Rightarrow> hkey \<Rightarrow> u32" where
  "stored_hash seed k = key_hash seed k OR MAX_HASH_SIZE"

text \<open>The terminated copy of a text, and an entry whose keys are such copies.\<close>

definition copy_of :: "u8 list \<Rightarrow> u8 list" where
  "copy_of s = s @ [0]"

definition entry_good :: "'p xmlHashEntry \<Rightarrow> bool" where
  "entry_good e \<longleftrightarrow> (\<exists>s s2 s3. e_key e = Some (copy_of s) \<and> e_key2 e = map_option copy_of s2 \<and> e_key3 e = map_option copy_of s3 \<and>
     cstring s \<and> pred_option cstring s2 \<and> pred_option cstring s3)"

lemma ctext_copy_of [simp]: "cstring s \<Longrightarrow> ctext (copy_of s) = s"
  using ctext_cstring [of s "[]"] by (simp add: copy_of_def)

lemma terminated_copy_of [simp]: "terminated (copy_of s)"
  by (simp add: copy_of_def)

lemma ctext_texts: "cstring (ctext p)"
  by (induction p) (auto simp: cstring_def)

lemma terminated_ctext: "terminated p \<Longrightarrow> \<exists>r. p = ctext p @ 0 # r"
  by (induction p) auto

lemma hash_bytes_text: "terminated p \<Longrightarrow> hash_bytes h p i = Some (hash_text h (ctext p), i + length (ctext p))"
proof (induction p arbitrary: h i)
  case (Cons c p)
  then show ?case by (cases "c = 0") (simp_all add: hash_text_def)
qed simp

lemma hash_optional_text:
  "ptr_ok key \<Longrightarrow> hash_optional h key = Some (hash_text_opt h (map_option ctext key), length (ctext (case key of None \<Rightarrow> [] | Some p \<Rightarrow> p)))"
  by (cases key) (simp_all add: hash_optional_def hash_text_opt_def hash_bytes_text)

lemma xmlHashValue_text:
  assumes "terminated p" "ptr_ok key2" "ptr_ok key3"
  shows "\<exists>len2 len3. xmlHashValue seed (Some p) key2 key3 = Some (key_hash seed (texts (Some p) key2 key3), length (ctext p), len2, len3) \<and>
    (\<forall>q. key2 = Some q \<longrightarrow> len2 = length (ctext q)) \<and> (\<forall>q. key3 = Some q \<longrightarrow> len3 = length (ctext q))"
  using assms
  by (auto simp: xmlHashValue_def hash_bytes_text hash_optional_text key_hash_def texts_def split: option.splits)

lemma strcmp_loop_text:
  "terminated p \<Longrightarrow> terminated q \<Longrightarrow> \<exists>c. strcmp_loop (\<lambda>c. c) p q = Some c \<and> (c = 0 \<longleftrightarrow> ctext p = ctext q)"
proof (induction p arbitrary: q)
  case (Cons a p)
  then obtain b q' where "q = b # q'" by (cases q) auto
  moreover have "uint a - uint b = 0 \<longleftrightarrow> a = b" by (simp add: word_uint_eq_iff)
  ultimately show ?case using Cons by (cases "a = b") (auto simp: Let_def)
qed simp

lemma xmlFastStrEqual_text:
  "ptr_ok p \<Longrightarrow> ptr_ok q \<Longrightarrow> xmlFastStrEqual p q = Some (map_option ctext p = map_option ctext q)"
  by (cases p; cases q) (auto simp: xmlFastStrEqual_def strcmp_def dest: strcmp_loop_text)

lemma entry_good_ptrs: "entry_good e \<Longrightarrow> (\<exists>p. e_key e = Some p \<and> terminated p) \<and> ptr_ok (e_key2 e) \<and> ptr_ok (e_key3 e)"
  by (auto simp: entry_good_def ptr_ok_def map_option_case split: option.splits)

lemma entry_matches_text:
  assumes "entry_good e" "terminated p" "ptr_ok key2" "ptr_ok key3"
  shows "entry_matches (Some p) key2 key3 e = Some (entry_key e = texts (Some p) key2 key3)"
proof -
  obtain q where q: "e_key e = Some q" "terminated q" "ptr_ok (e_key2 e)" "ptr_ok (e_key3 e)"
    using entry_good_ptrs [OF assms(1)] by blast
  obtain c where "strcmp_loop (\<lambda>c. c) q p = Some c" "c = 0 \<longleftrightarrow> ctext q = ctext p" using strcmp_loop_text [OF q(2) assms(2)] by blast
  then show ?thesis
    using q xmlFastStrEqual_text [OF q(3) assms(3)] xmlFastStrEqual_text [OF q(4) assms(4)]
    by (auto simp: entry_matches_def strcmp_def entry_key_def texts_def)
qed

lemma bit_MAX_HASH_SIZE: "bit MAX_HASH_SIZE i \<longleftrightarrow> i = 31"
proof -
  have "MAX_HASH_SIZE = 2 ^ 31" by (simp add: MAX_HASH_SIZE_def)
  moreover have "bit (2 ^ 31 :: u32) i \<longleftrightarrow> i = 31" by (simp only: bit_exp_iff possible_bit_word) auto
  ultimately show ?thesis by (simp only:)
qed

lemma top_bit_nonzero: "h OR MAX_HASH_SIZE \<noteq> 0"
proof
  assume "h OR MAX_HASH_SIZE = 0"
  then have "\<not> bit (h OR MAX_HASH_SIZE) 31" by simp
  then show False by (simp add: bit_simps bit_MAX_HASH_SIZE)
qed

lemma top_bit_home:
  assumes "table_size sz n"
  shows "unat (h OR MAX_HASH_SIZE) mod n = unat h mod n"
proof -
  obtain k where k: "k \<le> 31" "n = 2 ^ k" using assms by (auto simp: table_size_def)
  have "take_bit k (h OR MAX_HASH_SIZE) = take_bit k h"
    using k(1) by (intro bit_word_eqI) (auto simp: bit_simps bit_MAX_HASH_SIZE)
  then have "take_bit k (unat (h OR MAX_HASH_SIZE)) = take_bit k (unat h)"
    by (simp only: unsigned_take_bit_eq [symmetric])
  then show ?thesis using k(2) by (simp only: take_bit_eq_mod)
qed

interpretation hash_entries: keyed_table e_hashValue zero_entry entry_key "stored_hash seed" entry_good for seed
  by unfold_locales (simp_all add: zero_entry_def stored_hash_def top_bit_nonzero)

section \<open>The table as a map\<close>

definition hash_ok :: "'p xmlHashTable \<Rightarrow> bool" where
  "hash_ok h \<longleftrightarrow>
     (if h_size h = 0 then h_table h = [] \<and> h_nbElems h = 0
      else table_inv e_hashValue entry_key (stored_hash (h_randomSeed h)) entry_good (h_size h) (h_table h) (unat (h_nbElems h)) \<and>
        8 \<le> length (h_table h) \<and> unat (h_nbElems h) \<le> length (h_table h) div 8 * 7)"

definition pairs :: "'p xmlHashTable \<Rightarrow> (hkey \<times> 'p option) list" where
  "pairs h = map (\<lambda>e. (entry_key e, e_payload e)) (filter (\<lambda>e. e_hashValue e \<noteq> 0) (h_table h))"

definition hash_map :: "'p xmlHashTable \<Rightarrow> hkey \<Rightarrow> 'p option option" where
  "hash_map h = map_of (pairs h)"

lemma mset_pairs: "mset (pairs h) = image_mset (\<lambda>e. (entry_key e, e_payload e)) (entries e_hashValue (h_table h))"
  by (simp add: pairs_def entries_def mset_filter)

lemma map_of_mset_eq:
  assumes "mset xs = mset ys" "distinct (map fst ys)"
  shows "map_of xs = map_of ys"
proof -
  have "mset (map fst xs) = mset (map fst ys)" using assms(1) by simp
  then have "distinct (map fst xs)" using assms(2) mset_eq_imp_distinct_iff by blast
  then show ?thesis using assms mset_eq_setD [OF assms(1)] by (metis map_of_inject_set)
qed

lemma distinct_pairs: "hash_ok h \<Longrightarrow> distinct (map fst (pairs h))"
proof -
  assume ok: "hash_ok h"
  have "mset (map fst (pairs h)) = image_mset entry_key (entries e_hashValue (h_table h))"
    by (simp add: mset_pairs image_mset.compositionality comp_def)
  moreover have "count (image_mset entry_key (entries e_hashValue (h_table h))) k \<le> 1" for k
    using ok by (cases "h_size h = 0") (simp_all add: hash_ok_def table_inv_def entries_def del: split_paired_All)
  ultimately have "count (mset (map fst (pairs h))) k \<le> 1" for k by (simp only:)
  then show ?thesis unfolding distinct_count_atmost_1 by (metis count_mset_0_iff le_less less_one)
qed


lemma hash_map_dom: "hash_map h k \<noteq> None \<longleftrightarrow> k \<in># image_mset entry_key (entries e_hashValue (h_table h))"
proof -
  have "hash_map h k \<noteq> None \<longleftrightarrow> k \<in> fst ` set (pairs h)" by (simp add: hash_map_def map_of_eq_None_iff)
  also have "set (pairs h) = set_mset (mset (pairs h))" by simp
  finally show ?thesis unfolding mset_pairs by (simp add: image_image)
qed

lemma hash_map_entry:
  assumes "hash_ok h" "e \<in># entries e_hashValue (h_table h)"
  shows "hash_map h (entry_key e) = Some (e_payload e)"
proof -
  have "(entry_key e, e_payload e) \<in># mset (pairs h)" unfolding mset_pairs using assms(2) by force
  then show ?thesis unfolding hash_map_def using distinct_pairs [OF assms(1)] by (intro map_of_is_SomeI) simp_all
qed

lemma hash_map_Some:
  "hash_map h k = Some v \<Longrightarrow> \<exists>x\<in>#entries e_hashValue (h_table h). entry_key x = k \<and> e_payload x = v"
  unfolding hash_map_def by (drule map_of_SomeD) (auto simp: pairs_def entries_def)

lemma hash_map_insert:
  assumes "hash_ok h'" "entries e_hashValue (h_table h') = add_mset e (entries e_hashValue (h_table h))"
  shows "hash_map h' = (hash_map h)(entry_key e \<mapsto> e_payload e)"
proof -
  have eq: "mset (pairs h') = mset ((entry_key e, e_payload e) # pairs h)" using assms(2) by (simp add: mset_pairs)
  then have "mset (map fst (pairs h')) = mset (map fst ((entry_key e, e_payload e) # pairs h))" by (simp only: mset_map)
  then have "distinct (map fst ((entry_key e, e_payload e) # pairs h))"
    using distinct_pairs [OF assms(1)] mset_eq_imp_distinct_iff by blast
  then show ?thesis using map_of_mset_eq [OF eq] by (simp add: hash_map_def)
qed

lemma hash_map_delete:
  assumes "hash_ok h" "entries e_hashValue (h_table h) = add_mset e (entries e_hashValue (h_table h'))"
  shows "hash_map h' = (hash_map h)(entry_key e := None)"
proof -
  have eq: "mset (pairs h) = mset ((entry_key e, e_payload e) # pairs h')" using assms(2) by (simp add: mset_pairs)
  then have "mset (map fst (pairs h)) = mset (map fst ((entry_key e, e_payload e) # pairs h'))" by (simp only: mset_map)
  then have d: "distinct (map fst ((entry_key e, e_payload e) # pairs h'))"
    using distinct_pairs [OF assms(1)] mset_eq_imp_distinct_iff by blast
  then have "map_of (pairs h') (entry_key e) = None" by (simp add: map_of_eq_None_iff)
  then show ?thesis using map_of_mset_eq [OF eq d] by (simp add: hash_map_def fun_upd_idem)
qed

lemma hash_map_same:
  assumes "hash_ok h" "entries e_hashValue (h_table h') = entries e_hashValue (h_table h)"
  shows "hash_map h' = hash_map h"
  unfolding hash_map_def by (rule map_of_mset_eq) (use assms distinct_pairs in \<open>simp_all add: mset_pairs\<close>)

lemma hash_okD:
  assumes "hash_ok h" "h_size h \<noteq> 0"
  shows "table_inv e_hashValue entry_key (stored_hash (h_randomSeed h)) entry_good (h_size h) (h_table h) (unat (h_nbElems h))"
    "8 \<le> length (h_table h)" "unat (h_nbElems h) \<le> length (h_table h) div 8 * 7" "table_size (h_size h) (length (h_table h))"
    "unat (h_size h) = length (h_table h)"
  using assms by (auto simp: hash_ok_def table_inv_def table_size_def)

text \<open>A search in a table that is not empty, with any comparison that decides equality of the keys.\<close>

lemma hash_find_spec:
  assumes ok: "hash_ok h" "h_size h \<noteq> 0"
    and m: "\<And>e :: 'p xmlHashEntry. entry_good e \<Longrightarrow> cmp e = Some (entry_key e = k)"
  obtains found i where "find_entry e_hashValue cmp (h_table h) (h_size h) (key_hash (h_randomSeed h) k)
       (key_hash (h_randomSeed h) k OR MAX_HASH_SIZE) = Some (found, i)"
    "i < length (h_table h)" "found \<longleftrightarrow> hash_map h k \<noteq> None"
    "found \<Longrightarrow> h_table h ! i \<in># entries e_hashValue (h_table h) \<and> entry_key (h_table h ! i) = k \<and>
       hash_map h k = Some (e_payload (h_table h ! i))"
    "\<not> found \<Longrightarrow> slot_for e_hashValue (h_table h) (key_hash (h_randomSeed h) k) i"
proof -
  note inv = hash_okD [OF ok]
  have home: "unat (stored_hash (h_randomSeed h) k) mod length (h_table h) =
      unat (key_hash (h_randomSeed h) k) mod length (h_table h)"
    unfolding stored_hash_def by (rule top_bit_home [OF inv(4)])
  show ?thesis
  proof (rule hash_entries.find [OF inv(1) m home])
    fix found i
    assume f: "find_entry e_hashValue cmp (h_table h) (h_size h) (key_hash (h_randomSeed h) k)
        (stored_hash (h_randomSeed h) k) = Some (found, i)"
      and i: "i < length (h_table h)" and iff: "found \<longleftrightarrow> k \<in># image_mset entry_key (entries e_hashValue (h_table h))"
      and hit: "found \<Longrightarrow> h_table h ! i \<in># entries e_hashValue (h_table h) \<and> entry_key (h_table h ! i) = k"
      and miss: "\<not> found \<Longrightarrow> slot_for e_hashValue (h_table h) (key_hash (h_randomSeed h) k) i"
    show ?thesis
    proof (rule that [OF f [unfolded stored_hash_def] i])
      show "found \<longleftrightarrow> hash_map h k \<noteq> None" unfolding hash_map_dom by (rule iff)
      show "h_table h ! i \<in># entries e_hashValue (h_table h) \<and> entry_key (h_table h ! i) = k \<and>
         hash_map h k = Some (e_payload (h_table h ! i))" if found
        using hit [OF that] hash_map_entry [OF ok(1), of "h_table h ! i"] by simp
    qed (rule miss)
  qed
qed

lemma xmlHashFindEntry_spec:
  assumes ok: "hash_ok h" "h_size h \<noteq> 0" and ptrs: "terminated p" "ptr_ok key2" "ptr_ok key3"
  defines "k \<equiv> texts (Some p) key2 key3"
  obtains found i where "xmlHashFindEntry h (Some p) key2 key3 (key_hash (h_randomSeed h) k) = Some (found, i)"
    "i < length (h_table h)" "found \<longleftrightarrow> hash_map h k \<noteq> None"
    "found \<Longrightarrow> h_table h ! i \<in># entries e_hashValue (h_table h) \<and> entry_key (h_table h ! i) = k \<and>
       hash_map h k = Some (e_payload (h_table h ! i))"
    "\<not> found \<Longrightarrow> slot_for e_hashValue (h_table h) (key_hash (h_randomSeed h) k) i"
  unfolding xmlHashFindEntry_def
  by (rule hash_find_spec [OF ok, of "entry_matches (Some p) key2 key3" k]) (use entry_matches_text ptrs in \<open>auto simp: k_def\<close>)

section \<open>Growing and copying keys\<close>

lemma table_size_double: "table_size sz n \<Longrightarrow> sz < MAX_HASH_SIZE \<Longrightarrow> table_size (sz * 2) (n * 2)"
proof -
  assume sz: "table_size sz n" "sz < MAX_HASH_SIZE"
  then obtain k where k: "k \<le> 31" "n = 2 ^ k" "unat sz = n" by (auto simp: table_size_def)
  have lt: "n < 2 ^ 31" using sz(2) k(3) by (simp add: word_less_nat_alt MAX_HASH_SIZE_def)
  then have "k < 31" unfolding k(2) by (rule power_less_imp_less_exp [rotated]) simp
  moreover have "unat (sz * 2) = n * 2" using lt k(3) by (simp add: unat_word_ariths)
  ultimately show ?thesis using k(2) by (intro table_size_def [THEN iffD2] exI [of _ "Suc k"]) simp
qed

lemma fill_limit:
  assumes "table_size sz n" "unat nb < n"
  shows "nb + 1 > sz div 8 * 7 \<longleftrightarrow> unat nb + 1 > n div 8 * 7"
proof -
  have sz: "unat sz = n" "n \<le> 2 ^ 31" using assms(1) table_size_pos [OF assms(1)] by (auto simp: table_size_def)
  have "unat (nb + 1) = unat nb + 1" using assms(2) sz(2) by (simp add: unat_word_ariths)
  moreover have "unat (sz div 8 * 7) = n div 8 * 7" using sz by (simp add: unat_word_ariths unat_div)
  ultimately show ?thesis by (simp add: word_less_nat_alt)
qed

lemma xmlHashGrow_spec:
  assumes ok: "hash_ok h" and sz: "h_size h = 0 \<and> (\<exists>n\<ge>8. table_size newSize n) \<or> h_size h \<noteq> 0 \<and> h_size h < MAX_HASH_SIZE \<and> newSize = h_size h * 2"
  shows "\<exists>ret h' mem'. xmlHashGrow h newSize mem = Some (ret, h', mem') \<and> set mem' \<subseteq> set mem \<and>
    (ret \<noteq> 0 \<longrightarrow> h' = h \<and> \<not> mem_ok mem) \<and>
    (ret = 0 \<longrightarrow> hash_ok h' \<and> h_size h' \<noteq> 0 \<and> h_randomSeed h' = h_randomSeed h \<and> h_nbElems h' = h_nbElems h \<and>
      entries e_hashValue (h_table h') = entries e_hashValue (h_table h) \<and> unat (h_nbElems h) + 1 \<le> length (h_table h') div 8 * 7)"
proof -
  have small: "\<not> unat newSize > SIZE_MAX div 40"
    using unsigned_less [of newSize, where 'a = nat] by (simp add: SIZE_MAX_def)
  obtain ok' mem' where mem: "malloc mem = (ok', mem')" "set mem' \<subseteq> set mem" "\<not> ok' \<longrightarrow> False \<in> set mem"
    by (rule malloc_cases)
  show ?thesis
  proof (cases ok')
    case False
    then show ?thesis using small mem by (simp add: xmlHashGrow_def mem_ok_def)
  next
    case True
    show ?thesis
    proof (cases "h_size h = 0")
      case zero: True
      then have h: "h_table h = []" "h_nbElems h = 0" using ok by (auto simp: hash_ok_def)
      obtain n where n: "table_size newSize n" "8 \<le> n" using sz zero by auto
      let ?T = "replicate n zero_entry :: 'a xmlHashEntry list"
      have "unat newSize = n" using n(1) by (auto simp: table_size_def)
      then have g: "grow_table e_hashValue zero_entry (h_table h) newSize = Some ?T" and nz: "newSize \<noteq> 0"
        using h n(2) by (auto simp: grow_table_def)
      have inv: "table_inv e_hashValue entry_key (stored_hash (h_randomSeed h)) entry_good newSize ?T 0"
        by (rule hash_entries.fresh_table [OF n(1)])
      then have "entries e_hashValue ?T = {#}" unfolding table_inv_def by simp
      moreover have "1 \<le> n div 8 * 7" using n(2) by linarith
      ultimately show ?thesis
        using g inv mem True small h nz n(2) by (simp add: xmlHashGrow_def hash_ok_def entries_def)
    next
      case False
      note inv = hash_okD [OF ok False]
      have s2: "table_size newSize (length (h_table h) * 2)" using sz False table_size_double [OF inv(4)] by simp
      obtain V where V: "grow_table e_hashValue zero_entry (h_table h) newSize = Some V" "length V = length (h_table h) * 2"
        "table_inv e_hashValue entry_key (stored_hash (h_randomSeed h)) entry_good newSize V (unat (h_nbElems h))"
        "entries e_hashValue V = entries e_hashValue (h_table h)"
        by (rule hash_entries.grow [OF inv(1) s2]) auto
      have "newSize \<noteq> 0" using s2 inv(2) by (auto simp: table_size_def)
      moreover have "unat (h_nbElems h) + 1 \<le> length V div 8 * 7" using inv(2,3) V(2) by linarith
      ultimately show ?thesis
        using V mem True small inv(2) by (simp add: xmlHashGrow_def hash_ok_def)
    qed
  qed
qed

text \<open>A table that cannot grow: it has the maximal size and is filled to seven eighths.\<close>

definition hash_full :: "'p xmlHashTable \<Rightarrow> bool" where
  "hash_full h \<longleftrightarrow> h_size h = MAX_HASH_SIZE \<and> unat (h_nbElems h) = 1879048192"

lemma hash_make_room_spec:
  assumes ok: "hash_ok h" and at: "h_size h \<noteq> 0 \<Longrightarrow> slot_for e_hashValue (h_table h) hv i \<and> i < length (h_table h)"
  obtains room h' i' mem' where "hash_make_room h hv i mem = Some (room, h', i', mem')" "set mem' \<subseteq> set mem" "hash_ok h'"
    "h_randomSeed h' = h_randomSeed h" "entries e_hashValue (h_table h') = entries e_hashValue (h_table h)"
    "h_nbElems h' = h_nbElems h"
    "room \<Longrightarrow> h_size h' \<noteq> 0 \<and> slot_for e_hashValue (h_table h') hv i' \<and> i' < length (h_table h') \<and>
       unat (h_nbElems h) + 1 \<le> length (h_table h') div 8 * 7"
    "\<not> room \<Longrightarrow> \<not> mem_ok mem \<or> hash_full h"
proof (cases "h_nbElems h + 1 > h_size h div 8 * 7")
  case False
  have "h_size h \<noteq> 0" using False ok by (auto simp: hash_ok_def)
  note inv = hash_okD [OF ok this]
  have "unat (h_nbElems h) < length (h_table h)" using inv(1) by (simp add: table_inv_def)
  then have "unat (h_nbElems h) + 1 \<le> length (h_table h) div 8 * 7" using False fill_limit [OF inv(4)] by simp
  moreover have "hash_make_room h hv i mem = Some (True, h, i, mem)" using False by (simp add: hash_make_room_def)
  ultimately show ?thesis using that [of True h i mem] ok at \<open>h_size h \<noteq> 0\<close> by simp
next
  case full: True
  show ?thesis
  proof (cases "h_size h \<noteq> 0 \<and> h_size h \<ge> MAX_HASH_SIZE")
    case True
    then have "hash_make_room h hv i mem = Some (False, h, i, mem)" using full by (simp add: hash_make_room_def)
    moreover have "h_size h = MAX_HASH_SIZE"
    proof -
      have "unat (h_size h) \<le> 2 ^ 31" using hash_okD(4,5) [OF ok] True table_size_pos by fastforce
      then have "h_size h \<le> MAX_HASH_SIZE" by (simp add: word_le_nat_alt MAX_HASH_SIZE_def)
      then show ?thesis using True by simp
    qed
    moreover have "hash_full h"
    proof -
      note inv = hash_okD [OF ok conjunct1 [OF True]]
      have n: "length (h_table h) = 2147483648" using inv(5) \<open>h_size h = MAX_HASH_SIZE\<close> by (simp add: MAX_HASH_SIZE_def)
      have "unat (h_nbElems h) < length (h_table h)" using inv(1) by (simp add: table_inv_def)
      then show ?thesis using full fill_limit [OF inv(4), of "h_nbElems h"] inv(3) \<open>h_size h = MAX_HASH_SIZE\<close>
        by (simp add: hash_full_def n)
    qed
    ultimately show ?thesis using that [of False h i mem] ok by simp
  next
    case False
    let ?new = "if h_size h = 0 then MIN_HASH_SIZE else h_size h * 2"
    obtain ret h' mem' where g: "xmlHashGrow h ?new mem = Some (ret, h', mem')" "set mem' \<subseteq> set mem"
      "ret \<noteq> 0 \<longrightarrow> h' = h \<and> \<not> mem_ok mem"
      "ret = 0 \<longrightarrow> hash_ok h' \<and> h_size h' \<noteq> 0 \<and> h_randomSeed h' = h_randomSeed h \<and> h_nbElems h' = h_nbElems h \<and>
      entries e_hashValue (h_table h') = entries e_hashValue (h_table h) \<and> unat (h_nbElems h) + 1 \<le> length (h_table h') div 8 * 7"
    proof -
      have "table_size MIN_HASH_SIZE 8" unfolding table_size_def MIN_HASH_SIZE_def by (rule exI [of _ 3]) simp
      then have "h_size h = 0 \<and> (\<exists>n\<ge>8. table_size ?new n) \<or> h_size h \<noteq> 0 \<and> h_size h < MAX_HASH_SIZE \<and> ?new = h_size h * 2"
        using False by (auto simp: not_le)
      from xmlHashGrow_spec [OF ok this, of mem] show ?thesis using that by blast
    qed
    show ?thesis
    proof (cases "ret = 0")
      case True
      then have h': "hash_ok h'" "h_size h' \<noteq> 0" using g(4) by auto
      obtain i' where i': "find_entry e_hashValue (\<lambda>_. Some False) (h_table h') (h_size h') hv hv = Some (False, i')"
        "i' < length (h_table h')" "slot_for e_hashValue (h_table h') hv i'"
        by (rule hash_entries.find_slot [OF hash_okD(1) [OF h']])
      have "hash_make_room h hv i mem = Some (True, h', i', mem')"
        using full False g(1) True i'(1) by (simp add: hash_make_room_def Let_def del: if_split)
      then show ?thesis using that [of True h' i' mem'] g(2,4) True i'(2,3) by simp
    next
      case err: False
      then have "hash_make_room h hv i mem = Some (False, h', i, mem')"
        using full False g(1) by (auto simp: hash_make_room_def Let_def simp del: if_split)
      then show ?thesis using that [of False h' i mem'] g(2,3) err ok by simp
    qed
  qed
qed

lemma copy_key_spec:
  assumes "ptr_ok key" "\<And>q. key = Some q \<Longrightarrow> len = length (ctext q)"
  shows "\<exists>copy mem'. copy_key key len mem = Some (copy, mem') \<and> set mem' \<subseteq> set mem \<and>
    (copy = None \<longrightarrow> \<not> mem_ok mem) \<and> (\<forall>c. copy = Some c \<longrightarrow> c = map_option (copy_of \<circ> ctext) key)"
proof (cases key)
  case None
  then show ?thesis by (simp add: copy_key_def)
next
  case (Some q)
  then obtain r where q: "q = ctext q @ 0 # r" "len = length (ctext q)" using assms terminated_ctext [of q] by auto
  have "memcpy (ctext q @ 0 # r) (length (ctext q) + 1) = Some (copy_of (ctext q))" by (simp add: memcpy_def copy_of_def)
  then have m: "memcpy q (len + 1) = Some (copy_of (ctext q))" using q by metis
  show ?thesis by (rule malloc_cases [of mem]) (use Some m in \<open>auto simp: copy_key_def mem_ok_def\<close>)
qed

lemma copy_keys_spec:
  assumes ptrs: "terminated p" "ptr_ok key2" "ptr_ok key3"
    and len: "\<And>q. key2 = Some q \<Longrightarrow> len2 = length (ctext q)" "\<And>q. key3 = Some q \<Longrightarrow> len3 = length (ctext q)"
  shows "\<exists>copies mem'. copy_keys (Some p) key2 key3 (length (ctext p), len2, len3) mem = Some (copies, mem') \<and> set mem' \<subseteq> set mem \<and>
    (copies = None \<longrightarrow> \<not> mem_ok mem) \<and>
    (\<forall>c. copies = Some c \<longrightarrow> c = (Some (copy_of (ctext p)), map_option (copy_of \<circ> ctext) key2, map_option (copy_of \<circ> ctext) key3))"
proof -
  obtain c1 m1 where 1: "copy_key (Some p) (length (ctext p)) mem = Some (c1, m1)" "set m1 \<subseteq> set mem"
    "c1 = None \<longrightarrow> \<not> mem_ok mem" "\<forall>c. c1 = Some c \<longrightarrow> c = Some (copy_of (ctext p))"
    using copy_key_spec [of "Some p" "length (ctext p)" mem] ptrs by auto
  obtain c2 m2 where 2: "copy_key key2 len2 m1 = Some (c2, m2)" "set m2 \<subseteq> set m1"
    "c2 = None \<longrightarrow> \<not> mem_ok m1" "\<forall>c. c2 = Some c \<longrightarrow> c = map_option (copy_of \<circ> ctext) key2"
    using copy_key_spec [OF ptrs(2) len(1), of m1] by blast
  obtain c3 m3 where 3: "copy_key key3 len3 m2 = Some (c3, m3)" "set m3 \<subseteq> set m2"
    "c3 = None \<longrightarrow> \<not> mem_ok m2" "\<forall>c. c3 = Some c \<longrightarrow> c = map_option (copy_of \<circ> ctext) key3"
    using copy_key_spec [OF ptrs(3) len(2), of m2] by blast
  show ?thesis
    using 1 2 3 by (cases c1; cases c2; cases c3) (auto simp: copy_keys_def mem_ok_def)
qed


section \<open>The operations on the map\<close>

lemma new_entry_good:
  fixes v :: u32 and payload :: "'p option"
  assumes "terminated p" "ptr_ok key2" "ptr_ok key3"
  defines "e \<equiv> \<lparr>e_hashValue = v, e_key = Some (copy_of (ctext p)), e_key2 = map_option (copy_of \<circ> ctext) key2,
     e_key3 = map_option (copy_of \<circ> ctext) key3, e_payload = payload\<rparr>"
  shows "entry_good e" "entry_key e = texts (Some p) key2 key3"
proof -
  show "entry_good e" unfolding entry_good_def e_def
    by (rule exI [of _ "ctext p"], rule exI [of _ "map_option ctext key2"], rule exI [of _ "map_option ctext key3"])
      (cases key2; cases key3; simp add: ctext_texts)
  show "entry_key e = texts (Some p) key2 key3"
    by (simp add: entry_key_def texts_def e_def option.map_comp comp_def ctext_texts)
qed

text \<open>
  \<open>xmlHashUpdateInternal\<close> on a well-formed table: the map changes only as asked, and -1
  means that memory ran out or that the table has its maximal size.
\<close>

definition updated ::
    "'p xmlHashTable \<Rightarrow> hkey \<Rightarrow> 'p option \<Rightarrow> bool \<Rightarrow> bool \<Rightarrow> bool list \<Rightarrow> int \<Rightarrow> 'p xmlHashTable \<Rightarrow> 'p dealloc_log \<Rightarrow> bool" where
  "updated h k payload dealloc upd mem res h' freed \<longleftrightarrow>
     (case hash_map h k of
        Some old \<Rightarrow> res = 0 \<and> hash_map h' = (if upd then (hash_map h)(k \<mapsto> payload) else hash_map h) \<and>
          freed = (if upd \<and> dealloc then [(old, Some (copy_of (fst k)))] else [])
      | None \<Rightarrow> freed = [] \<and>
          (res = 1 \<and> hash_map h' = (hash_map h)(k \<mapsto> payload) \<or>
           res = -1 \<and> hash_map h' = hash_map h \<and> (\<not> mem_ok mem \<or> hash_full h)))"

lemma entry_good_key: "entry_good e \<Longrightarrow> e_key e = Some (copy_of (fst (entry_key e)))"
  by (auto simp: entry_good_def entry_key_def texts_def)

lemma xmlHashUpdateInternal_found:
  fixes payload :: "'p option"
  assumes ok: "hash_ok h" "h_size h \<noteq> 0" and i: "i < length (h_table h)" "h_table h ! i \<in># entries e_hashValue (h_table h)"
  defines "e \<equiv> h_table h ! i"
  defines "h' \<equiv> h\<lparr>h_table := (h_table h)[i := e\<lparr>e_payload := payload\<rparr>]\<rparr>"
  shows "hash_ok h'" "hash_map h' = (hash_map h)(entry_key e \<mapsto> payload)"
proof -
  note inv = hash_okD [OF ok]
  let ?e = "e\<lparr>e_payload := payload\<rparr>"
  have e: "entry_good e" using inv(1) i(2) unfolding table_inv_def e_def by blast
  have same: "entry_good ?e" "e_hashValue ?e = e_hashValue e" "entry_key ?e = entry_key e"
    using e by (simp_all add: entry_good_def entry_key_def)
  note up = hash_entries.update [OF inv(1) i same [unfolded e_def], folded e_def]
  show ok': "hash_ok h'" using up(1) inv ok(2) by (simp add: hash_ok_def h'_def)
  have ent: "entries e_hashValue (h_table h') = add_mset ?e (entries e_hashValue (h_table h) - {#e#})"
    using up(2) by (simp add: h'_def)
  have keys: "image_mset entry_key (entries e_hashValue (h_table h')) = image_mset entry_key (entries e_hashValue (h_table h))"
    unfolding ent image_mset_add_mset same(3) using i(2) by (metis e_def image_mset_add_mset insert_DiffM)
  show "hash_map h' = (hash_map h)(entry_key e \<mapsto> payload)"
  proof (rule ext)
    fix k
    consider "k = entry_key e" | "k \<noteq> entry_key e" "hash_map h k = None" | v where "k \<noteq> entry_key e" "hash_map h k = Some v" by blast
    then show "hash_map h' k = ((hash_map h)(entry_key e \<mapsto> payload)) k"
    proof cases
      case 1
      have "?e \<in># entries e_hashValue (h_table h')" unfolding ent by simp
      from hash_map_entry [OF ok' this] show ?thesis using 1 same(3) by simp
    next
      case 2
      then show ?thesis using hash_map_dom [of h k] hash_map_dom [of h' k] unfolding keys by simp
    next
      case (3 v)
      then obtain x where x: "x \<in># entries e_hashValue (h_table h)" "entry_key x = k" "e_payload x = v" using hash_map_Some by blast
      then have "x \<in># entries e_hashValue (h_table h')" unfolding ent using 3(1) by (auto simp: in_diff_count)
      from hash_map_entry [OF ok' this] show ?thesis using 3 x by simp
    qed
  qed
qed

lemma hash_insert_entry:
  assumes ok: "hash_ok h" "h_size h \<noteq> 0" and room: "unat (h_nbElems h) + 1 \<le> length (h_table h) div 8 * 7"
    and i: "slot_for e_hashValue (h_table h) (key_hash (h_randomSeed h) (entry_key e)) i"
    and e: "entry_good e" "e_hashValue e = stored_hash (h_randomSeed h) (entry_key e)" and new: "hash_map h (entry_key e) = None"
  shows "\<exists>T. shift_right e_hashValue (h_table h) i = Some T \<and>
    hash_ok (h\<lparr>h_table := T[i := e], h_nbElems := h_nbElems h + 1\<rparr>) \<and>
    hash_map (h\<lparr>h_table := T[i := e], h_nbElems := h_nbElems h + 1\<rparr>) = (hash_map h)(entry_key e \<mapsto> e_payload e)"
proof -
  note inv = hash_okD [OF ok]
  have lt: "Suc (unat (h_nbElems h)) < length (h_table h)" using room inv(2) by linarith
  have home: "unat (e_hashValue e) mod length (h_table h) = unat (key_hash (h_randomSeed h) (entry_key e)) mod length (h_table h)"
    using top_bit_home [OF inv(4)] e(2) by (simp add: stored_hash_def)
  have fresh: "entry_key e \<notin># image_mset entry_key (entries e_hashValue (h_table h))"
    using new hash_map_dom [of h "entry_key e"] by blast
  obtain T where T: "shift_right e_hashValue (h_table h) i = Some T"
    "table_inv e_hashValue entry_key (stored_hash (h_randomSeed h)) entry_good (h_size h) (T[i := e]) (Suc (unat (h_nbElems h)))"
    "entries e_hashValue (T[i := e]) = add_mset e (entries e_hashValue (h_table h))"
    by (rule hash_entries.insert [OF inv(1) lt i e home fresh])
  let ?h = "h\<lparr>h_table := T[i := e], h_nbElems := h_nbElems h + 1\<rparr>"
  have len: "length (T[i := e]) = length (h_table h)" using T(2) inv(4) by (auto simp: table_inv_def table_size_def)
  have "unat (h_nbElems h + 1) = Suc (unat (h_nbElems h))" using lt table_size_pos [OF inv(4)] by (simp add: unat_word_ariths)
  then have "hash_ok ?h" using T(2) room inv(2) ok(2) len by (simp add: hash_ok_def)
  moreover from this have "hash_map ?h = (hash_map h)(entry_key e \<mapsto> e_payload e)" using hash_map_insert [of ?h e h] T(3) by simp
  ultimately show ?thesis using T(1) by blast
qed

lemma xmlHashUpdateInternal_spec:
  assumes ok: "hash_ok h" and ptrs: "terminated p" "ptr_ok key2" "ptr_ok key3"
  defines "k \<equiv> texts (Some p) key2 key3"
  shows "\<exists>res h' freed mem'. xmlHashUpdateInternal (Some h) (Some p) key2 key3 payload dealloc upd mem = Some (res, Some h', freed, mem') \<and>
     hash_ok h' \<and> updated h k payload dealloc upd mem res h' freed \<and> set mem' \<subseteq> set mem"
proof -
  let ?hv = "key_hash (h_randomSeed h) k"
  obtain len2 len3 where hv: "xmlHashValue (h_randomSeed h) (Some p) key2 key3 = Some (?hv, length (ctext p), len2, len3)"
    "\<forall>q. key2 = Some q \<longrightarrow> len2 = length (ctext q)" "\<forall>q. key3 = Some q \<longrightarrow> len3 = length (ctext q)"
    using xmlHashValue_text [OF ptrs, of "h_randomSeed h"] unfolding k_def by blast
  obtain found i where f: "(if h_size h > 0 then xmlHashFindEntry h (Some p) key2 key3 ?hv else Some (False, 0)) = Some (found, i)"
    "found \<longleftrightarrow> hash_map h k \<noteq> None"
    "found \<Longrightarrow> h_size h \<noteq> 0 \<and> i < length (h_table h) \<and> h_table h ! i \<in># entries e_hashValue (h_table h) \<and>
       entry_key (h_table h ! i) = k \<and> hash_map h k = Some (e_payload (h_table h ! i))"
    "\<not> found \<Longrightarrow> h_size h \<noteq> 0 \<Longrightarrow> slot_for e_hashValue (h_table h) ?hv i \<and> i < length (h_table h)"
  proof (cases "h_size h = 0")
    case True
    then have "hash_map h k = None" using ok by (simp add: hash_ok_def hash_map_def pairs_def)
    then show ?thesis using that [of False 0] True by simp
  next
    case False
    show ?thesis
      by (rule xmlHashFindEntry_spec [OF ok False ptrs, folded k_def])
        (use that False in \<open>simp add: word_neq_0_conv\<close>)
  qed
  show ?thesis
  proof (cases found)
    case True
    note fd = f(3) [OF True]
    let ?e = "h_table h ! i"
    let ?h = "h\<lparr>h_table := (h_table h)[i := ?e\<lparr>e_payload := payload\<rparr>]\<rparr>"
    have "entry_good ?e" using fd hash_okD(1) [OF ok] unfolding table_inv_def by blast
    then have key: "e_key ?e = Some (copy_of (fst k))" using entry_good_key fd by metis
    have slot: "slot (h_table h) i = Some ?e" using fd by (simp add: slot_def)
    note up = xmlHashUpdateInternal_found [OF ok, of i payload]
    have "xmlHashUpdateInternal (Some h) (Some p) key2 key3 payload dealloc upd mem =
      Some (0, Some (if upd then ?h else h), if upd \<and> dealloc then [(e_payload ?e, e_key ?e)] else [], mem)"
      using hv(1) f(1) True slot by (simp add: xmlHashUpdateInternal_def del: if_split split del: if_split) auto
    moreover have "hash_ok (if upd then ?h else h)" using up(1) fd ok by simp
    moreover have "updated h k payload dealloc upd mem 0 (if upd then ?h else h) (if upd \<and> dealloc then [(e_payload ?e, e_key ?e)] else [])"
      using up(2) fd key by (simp add: updated_def)
    ultimately show ?thesis by blast
  next
    case False
    obtain room h1 i1 m1 where r: "hash_make_room h ?hv i mem = Some (room, h1, i1, m1)" "set m1 \<subseteq> set mem" "hash_ok h1"
      "h_randomSeed h1 = h_randomSeed h" "entries e_hashValue (h_table h1) = entries e_hashValue (h_table h)"
      "h_nbElems h1 = h_nbElems h"
      "room \<Longrightarrow> h_size h1 \<noteq> 0 \<and> slot_for e_hashValue (h_table h1) ?hv i1 \<and> i1 < length (h_table h1) \<and>
         unat (h_nbElems h) + 1 \<le> length (h_table h1) div 8 * 7"
      "\<not> room \<Longrightarrow> \<not> mem_ok mem \<or> hash_full h"
      by (rule hash_make_room_spec [OF ok, of ?hv i mem]) (use f(4) False in auto)
    have none: "hash_map h k = None" using f(2) False by blast
    have same: "hash_map h1 = hash_map h" by (rule hash_map_same [OF ok r(5)])
    obtain copies m2 where c: "copy_keys (Some p) key2 key3 (length (ctext p), len2, len3) m1 = Some (copies, m2)" "set m2 \<subseteq> set m1"
      "copies = None \<longrightarrow> \<not> mem_ok m1"
      "\<forall>c. copies = Some c \<longrightarrow> c = (Some (copy_of (ctext p)), map_option (copy_of \<circ> ctext) key2, map_option (copy_of \<circ> ctext) key3)"
      using copy_keys_spec [OF ptrs, of len2 len3 m1] hv(2,3) by blast
    show ?thesis
    proof (cases "room \<and> copies \<noteq> None")
      case failed: False
      have "\<not> mem_ok mem \<or> hash_full h" using failed r(2,8) c(3) by (auto simp: mem_ok_def)
      then have "updated h k payload dealloc upd mem (-1) h1 []" using none same by (simp add: updated_def)
      moreover have "\<exists>m. xmlHashUpdateInternal (Some h) (Some p) key2 key3 payload dealloc upd mem = Some (-1, Some h1, [], m) \<and> set m \<subseteq> set mem"
        using hv(1) f(1) False r(1,2) c(1,2) failed by (cases room; cases copies) (auto simp: xmlHashUpdateInternal_def)
      ultimately show ?thesis using r(3) by blast
    next
      case True
      let ?e = "\<lparr>e_hashValue = ?hv OR MAX_HASH_SIZE, e_key = Some (copy_of (ctext p)), e_key2 = map_option (copy_of \<circ> ctext) key2,
        e_key3 = map_option (copy_of \<circ> ctext) key3, e_payload = payload\<rparr>"
      note rm = r(7) [OF conjunct1 [OF True]]
      have e: "entry_good ?e" "entry_key ?e = k" using new_entry_good [OF ptrs] by (auto simp: k_def)
      obtain T where T: "shift_right e_hashValue (h_table h1) i1 = Some T"
        and h': "hash_ok (h1\<lparr>h_table := T[i1 := ?e], h_nbElems := h_nbElems h1 + 1\<rparr>)"
          "hash_map (h1\<lparr>h_table := T[i1 := ?e], h_nbElems := h_nbElems h1 + 1\<rparr>) = (hash_map h1)(k \<mapsto> payload)"
      proof -
        have "unat (h_nbElems h1) + 1 \<le> length (h_table h1) div 8 * 7"
          "slot_for e_hashValue (h_table h1) (key_hash (h_randomSeed h1) (entry_key ?e)) i1"
          "e_hashValue ?e = stored_hash (h_randomSeed h1) (entry_key ?e)" "hash_map h1 (entry_key ?e) = None"
          unfolding e(2) r(4,6) using rm none same by (simp_all add: stored_hash_def)
        from hash_insert_entry [OF r(3) conjunct1 [OF rm] this(1,2) e(1) this(3,4)] that show ?thesis
          unfolding e(2) by auto
      qed
      let ?h = "h1\<lparr>h_table := T[i1 := ?e], h_nbElems := h_nbElems h1 + 1\<rparr>"
      have "updated h k payload dealloc upd mem 1 ?h []" using none same h'(2) by (simp add: updated_def)
      moreover have "xmlHashUpdateInternal (Some h) (Some p) key2 key3 payload dealloc upd mem = Some (1, Some ?h, [], m2)"
        using hv(1) f(1) False r(1) c(1,4) True T by (auto simp: xmlHashUpdateInternal_def)
      moreover have "set m2 \<subseteq> set mem" using c(2) r(2) by (rule order_trans)
      ultimately show ?thesis using h'(1) by blast
    qed
  qed
qed


lemma xmlHashLookup3_spec:
  assumes ok: "hash_ok h" and ptrs: "terminated p" "ptr_ok key2" "ptr_ok key3"
  shows "xmlHashLookup3 (Some h) (Some p) key2 key3 = Some (Option.bind (hash_map h (texts (Some p) key2 key3)) (\<lambda>v. v))"
proof (cases "h_size h = 0")
  case True
  then show ?thesis using ok by (simp add: xmlHashLookup3_def hash_ok_def hash_map_def pairs_def)
next
  case False
  obtain len where hv: "xmlHashValue (h_randomSeed h) (Some p) key2 key3 = Some (key_hash (h_randomSeed h) (texts (Some p) key2 key3), len)"
    using xmlHashValue_text [OF ptrs, of "h_randomSeed h"] by auto
  show ?thesis
    by (rule xmlHashFindEntry_spec [OF ok False ptrs])
      (use hv False in \<open>auto simp: xmlHashLookup3_def slot_def\<close>)
qed

text \<open>Qualified names: the text a prefix and a name stand for.\<close>

definition qtext :: "xptr \<Rightarrow> xptr \<Rightarrow> u8 list option" where
  "qtext prefix name =
     (case name of
        None \<Rightarrow> None
      | Some n \<Rightarrow> Some (case prefix of None \<Rightarrow> ctext n | Some p \<Rightarrow> ctext p @ 0x3A # ctext n))"

text \<open>A prefix is not empty and comes with a name.\<close>

definition qname_ok :: "xptr \<Rightarrow> xptr \<Rightarrow> bool" where
  "qname_ok prefix name \<longleftrightarrow> ptr_ok prefix \<and> ptr_ok name \<and>
     (case prefix of None \<Rightarrow> True | Some p \<Rightarrow> ctext p \<noteq> [] \<and> name \<noteq> None)"

lemma hash_qname_text: "qname_ok prefix name \<Longrightarrow> hash_qname h prefix name = Some (hash_text_opt h (qtext prefix name))"
  by (cases prefix; cases name)
    (auto simp: hash_qname_def qname_ok_def qtext_def hash_bytes_text hash_optional_text hash_text_opt_def hash_text_def)

lemma xmlStrQEqual_text:
  assumes "qname_ok prefix name" "pred_option cstring s"
  shows "\<exists>c. xmlStrQEqual False prefix name (map_option copy_of s) = Some c \<and> (c \<noteq> 0 \<longleftrightarrow> s = qtext prefix name)"
proof (cases prefix)
  case None
  show ?thesis
  proof (cases name)
    case (Some n)
    then obtain r where n: "n = ctext n @ 0 # r" using assms(1) terminated_ctext by (auto simp: qname_ok_def)
    have eq: "strequal_loop n (copy_of t) = Some (if ctext n = t then 1 else 0)" if "cstring t" for t
      using strequal_loop_eq [OF ctext_texts that, of n r "[]"] n unfolding copy_of_def by metis
    show ?thesis using Some None assms(2) eq by (cases s) (auto simp: xmlStrQEqual_def xmlStrEqual_def qtext_def)
  qed (use None assms(2) in \<open>cases s; auto simp: xmlStrQEqual_def xmlStrEqual_def qtext_def\<close>)
next
  case (Some p)
  then obtain n where n: "name = Some n" "terminated p" "terminated n" "ctext p \<noteq> []" using assms(1) by (cases name) (auto simp: qname_ok_def)
  obtain r1 r2 where r: "p = ctext p @ 0 # r1" "n = ctext n @ 0 # r2" using n terminated_ctext by metis
  have "xmlStrQEqual False (Some p) (Some n) (Some (copy_of t)) = Some (if t = ctext p @ 0x3A # ctext n then 1 else 0)" if "cstring t" for t
    using xml_qequal [of "ctext p" "ctext n" t False r1 r2 "[]"] ctext_texts that n(4) r
    unfolding copy_of_def by metis
  then show ?thesis using Some n assms(2) by (cases s) (auto simp: qtext_def xmlStrQEqual_def)
qed

lemma entry_qmatches_text:
  assumes "entry_good e" "qname_ok prefix (Some n)" "qname_ok prefix2 name2" "qname_ok prefix3 name3"
  shows "entry_qmatches prefix (Some n) prefix2 name2 prefix3 name3 e =
    Some (entry_key e = (the (qtext prefix (Some n)), qtext prefix2 name2, qtext prefix3 name3))"
proof -
  obtain s s2 s3 where e: "e_key e = Some (copy_of s)" "e_key2 e = map_option copy_of s2" "e_key3 e = map_option copy_of s3"
    "cstring s" "pred_option cstring s2" "pred_option cstring s3" using assms(1) unfolding entry_good_def by blast
  obtain c where c: "xmlStrQEqual False prefix (Some n) (e_key e) = Some c" "c \<noteq> 0 \<longleftrightarrow> Some s = qtext prefix (Some n)"
    using xmlStrQEqual_text [OF assms(2), of "Some s"] e by auto
  obtain c2 where c2: "xmlStrQEqual False prefix2 name2 (e_key2 e) = Some c2" "c2 \<noteq> 0 \<longleftrightarrow> s2 = qtext prefix2 name2"
    using xmlStrQEqual_text [OF assms(3) e(5)] e(2) by auto
  obtain c3 where c3: "xmlStrQEqual False prefix3 name3 (e_key3 e) = Some c3" "c3 \<noteq> 0 \<longleftrightarrow> s3 = qtext prefix3 name3"
    using xmlStrQEqual_text [OF assms(4) e(6)] e(3) by auto
  have id: "pred_option cstring t \<Longrightarrow> map_option ctext (map_option copy_of t) = t" for t by (cases t) simp_all
  have key: "entry_key e = (s, s2, s3)" using e id by (simp add: entry_key_def texts_def)
  have "qtext prefix (Some n) = Some (the (qtext prefix (Some n)))" by (simp add: qtext_def)
  then have "c \<noteq> 0 \<longleftrightarrow> s = the (qtext prefix (Some n))" using c(2) by (metis option.inject)
  then show ?thesis unfolding key using c(1) c2 c3 by (auto simp: entry_qmatches_def)
qed

lemma xmlHashQLookup3_spec:
  assumes ok: "hash_ok h" and q: "qname_ok prefix (Some n)" "qname_ok prefix2 name2" "qname_ok prefix3 name3"
  shows "xmlHashQLookup3 (Some h) prefix (Some n) prefix2 name2 prefix3 name3 =
     Some (Option.bind (hash_map h (the (qtext prefix (Some n)), qtext prefix2 name2, qtext prefix3 name3)) (\<lambda>v. v))"
proof (cases "h_size h = 0")
  case True
  then show ?thesis using ok by (simp add: xmlHashQLookup3_def hash_ok_def hash_map_def pairs_def)
next
  case False
  let ?k = "(the (qtext prefix (Some n)), qtext prefix2 name2, qtext prefix3 name3)"
  obtain t where "qtext prefix (Some n) = Some t" by (simp add: qtext_def)
  then have hv: "xmlHashQNameValue (h_randomSeed h) prefix (Some n) prefix2 name2 prefix3 name3 = Some (key_hash (h_randomSeed h) ?k)"
    using hash_qname_text [OF q(1)] hash_qname_text [OF q(2)] hash_qname_text [OF q(3)]
    by (simp add: xmlHashQNameValue_def key_hash_def)
  show ?thesis
    by (rule hash_find_spec [OF ok False, of "entry_qmatches prefix (Some n) prefix2 name2 prefix3 name3" ?k])
      (use entry_qmatches_text q hv False in \<open>auto simp: xmlHashQLookup3_def slot_def\<close>)
qed

text \<open>Removal.\<close>

lemma xmlHashRemoveEntry3_spec:
  assumes ok: "hash_ok h" and ptrs: "terminated p" "ptr_ok key2" "ptr_ok key3"
  defines "k \<equiv> texts (Some p) key2 key3"
  shows "\<exists>res h' freed. xmlHashRemoveEntry3 (Some h) (Some p) key2 key3 dealloc = Some (res, Some h', freed) \<and> hash_ok h' \<and>
    hash_map h' = (hash_map h)(k := None) \<and>
    (case hash_map h k of
       None \<Rightarrow> res = -1 \<and> freed = []
     | Some v \<Rightarrow> res = 0 \<and> freed = (if dealloc \<and> v \<noteq> None then [(v, Some (copy_of (fst k)))] else []))"
proof (cases "h_size h = 0")
  case True
  then have "hash_map h = Map.empty" using ok by (simp add: hash_ok_def hash_map_def pairs_def fun_eq_iff)
  then show ?thesis using True ok by (auto simp: xmlHashRemoveEntry3_def)
next
  case False
  note inv = hash_okD [OF ok False]
  obtain len where hv: "xmlHashValue (h_randomSeed h) (Some p) key2 key3 = Some (key_hash (h_randomSeed h) k, len)"
    using xmlHashValue_text [OF ptrs, of "h_randomSeed h"] unfolding k_def by auto
  obtain found i where f: "xmlHashFindEntry h (Some p) key2 key3 (key_hash (h_randomSeed h) k) = Some (found, i)"
    "i < length (h_table h)" "found \<longleftrightarrow> hash_map h k \<noteq> None"
    "found \<Longrightarrow> h_table h ! i \<in># entries e_hashValue (h_table h) \<and> entry_key (h_table h ! i) = k \<and>
       hash_map h k = Some (e_payload (h_table h ! i))"
    by (rule xmlHashFindEntry_spec [OF ok False ptrs, folded k_def]) blast
  show ?thesis
  proof (cases found)
    case miss: False
    then show ?thesis using f hv False ok by (auto simp: xmlHashRemoveEntry3_def fun_upd_idem)
  next
    case True
    note fd = f(4) [OF True]
    let ?e = "h_table h ! i"
    have "entry_good ?e" using fd inv(1) unfolding table_inv_def by blast
    then have key: "e_key ?e = Some (copy_of (fst k))" using entry_good_key fd by metis
    obtain U where U: "shift_left e_hashValue (\<lambda>cur. cur\<lparr>e_hashValue := 0\<rparr>) (h_table h) (h_size h) i = Some U"
      "table_inv e_hashValue entry_key (stored_hash (h_randomSeed h)) entry_good (h_size h) U (unat (h_nbElems h) - 1)"
      "entries e_hashValue (h_table h) = add_mset ?e (entries e_hashValue U)"
      by (rule hash_entries.remove [OF inv(1) f(2) conjunct1 [OF fd], of "\<lambda>cur. cur\<lparr>e_hashValue := 0\<rparr>"]) simp_all
    let ?h = "h\<lparr>h_table := U, h_nbElems := h_nbElems h - 1\<rparr>"
    have "size (entries e_hashValue (h_table h)) = unat (h_nbElems h)" using inv(1) by (simp add: table_inv_def)
    then have "unat (h_nbElems h) \<noteq> 0" using U(3) by auto
    then have nb: "unat (h_nbElems h - 1) = unat (h_nbElems h) - 1" by (simp add: unat_minus_one unat_eq_0)
    have "length U = length (h_table h)" using U(2) inv(4) by (auto simp: table_inv_def table_size_def)
    then have "hash_ok ?h" using U(2) inv(2,3) nb False by (simp add: hash_ok_def)
    moreover have "hash_map ?h = (hash_map h)(k := None)" using hash_map_delete [OF ok, of ?e ?h] U(3) fd by simp
    moreover have "xmlHashRemoveEntry3 (Some h) (Some p) key2 key3 dealloc =
        Some (0, Some ?h, if dealloc \<and> e_payload ?e \<noteq> None then [(e_payload ?e, e_key ?e)] else [])"
      using hv f(1,2) False True U(1) by (simp add: xmlHashRemoveEntry3_def slot_def)
    ultimately show ?thesis using fd key by auto
  qed
qed

lemma xmlHashSize_spec:
  assumes "hash_ok h"
  shows "xmlHashSize (Some h) = int (card (dom (hash_map h)))"
proof (cases "h_size h = 0")
  case True
  then show ?thesis using assms by (simp add: xmlHashSize_def hash_ok_def hash_map_def pairs_def)
next
  case False
  note inv = hash_okD [OF assms False]
  have "card (dom (hash_map h)) = length (pairs h)"
    using distinct_card [OF distinct_pairs [OF assms]] by (simp add: hash_map_def dom_map_of_conv_image_fst)
  also have "\<dots> = size (mset (pairs h))" by simp
  also have "\<dots> = unat (h_nbElems h)" unfolding mset_pairs using inv(1) by (simp add: table_inv_def)
  finally have c: "card (dom (hash_map h)) = unat (h_nbElems h)" .
  have "unat (h_nbElems h) < 2147483648" using inv(1) table_size_pos [OF inv(4)] by (simp add: table_inv_def)
  moreover have "uint (h_nbElems h) = int (unat (h_nbElems h))" by simp
  ultimately have "uint (h_nbElems h) < 2147483648" by linarith
  then have "sint (h_nbElems h) = uint (h_nbElems h)" by (rule sint_small)
  then show ?thesis by (simp add: xmlHashSize_def c)
qed


section \<open>Creating and copying\<close>

lemma power_word_less: "k \<le> 31 \<Longrightarrow> unat (2 ^ k :: u32) = 2 ^ k"
  using unat32 [of "2 ^ k"] power_strict_increasing [of k 32 "2 :: nat"] by simp

lemma create_size_spec:
  assumes "k \<le> 31"
  shows "\<exists>j. k \<le> j \<and> j \<le> 31 \<and> create_size sz (2 ^ k) = Some (2 ^ j) \<and> (sz \<le> 2 ^ j \<or> j = 31)"
  using assms
proof (induction k rule: inc_induct)
  case base
  have "\<not> (2 ^ 31 :: u32) < MAX_HASH_SIZE" by (simp add: MAX_HASH_SIZE_def)
  then show ?case by (intro exI [of _ 31], subst create_size.simps) simp
next
  case (step k)
  show ?case
  proof (cases "2 ^ k < sz")
    case True
    have "(2 ^ k :: u32) < MAX_HASH_SIZE"
      using step.hyps power_word_less [of k] power_strict_increasing [of k 31 "2 :: nat"]
      by (simp add: word_less_nat_alt MAX_HASH_SIZE_def)
    then have "create_size sz (2 ^ k) = create_size sz (2 ^ Suc k)"
      using True by (subst create_size.simps) (simp add: mult.commute)
    then show ?thesis using step.IH Suc_leD by metis
  next
    case False
    then show ?thesis using step.hyps by (intro exI [of _ k], subst create_size.simps) (auto simp: not_less)
  qed
qed

lemma empty_table:
  "hash_ok \<lparr>h_table = [], h_size = 0, h_nbElems = 0, h_randomSeed = seed\<rparr>"
  "hash_map \<lparr>h_table = [], h_size = 0, h_nbElems = 0, h_randomSeed = seed\<rparr> = Map.empty"
  by (simp_all add: hash_ok_def hash_map_def pairs_def)

lemma xmlHashCreate_spec:
  assumes "sz \<le> INT_MAX"
  shows "\<exists>r mem'. xmlHashCreate sz seed mem = Some (r, mem') \<and> set mem' \<subseteq> set mem \<and> (r = None \<longrightarrow> \<not> mem_ok mem) \<and>
    (\<forall>h. r = Some h \<longrightarrow> hash_ok h \<and> hash_map h = Map.empty \<and> h_nbElems h = 0 \<and> (8 < sz \<longrightarrow> sz \<le> uint (h_size h)))"
proof -
  let ?h = "\<lparr>h_table = [], h_size = 0, h_nbElems = 0, h_randomSeed = seed\<rparr> :: 'a xmlHashTable"
  obtain ok m1 where m1: "malloc mem = (ok, m1)" "set m1 \<subseteq> set mem" "\<not> ok \<longrightarrow> False \<in> set mem"
    by (rule malloc_cases)
  consider "\<not> ok" | "ok" "sz \<le> 8" | "ok" "8 < sz" by linarith
  then show ?thesis
  proof cases
    case 1
    then show ?thesis using m1 by (simp add: xmlHashCreate_def mem_ok_def)
  next
    case 2
    then show ?thesis using m1 by (simp add: xmlHashCreate_def MIN_HASH_SIZE_def empty_table)
  next
    case 3
    obtain j where j: "4 \<le> j" "j \<le> 31" "create_size (word_of_int sz) (2 ^ 4) = Some (2 ^ j)" "(word_of_int sz :: u32) \<le> 2 ^ j \<or> j = 31"
      using create_size_spec [of 4 "word_of_int sz"] by auto
    have "table_size (2 ^ j) (2 ^ j)" using j(2) power_word_less [of j] by (auto simp: table_size_def)
    moreover have "(8 :: nat) \<le> 2 ^ j" using power_increasing [OF j(1), of "2 :: nat"] by simp
    ultimately have new: "h_size ?h = 0 \<and> (\<exists>n\<ge>8. table_size (2 ^ j) n) \<or> h_size ?h \<noteq> 0 \<and> h_size ?h < MAX_HASH_SIZE \<and> 2 ^ j = h_size ?h * 2"
      by auto
    obtain ret h' m2 where g: "xmlHashGrow ?h (2 ^ j) m1 = Some (ret, h', m2)" "set m2 \<subseteq> set m1" "ret \<noteq> 0 \<longrightarrow> \<not> mem_ok m1"
      "ret = 0 \<longrightarrow> hash_ok h' \<and> h_nbElems h' = 0 \<and> entries e_hashValue (h_table h') = entries e_hashValue (h_table ?h)"
      using xmlHashGrow_spec [OF empty_table(1) new, of m1] by auto
    have size: "ret = 0 \<longrightarrow> h_size h' = 2 ^ j" using g(1) by (auto simp: xmlHashGrow_def split: if_splits prod.splits bind_splits)
    have "uint (word_of_int sz :: u32) = sz" using assms 3(2) by (simp add: INT_MAX_def unsigned_of_int take_bit_int_eq_self)
    then have "sz \<le> uint (2 ^ j :: u32)"
      using j(4) assms power_word_less [of 31] by (auto simp: word_le_def INT_MAX_def)
    moreover have "ret = 0 \<longrightarrow> hash_map h' = Map.empty" using hash_map_same [OF empty_table(1), of h' seed] g(4) empty_table(2) by metis
    moreover have "xmlHashCreate sz seed mem = Some (if ret \<noteq> 0 then None else Some h', m2)"
      using m1(1) 3 j(3) g(1) by (simp add: xmlHashCreate_def MIN_HASH_SIZE_def)
    ultimately show ?thesis using g m1(2) size by (auto simp: mem_ok_def)
  qed
qed


definition copied :: "('p option \<Rightarrow> xptr \<Rightarrow> 'q option) \<Rightarrow> 'p xmlHashEntry list \<Rightarrow> (hkey \<times> 'q option) list" where
  "copied f es = map (\<lambda>e. (entry_key e, f (e_payload e) (e_key e))) (filter (\<lambda>e. e_hashValue e \<noteq> 0) es)"

lemma copied_simps [simp]:
  "copied f [] = []"
  "copied f (e # es) = (if e_hashValue e = 0 then copied f es else (entry_key e, f (e_payload e) (e_key e)) # copied f es)"
  by (simp_all add: copied_def)

lemma hash_full_card: "hash_ok h \<Longrightarrow> hash_full h \<Longrightarrow> card (dom (hash_map h)) = 1879048192"
proof -
  assume h: "hash_ok h" "hash_full h"
  then have "uint (h_nbElems h) = 1879048192" by (metis hash_full_def of_nat_numeral uint_nat)
  then show ?thesis using xmlHashSize_spec [OF h(1)] by (simp add: xmlHashSize_def sint_small)
qed

lemma copy_entries_spec:
  assumes "\<forall>e\<in>set es. e_hashValue e \<noteq> 0 \<longrightarrow> entry_good e" "distinct (map fst (copied f es))" "hash_ok ret"
    "fst ` set (copied f es) \<inter> dom (hash_map ret) = {}" "card (dom (hash_map ret)) + length (copied f es) \<le> 1879048192"
  shows "\<exists>ok ret' freed mem'. copy_entries f dealloc es ret mem = Some (ok, Some ret', freed, mem') \<and> hash_ok ret' \<and>
    (ok \<longrightarrow> hash_map ret' = hash_map ret ++ map_of (copied f es)) \<and>
    (\<not> ok \<longrightarrow> \<not> mem_ok mem \<or> None \<in> snd ` set (copied f es))"
  using assms
proof (induction es arbitrary: ret mem)
  case Nil
  then show ?case by auto
next
  case (Cons e es)
  show ?case
  proof (cases "e_hashValue e = 0")
    case True
    then show ?thesis using Cons by simp
  next
    case False
    let ?c = "f (e_payload e) (e_key e)"
    have "entry_good e" using Cons.prems(1) False by simp
    then obtain p where p: "e_key e = Some p" "terminated p" "ptr_ok (e_key2 e)" "ptr_ok (e_key3 e)" using entry_good_ptrs by blast
    have k: "texts (Some p) (e_key2 e) (e_key3 e) = entry_key e" using p(1) by (simp add: entry_key_def)
    have none: "hash_map ret (entry_key e) = None" using Cons.prems(4) False by auto
    obtain res ret1 freed m1 where up: "xmlHashAdd3 (Some ret) (e_key e) (e_key2 e) (e_key3 e) ?c mem = Some (res, Some ret1, freed, m1)"
      "hash_ok ret1" "updated ret (entry_key e) ?c False False mem res ret1 freed" "set m1 \<subseteq> set mem"
      using xmlHashUpdateInternal_spec [OF Cons.prems(3) p(2-4), of ?c False False mem] unfolding k xmlHashAdd3_def p(1) by blast
    have "\<not> hash_full ret" using hash_full_card [OF Cons.prems(3)] Cons.prems(5) False by auto
    then have res: "res = 1 \<and> hash_map ret1 = (hash_map ret)(entry_key e \<mapsto> ?c) \<or> res = -1 \<and> \<not> mem_ok mem"
      using up(3) none by (auto simp: updated_def)
    consider "?c = None" | "?c \<noteq> None" "res = -1" | "?c \<noteq> None" "res = 1" using res by blast
    then show ?thesis
    proof cases
      case 1
      then have "copy_entries f dealloc (e # es) ret mem = Some (False, Some ret, [], mem)" using False by simp
      then show ?thesis using 1 False Cons.prems(3) by (intro exI [of _ False]) auto
    next
      case 2
      then have "copy_entries f dealloc (e # es) ret mem = Some (False, Some ret1, if dealloc then [(?c, e_key e)] else [], m1)"
        using False up(1) by (auto simp: Let_def)
      then show ?thesis using 2(2) res up(2) by (intro exI [of _ False]) auto
    next
      case added: 3
      then have m: "res = 1" "hash_map ret1 = (hash_map ret)(entry_key e \<mapsto> ?c)" using res by auto
      have k': "entry_key e \<notin> fst ` set (copied f es)" using Cons.prems(2) False by (simp add: image_iff)
      have card: "card (dom (hash_map ret1)) = Suc (card (dom (hash_map ret)))"
        using none m(2) by (simp add: hash_map_def finite_dom_map_of domIff card_insert_if)
      obtain ok ret' freed' m2 where ih: "copy_entries f dealloc es ret1 m1 = Some (ok, Some ret', freed', m2)" "hash_ok ret'"
        "ok \<longrightarrow> hash_map ret' = hash_map ret1 ++ map_of (copied f es)" "\<not> ok \<longrightarrow> \<not> mem_ok m1 \<or> None \<in> snd ` set (copied f es)"
      proof -
        have "\<forall>e\<in>set es. e_hashValue e \<noteq> 0 \<longrightarrow> entry_good e" "distinct (map fst (copied f es))"
          using Cons.prems(1,2) False by simp_all
        moreover have "fst ` set (copied f es) \<inter> dom (hash_map ret1) = {}" using Cons.prems(4) False k' unfolding m(2) by auto
        moreover have "card (dom (hash_map ret1)) + length (copied f es) \<le> 1879048192" unfolding card using Cons.prems(5) False by simp
        ultimately show ?thesis using Cons.IH [OF _ _ up(2), of m1] that by blast
      qed
      have "map_of (copied f es) (entry_key e) = None" using k' by (simp add: map_of_eq_None_iff)
      then have "hash_map ret1 ++ map_of (copied f es) = hash_map ret ++ map_of (copied f (e # es))"
        using m(2) False by (simp add: map_add_upd_left domIff)
      moreover have "copy_entries f dealloc (e # es) ret mem = Some (ok, Some ret', freed', m2)"
        using False added up(1) ih(1) by (auto simp: Let_def)
      moreover have "\<not> ok \<longrightarrow> \<not> mem_ok mem \<or> None \<in> snd ` set (copied f (e # es))"
        using ih(4) up(4) False by (auto simp: mem_ok_def)
      ultimately show ?thesis using ih(2,3) by simp
    qed
  qed
qed

lemma xmlHashCopySafe_spec:
  fixes f :: "'p option \<Rightarrow> xptr \<Rightarrow> 'q option"
  assumes ok: "hash_ok h"
  shows "\<exists>r freed mem'. xmlHashCopySafe (Some h) (Some f) dealloc seed mem = Some (r, freed, mem') \<and>
    (\<forall>h'. r = Some h' \<longrightarrow> hash_ok h' \<and> hash_map h' = map_of (copied f (h_table h))) \<and>
    (r = None \<longrightarrow> \<not> mem_ok mem \<or> None \<in> snd ` set (copied f (h_table h)))"
proof -
  have le: "sint (h_size h) \<le> INT_MAX" using sint_lt [of "h_size h"] by (simp add: INT_MAX_def)
  obtain c :: "'q xmlHashTable option" and m1 where c: "xmlHashCreate (sint (h_size h)) seed mem = Some (c, m1)" "set m1 \<subseteq> set mem" "c = None \<longrightarrow> \<not> mem_ok mem"
    "\<forall>h. c = Some h \<longrightarrow> hash_ok h \<and> hash_map h = Map.empty"
    using xmlHashCreate_spec [OF le, of seed mem] by blast
  show ?thesis
  proof (cases c)
    case None
    then show ?thesis using c by (simp add: xmlHashCopySafe_def)
  next
    case (Some ret)
    show ?thesis
    proof (cases "h_size h = 0")
      case True
      then show ?thesis using c Some ok by (simp add: xmlHashCopySafe_def hash_ok_def)
    next
      case False
      note inv = hash_okD [OF ok False]
      have keys: "map fst (copied f (h_table h)) = map fst (pairs h)" by (simp add: copied_def pairs_def)
      have "length (copied f (h_table h)) = size (entries e_hashValue (h_table h))"
        by (simp add: copied_def entries_def size_mset [symmetric] mset_filter del: size_mset)
      also have "\<dots> = unat (h_nbElems h)" using inv(1) by (simp add: table_inv_def)
      also have "\<dots> \<le> 1879048192"
      proof -
        have "length (h_table h) \<le> 2147483648" using table_size_pos [OF inv(4)] by simp
        then show ?thesis using inv(3) by linarith
      qed
      finally have len: "length (copied f (h_table h)) \<le> 1879048192" .
      have good: "\<forall>e\<in>set (h_table h). e_hashValue e \<noteq> 0 \<longrightarrow> entry_good e" using inv(1) by (auto simp: table_inv_def entries_def)
      obtain ok' ret' freed m2 where e: "copy_entries f dealloc (h_table h) ret m1 = Some (ok', Some ret', freed, m2)" "hash_ok ret'"
        "ok' \<longrightarrow> hash_map ret' = hash_map ret ++ map_of (copied f (h_table h))"
        "\<not> ok' \<longrightarrow> \<not> mem_ok m1 \<or> None \<in> snd ` set (copied f (h_table h))"
        using copy_entries_spec [OF good, of f ret dealloc m1] c(4) Some distinct_pairs [OF ok] keys len by auto
      then show ?thesis using c Some False by (cases ok') (auto simp: xmlHashCopySafe_def mem_ok_def)
    qed
  qed
qed

section \<open>Scanning with deletions\<close>

text \<open>
  A callback that decides from the entry and the state of the caller whether to remove the entry from the
  table, as \<open>xmlCleanSpecialAttrCallback\<close> in \<open>parser.c\<close> does.
\<close>

definition deleting :: "('p option \<Rightarrow> xptr \<Rightarrow> xptr \<Rightarrow> xptr \<Rightarrow> 's \<Rightarrow> bool \<times> 's) \<Rightarrow> ('p, 's) scanner" where
  "deleting f payload key key2 key3 s =
     (let (del, st) = f payload key key2 key3 (snd s)
      in if del then do {
           (_, h, _) \<leftarrow> xmlHashRemoveEntry3 (Some (fst s)) key key2 key3 False;
           h \<leftarrow> h;
           Some (h, st)
         }
         else Some (fst s, st))"

text \<open>What such a scan does: the selected entries of a list one after the other, on the map.\<close>

fun scan_spec ::
    "(hkey \<Rightarrow> bool) \<Rightarrow> ('p option \<Rightarrow> xptr \<Rightarrow> xptr \<Rightarrow> xptr \<Rightarrow> 's \<Rightarrow> bool \<times> 's) \<Rightarrow> 'p xmlHashEntry list \<Rightarrow>
     (hkey \<rightharpoonup> 'p option) \<times> 's \<Rightarrow> (hkey \<rightharpoonup> 'p option) \<times> 's" where
  "scan_spec sel f [] s = s"
| "scan_spec sel f (e # es) s =
     (if e_payload e = None \<or> \<not> sel (entry_key e) then scan_spec sel f es s
      else let (del, st) = f (e_payload e) (e_key e) (e_key2 e) (e_key3 e) (snd s)
        in scan_spec sel f es (if del then (fst s)(entry_key e := None) else fst s, st))"

abbreviation occupied :: "'p xmlHashEntry \<Rightarrow> bool" where
  "occupied e \<equiv> e_hashValue e \<noteq> 0"

lemma remove_slot:
  assumes ok: "hash_ok h" "h_size h \<noteq> 0" and i: "i < length (h_table h)" "occupied (h_table h ! i)"
  defines "x \<equiv> h_table h ! i"
  shows "\<exists>h' m. xmlHashRemoveEntry3 (Some h) (e_key x) (e_key2 x) (e_key3 x) False = Some (0, Some h', []) \<and> hash_ok h' \<and>
    hash_map h' = (hash_map h)(entry_key x := None) \<and> h_size h' = h_size h \<and> Suc m < length (h_table h) \<and>
    removed (\<lambda>cur. cur\<lparr>e_hashValue := 0\<rparr>) (h_table h) i m (h_table h') \<and>
    (\<forall>t. 0 < t \<and> t \<le> m \<longrightarrow> occ e_hashValue (h_table h) (i + t))"
proof -
  note inv = hash_okD [OF ok]
  have xin: "x \<in># entries e_hashValue (h_table h)" unfolding x_def using i entries_nth by blast
  then have "entry_good x" using inv(1) by (auto simp: table_inv_def)
  then obtain p where p: "e_key x = Some p" "terminated p" "ptr_ok (e_key2 x)" "ptr_ok (e_key3 x)" using entry_good_ptrs by blast
  have k: "texts (Some p) (e_key2 x) (e_key3 x) = entry_key x" using p(1) by (simp add: entry_key_def)
  obtain len where hv: "xmlHashValue (h_randomSeed h) (Some p) (e_key2 x) (e_key3 x) = Some (key_hash (h_randomSeed h) (entry_key x), len)"
    using xmlHashValue_text [OF p(2-4), of "h_randomSeed h"] unfolding k by auto
  obtain found j where f: "xmlHashFindEntry h (Some p) (e_key2 x) (e_key3 x) (key_hash (h_randomSeed h) (entry_key x)) = Some (found, j)"
    "j < length (h_table h)" "found \<longleftrightarrow> hash_map h (entry_key x) \<noteq> None"
    "found \<Longrightarrow> h_table h ! j \<in># entries e_hashValue (h_table h) \<and> entry_key (h_table h ! j) = entry_key x"
    by (rule xmlHashFindEntry_spec [OF ok p(2-4), unfolded k]) blast
  have found using f(3) hash_map_entry [OF ok(1) xin] by simp
  moreover from this have "j = i" using f(2,4) i key_unique [OF inv(1), of j i] unfolding x_def by (auto simp: entries_def)
  ultimately have find: "xmlHashFindEntry h (Some p) (e_key2 x) (e_key3 x) (key_hash (h_randomSeed h) (entry_key x)) = Some (True, i)"
    using f(1) by simp
  obtain U m where U: "shift_left e_hashValue (\<lambda>cur. cur\<lparr>e_hashValue := 0\<rparr>) (h_table h) (h_size h) i = Some U"
    "removed (\<lambda>cur. cur\<lparr>e_hashValue := 0\<rparr>) (h_table h) i m U" "Suc m < length (h_table h)"
    "\<forall>t. 0 < t \<and> t \<le> m \<longrightarrow> occ e_hashValue (h_table h) (i + t)"
    by (rule hash_entries.remove_shape [OF inv(1) i(1) xin [unfolded x_def], of "\<lambda>cur. cur\<lparr>e_hashValue := 0\<rparr>"]) auto
  let ?h = "h\<lparr>h_table := U, h_nbElems := h_nbElems h - 1\<rparr>"
  have eq: "xmlHashRemoveEntry3 (Some h) (e_key x) (e_key2 x) (e_key3 x) False = Some (0, Some ?h, [])"
    using hv find ok(2) i(1) U(1) p(1) by (simp add: xmlHashRemoveEntry3_def slot_def Let_def)
  then have "hash_ok ?h \<and> hash_map ?h = (hash_map h)(entry_key x := None)"
    using xmlHashRemoveEntry3_spec [OF ok(1) p(2-4), of False] unfolding k p(1) by auto
  then show ?thesis using eq U(2-4) by (intro exI [of _ ?h] exI [of _ m]) simp
qed

text \<open>The loop on one slot handles the entries that move into it; \<open>e\<close> is the empty slot the scan started from.\<close>

lemma scan_slot_spec:
  assumes skip: "\<And>e :: 'p xmlHashEntry. entry_good e \<Longrightarrow> skip e = Some (\<not> sel (entry_key e))"
  assumes "hash_ok h" "h_size h \<noteq> 0" "e < length (h_table h)" "\<not> occupied (h_table h ! e)" "0 < s" "s < length (h_table h)"
    "occupied (h_table h ! ((e + s) mod length (h_table h)))" "e_payload (h_table h ! ((e + s) mod length (h_table h))) \<noteq> None"
  shows "\<exists>h' st'. scan_slot skip (deleting f) ((e + s) mod length (h_table h)) (h, st) = Some (h', st') \<and> hash_ok h' \<and>
    h_size h' = h_size h \<and> \<not> occupied (h_table h' ! e) \<and>
    scan_spec sel f (filter occupied (drop (Suc s) (rotate e (h_table h')))) (hash_map h', st') =
    scan_spec sel f (filter occupied (drop s (rotate e (h_table h)))) (hash_map h, st)"
  using assms(2-)
proof (induction "length (filter occupied (drop s (rotate e (h_table h))))" arbitrary: h st rule: less_induct)
  case less
  let ?T = "h_table h" and ?n = "length (h_table h)" and ?i = "(e + s) mod length (h_table h)"
  let ?x = "?T ! ?i" and ?R = "rotate e ?T"
  let ?clear = "\<lambda>cur :: 'p xmlHashEntry. cur\<lparr>e_hashValue := 0\<rparr>"
  note inv = hash_okD [OF less.prems(1,2)]
  have i: "?i < ?n" using less.prems(3) by (intro mod_less_divisor) linarith
  have xin: "?x \<in># entries e_hashValue ?T" using i less.prems(7) entries_nth by blast
  have good: "entry_good ?x" using xin inv(1) by (auto simp: table_inv_def)
  have rest: "drop s ?R = ?x # drop (Suc s) ?R" using less.prems(6) by (simp add: Cons_nth_drop_Suc [symmetric] nth_rotate)
  have slot: "slot ?T ?i = Some ?x" using i by (simp add: slot_def)
  obtain del st1 where fx: "f (e_payload ?x) (e_key ?x) (e_key2 ?x) (e_key3 ?x) st = (del, st1)" by fastforce
  have spec: "scan_spec sel f (filter occupied (drop s ?R)) (hash_map h, st) =
      (if sel (entry_key ?x) then scan_spec sel f (filter occupied (drop (Suc s) ?R)) (if del then (hash_map h)(entry_key ?x := None) else hash_map h, st1)
       else scan_spec sel f (filter occupied (drop (Suc s) ?R)) (hash_map h, st))"
    unfolding rest using less.prems(7,8) fx by auto
  consider "\<not> sel (entry_key ?x)" | "sel (entry_key ?x)" "\<not> del" | "sel (entry_key ?x)" del by blast
  then show ?case
  proof cases
    case 1
    then have "scan_slot skip (deleting f) ?i (h, st) = Some (h, st)"
      using slot skip [OF good] by (subst scan_slot.simps) simp
    then show ?thesis using less.prems spec 1 by auto
  next
    case 2
    then have "scan_slot skip (deleting f) ?i (h, st) = Some (h, st1)"
      using slot skip [OF good] fx by (subst scan_slot.simps) (simp add: deleting_def)
    then show ?thesis using less.prems spec 2 by auto
  next
    case 3
    obtain h1 m where r: "xmlHashRemoveEntry3 (Some h) (e_key ?x) (e_key2 ?x) (e_key3 ?x) False = Some (0, Some h1, [])" "hash_ok h1"
      "hash_map h1 = (hash_map h)(entry_key ?x := None)" "h_size h1 = h_size h" "Suc m < ?n"
      "removed ?clear ?T ?i m (h_table h1)" "\<forall>t. 0 < t \<and> t \<le> m \<longrightarrow> occ e_hashValue ?T (?i + t)"
      using remove_slot [OF less.prems(1,2) i less.prems(7)] by blast
    have len: "length (h_table h1) = ?n" using r(6) by (simp add: removed_def)
    have gap: "\<not> occ e_hashValue ?T e" using less.prems(3,4) by simp
    note R1 = removed_from_gap [OF r(6,5) less.prems(5,6) r(7) gap]
    have take: "take s (rotate e (h_table h1)) = take s ?R" unfolding R1(1) using less.prems(6) by simp
    have "rotate e (h_table h1) ! 0 = ?R ! 0" using take less.prems(5) by (metis nth_take)
    then have gap1: "\<not> occupied (h_table h1 ! e)" using less.prems(3,4) len nth_rotate [of 0 ?T e] nth_rotate [of 0 "h_table h1" e] by (cases ?T) auto
    have drop1: "filter occupied (drop s (rotate e (h_table h1))) = filter occupied (drop (Suc s) ?R)"
    proof -
      let ?P = "take m (drop (Suc s) ?R)" and ?Q = "drop (Suc (s + m)) ?R"
      have A: "drop s (rotate e (h_table h1)) = ?P @ ?clear (?R ! (s + m)) # ?Q" unfolding R1(1) using less.prems(6) by simp
      have "?P @ drop m (drop (Suc s) ?R) = drop (Suc s) ?R" by (rule append_take_drop_id)
      then have B: "drop (Suc s) ?R = ?P @ ?Q" by (simp add: add.commute)
      have "filter occupied (drop (Suc s) ?R) = filter occupied (?P @ ?Q)" using B by (rule arg_cong)
      then show ?thesis unfolding A by simp
    qed
    let ?y = "h_table h1 ! ?i"
    have rest1: "drop s (rotate e (h_table h1)) = ?y # drop (Suc s) (rotate e (h_table h1))"
      using less.prems(6) len by (simp add: Cons_nth_drop_Suc [symmetric] nth_rotate)
    have slot1: "slot (h_table h1) ?i = Some ?y" using i len by (simp add: slot_def)
    have del: "deleting f (e_payload ?x) (e_key ?x) (e_key2 ?x) (e_key3 ?x) (h, st) = Some (h1, st1)"
      using fx 3(2) r(1) by (simp add: deleting_def)
    have step: "scan_slot skip (deleting f) ?i (h, st) =
        (if occupied ?y \<and> e_payload ?y \<noteq> None \<and> (e_key ?y \<noteq> e_key ?x \<or> e_key2 ?y \<noteq> e_key2 ?x \<or> e_key3 ?y \<noteq> e_key3 ?x)
         then scan_slot skip (deleting f) ?i (h1, st1) else Some (h1, st1))"
      using slot skip [OF good] 3(1) del r(4) slot1 by (subst scan_slot.simps) simp
    have spec1: "scan_spec sel f (filter occupied (drop s ?R)) (hash_map h, st) =
        scan_spec sel f (filter occupied (drop s (rotate e (h_table h1)))) (hash_map h1, st1)"
      unfolding spec drop1 r(3) using 3 by simp
    show ?thesis
    proof (cases "occupied ?y \<and> e_payload ?y \<noteq> None")
      case True
      have "?y \<in># entries e_hashValue (h_table h1)" using True i len entries_nth by metis
      then have "hash_map h1 (entry_key ?y) \<noteq> None" using hash_map_entry [OF r(2)] by simp
      then have "entry_key ?y \<noteq> entry_key ?x" unfolding r(3) by auto
      then have "scan_slot skip (deleting f) ?i (h, st) = scan_slot skip (deleting f) ?i (h1, st1)"
        unfolding step using True by (auto simp: entry_key_def)
      moreover have "length (filter occupied (drop s (rotate e (h_table h1)))) < length (filter occupied (drop s ?R))"
        unfolding drop1 rest using less.prems(7) by simp
      from less.hyps [OF this r(2)] have "\<exists>h' st'. scan_slot skip (deleting f) ?i (h1, st1) = Some (h', st') \<and> hash_ok h' \<and>
          h_size h' = h_size h1 \<and> \<not> occupied (h_table h' ! e) \<and>
          scan_spec sel f (filter occupied (drop (Suc s) (rotate e (h_table h')))) (hash_map h', st') =
          scan_spec sel f (filter occupied (drop s (rotate e (h_table h1)))) (hash_map h1, st1)"
        using less.prems(2,3,5,6) r(4) len gap1 True by simp
      ultimately show ?thesis unfolding spec1 r(4) by simp
    next
      case False
      then have "scan_slot skip (deleting f) ?i (h, st) = Some (h1, st1)" unfolding step by auto
      moreover have "scan_spec sel f (filter occupied (drop s (rotate e (h_table h1)))) (hash_map h1, st1) =
          scan_spec sel f (filter occupied (drop (Suc s) (rotate e (h_table h1)))) (hash_map h1, st1)"
        unfolding rest1 using False by auto
      ultimately show ?thesis unfolding spec1 using r(2,4) gap1 by simp
    qed
  qed
qed

lemma scan_loop_spec:
  assumes skip: "\<And>e :: 'p xmlHashEntry. entry_good e \<Longrightarrow> skip e = Some (\<not> sel (entry_key e))"
  shows "hash_ok h \<Longrightarrow> h_size h \<noteq> 0 \<Longrightarrow> e < length (h_table h) \<Longrightarrow> \<not> occupied (h_table h ! e) \<Longrightarrow> s + k = length (h_table h) \<Longrightarrow>
    \<exists>h' st'. scan_loop skip (deleting f) k ((e + s) mod length (h_table h)) (h, st) = Some (h', st') \<and> hash_ok h' \<and>
      h_size h' = h_size h \<and> (hash_map h', st') = scan_spec sel f (filter occupied (drop s (rotate e (h_table h)))) (hash_map h, st)"
proof (induction k arbitrary: s h st)
  case 0
  then show ?case by simp
next
  case (Suc k)
  let ?n = "length (h_table h)" and ?i = "(e + s) mod length (h_table h)"
  let ?x = "h_table h ! ?i"
  have s: "s < ?n" using Suc.prems(5) by linarith
  have i: "?i < ?n" using s by (intro mod_less_divisor) linarith
  have rest: "drop s (rotate e (h_table h)) = ?x # drop (Suc s) (rotate e (h_table h))"
    using s by (simp add: Cons_nth_drop_Suc [symmetric] nth_rotate)
  obtain h1 st1 where 1: "(if occupied ?x \<and> e_payload ?x \<noteq> None then scan_slot skip (deleting f) ?i (h, st) else Some (h, st)) = Some (h1, st1)"
    "hash_ok h1" "h_size h1 = h_size h" "\<not> occupied (h_table h1 ! e)"
    "scan_spec sel f (filter occupied (drop (Suc s) (rotate e (h_table h1)))) (hash_map h1, st1) =
     scan_spec sel f (filter occupied (drop s (rotate e (h_table h)))) (hash_map h, st)"
  proof (cases "occupied ?x \<and> e_payload ?x \<noteq> None")
    case True
    have "s \<noteq> 0" using True Suc.prems(3,4) by (cases s) auto
    then have "0 < s" by simp
    from scan_slot_spec [where skip = skip and sel = sel and f = f and st = st, OF skip Suc.prems(1-4) this s] True
    show ?thesis using that by auto
  next
    case False
    then show ?thesis using that [of h st] Suc.prems(1,4) unfolding rest by auto
  qed
  have len: "length (h_table h1) = ?n" using hash_okD(5) [OF 1(2)] hash_okD(5) [OF Suc.prems(1,2)] 1(3) Suc.prems(2) by simp
  have wrap: "(if ?i + 1 \<ge> ?n then 0 else ?i + 1) = (e + Suc s) mod ?n" using wrap_slot [OF i] by (simp add: mod_Suc_eq)
  have slot: "slot (h_table h) ?i = Some ?x" using i by (simp add: slot_def)
  have "scan_loop skip (deleting f) (Suc k) ?i (h, st) = scan_loop skip (deleting f) k ((e + Suc s) mod ?n) (h1, st1)"
    by (simp only: scan_loop.simps fst_conv slot bind.bind_lunit 1(1) len wrap)
  moreover have "\<exists>h' st'. scan_loop skip (deleting f) k ((e + Suc s) mod ?n) (h1, st1) = Some (h', st') \<and> hash_ok h' \<and> h_size h' = h_size h1 \<and>
      (hash_map h', st') = scan_spec sel f (filter occupied (drop (Suc s) (rotate e (h_table h1)))) (hash_map h1, st1)"
    using Suc.IH [OF 1(2), of "Suc s" st1] 1(3,4) Suc.prems(2,3,5) len by simp
  ultimately show ?case unfolding 1(5) 1(3) by simp
qed

lemma scan_table_spec:
  assumes skip: "\<And>e :: 'p xmlHashEntry. entry_good e \<Longrightarrow> skip e = Some (\<not> sel (entry_key e))" and ok: "hash_ok h"
  shows "\<exists>h' st' es. scan_table skip (Some h) (Some (deleting f)) st = Some (Some h', st') \<and> hash_ok h' \<and>
     mset es = entries e_hashValue (h_table h) \<and> (hash_map h', st') = scan_spec sel f es (hash_map h, st)"
proof (cases "h_size h = 0")
  case True
  then show ?thesis using ok by (intro exI [of _ h] exI [of _ st] exI [of _ "[]"]) (auto simp: scan_table_def hash_ok_def entries_def)
next
  case False
  note inv = hash_okD [OF ok False]
  let ?T = "h_table h"
  obtain g where g: "g < length ?T" "e_hashValue (?T ! g) = 0" using hash_entries.inv_gap [OF inv(1)] by blast
  obtain e where e: "e < length ?T" "\<forall>t<e. occ e_hashValue ?T (0 + t)" "\<not> occ e_hashValue ?T (0 + e)" using gap_exists [of g ?T e_hashValue 0] g by blast
  have ne: "?T \<noteq> []" using g(1) by auto
  have gap: "gap_loop e_hashValue ?T 0 = Some ((e + 0) mod length ?T)" using gap_loop_spec [OF ne e(2,3)] ne by simp
  have "\<not> occupied (?T ! e)" using e by simp
  from scan_loop_spec [where skip = skip and sel = sel, OF skip ok False e(1) this, of 0 "length ?T" f st]
  obtain h' st' where s: "scan_loop skip (deleting f) (length ?T) ((e + 0) mod length ?T) (h, st) = Some (h', st')" "hash_ok h'"
    "(hash_map h', st') = scan_spec sel f (filter occupied (rotate e ?T)) (hash_map h, st)" by auto
  have "mset (filter occupied (rotate e ?T)) = entries e_hashValue ?T" by (simp add: entries_def mset_filter)
  moreover have "scan_table skip (Some h) (Some (deleting f)) st = Some (Some h', st')"
    using False gap s(1) inv(5) by (simp add: scan_table_def)
  ultimately show ?thesis using s(2,3) by blast
qed


text \<open>The entries \<open>xmlHashScanFull3\<close> selects: \<open>NULL\<close> stands for every key.\<close>

definition selects :: "xptr \<Rightarrow> xptr \<Rightarrow> xptr \<Rightarrow> hkey \<Rightarrow> bool" where
  "selects key key2 key3 k =
     (case k of (s, s2, s3) \<Rightarrow>
        (key = None \<or> map_option ctext key = Some s) \<and> (key2 = None \<or> map_option ctext key2 = s2) \<and>
        (key3 = None \<or> map_option ctext key3 = s3))"

lemma scan3_skip_text:
  assumes "entry_good e" "ptr_ok key" "ptr_ok key2" "ptr_ok key3"
  shows "scan3_skip key key2 key3 e = Some (\<not> selects key key2 key3 (entry_key e))"
proof -
  obtain q where q: "e_key e = Some q" "terminated q" "ptr_ok (e_key2 e)" "ptr_ok (e_key3 e)"
    using entry_good_ptrs [OF assms(1)] by blast
  have 1: "\<exists>c. strcmp key (e_key e) = Some c \<and> (c = 0 \<longleftrightarrow> map_option ctext key = Some (ctext q))" if "key \<noteq> None"
    using that assms(2) strcmp_loop_text [OF _ q(2)] q(1) by (cases key) (auto simp: strcmp_def)
  show ?thesis
    using 1 xmlFastStrEqual_text [OF assms(3) q(3)] xmlFastStrEqual_text [OF assms(4) q(4)] q(1)
    by (cases "key = None") (auto simp: scan3_skip_def selects_def entry_key_def texts_def)
qed

section \<open>The public operations as a map\<close>

datatype 'p hash_op =
    Hash_Update xptr xptr xptr "'p option" bool bool "bool list"
  | Hash_Lookup xptr xptr xptr
  | Hash_QLookup xptr xptr xptr xptr xptr xptr
  | Hash_Remove xptr xptr xptr bool
  | Hash_Size

datatype 'p hash_result = Status int "'p dealloc_log" | Payload "'p option" | Number int

fun hash_run :: "'p hash_op \<Rightarrow> 'p xmlHashTable \<Rightarrow> ('p hash_result \<times> 'p xmlHashTable) option" where
  "hash_run (Hash_Update key key2 key3 payload dealloc upd mem) h = do {
     (res, h, freed, _) \<leftarrow> xmlHashUpdateInternal (Some h) key key2 key3 payload dealloc upd mem;
     h \<leftarrow> h;
     Some (Status res freed, h)
   }"
| "hash_run (Hash_Lookup key key2 key3) h = do { v \<leftarrow> xmlHashLookup3 (Some h) key key2 key3; Some (Payload v, h) }"
| "hash_run (Hash_QLookup prefix name prefix2 name2 prefix3 name3) h = do {
     v \<leftarrow> xmlHashQLookup3 (Some h) prefix name prefix2 name2 prefix3 name3;
     Some (Payload v, h)
   }"
| "hash_run (Hash_Remove key key2 key3 dealloc) h = do {
     (res, h, freed) \<leftarrow> xmlHashRemoveEntry3 (Some h) key key2 key3 dealloc;
     h \<leftarrow> h;
     Some (Status res freed, h)
   }"
| "hash_run Hash_Size h = Some (Number (xmlHashSize (Some h)), h)"

text \<open>The pointers of a call: terminated strings, the first key not \<open>NULL\<close>.\<close>

fun op_ok :: "'p hash_op \<Rightarrow> bool" where
  "op_ok (Hash_Update key key2 key3 payload dealloc upd mem) \<longleftrightarrow> key \<noteq> None \<and> ptr_ok key \<and> ptr_ok key2 \<and> ptr_ok key3"
| "op_ok (Hash_Lookup key key2 key3) \<longleftrightarrow> key \<noteq> None \<and> ptr_ok key \<and> ptr_ok key2 \<and> ptr_ok key3"
| "op_ok (Hash_QLookup prefix name prefix2 name2 prefix3 name3) \<longleftrightarrow>
     name \<noteq> None \<and> qname_ok prefix name \<and> qname_ok prefix2 name2 \<and> qname_ok prefix3 name3"
| "op_ok (Hash_Remove key key2 key3 dealloc) \<longleftrightarrow> key \<noteq> None \<and> ptr_ok key \<and> ptr_ok key2 \<and> ptr_ok key3"
| "op_ok Hash_Size \<longleftrightarrow> True"

text \<open>
  The contract on finite maps.  Adding fails with -1 only when memory runs out or the map
  has 1879048192 keys, seven eighths of \<open>MAX_HASH_SIZE\<close>, and then changes nothing.
\<close>

fun map_spec :: "'p hash_op \<Rightarrow> (hkey \<rightharpoonup> 'p option) \<Rightarrow> 'p hash_result \<Rightarrow> (hkey \<rightharpoonup> 'p option) \<Rightarrow> bool" where
  "map_spec (Hash_Update key key2 key3 payload dealloc upd mem) m r m' \<longleftrightarrow>
     (let k = texts key key2 key3
      in case m k of
           Some old \<Rightarrow> r = Status 0 (if upd \<and> dealloc then [(old, Some (copy_of (fst k)))] else []) \<and>
             m' = (if upd then m(k \<mapsto> payload) else m)
         | None \<Rightarrow> r = Status 1 [] \<and> m' = m(k \<mapsto> payload) \<or>
             r = Status (-1) [] \<and> m' = m \<and> (\<not> mem_ok mem \<or> card (dom m) = 1879048192))"
| "map_spec (Hash_Lookup key key2 key3) m r m' \<longleftrightarrow>
     r = Payload (Option.bind (m (texts key key2 key3)) (\<lambda>v. v)) \<and> m' = m"
| "map_spec (Hash_QLookup prefix name prefix2 name2 prefix3 name3) m r m' \<longleftrightarrow>
     r = Payload (Option.bind (m (the (qtext prefix name), qtext prefix2 name2, qtext prefix3 name3)) (\<lambda>v. v)) \<and> m' = m"
| "map_spec (Hash_Remove key key2 key3 dealloc) m r m' \<longleftrightarrow>
     (let k = texts key key2 key3
      in m' = m(k := None) \<and>
         r = (case m k of
                None \<Rightarrow> Status (-1) []
              | Some v \<Rightarrow> Status 0 (if dealloc \<and> v \<noteq> None then [(v, Some (copy_of (fst k)))] else [])))"
| "map_spec Hash_Size m r m' \<longleftrightarrow> r = Number (int (card (dom m))) \<and> m' = m"

interpretation hash_ops: simulation hash_run hash_ok op_ok hash_map map_spec
proof
  fix h :: "'p xmlHashTable" and x :: "'p hash_op"
  assume ok: "hash_ok h" and x: "op_ok x"
  show "\<exists>r h'. hash_run x h = Some (r, h') \<and> hash_ok h' \<and> map_spec x (hash_map h) r (hash_map h')"
  proof (cases x)
    case (Hash_Update key key2 key3 payload dealloc upd mem)
    then obtain p where p: "key = Some p" "terminated p" "ptr_ok key2" "ptr_ok key3" using x by auto
    obtain res h' freed m' where up: "xmlHashUpdateInternal (Some h) (Some p) key2 key3 payload dealloc upd mem = Some (res, Some h', freed, m')"
      "hash_ok h'" "updated h (texts (Some p) key2 key3) payload dealloc upd mem res h' freed"
      using xmlHashUpdateInternal_spec [OF ok p(2-4), of payload dealloc upd mem] by blast
    then show ?thesis
      using Hash_Update p(1) hash_full_card [OF ok] by (auto simp: updated_def Let_def split: option.splits)
  next
    case (Hash_Lookup key key2 key3)
    then show ?thesis using x ok xmlHashLookup3_spec [OF ok] by auto
  next
    case (Hash_QLookup prefix name prefix2 name2 prefix3 name3)
    then show ?thesis using x ok xmlHashQLookup3_spec [OF ok] by auto
  next
    case (Hash_Remove key key2 key3 dealloc)
    then obtain p where p: "key = Some p" "terminated p" "ptr_ok key2" "ptr_ok key3" using x by auto
    then show ?thesis
      using Hash_Remove xmlHashRemoveEntry3_spec [OF ok p(2-4), of dealloc] by (auto simp: Let_def split: option.splits)
  next
    case Hash_Size
    then show ?thesis using ok xmlHashSize_spec [OF ok] by simp
  qed
qed


section \<open>Properties\<close>

lemma hash_ok_typed:
  assumes "hash_ok h"
  shows "(h_size h = 0 \<and> h_table h = [] \<or> (\<exists>k. 3 \<le> k \<and> k \<le> 31 \<and> unat (h_size h) = 2 ^ k \<and> length (h_table h) = 2 ^ k \<and> robin_hood e_hashValue (h_table h))) \<and>
     unat (h_nbElems h) = length (filter occupied (h_table h)) \<and> unat (h_nbElems h) \<le> length (h_table h) div 8 * 7 \<and>
     (\<forall>e\<in>set (h_table h). occupied e \<longrightarrow> bit (e_hashValue e) 31 \<and> entry_good e)"
proof (cases "h_size h = 0")
  case True
  then show ?thesis using assms by (simp add: hash_ok_def)
next
  case False
  note inv = hash_okD [OF assms False]
  obtain k where k: "k \<le> 31" "length (h_table h) = 2 ^ k" using inv(4) by (auto simp: table_size_def)
  have "3 \<le> k"
  proof (rule ccontr)
    assume "\<not> 3 \<le> k"
    then have "(2 :: nat) ^ k \<le> 2 ^ 2" by (intro power_increasing) simp_all
    then show False using inv(2) k(2) by simp
  qed
  moreover have "size (entries e_hashValue (h_table h)) = length (filter occupied (h_table h))"
    by (simp add: entries_def size_mset [symmetric] mset_filter del: size_mset)
  then have "unat (h_nbElems h) = length (filter occupied (h_table h))" using inv(1) by (simp add: table_inv_def)
  moreover have "\<forall>e\<in>set (h_table h). occupied e \<longrightarrow> bit (e_hashValue e) 31 \<and> entry_good e"
    using inv(1) by (auto simp: table_inv_def entries_def stored_hash_def bit_simps bit_MAX_HASH_SIZE)
  moreover have "robin_hood e_hashValue (h_table h)" using inv(1) by (simp add: table_inv_def)
  ultimately show ?thesis using k inv(3,5) by auto
qed

lemma qtext_cstring: "pred_option cstring (qtext prefix name)"
  using ctext_texts by (auto simp: qtext_def cstring_def split: option.splits)



text \<open>
  C19 A table that was created by \<open>xmlHashCreate\<close> and used by any calls is well typed: its size
  is 0 or a power of two up to 2147483648 and the length of its array, \<open>nbElems\<close> counts the occupied
  slots and is at most seven eighths of them, every occupied slot has the top bit of its
  hash value set and terminated keys, no two have the same keys, and the displacements
  satisfy the Robin Hood order.
\<close>

theorem xml_hash_wellformed:
  fixes h0 :: "'p xmlHashTable"
  assumes "sz \<le> INT_MAX" "xmlHashCreate sz seed mem = Some (Some h0, mem')" "list_all op_ok ops"
  shows "\<exists>rs h. run_ops hash_run ops h0 = Some (rs, h) \<and>
     (h_size h = 0 \<and> h_table h = [] \<or> (\<exists>k. 3 \<le> k \<and> k \<le> 31 \<and> unat (h_size h) = 2 ^ k \<and> length (h_table h) = 2 ^ k \<and> robin_hood e_hashValue (h_table h))) \<and>
     unat (h_nbElems h) = length (filter occupied (h_table h)) \<and> unat (h_nbElems h) \<le> length (h_table h) div 8 * 7 \<and>
     (\<forall>e\<in>set (h_table h). occupied e \<longrightarrow> bit (e_hashValue e) 31 \<and> (\<exists>p. e_key e = Some p \<and> terminated p) \<and>
        ptr_ok (e_key2 e) \<and> ptr_ok (e_key3 e)) \<and>
     distinct (map entry_key (filter occupied (h_table h)))"
proof -
  have "\<exists>r mem'. xmlHashCreate sz seed mem = Some (r, mem') \<and> (\<forall>h :: 'p xmlHashTable. r = Some h \<longrightarrow> hash_ok h)"
    using xmlHashCreate_spec [OF assms(1)] by metis
  then have "hash_ok h0" using assms(2) by auto
  from hash_ops.run_ops_spec [OF this assms(3)]
  obtain rs h where h: "run_ops hash_run ops h0 = Some (rs, h)" "hash_ok h" by blast
  have typed: "(h_size h = 0 \<and> h_table h = [] \<or> (\<exists>k. 3 \<le> k \<and> k \<le> 31 \<and> unat (h_size h) = 2 ^ k \<and> length (h_table h) = 2 ^ k \<and> robin_hood e_hashValue (h_table h))) \<and>
     unat (h_nbElems h) = length (filter occupied (h_table h)) \<and> unat (h_nbElems h) \<le> length (h_table h) div 8 * 7 \<and>
     (\<forall>e\<in>set (h_table h). occupied e \<longrightarrow> bit (e_hashValue e) 31 \<and> entry_good e)"
    using h(2) by (rule hash_ok_typed)
  have "map fst (pairs h) = map entry_key (filter occupied (h_table h))" by (simp add: pairs_def)
  then have "distinct (map entry_key (filter occupied (h_table h)))" using distinct_pairs [OF h(2)] by (simp only:)
  then show ?thesis using h(1) typed entry_good_ptrs by (intro exI [of _ rs] exI [of _ h]) auto
qed

theorem xml_hash_wellformed_witness:
  "\<exists>rs h. run_ops hash_run [Hash_Update (Some [0x61, 0]) None None (Some (7 :: nat)) False False []]
     \<lparr>h_table = [], h_size = 0, h_nbElems = 0, h_randomSeed = 5\<rparr> = Some (rs, h) \<and>
     unat (h_nbElems h) = length (filter occupied (h_table h)) \<and> unat (h_nbElems h) \<le> length (h_table h) div 8 * 7"
proof -
  have "xmlHashCreate 0 5 [] = Some (Some (\<lparr>h_table = [], h_size = 0, h_nbElems = 0, h_randomSeed = 5\<rparr> :: nat xmlHashTable), [])"
    by (simp add: xmlHashCreate_def malloc_def MIN_HASH_SIZE_def)
  from xml_hash_wellformed [OF _ this, of "[Hash_Update (Some [0x61, 0]) None None (Some (7 :: nat)) False False []]"]
  show ?thesis by (auto simp: INT_MAX_def)
qed

text \<open>
  A lookup by qualified names (\<open>xmlHashQLookup\<close>, \<open>xmlHashQLookup2\<close>, \<open>xmlHashQLookup3\<close>) is the lookup of
  the concatenations of prefix, colon and name, which are never built: the two hash
  functions agree, and so do the comparisons, for prefixes that are not empty.
\<close>

theorem xml_hash_qlookup:
  assumes "hash_ok h" "qname_ok prefix (Some n)" "qname_ok prefix2 name2" "qname_ok prefix3 name3"
  shows "xmlHashQLookup3 (Some h) prefix (Some n) prefix2 name2 prefix3 name3 =
       xmlHashLookup3 (Some h) (map_option copy_of (qtext prefix (Some n))) (map_option copy_of (qtext prefix2 name2))
         (map_option copy_of (qtext prefix3 name3)) \<and>
     xmlHashQLookup2 (Some h) prefix (Some n) prefix2 name2 =
       xmlHashLookup2 (Some h) (map_option copy_of (qtext prefix (Some n))) (map_option copy_of (qtext prefix2 name2)) \<and>
     xmlHashQLookup (Some h) prefix (Some n) = xmlHashLookup (Some h) (map_option copy_of (qtext prefix (Some n)))"
proof -
  have none: "qname_ok None None" "qtext None None = None" by (simp_all add: qname_ok_def qtext_def)
  have *: "xmlHashQLookup3 (Some h) prefix (Some n) p2 n2 p3 n3 =
      xmlHashLookup3 (Some h) (map_option copy_of (qtext prefix (Some n))) (map_option copy_of (qtext p2 n2)) (map_option copy_of (qtext p3 n3))"
    if "qname_ok p2 n2" "qname_ok p3 n3" for p2 n2 p3 n3
  proof -
    obtain t where t: "qtext prefix (Some n) = Some t" by (simp add: qtext_def)
    have c: "map_option ctext (map_option copy_of (qtext p m)) = qtext p m" for p m
      using qtext_cstring [of p m] by (cases "qtext p m") auto
    have "texts (map_option copy_of (qtext prefix (Some n))) (map_option copy_of (qtext p2 n2)) (map_option copy_of (qtext p3 n3)) =
        (the (qtext prefix (Some n)), qtext p2 n2, qtext p3 n3)"
      unfolding texts_def c using c [of prefix "Some n"] t by simp
    moreover have "ptr_ok (map_option copy_of (qtext p m))" for p m by (cases "qtext p m") simp_all
    ultimately show ?thesis
      using xmlHashQLookup3_spec [OF assms(1,2) that] xmlHashLookup3_spec [OF assms(1), of "copy_of t"] t by simp
  qed
  show ?thesis
    using * [OF assms(3,4)] * [OF assms(3) none(1)] * [OF none(1,1)]
    by (simp add: xmlHashQLookup2_def xmlHashLookup2_def xmlHashQLookup_def xmlHashLookup_def none(2))
qed

theorem xml_hash_qlookup_witness:
  "xmlHashQLookup (Some (\<lparr>h_table = [], h_size = 0, h_nbElems = 0, h_randomSeed = 5\<rparr> :: nat xmlHashTable)) (Some [0x61, 0]) (Some [0x62, 0]) =
   xmlHashLookup (Some \<lparr>h_table = [], h_size = 0, h_nbElems = 0, h_randomSeed = 5\<rparr>) (Some [0x61, 0x3A, 0x62, 0])"
  using xml_hash_qlookup [of "\<lparr>h_table = [], h_size = 0, h_nbElems = 0, h_randomSeed = 5\<rparr> :: nat xmlHashTable"
     "Some [0x61, 0]" "[0x62, 0]" None None None None]
  by (simp add: empty_table qname_ok_def qtext_def copy_of_def)




lemma map_of_map_key: "map_of (map (\<lambda>(k, v). (k, g k v)) xs) = (\<lambda>k. map_option (g k) (map_of xs k))"
  by (induction xs) auto

text \<open>
  \<open>xmlHashCopySafe\<close> of a well-formed table returns a well-formed table with the same keys and the
  copies of the payloads, or \<open>NULL\<close>, and this only if an allocation failed or the copier returned
  \<open>NULL\<close> for a payload (so that a table with a \<open>NULL\<close> payload can fail to be copied although memory suffices).
\<close>

theorem xml_hash_copy:
  assumes "hash_ok h"
  shows "\<exists>r freed mem'. xmlHashCopySafe (Some h) (Some f) dealloc seed mem = Some (r, freed, mem') \<and>
    (\<forall>h'. r = Some h' \<longrightarrow> hash_ok h' \<and> dom (hash_map h') = dom (hash_map h) \<and>
       (\<forall>k v. hash_map h k = Some v \<longrightarrow> hash_map h' k = Some (f v (Some (copy_of (fst k)))))) \<and>
    (r = None \<longrightarrow> \<not> mem_ok mem \<or> (\<exists>k v. hash_map h k = Some v \<and> f v (Some (copy_of (fst k))) = None))"
proof -
  obtain r freed mem' where r: "xmlHashCopySafe (Some h) (Some f) dealloc seed mem = Some (r, freed, mem')"
    "\<forall>h'. r = Some h' \<longrightarrow> hash_ok h' \<and> hash_map h' = map_of (copied f (h_table h))"
    "r = None \<longrightarrow> \<not> mem_ok mem \<or> None \<in> snd ` set (copied f (h_table h))"
    using xmlHashCopySafe_spec [OF assms, of f dealloc seed mem] by blast
  have keys: "e_key e = Some (copy_of (fst (entry_key e)))" if "e \<in> set (h_table h)" "occupied e" for e
    using hash_ok_typed [OF assms] that entry_good_key by blast
  have C: "copied f (h_table h) = map (\<lambda>(k, v). (k, f v (Some (copy_of (fst k))))) (pairs h)"
    using keys by (simp add: copied_def pairs_def)
  have map: "map_of (copied f (h_table h)) = (\<lambda>k. map_option (\<lambda>v. f v (Some (copy_of (fst k)))) (hash_map h k))"
    unfolding C map_of_map_key hash_map_def ..
  have set: "None \<in> snd ` set (copied f (h_table h)) \<longleftrightarrow> (\<exists>k v. (k, v) \<in> set (pairs h) \<and> f v (Some (copy_of (fst k))) = None)"
    unfolding C set_map image_image by (auto simp: image_iff split_beta Bex_def eq_commute [of None])
  have "(k, v) \<in> set (pairs h) \<longleftrightarrow> hash_map h k = Some v" for k v
    using distinct_pairs [OF assms] by (simp add: hash_map_def)
  then show ?thesis using r map set by (auto simp: dom_def)
qed

theorem xml_hash_copy_witness:
  "\<exists>r freed mem'. xmlHashCopySafe (Some (\<lparr>h_table = [], h_size = 0, h_nbElems = 0, h_randomSeed = 5\<rparr> :: nat xmlHashTable))
     (Some (\<lambda>v _. v)) True 6 [] = Some (r, freed, mem') \<and> r \<noteq> None"
  using xml_hash_copy [of "\<lparr>h_table = [], h_size = 0, h_nbElems = 0, h_randomSeed = 5\<rparr> :: nat xmlHashTable" "\<lambda>v _. v" True 6 "[]"]
  by (auto simp: empty_table mem_ok_def)

text \<open>
  The return codes of adding: \<open>xmlHashAdd\<close> and its variants return 1 for a new key, 0 for a key
  that exists and -1 for an error, so that an existing key can be told from an error, whereas
  the comment of \<open>xmlHashAdd\<close> says it cannot; the older \<open>xmlHashAddEntry\<close> returns -1 for both.
  \<open>xmlHashUpdateEntry\<close> returns 0 or -1.  After -1 the map is unchanged.
\<close>

lemma xml_hash_codes:
  assumes "hash_ok h" "terminated p" "ptr_ok key2" "ptr_ok key3" "mem_ok mem" "card (dom (hash_map h)) < 1879048192"
  shows "\<exists>h' mem'. xmlHashAdd3 (Some h) (Some p) key2 key3 payload mem =
       Some (if hash_map h (texts (Some p) key2 key3) = None then 1 else 0, Some h', [], mem') \<and>
     xmlHashAddEntry3 (Some h) (Some p) key2 key3 payload mem =
       Some (if hash_map h (texts (Some p) key2 key3) = None then 0 else -1, Some h', [], mem') \<and>
     (\<exists>h2 freed mem2. xmlHashUpdateEntry3 (Some h) (Some p) key2 key3 payload True mem = Some (0, Some h2, freed, mem2) \<and>
        hash_map h2 = (hash_map h)(texts (Some p) key2 key3 \<mapsto> payload)) \<and>
     xmlHashAdd3 None (Some p) key2 key3 payload mem = Some (-1, None, [], mem)"
proof -
  let ?k = "texts (Some p) key2 key3"
  have full: "\<not> hash_full h" using hash_full_card [OF assms(1)] assms(6) by auto
  obtain res h' freed m' where 1: "xmlHashUpdateInternal (Some h) (Some p) key2 key3 payload False False mem = Some (res, Some h', freed, m')"
    "updated h ?k payload False False mem res h' freed"
    using xmlHashUpdateInternal_spec [OF assms(1-4), of payload False False mem] by blast
  obtain res2 h2 freed2 m2 where 2: "xmlHashUpdateInternal (Some h) (Some p) key2 key3 payload True True mem = Some (res2, Some h2, freed2, m2)"
    "updated h ?k payload True True mem res2 h2 freed2"
    using xmlHashUpdateInternal_spec [OF assms(1-4), of payload True True mem] by blast
  show ?thesis
    using 1 2 full assms(5)
    by (auto simp: xmlHashAdd3_def xmlHashAddEntry3_def xmlHashUpdateEntry3_def updated_def xmlHashUpdateInternal_def [of None] split: option.splits)
qed

end
