(* ===== verification/Xml_Dict.thy ===== *)
theory Xml_Dict
  imports Xml_Hash
begin

text \<open>
  libxml2's dictionaries (\<open>src/testbed/libxml2/dict.c\<close>): pools of strings, the Robin Hood
  table of their addresses, lookups with a subdictionary, ownership, limits and the random
  generator.  The table is an instance of the locale \<open>keyed_table\<close> of \<open>Xml_Robin\<close> whose keys
  are the texts in the pools.  The theory shows that adding a string stays inside a pool and
  leaves every other string where it is, what each lookup returns, and that sequences of
  lookups refine an interner, so that its addresses can be compared instead of the strings.
\<close>

section \<open>Dictionaries\<close>

text \<open>
  A pool of strings: \<open>ps_array\<close> holds the bytes of \<open>array\<close> before \<open>free\<close>, and \<open>end\<close> is
  \<open>&array[size]\<close>.  The pools of a dictionary form a list, the newest first.  A pointer into a
  pool is the number of the pool, counted from the oldest, and an offset.
\<close>

record xmlDictStrings =
  ps_size :: nat
  ps_nbStrings :: nat
  ps_array :: "u8 list"

type_synonym pool_ptr = "nat \<times> nat"

record xmlDictEntry =
  de_hashValue :: u32
  de_name :: "pool_ptr option"

record xmlDict =
  d_ref_counter :: int
  d_table :: "xmlDictEntry list"
  d_size :: u64
  d_nbElems :: u32
  d_strings :: "xmlDictStrings list"
  d_seed :: u32
  d_limit :: nat

text \<open>\<open>sizeof(xmlDictStrings)\<close> is 48 with 64-bit pointers.\<close>

definition sizeof_xmlDictStrings :: nat where "sizeof_xmlDictStrings = 48"

definition zero_dict_entry :: xmlDictEntry where
  "zero_dict_entry = \<lparr>de_hashValue = 0, de_name = None\<rparr>"

section \<open>The pools\<close>

text \<open>
  The loop over the pools: the index of a pool with more than \<open>need\<close> free bytes, or the
  largest size and the sum of the sizes.
\<close>

fun find_pool :: "xmlDictStrings list \<Rightarrow> nat \<Rightarrow> nat \<Rightarrow> nat \<Rightarrow> nat \<Rightarrow> nat + nat \<times> nat" where
  "find_pool [] need sz tot i = Inr (sz, tot)"
| "find_pool (pool # ps) need sz tot i =
     (if ps_size pool - length (ps_array pool) > need then Inl i
      else find_pool ps need (if ps_size pool > sz then ps_size pool else sz) ((tot + ps_size pool) mod 2 ^ 64) (i + 1))"

text \<open>From the label \<open>found_pool\<close>: the bytes are copied to \<open>free\<close>; outside the array this is undefined.\<close>

definition pool_write :: "xmlDictStrings list \<Rightarrow> nat \<Rightarrow> u8 list \<Rightarrow> (pool_ptr \<times> xmlDictStrings list) option" where
  "pool_write P i bs = do {
     pool \<leftarrow> slot P i;
     if length (ps_array pool) + length bs \<le> ps_size pool
     then Some ((length P - 1 - i, length (ps_array pool)),
                P[i := pool\<lparr>ps_array := ps_array pool @ bs, ps_nbStrings := ps_nbStrings pool + 1\<rparr>])
     else None
   }"

text \<open>A new pool in front of the others.\<close>

definition new_pool :: "xmlDictStrings list \<Rightarrow> nat \<Rightarrow> bool list \<Rightarrow> (nat option \<times> xmlDictStrings list \<times> bool list)" where
  "new_pool P sz mem =
     (let (ok, mem) = malloc mem
      in if ok then (Some 0, \<lparr>ps_size = sz, ps_nbStrings = 0, ps_array = []\<rparr> # P, mem) else (None, P, mem))"

definition xmlDictAddString :: "xmlDict \<Rightarrow> u8 list \<Rightarrow> nat \<Rightarrow> bool list \<Rightarrow> (pool_ptr option \<times> xmlDict \<times> bool list) option" where
  "xmlDictAddString dict name namelen mem =
     (let (pool, P, mem) =
        (case find_pool (d_strings dict) namelen 0 0 0 of
           Inl i \<Rightarrow> (Some i, d_strings dict, mem)
         | Inr (sz, tot) \<Rightarrow>
             if d_limit dict > 0 \<and> tot > d_limit dict then (None, d_strings dict, mem)
             else let sz = (if sz = 0 then 1000
                            else if sz < (SIZE_MAX - sizeof_xmlDictStrings) div 4 then sz * 4
                            else SIZE_MAX - sizeof_xmlDictStrings)
               in if sz div 4 < namelen
                  then if namelen < (SIZE_MAX - sizeof_xmlDictStrings) div 4
                    then new_pool (d_strings dict) (4 * namelen) mem
                    else (None, d_strings dict, mem)
                  else new_pool (d_strings dict) sz mem)
      in case pool of
           None \<Rightarrow> Some (None, dict, mem)
         | Some i \<Rightarrow> do {
             bs \<leftarrow> memcpy name namelen;
             (ret, P) \<leftarrow> pool_write P i (bs @ [0]);
             Some (Some ret, dict\<lparr>d_strings := P\<rparr>, mem)
           })"

text \<open>\<open>namelen + plen + 1\<close> and four times it are computed as \<open>unsigned int\<close>.\<close>

definition xmlDictAddQString ::
    "xmlDict \<Rightarrow> u8 list \<Rightarrow> nat \<Rightarrow> u8 list \<Rightarrow> nat \<Rightarrow> bool list \<Rightarrow> (pool_ptr option \<times> xmlDict \<times> bool list) option" where
  "xmlDictAddQString dict prefix plen name namelen mem =
     (let need = (namelen + plen + 1) mod 2 ^ 32;
          (pool, P, mem) =
        (case find_pool (d_strings dict) need 0 0 0 of
           Inl i \<Rightarrow> (Some i, d_strings dict, mem)
         | Inr (sz, tot) \<Rightarrow>
             if d_limit dict > 0 \<and> tot > d_limit dict then (None, d_strings dict, mem)
             else let sz = (if sz = 0 then 1000 else sz * 4 mod 2 ^ 64);
                      sz = (if sz < 4 * need mod 2 ^ 32 then 4 * need mod 2 ^ 32 else sz)
               in new_pool (d_strings dict) sz mem)
      in case pool of
           None \<Rightarrow> Some (None, dict, mem)
         | Some i \<Rightarrow> do {
             ps \<leftarrow> memcpy prefix plen;
             bs \<leftarrow> memcpy name namelen;
             (ret, P) \<leftarrow> pool_write P i (ps @ 0x3A # bs @ [0]);
             Some (Some ret, dict\<lparr>d_strings := P\<rparr>, mem)
           })"

section \<open>Creation, ownership and limits\<close>

text \<open>
  A dictionary pointer is the list of the dictionary and its chain of subdictionaries;
  \<open>NULL\<close> is the empty list.  \<open>seed\<close> is what \<open>xmlRandom\<close> returns.
\<close>

definition xmlDictCreate :: "u32 \<Rightarrow> bool list \<Rightarrow> xmlDict list \<times> bool list" where
  "xmlDictCreate seed mem =
     (let (ok, mem) = malloc mem
      in (if ok then [\<lparr>d_ref_counter = 1, d_table = [], d_size = 0, d_nbElems = 0, d_strings = [], d_seed = seed, d_limit = 0\<rparr>]
          else [], mem))"

definition xmlDictReference :: "xmlDict list \<Rightarrow> int \<times> xmlDict list" where
  "xmlDictReference dict =
     (case dict of [] \<Rightarrow> (-1, []) | d # ds \<Rightarrow> (0, d\<lparr>d_ref_counter := d_ref_counter d + 1\<rparr> # ds))"

definition xmlDictCreateSub :: "xmlDict list \<Rightarrow> u32 \<Rightarrow> bool list \<Rightarrow> xmlDict list \<times> bool list" where
  "xmlDictCreateSub sub seed mem =
     (let (dict, mem) = xmlDictCreate seed mem
      in (case (dict, sub) of
            (d # _, s # _) \<Rightarrow> d\<lparr>d_seed := d_seed s\<rparr> # snd (xmlDictReference sub)
          | _ \<Rightarrow> dict, mem))"

text \<open>The dictionaries of the chain that are not freed; the first is still there if it has other users.\<close>

fun xmlDictFree :: "xmlDict list \<Rightarrow> xmlDict list" where
  "xmlDictFree [] = []"
| "xmlDictFree (d # ds) =
     (let d = d\<lparr>d_ref_counter := d_ref_counter d - 1\<rparr>
      in if d_ref_counter d > 0 then d # ds else xmlDictFree ds)"

text \<open>A string pointer: into a pool of a dictionary of the chain, or elsewhere.\<close>

datatype str_ptr = In_Dict nat pool_ptr | Foreign

fun pool_owns :: "xmlDictStrings list \<Rightarrow> pool_ptr \<Rightarrow> bool" where
  "pool_owns [] p = False"
| "pool_owns (pool # ps) p = (if fst p = length ps \<and> snd p \<le> length (ps_array pool) then True else pool_owns ps p)"

fun dict_owns :: "xmlDict list \<Rightarrow> nat \<Rightarrow> str_ptr \<Rightarrow> int" where
  "dict_owns [] lvl str = 0"
| "dict_owns (d # ds) lvl str =
     (if (case str of In_Dict l p \<Rightarrow> l = lvl \<and> pool_owns (d_strings d) p | Foreign \<Rightarrow> False) then 1
      else dict_owns ds (lvl + 1) str)"

definition xmlDictOwns :: "xmlDict list \<Rightarrow> str_ptr option \<Rightarrow> int" where
  "xmlDictOwns dict str = (if dict = [] \<or> str = None then -1 else dict_owns dict 0 (the str))"

definition xmlDictSize :: "xmlDict list \<Rightarrow> int" where
  "xmlDictSize dict =
     (case dict of
        [] \<Rightarrow> -1
      | [d] \<Rightarrow> sint (d_nbElems d)
      | d # s # _ \<Rightarrow> sint (d_nbElems d + d_nbElems s))"

definition xmlDictSetLimit :: "xmlDict list \<Rightarrow> nat \<Rightarrow> nat \<times> xmlDict list" where
  "xmlDictSetLimit dict limit =
     (case dict of [] \<Rightarrow> (0, []) | d # ds \<Rightarrow> (d_limit d, d\<lparr>d_limit := limit\<rparr> # ds))"

definition xmlDictGetUsage :: "xmlDict list \<Rightarrow> nat" where
  "xmlDictGetUsage dict =
     (case dict of [] \<Rightarrow> 0 | d # _ \<Rightarrow> fold (\<lambda>pool limit. (limit + ps_size pool) mod 2 ^ 64) (d_strings d) 0)"

section \<open>Hash values of names\<close>

fun dict_hash_loop :: "u32 \<times> u32 \<Rightarrow> u8 list \<Rightarrow> nat \<Rightarrow> nat \<Rightarrow> ((u32 \<times> u32) \<times> nat) option" where
  "dict_hash_loop h data 0 i = Some (h, i)"
| "dict_hash_loop h [] (Suc n) i = None"
| "dict_hash_loop h (c # data) (Suc n) i =
     (if c \<noteq> 0 then dict_hash_loop (HASH_UPDATE h (ucast c)) data n (i + 1) else Some (h, i))"

definition xmlDictHashName :: "u32 \<Rightarrow> u8 list \<Rightarrow> nat \<Rightarrow> (u32 \<times> nat) option" where
  "xmlDictHashName seed data maxLen = do {
     (h, len) \<leftarrow> dict_hash_loop (HASH_INIT seed) data maxLen 0;
     Some (HASH_FINISH h OR MAX_HASH_SIZE, len)
   }"

definition xmlDictHashQName :: "u32 \<Rightarrow> u8 list \<Rightarrow> u8 list \<Rightarrow> (u32 \<times> nat \<times> nat) option" where
  "xmlDictHashQName seed prefix name = do {
     (h, plen) \<leftarrow> hash_bytes (HASH_INIT seed) prefix 0;
     let h = HASH_UPDATE h 0x3A;
     (h, len) \<leftarrow> hash_bytes h name 0;
     Some (HASH_FINISH h OR MAX_HASH_SIZE, plen, len)
   }"

definition xmlDictComputeHash :: "xmlDict \<Rightarrow> u8 list \<Rightarrow> u32 option" where
  "xmlDictComputeHash dict str = map_option fst (xmlDictHashName (d_seed dict) str SIZE_MAX)"

definition HASH_ROL31 :: "u32 \<Rightarrow> nat \<Rightarrow> u32" where
  "HASH_ROL31 x n = push_bit n x OR drop_bit (31 - n) (x AND 0x7FFFFFFF)"

definition xmlDictCombineHash :: "u32 \<Rightarrow> u32 \<Rightarrow> u32" where
  "xmlDictCombineHash v1 v2 =
     (let v1 = v1 XOR v2;
          v1 = v1 + HASH_ROL31 v2 5
      in (v1 AND 0xFFFFFFFF) OR 0x80000000)"

section \<open>Looking up names\<close>

text \<open>The bytes a pointer into a pool points to.\<close>

definition name_bytes :: "xmlDictStrings list \<Rightarrow> pool_ptr option \<Rightarrow> u8 list option" where
  "name_bytes P name = do {
     (n, off) \<leftarrow> name;
     if n < length P then Some (drop off (ps_array (rev P ! n))) else None
   }"

definition strncmp :: "u8 list \<Rightarrow> u8 list \<Rightarrow> nat \<Rightarrow> int option" where
  "strncmp s1 s2 n = (if n = 0 then Some 0 else strncmp_loop (\<lambda>c. c) s1 s2 n)"

definition dict_matches :: "xmlDictStrings list \<Rightarrow> xptr \<Rightarrow> u8 list \<Rightarrow> nat \<Rightarrow> xmlDictEntry \<Rightarrow> bool option" where
  "dict_matches P prefix name len entry = do {
     s \<leftarrow> name_bytes P (de_name entry);
     if prefix = None
     then do {
       c \<leftarrow> strncmp s name len;
       if c = 0 then do { b \<leftarrow> rd s len; Some (b = 0) } else Some False
     }
     else do { c \<leftarrow> xmlStrQEqual False prefix (Some name) (Some s); Some (c \<noteq> 0) }
   }"

definition xmlDictFindEntry :: "xmlDict \<Rightarrow> xptr \<Rightarrow> u8 list \<Rightarrow> nat \<Rightarrow> u32 \<Rightarrow> (bool \<times> nat) option" where
  "xmlDictFindEntry dict prefix name len hashValue =
     find_entry de_hashValue (dict_matches (d_strings dict) prefix name len) (d_table dict) (ucast (d_size dict)) hashValue hashValue"

text \<open>\<open>sizeof(xmlDictEntry)\<close> is 16 with 64-bit pointers.\<close>

definition xmlDictGrow :: "xmlDict \<Rightarrow> u32 \<Rightarrow> bool list \<Rightarrow> (int \<times> xmlDict \<times> bool list) option" where
  "xmlDictGrow dict sz mem =
     (if unat sz > SIZE_MAX div 16 then Some (-1, dict, mem)
      else let (ok, mem) = malloc mem
        in if \<not> ok then Some (-1, dict, mem)
           else do {
             T \<leftarrow> grow_table de_hashValue zero_dict_entry (d_table dict) sz;
             Some (0, dict\<lparr>d_table := T, d_size := ucast sz\<rparr>, mem)
           })"

definition dict_make_room :: "xmlDict \<Rightarrow> u32 \<Rightarrow> nat \<Rightarrow> bool list \<Rightarrow> (bool \<times> xmlDict \<times> nat \<times> bool list) option" where
  "dict_make_room dict hashValue entry mem =
     (if ucast (d_nbElems dict + 1) > d_size dict div 8 * 7
      then if d_size dict \<noteq> 0 \<and> d_size dict \<ge> ucast MAX_HASH_SIZE then Some (False, dict, entry, mem)
        else do {
          let newSize = (if d_size dict = 0 then MIN_HASH_SIZE else ucast (d_size dict * 2));
          (ret, dict, mem) \<leftarrow> xmlDictGrow dict newSize mem;
          if ret \<noteq> 0 then Some (False, dict, entry, mem)
          else do {
            (_, entry) \<leftarrow> find_entry de_hashValue (\<lambda>_. Some False) (d_table dict) (ucast (d_size dict)) hashValue hashValue;
            Some (True, dict, entry, mem)
          }
        }
      else Some (True, dict, entry, mem))"

text \<open>
  The result of \<open>xmlDictLookupInternal\<close> is an entry of the dictionary (level 0) or of its
  subdictionary (level 1), or \<open>NULL\<close>.
\<close>

type_synonym dict_entry = "(nat \<times> xmlDictEntry) option"

text \<open>The hash value and the lengths: of the prefix, of the name, and of the whole key.\<close>

definition dict_key :: "u32 \<Rightarrow> xptr \<Rightarrow> u8 list \<Rightarrow> nat \<Rightarrow> (u32 \<times> nat \<times> nat \<times> nat) option" where
  "dict_key seed prefix name maxLen =
     (case prefix of
        None \<Rightarrow> do { (hashValue, len) \<leftarrow> xmlDictHashName seed name maxLen; Some (hashValue, 0, len, len) }
      | Some p \<Rightarrow> do { (hashValue, plen, len) \<leftarrow> xmlDictHashQName seed p name; Some (hashValue, plen, len, plen + 1 + len) })"

text \<open>The search in the subdictionary.\<close>

definition dict_sub_find :: "xmlDict list \<Rightarrow> xptr \<Rightarrow> u8 list \<Rightarrow> nat \<Rightarrow> nat \<Rightarrow> dict_entry option" where
  "dict_sub_find subs prefix name len klen =
     (case subs of
        [] \<Rightarrow> Some None
      | sub # _ \<Rightarrow>
          if d_size sub > 0
          then do {
            (hashValue, _) \<leftarrow> dict_key (d_seed sub) prefix name len;
            (found, entry) \<leftarrow> xmlDictFindEntry sub prefix name klen hashValue;
            if found then do { e \<leftarrow> slot (d_table sub) entry; Some (Some (1, e)) } else Some None
          }
          else Some None)"

definition dict_too_long :: "xptr \<Rightarrow> nat \<Rightarrow> nat \<Rightarrow> bool" where
  "dict_too_long prefix plen len \<longleftrightarrow>
     (if prefix = None then int len > INT_MAX div 2 else int len > INT_MAX div 2 \<or> int plen \<ge> INT_MAX div 2 - int len)"

definition lookup_len :: "int \<Rightarrow> nat" where
  "lookup_len maybeLen = (if maybeLen < 0 then SIZE_MAX else nat maybeLen)"

text \<open>A new entry: from the growth of the table to the end of the function.\<close>

definition dict_add ::
    "xmlDict \<Rightarrow> xptr \<Rightarrow> nat \<Rightarrow> u8 list \<Rightarrow> nat \<Rightarrow> u32 \<Rightarrow> nat \<Rightarrow> bool list \<Rightarrow> (xmlDictEntry option \<times> xmlDict \<times> bool list) option" where
  "dict_add dict prefix plen name len hashValue entry mem = do {
     (ok, dict, entry, mem) \<leftarrow> dict_make_room dict hashValue entry mem;
     if \<not> ok then Some (None, dict, mem)
     else do {
       (ret, dict, mem) \<leftarrow>
         (case prefix of
            None \<Rightarrow> xmlDictAddString dict name len mem
          | Some p \<Rightarrow> xmlDictAddQString dict p plen name len mem);
       if ret = None then Some (None, dict, mem)
       else do {
         T \<leftarrow> shift_right de_hashValue (d_table dict) entry;
         let e = \<lparr>de_hashValue = hashValue, de_name = ret\<rparr>;
         Some (Some e, dict\<lparr>d_table := T[entry := e], d_nbElems := d_nbElems dict + 1\<rparr>, mem)
       }
     }
   }"

definition xmlDictLookupInternal ::
    "xmlDict list \<Rightarrow> xptr \<Rightarrow> xptr \<Rightarrow> int \<Rightarrow> bool \<Rightarrow> bool list \<Rightarrow> (dict_entry \<times> xmlDict list \<times> bool list) option" where
  "xmlDictLookupInternal dicts prefix name maybeLen upd mem =
     (case (dicts, name) of
        (dict # subs, Some name) \<Rightarrow> do {
          let maxLen = lookup_len maybeLen;
          (hashValue, plen, len, klen) \<leftarrow> dict_key (d_seed dict) prefix name maxLen;
          if dict_too_long prefix plen len then Some (None, dicts, mem)
          else if d_limit dict > 0 \<and> klen \<ge> d_limit dict then Some (None, dicts, mem)
          else do {
            (found, entry) \<leftarrow> (if d_size dict > 0 then xmlDictFindEntry dict prefix name klen hashValue else Some (False, 0));
            if found then do { e \<leftarrow> slot (d_table dict) entry; Some (Some (0, e), dicts, mem) }
            else do {
              sub \<leftarrow> dict_sub_find subs prefix name len klen;
              if sub \<noteq> None then Some (sub, dicts, mem)
              else if \<not> upd then Some (None, dicts, mem)
              else do {
                (e, dict, mem) \<leftarrow> dict_add dict prefix plen name len hashValue entry mem;
                Some (map_option (Pair 0) e, dict # subs, mem)
              }
            }
          }
        }
      | _ \<Rightarrow> Some (None, dicts, mem))"

definition entry_name :: "dict_entry \<Rightarrow> str_ptr option" where
  "entry_name entry = do { (lvl, e) \<leftarrow> entry; p \<leftarrow> de_name e; Some (In_Dict lvl p) }"

definition xmlDictLookup ::
    "xmlDict list \<Rightarrow> xptr \<Rightarrow> int \<Rightarrow> bool list \<Rightarrow> (str_ptr option \<times> xmlDict list \<times> bool list) option" where
  "xmlDictLookup dict name len mem = do {
     (entry, dict, mem) \<leftarrow> xmlDictLookupInternal dict None name len True mem;
     Some (entry_name entry, dict, mem)
   }"

definition xmlDictLookupHashed ::
    "xmlDict list \<Rightarrow> xptr \<Rightarrow> int \<Rightarrow> bool list \<Rightarrow> ((str_ptr option \<times> u32) \<times> xmlDict list \<times> bool list) option" where
  "xmlDictLookupHashed dict name len mem = do {
     (entry, dict, mem) \<leftarrow> xmlDictLookupInternal dict None name len True mem;
     Some (case entry of None \<Rightarrow> (None, 0) | Some (_, e) \<Rightarrow> (entry_name entry, de_hashValue e), dict, mem)
   }"

definition xmlDictExists :: "xmlDict list \<Rightarrow> xptr \<Rightarrow> int \<Rightarrow> str_ptr option option" where
  "xmlDictExists dict name len = do {
     (entry, _) \<leftarrow> xmlDictLookupInternal dict None name len False [];
     Some (entry_name entry)
   }"

definition xmlDictQLookup ::
    "xmlDict list \<Rightarrow> xptr \<Rightarrow> xptr \<Rightarrow> bool list \<Rightarrow> (str_ptr option \<times> xmlDict list \<times> bool list) option" where
  "xmlDictQLookup dict prefix name mem = do {
     (entry, dict, mem) \<leftarrow> xmlDictLookupInternal dict prefix name (-1) True mem;
     Some (entry_name entry, dict, mem)
   }"

section \<open>The random generator\<close>

definition xoroshiro64ss :: "u32 \<times> u32 \<Rightarrow> u32 \<times> u32 \<times> u32" where
  "xoroshiro64ss s =
     (let (s0, s1) = s;
          result = HASH_ROL (s0 * 0x9E3779BB) 5 * 5;
          s1 = s1 XOR s0
      in (result AND 0xFFFFFFFF, HASH_ROL s0 26 XOR s1 XOR push_bit 9 s1, HASH_ROL s1 13))"

definition xmlGlobalRandom :: "u32 \<times> u32 \<Rightarrow> u32 \<times> u32 \<times> u32" where
  "xmlGlobalRandom globalRngState = xoroshiro64ss globalRngState"


section \<open>Pools as memory\<close>

definition name_good :: "xmlDictStrings list \<Rightarrow> pool_ptr option \<Rightarrow> bool" where
  "name_good P name \<longleftrightarrow> (\<exists>s. name_bytes P name = Some s \<and> terminated s)"

definition name_text :: "xmlDictStrings list \<Rightarrow> pool_ptr option \<Rightarrow> u8 list" where
  "name_text P name = ctext (the (name_bytes P name))"

definition pools_ok :: "xmlDictStrings list \<Rightarrow> bool" where
  "pools_ok P \<longleftrightarrow> (\<forall>pool\<in>set P. length (ps_array pool) \<le> ps_size pool)"

text \<open>Later pools keep the strings of earlier ones at their addresses.\<close>

definition extends :: "xmlDictStrings list \<Rightarrow> xmlDictStrings list \<Rightarrow> bool" where
  "extends P Q \<longleftrightarrow> (\<forall>name. name_good P name \<longrightarrow> name_good Q name \<and> name_text Q name = name_text P name)"

lemma extends_refl [simp]: "extends P P"
  by (simp add: extends_def)

lemma extends_trans: "extends P Q \<Longrightarrow> extends Q R \<Longrightarrow> extends P R"
  by (simp add: extends_def)

lemma ctext_append: "terminated s \<Longrightarrow> ctext (s @ t) = ctext s"
  by (induction s) auto

lemma find_pool_Inl: "find_pool P need sz tot i = Inl j \<Longrightarrow> i \<le> j \<and> j - i < length P \<and> need < ps_size (P ! (j - i)) - length (ps_array (P ! (j - i)))"
proof (induction P need sz tot i rule: find_pool.induct)
  case (2 pool ps need sz tot i)
  show ?case
  proof (cases "ps_size pool - length (ps_array pool) > need")
    case True
    then show ?thesis using 2(2) by simp
  next
    case False
    then have "i + 1 \<le> j" "j - (i + 1) < length ps" "need < ps_size (ps ! (j - (i + 1))) - length (ps_array (ps ! (j - (i + 1))))"
      using 2 by simp_all
    moreover from this(1) have "j - i = Suc (j - (i + 1))" by linarith
    ultimately show ?thesis by simp
  qed
qed simp

lemma pool_write_spec:
  assumes ok: "pools_ok P" and i: "i < length P" "length (ps_array (P ! i)) + length bs \<le> ps_size (P ! i)" and bs: "terminated bs"
  shows "\<exists>p Q. pool_write P i bs = Some (p, Q) \<and> pools_ok Q \<and> extends P Q \<and> name_bytes Q (Some p) = Some bs \<and> \<not> name_good P (Some p)"
proof -
  let ?pool = "P ! i"
  let ?Q = "P[i := ?pool\<lparr>ps_array := ps_array ?pool @ bs, ps_nbStrings := ps_nbStrings ?pool + 1\<rparr>]"
  let ?n = "length P - 1 - i"
  have n: "?n < length P" "rev P ! ?n = ?pool" using i(1) by (simp_all add: rev_nth)
  have Q: "rev ?Q ! k = (if k = ?n then ?pool\<lparr>ps_array := ps_array ?pool @ bs, ps_nbStrings := ps_nbStrings ?pool + 1\<rparr> else rev P ! k)"
    if "k < length P" for k
    using that i(1) by (auto simp: rev_nth nth_list_update)
  have "extends P ?Q"
    unfolding extends_def
  proof (intro allI impI)
    fix name assume "name_good P name"
    then obtain k off where name: "name = Some (k, off)" "k < length P" "terminated (drop off (ps_array (rev P ! k)))"
      by (cases name) (auto simp: name_good_def name_bytes_def split: if_splits)
    have bytes: "name_bytes ?Q name = Some (drop off (ps_array (rev P ! k)) @ (if k = ?n then drop (off - length (ps_array ?pool)) bs else []))"
      using name(1,2) Q [OF name(2)] n(2) by (auto simp: name_bytes_def)
    have old: "name_bytes P name = Some (drop off (ps_array (rev P ! k)))" using name(1,2) by (simp add: name_bytes_def)
    show "name_good ?Q name \<and> name_text ?Q name = name_text P name"
      using bytes old name(3) by (simp add: name_good_def name_text_def ctext_append)
  qed
  moreover have "name_bytes ?Q (Some (?n, length (ps_array ?pool))) = Some bs" using Q [OF n(1)] n(1) by (simp add: name_bytes_def)
  moreover have "\<not> name_good P (Some (?n, length (ps_array ?pool)))" using n by (simp add: name_good_def name_bytes_def)
  moreover have "pools_ok ?Q"
  proof -
    have "x \<in> set ?Q \<Longrightarrow> x = ?pool\<lparr>ps_array := ps_array ?pool @ bs, ps_nbStrings := ps_nbStrings ?pool + 1\<rparr> \<or> x \<in> set P" for x
      using set_update_subset_insert by fastforce
    moreover have "?pool \<in> set P" using i(1) by simp
    ultimately show ?thesis using ok i(2) unfolding pools_ok_def by (metis (no_types, lifting) length_append xmlDictStrings.select_convs(1,3) xmlDictStrings.surjective xmlDictStrings.update_convs(2,3))
  qed
  moreover have "pool_write P i bs = Some ((?n, length (ps_array ?pool)), ?Q)" using i by (simp add: pool_write_def slot_def)
  ultimately show ?thesis by blast
qed

lemma new_pool_spec:
  assumes "pools_ok P"
  shows "\<exists>pool Q mem'. new_pool P sz mem = (pool, Q, mem') \<and> set mem' \<subseteq> set mem \<and> pools_ok Q \<and> extends P Q \<and>
    (pool = None \<longrightarrow> \<not> mem_ok mem \<and> Q = P) \<and> (\<forall>i. pool = Some i \<longrightarrow> i < length Q \<and> ps_size (Q ! i) = sz \<and> ps_array (Q ! i) = [])"
proof -
  have "extends P (\<lparr>ps_size = sz, ps_nbStrings = 0, ps_array = []\<rparr> # P)"
    unfolding extends_def by (auto simp: name_good_def name_text_def name_bytes_def nth_append bind_eq_Some_conv split: if_splits)
  moreover obtain ok mem' where "malloc mem = (ok, mem')" "set mem' \<subseteq> set mem" "\<not> ok \<longrightarrow> False \<in> set mem" by (rule malloc_cases)
  ultimately show ?thesis using assms by (cases ok) (auto simp: new_pool_def pools_ok_def mem_ok_def)
qed

text \<open>What adding a string promises.\<close>

definition string_added :: "xmlDict \<Rightarrow> u8 list \<Rightarrow> bool list \<Rightarrow> (pool_ptr option \<times> xmlDict \<times> bool list) option \<Rightarrow> bool" where
  "string_added d t mem r \<longleftrightarrow> (\<exists>ret P mem'. r = Some (ret, d\<lparr>d_strings := P\<rparr>, mem') \<and> set mem' \<subseteq> set mem \<and> pools_ok P \<and>
     extends (d_strings d) P \<and> (ret = None \<longrightarrow> \<not> mem_ok mem \<or> d_limit d > 0) \<and>
     (\<forall>p. ret = Some p \<longrightarrow> name_good P (Some p) \<and> name_text P (Some p) = t \<and> \<not> name_good (d_strings d) (Some p)))"

lemma string_addedI:
  assumes pools: "pools_ok P" "extends (d_strings d) P" and mem: "set mem' \<subseteq> set mem"
    and none: "pool = None \<Longrightarrow> \<not> mem_ok mem \<or> d_limit d > 0"
    and room: "\<And>i. pool = Some i \<Longrightarrow> i < length P \<and> length (ps_array (P ! i)) + length t + 1 \<le> ps_size (P ! i)" and t: "cstring t"
    and r: "r = (case pool of None \<Rightarrow> Some (None, d\<lparr>d_strings := P\<rparr>, mem')
       | Some i \<Rightarrow> do { (ret, P) \<leftarrow> pool_write P i (t @ [0]); Some (Some ret, d\<lparr>d_strings := P\<rparr>, mem') })"
  shows "string_added d t mem r"
proof (cases pool)
  case None
  then show ?thesis using assms by (auto simp: string_added_def)
next
  case (Some i)
  have "length (ps_array (P ! i)) + length (t @ [0]) \<le> ps_size (P ! i)" "i < length P" using room [OF Some] by simp_all
  from pool_write_spec [OF pools(1) this(2,1)]
  obtain p Q where Q: "pool_write P i (t @ [0]) = Some (p, Q)" "pools_ok Q" "extends P Q" "name_bytes Q (Some p) = Some (t @ [0])" "\<not> name_good P (Some p)"
    by auto
  have "r = Some (Some p, d\<lparr>d_strings := Q\<rparr>, mem')" using r Some Q(1) by simp
  moreover have "extends (d_strings d) Q" using pools(2) Q(3) by (rule extends_trans)
  moreover have "name_good Q (Some p) \<and> name_text Q (Some p) = t" using Q(4) ctext_copy_of [OF t] by (simp add: name_good_def name_text_def copy_of_def)
  moreover have "\<not> name_good (d_strings d) (Some p)" using Q(5) pools(2) by (auto simp: extends_def)
  ultimately show ?thesis using mem Q(2) unfolding string_added_def by blast
qed

lemma xmlDictAddString_spec:
  assumes ok: "pools_ok (d_strings d)" and t: "name = t @ r" "cstring t" "length t \<le> 1073741823"
  shows "string_added d t mem (xmlDictAddString d name (length t) mem)"
proof -
  let ?P = "d_strings d"
  have copy: "memcpy name (length t) = Some t" using t(1) by (simp add: memcpy_def)
  show ?thesis
  proof (cases "find_pool ?P (length t) 0 0 0")
    case (Inl i)
    note f = find_pool_Inl [OF Inl]
    have "pools_ok ?P \<and> i < length ?P" using ok f by simp
    then have "length (ps_array (?P ! i)) \<le> ps_size (?P ! i)" by (simp add: pools_ok_def)
    then show ?thesis
      by (intro string_addedI [OF ok, of d mem mem "Some i"]) (use f Inl t(2) copy in \<open>auto simp: xmlDictAddString_def\<close>)
  next
    case (Inr st)
    obtain sz tot where st: "st = (sz, tot)" by (cases st)
    show ?thesis
    proof (cases "d_limit d > 0 \<and> tot > d_limit d")
      case True
      then show ?thesis
        by (intro string_addedI [OF ok, of d mem mem None]) (use Inr st t(2) in \<open>auto simp: xmlDictAddString_def\<close>)
    next
      case False
      define s1 where "s1 = (if sz = 0 then 1000 else if sz < (SIZE_MAX - sizeof_xmlDictStrings) div 4 then sz * 4
          else SIZE_MAX - sizeof_xmlDictStrings)"
      define s2 where "s2 = (if s1 div 4 < length t then 4 * length t else s1)"
      obtain pool Q m' where n: "new_pool ?P s2 mem = (pool, Q, m')" "set m' \<subseteq> set mem" "pools_ok Q" "extends ?P Q"
        "pool = None \<longrightarrow> \<not> mem_ok mem \<and> Q = ?P" "\<forall>i. pool = Some i \<longrightarrow> i < length Q \<and> ps_size (Q ! i) = s2 \<and> ps_array (Q ! i) = []"
        using new_pool_spec [OF ok, of s2 mem] by blast
      have "length t + 1 \<le> s2" by (auto simp: s2_def s1_def SIZE_MAX_def sizeof_xmlDictStrings_def split: if_splits)
      then show ?thesis
        by (intro string_addedI [OF n(3,4,2), of pool])
          (use n Inr st False t copy s1_def s2_def in \<open>auto simp: xmlDictAddString_def SIZE_MAX_def sizeof_xmlDictStrings_def Let_def split: option.splits\<close>)
    qed
  qed
qed


lemma xmlDictAddQString_spec:
  assumes ok: "pools_ok (d_strings d)" and t: "prefix = a @ r1" "name = b @ r2" "cstring a" "cstring b" "length a + 1 + length b \<le> 1073741823"
  shows "string_added d (a @ 0x3A # b) mem (xmlDictAddQString d prefix (length a) name (length b) mem)"
proof -
  let ?P = "d_strings d" and ?t = "a @ 0x3A # b" and ?need = "length b + length a + 1"
  have copy: "memcpy prefix (length a) = Some a" "memcpy name (length b) = Some b" using t(1,2) by (simp_all add: memcpy_def)
  have need: "?need mod 2 ^ 32 = ?need" "4 * ?need mod 2 ^ 32 = 4 * ?need" "length ?t = ?need" using t(5) by simp_all
  have ct: "cstring ?t" using t(3,4) by (auto simp: cstring_def)
  have def: "xmlDictAddQString d prefix (length a) name (length b) mem =
      (let (pool, P, mem) = (case find_pool ?P ?need 0 0 0 of Inl i \<Rightarrow> (Some i, ?P, mem)
         | Inr (sz, tot) \<Rightarrow> if d_limit d > 0 \<and> tot > d_limit d then (None, ?P, mem)
             else let sz = (if sz = 0 then 1000 else sz * 4 mod 2 ^ 64); sz = (if sz < 4 * ?need then 4 * ?need else sz) in new_pool ?P sz mem)
       in case pool of None \<Rightarrow> Some (None, d, mem)
         | Some i \<Rightarrow> do { (ret, P) \<leftarrow> pool_write P i (?t @ [0]); Some (Some ret, d\<lparr>d_strings := P\<rparr>, mem) })"
    unfolding xmlDictAddQString_def need Let_def copy by (simp cong: option.case_cong)
  show ?thesis
  proof (cases "find_pool ?P ?need 0 0 0")
    case (Inl i)
    note f = find_pool_Inl [OF Inl]
    then have "length (ps_array (?P ! i)) \<le> ps_size (?P ! i)" using ok by (simp add: pools_ok_def)
    then show ?thesis
      by (intro string_addedI [OF ok, of d mem mem "Some i"]) (use f Inl ct need in \<open>auto simp: def\<close>)
  next
    case (Inr st)
    obtain sz tot where st: "st = (sz, tot)" by (cases st)
    show ?thesis
    proof (cases "d_limit d > 0 \<and> tot > d_limit d")
      case True
      then show ?thesis
        by (intro string_addedI [OF ok, of d mem mem None]) (use Inr st ct in \<open>auto simp: def\<close>)
    next
      case False
      define s1 where "s1 = (if sz = 0 then 1000 else sz * 4 mod 2 ^ 64)"
      define s2 where "s2 = (if s1 < 4 * ?need then 4 * ?need else s1)"
      obtain pool Q m' where n: "new_pool ?P s2 mem = (pool, Q, m')" "set m' \<subseteq> set mem" "pools_ok Q" "extends ?P Q"
        "pool = None \<longrightarrow> \<not> mem_ok mem \<and> Q = ?P" "\<forall>i. pool = Some i \<longrightarrow> i < length Q \<and> ps_size (Q ! i) = s2 \<and> ps_array (Q ! i) = []"
        using new_pool_spec [OF ok, of s2 mem] by blast
      have "?need + 1 \<le> s2" by (auto simp: s2_def)
      moreover have "xmlDictAddQString d prefix (length a) name (length b) mem = (case pool of None \<Rightarrow> Some (None, d, m')
         | Some i \<Rightarrow> do { (ret, P) \<leftarrow> pool_write Q i (?t @ [0]); Some (Some ret, d\<lparr>d_strings := P\<rparr>, m') })"
      proof -
        have e: "new_pool ?P (if (if sz = 0 then 1000 else sz * 4 mod 2 ^ 64) < 4 * ?need then 4 * ?need
            else if sz = 0 then 1000 else sz * 4 mod 2 ^ 64) mem = (pool, Q, m')" using n(1) unfolding s1_def s2_def .
        show ?thesis unfolding def Inr st sum.case prod.case if_not_P [OF False] Let_def e ..
      qed
      ultimately show ?thesis
        by (intro string_addedI [OF n(3,4,2), of pool]) (use n ct need(3) in \<open>auto split: option.splits\<close>)
    qed
  qed
qed

section \<open>Names as texts\<close>

definition dict_hash :: "u32 \<Rightarrow> u8 list \<Rightarrow> u32" where
  "dict_hash seed t = HASH_FINISH (hash_text (HASH_INIT seed) t) OR MAX_HASH_SIZE"

text \<open>The text of a call, and that its arguments can be read.\<close>

definition dict_text :: "xptr \<Rightarrow> u8 list \<Rightarrow> nat \<Rightarrow> u8 list" where
  "dict_text prefix name maxLen = (case prefix of None \<Rightarrow> ctext (take maxLen name) | Some p \<Rightarrow> ctext p @ 0x3A # ctext name)"

definition dict_args :: "xptr \<Rightarrow> u8 list \<Rightarrow> nat \<Rightarrow> bool" where
  "dict_args prefix name maxLen \<longleftrightarrow>
     (case prefix of
        None \<Rightarrow> terminated name \<or> maxLen \<le> length name
      | Some p \<Rightarrow> terminated p \<and> ctext p \<noteq> [] \<and> terminated name)"

lemma dict_hash_loop_text:
  "terminated data \<or> n \<le> length data \<Longrightarrow>
   dict_hash_loop h data n i = Some (hash_text h (ctext (take n data)), i + length (ctext (take n data)))"
proof (induction h data n i rule: dict_hash_loop.induct)
  case (3 h c data n i)
  then show ?case by (cases "c = 0") (simp_all add: hash_text_def)
qed (simp_all add: hash_text_def)

lemma dict_key_text:
  assumes "dict_args prefix name maxLen"
  defines "t \<equiv> dict_text prefix name maxLen"
  shows "\<exists>plen len. dict_key seed prefix name maxLen = Some (dict_hash seed t, plen, len, length t) \<and>
    (case prefix of None \<Rightarrow> len = length t | Some p \<Rightarrow> plen = length (ctext p) \<and> len = length (ctext name))"
proof (cases prefix)
  case None
  then show ?thesis
    using assms(1) dict_hash_loop_text [of name maxLen "HASH_INIT seed" 0]
    by (simp add: dict_key_def t_def dict_text_def dict_args_def xmlDictHashName_def dict_hash_def)
next
  case (Some p)
  then show ?thesis
    using assms(1) by (simp add: dict_key_def t_def dict_text_def dict_args_def xmlDictHashQName_def dict_hash_def hash_bytes_text hash_text_def Let_def)
qed

lemma dict_text_cstring: "cstring (dict_text prefix name maxLen)"
  using ctext_texts [of name] ctext_texts [of "take maxLen name"] by (auto simp: dict_text_def cstring_def ctext_texts [unfolded cstring_def] split: option.splits)

lemma ctext_take_prefix: "\<exists>r. name = ctext (take n name) @ r"
proof (induction name arbitrary: n)
  case (Cons c name)
  then show ?case by (cases n) auto
qed simp

lemma strncmp_prefix:
  "cstring t \<Longrightarrow> t \<noteq> [] \<Longrightarrow> terminated s \<Longrightarrow>
   \<exists>c. strncmp_loop (\<lambda>c. c) s (t @ r) (length t) = Some c \<and> (c = 0 \<longleftrightarrow> take (length t) s = t)"
proof (induction t arbitrary: s)
  case (Cons b t)
  obtain a s' where s: "s = a # s'" using Cons.prems(3) by (cases s) auto
  have b: "b \<noteq> 0" "cstring t" using Cons.prems(1) by (auto simp: cstring_def)
  have eq: "uint a - uint b = 0 \<longleftrightarrow> a = b" by (simp add: word_uint_eq_iff)
  show ?case
  proof (cases "a = b \<and> t \<noteq> []")
    case True
    then have "terminated s'" using Cons.prems(3) s b(1) by simp
    then show ?thesis using Cons.IH [OF b(2), of s'] True s b(1) by (simp add: Let_def)
  next
    case False
    then show ?thesis using s eq by (auto simp: Let_def)
  qed
qed simp

lemma ctext_eq_iff: "terminated s \<Longrightarrow> cstring t \<Longrightarrow> ctext s = t \<longleftrightarrow> take (length t) s = t \<and> rd s (length t) = Some 0"
proof (induction s arbitrary: t)
  case (Cons c s)
  show ?case
  proof (cases t)
    case Nil
    then show ?thesis by (auto simp: rd_def)
  next
    case t: (Cons x t')
    have "rd (c # s) (length t) = rd s (length t')" by (simp add: rd_def t)
    then show ?thesis using Cons.IH [of t'] Cons.prems t by (auto simp: cstring_def)
  qed
qed simp

lemma dict_matches_text:
  assumes good: "name_good P (de_name e)" and args: "dict_args prefix name maxLen"
  defines "t \<equiv> dict_text prefix name maxLen"
  shows "dict_matches P prefix name (length t) e = Some (name_text P (de_name e) = t)"
proof -
  obtain s where s: "name_bytes P (de_name e) = Some s" "terminated s" using good by (auto simp: name_good_def)
  have ct: "cstring t" unfolding t_def by (rule dict_text_cstring)
  show ?thesis
  proof (cases prefix)
    case None
    obtain r where r: "name = t @ r" using ctext_take_prefix [of name maxLen] None by (auto simp: t_def dict_text_def)
    obtain c where c: "strncmp s name (length t) = Some c" "c = 0 \<longleftrightarrow> take (length t) s = t"
      using strncmp_prefix [OF ct _ s(2), of r] r by (cases "t = []") (auto simp: strncmp_def)
    have "length t < length s" if "take (length t) s = t"
    proof (rule ccontr)
      assume "\<not> ?thesis"
      then have "s = t" using that by simp
      then show False using s(2) ct by (simp add: terminated_def cstring_def)
    qed
    then have "take (length t) s = t \<Longrightarrow> \<exists>b. rd s (length t) = Some b" by (simp add: rd_def)
    then show ?thesis using s c None ctext_eq_iff [OF s(2) ct] by (auto simp: dict_matches_def name_text_def)
  next
    case (Some p)
    then have "terminated p" "ctext p \<noteq> []" "terminated name" using args by (auto simp: dict_args_def)
    then obtain r1 r2 r3 where r: "p = ctext p @ 0 # r1" "name = ctext name @ 0 # r2" "s = ctext s @ 0 # r3" using terminated_ctext s(2) by metis
    have "xmlStrQEqual False (Some p) (Some name) (Some s) = Some (if ctext s = ctext p @ 0x3A # ctext name then 1 else 0)"
      using xml_qequal [of "ctext p" "ctext name" "ctext s" False r1 r2 r3] ctext_texts \<open>ctext p \<noteq> []\<close> r by metis
    then show ?thesis using Some s by (simp add: dict_matches_def name_text_def t_def dict_text_def)
  qed
qed


interpretation dict_entries: keyed_table de_hashValue zero_dict_entry "\<lambda>e. name_text P (de_name e)" "dict_hash seed" "\<lambda>e. name_good P (de_name e)"
  for P seed
  by unfold_locales (simp_all add: zero_dict_entry_def dict_hash_def top_bit_nonzero)

section \<open>A dictionary as a set of interned strings\<close>

abbreviation dict_inv :: "xmlDict \<Rightarrow> u32 \<Rightarrow> xmlDictEntry list \<Rightarrow> nat \<Rightarrow> bool" where
  "dict_inv d \<equiv> table_inv de_hashValue (\<lambda>e. name_text (d_strings d) (de_name e)) (dict_hash (d_seed d)) (\<lambda>e. name_good (d_strings d) (de_name e))"

definition dict_ok :: "xmlDict \<Rightarrow> bool" where
  "dict_ok d \<longleftrightarrow> pools_ok (d_strings d) \<and>
     (if d_size d = 0 then d_table d = [] \<and> d_nbElems d = 0
      else d_size d = of_nat (length (d_table d)) \<and> dict_inv d (ucast (d_size d)) (d_table d) (unat (d_nbElems d)) \<and>
        8 \<le> length (d_table d) \<and> unat (d_nbElems d) \<le> length (d_table d) div 8 * 7)"

text \<open>The interned strings with their addresses.\<close>

definition dict_pairs :: "xmlDict \<Rightarrow> (u8 list \<times> pool_ptr) list" where
  "dict_pairs d = map (\<lambda>e. (name_text (d_strings d) (de_name e), the (de_name e))) (filter (\<lambda>e. de_hashValue e \<noteq> 0) (d_table d))"

definition dict_map :: "xmlDict \<Rightarrow> u8 list \<rightharpoonup> pool_ptr" where
  "dict_map d = map_of (dict_pairs d)"

lemma mset_dict_pairs:
  "mset (dict_pairs d) = image_mset (\<lambda>e. (name_text (d_strings d) (de_name e), the (de_name e))) (entries de_hashValue (d_table d))"
  by (simp add: dict_pairs_def entries_def mset_filter)

lemma dict_okD:
  assumes "dict_ok d" "d_size d \<noteq> 0"
  shows "dict_inv d (ucast (d_size d)) (d_table d) (unat (d_nbElems d))" "8 \<le> length (d_table d)"
    "unat (d_nbElems d) \<le> length (d_table d) div 8 * 7" "table_size (ucast (d_size d)) (length (d_table d))"
    "unat (d_size d) = length (d_table d)"
proof -
  show inv: "dict_inv d (ucast (d_size d)) (d_table d) (unat (d_nbElems d))" "8 \<le> length (d_table d)"
    "unat (d_nbElems d) \<le> length (d_table d) div 8 * 7" using assms(1) unfolding dict_ok_def if_not_P [OF assms(2)] by blast+
  show ts: "table_size (ucast (d_size d)) (length (d_table d))" using inv(1) by (simp add: table_inv_def)
  have "d_size d = of_nat (length (d_table d))" using assms by (simp add: dict_ok_def)
  moreover have "length (d_table d) < 2 ^ 64" using table_size_pos [OF ts] by simp
  ultimately show "unat (d_size d) = length (d_table d)" by (simp add: unsigned_of_nat take_bit_nat_eq_self)
qed

lemma dict_entry_name:
  assumes "dict_ok d" "e \<in># entries de_hashValue (d_table d)"
  shows "name_good (d_strings d) (de_name e)" "\<exists>p. de_name e = Some p" "de_hashValue e = dict_hash (d_seed d) (name_text (d_strings d) (de_name e))"
proof -
  have "d_size d \<noteq> 0" using assms by (auto simp: dict_ok_def entries_def)
  note inv = dict_okD(1) [OF assms(1) this]
  then show g: "name_good (d_strings d) (de_name e)" and "de_hashValue e = dict_hash (d_seed d) (name_text (d_strings d) (de_name e))"
    using assms(2) by (auto simp: table_inv_def)
  show "\<exists>p. de_name e = Some p" using g by (cases "de_name e") (auto simp: name_good_def name_bytes_def)
qed

lemma dict_map_dom: "dict_map d t \<noteq> None \<longleftrightarrow> t \<in># image_mset (\<lambda>e. name_text (d_strings d) (de_name e)) (entries de_hashValue (d_table d))"
proof -
  have "dict_map d t \<noteq> None \<longleftrightarrow> t \<in> fst ` set (dict_pairs d)" by (simp add: dict_map_def map_of_eq_None_iff)
  also have "set (dict_pairs d) = set_mset (mset (dict_pairs d))" by simp
  finally show ?thesis unfolding mset_dict_pairs by (simp add: image_image)
qed

lemma distinct_dict_pairs: "dict_ok d \<Longrightarrow> distinct (map fst (dict_pairs d))"
proof -
  assume ok: "dict_ok d"
  let ?key = "\<lambda>e. name_text (d_strings d) (de_name e)"
  have "mset (map fst (dict_pairs d)) = image_mset ?key (entries de_hashValue (d_table d))"
    by (simp add: mset_dict_pairs image_mset.compositionality comp_def)
  moreover have "count (image_mset ?key (entries de_hashValue (d_table d))) k \<le> 1" for k
  proof (cases "d_size d = 0")
    case True
    then show ?thesis using ok by (simp add: dict_ok_def entries_def)
  next
    case False
    then show ?thesis using dict_okD(1) [OF ok False] unfolding table_inv_def by blast
  qed
  ultimately have "count (mset (map fst (dict_pairs d))) k \<le> 1" for k by (simp only:)
  then show ?thesis unfolding distinct_count_atmost_1 by (metis count_mset_0_iff le_less less_one)
qed

lemma dict_map_entry:
  assumes "dict_ok d" "e \<in># entries de_hashValue (d_table d)"
  shows "dict_map d (name_text (d_strings d) (de_name e)) = de_name e"
proof -
  obtain p where p: "de_name e = Some p" using dict_entry_name(2) [OF assms] by blast
  have "(name_text (d_strings d) (de_name e), the (de_name e)) \<in># mset (dict_pairs d)" unfolding mset_dict_pairs using assms(2) by force
  then have "dict_map d (name_text (d_strings d) (de_name e)) = Some (the (de_name e))"
    unfolding dict_map_def using distinct_dict_pairs [OF assms(1)] by (intro map_of_is_SomeI) simp_all
  then show ?thesis using p by simp
qed

lemma dict_map_Some:
  "dict_ok d \<Longrightarrow> dict_map d t = Some p \<Longrightarrow> name_good (d_strings d) (Some p) \<and> name_text (d_strings d) (Some p) = t"
proof -
  assume ok: "dict_ok d" and p: "dict_map d t = Some p"
  obtain e where e: "e \<in># entries de_hashValue (d_table d)" "name_text (d_strings d) (de_name e) = t" "the (de_name e) = p"
    using map_of_SomeD [OF p [unfolded dict_map_def]] by (auto simp: dict_pairs_def entries_def)
  show ?thesis using dict_entry_name [OF ok e(1)] e(2,3) by auto
qed

lemma dict_map_same:
  assumes "dict_ok d" "entries de_hashValue (d_table d') = entries de_hashValue (d_table d)" "d_strings d' = d_strings d"
  shows "dict_map d' = dict_map d"
  unfolding dict_map_def by (rule map_of_mset_eq) (use assms distinct_dict_pairs in \<open>simp_all add: mset_dict_pairs\<close>)

lemma dict_find_spec:
  assumes ok: "dict_ok d" "d_size d \<noteq> 0" and args: "dict_args prefix name maxLen"
  defines "t \<equiv> dict_text prefix name maxLen"
  obtains found i where "xmlDictFindEntry d prefix name (length t) (dict_hash (d_seed d) t) = Some (found, i)"
    "i < length (d_table d)" "found \<longleftrightarrow> dict_map d t \<noteq> None"
    "found \<Longrightarrow> d_table d ! i \<in># entries de_hashValue (d_table d) \<and> name_text (d_strings d) (de_name (d_table d ! i)) = t"
    "\<not> found \<Longrightarrow> slot_for de_hashValue (d_table d) (dict_hash (d_seed d) t) i"
proof -
  note inv = dict_okD [OF ok]
  have m: "name_good (d_strings d) (de_name e) \<Longrightarrow> de_hashValue e = dict_hash (d_seed d) t \<Longrightarrow>
      dict_matches (d_strings d) prefix name (length t) e = Some (name_text (d_strings d) (de_name e) = t)" for e
    unfolding t_def by (rule dict_matches_text [OF _ args])
  show ?thesis
  proof (rule dict_entries.find [OF inv(1) m refl])
    fix found i
    assume f: "find_entry de_hashValue (dict_matches (d_strings d) prefix name (length t)) (d_table d) (ucast (d_size d)) (dict_hash (d_seed d) t)
        (dict_hash (d_seed d) t) = Some (found, i)"
      and i: "i < length (d_table d)"
      and iff: "found \<longleftrightarrow> t \<in># image_mset (\<lambda>e. name_text (d_strings d) (de_name e)) (entries de_hashValue (d_table d))"
      and hit: "found \<Longrightarrow> d_table d ! i \<in># entries de_hashValue (d_table d) \<and> name_text (d_strings d) (de_name (d_table d ! i)) = t"
      and miss: "\<not> found \<Longrightarrow> slot_for de_hashValue (d_table d) (dict_hash (d_seed d) t) i"
    have "found \<longleftrightarrow> dict_map d t \<noteq> None" using iff dict_map_dom [of d t] by simp
    moreover have "xmlDictFindEntry d prefix name (length t) (dict_hash (d_seed d) t) = Some (found, i)" using f by (simp add: xmlDictFindEntry_def)
    ultimately show ?thesis using that i hit miss by blast
  qed
qed

section \<open>Growing a dictionary\<close>

lemma ucast_ucast_id_u32: "ucast (ucast (w :: u32) :: u64) = w"
  by (rule bit_word_eqI) (simp add: bit_simps)

lemma xmlDictGrow_spec:
  assumes ok: "dict_ok d" and sz: "d_size d = 0 \<and> newSize = MIN_HASH_SIZE \<or>
      d_size d \<noteq> 0 \<and> (ucast (d_size d) :: u32) < MAX_HASH_SIZE \<and> newSize = ucast (d_size d) * 2"
  shows "\<exists>ret d' mem'. xmlDictGrow d newSize mem = Some (ret, d', mem') \<and> set mem' \<subseteq> set mem \<and>
    (ret \<noteq> 0 \<longrightarrow> d' = d \<and> \<not> mem_ok mem) \<and>
    (ret = 0 \<longrightarrow> dict_ok d' \<and> d_size d' \<noteq> 0 \<and> (\<exists>T. d' = d\<lparr>d_table := T, d_size := d_size d'\<rparr>) \<and>
      entries de_hashValue (d_table d') = entries de_hashValue (d_table d) \<and> unat (d_nbElems d) + 1 \<le> length (d_table d') div 8 * 7)"
proof -
  have small: "\<not> unat newSize > SIZE_MAX div 16"
    using unsigned_less [of newSize, where 'a = nat] by (simp add: SIZE_MAX_def)
  obtain ok' mem' where mem: "malloc mem = (ok', mem')" "set mem' \<subseteq> set mem" "\<not> ok' \<longrightarrow> False \<in> set mem"
    by (rule malloc_cases)
  show ?thesis
  proof (cases ok')
    case False
    then show ?thesis using small mem by (simp add: xmlDictGrow_def mem_ok_def)
  next
    case True
    obtain T n where T: "grow_table de_hashValue zero_dict_entry (d_table d) newSize = Some T" "length T = n" "table_size newSize n" "8 \<le> n"
      "dict_inv d newSize T (unat (d_nbElems d))" "entries de_hashValue T = entries de_hashValue (d_table d)" "unat (d_nbElems d) + 1 \<le> n div 8 * 7"
    proof (cases "d_size d = 0")
      case zero: True
      then have h: "d_table d = []" "d_nbElems d = 0" "newSize = 8" using ok sz by (auto simp: dict_ok_def MIN_HASH_SIZE_def)
      have s8: "table_size (8 :: u32) 8" unfolding table_size_def by (rule exI [of _ 3]) simp
      let ?T = "replicate 8 zero_dict_entry"
      have inv: "dict_inv d 8 ?T 0" by (rule dict_entries.fresh_table [OF s8])
      then have "entries de_hashValue ?T = {#}" unfolding table_inv_def by simp
      moreover have "grow_table de_hashValue zero_dict_entry (d_table d) newSize = Some ?T" using h by (simp add: grow_table_def)
      ultimately show ?thesis using that [of ?T 8] h s8 inv by (simp add: entries_def)
    next
      case False
      note inv = dict_okD [OF ok False]
      have s2: "table_size newSize (length (d_table d) * 2)" using sz False table_size_double [OF inv(4)] by simp
      obtain V where V: "grow_table de_hashValue zero_dict_entry (d_table d) newSize = Some V" "length V = length (d_table d) * 2"
        "dict_inv d newSize V (unat (d_nbElems d))" "entries de_hashValue V = entries de_hashValue (d_table d)"
        by (rule dict_entries.grow [OF inv(1) s2]) auto
      have "unat (d_nbElems d) + 1 \<le> length (d_table d) * 2 div 8 * 7" using inv(2,3) by linarith
      then show ?thesis using that [OF V(1,2) s2 _ V(3,4)] inv(2) by simp
    qed
    let ?d = "d\<lparr>d_table := T, d_size := ucast newSize\<rparr>"
    have nz: "unat newSize = n" using T(3) by (auto simp: table_size_def)
    have u: "ucast newSize = (of_nat n :: u64)" "ucast (ucast newSize :: u64) = newSize" "(ucast newSize :: u64) \<noteq> 0"
    proof -
      show "ucast newSize = (of_nat n :: u64)" using nz by (metis of_nat_unat)
      show "ucast (ucast newSize :: u64) = newSize" by (simp add: ucast_ucast_id_u32)
      then show "(ucast newSize :: u64) \<noteq> 0" using nz T(4) by (metis not_numeral_le_zero ucast_0 unsigned_0)
    qed
    have "dict_ok ?d" using ok T u by (simp add: dict_ok_def)
    moreover have "xmlDictGrow d newSize mem = Some (0, ?d, mem')" using small mem(1) True T(1) by (simp add: xmlDictGrow_def)
    ultimately show ?thesis using mem(2) T u(3) by (intro exI [of _ 0] exI [of _ ?d] exI [of _ mem']) auto
  qed
qed


definition dict_full :: "xmlDict \<Rightarrow> bool" where
  "dict_full d \<longleftrightarrow> unat (d_nbElems d) = 1879048192"

lemma ucast_size: "d_size d = of_nat n \<Longrightarrow> n \<le> 2147483648 \<Longrightarrow> unat (ucast (d_size d) :: u32) = n"
  by (simp add: unsigned_ucast_eq unsigned_of_nat take_bit_nat_eq_self)

lemma dict_fill_limit:
  assumes "dict_ok d" "d_size d \<noteq> 0"
  shows "ucast (d_nbElems d + 1) > d_size d div 8 * 7 \<longleftrightarrow> unat (d_nbElems d) + 1 > length (d_table d) div 8 * 7"
proof -
  note inv = dict_okD [OF assms]
  have n: "length (d_table d) \<le> 2147483648" "unat (d_nbElems d) < length (d_table d)"
    using table_size_pos [OF inv(4)] inv(1) by (simp_all add: table_inv_def)
  have "unat (d_nbElems d + 1) = unat (d_nbElems d) + 1" using n by (simp add: unat_word_ariths)
  then have "unat (ucast (d_nbElems d + 1) :: u64) = unat (d_nbElems d) + 1"
    using n by (simp add: unsigned_ucast_eq take_bit_nat_eq_self)
  moreover have "unat (d_size d div 8 * 7) = length (d_table d) div 8 * 7" using n(1) inv(5) by (simp add: unat_word_ariths unat_div)
  ultimately show ?thesis by (simp add: word_less_nat_alt)
qed

lemma dict_new_size:
  assumes "dict_ok d" "d_size d \<noteq> 0" "\<not> d_size d \<ge> ucast MAX_HASH_SIZE"
  shows "(ucast (d_size d) :: u32) < MAX_HASH_SIZE" "ucast (d_size d * 2) = (ucast (d_size d) * 2 :: u32)"
proof -
  note inv = dict_okD [OF assms(1,2)]
  have lt: "length (d_table d) < 2147483648" using assms(3) inv(5) by (simp add: word_le_nat_alt MAX_HASH_SIZE_def)
  have u: "unat (ucast (d_size d) :: u32) = length (d_table d)" using inv(5) lt by (simp add: unsigned_ucast_eq take_bit_nat_eq_self)
  then show "(ucast (d_size d) :: u32) < MAX_HASH_SIZE" using lt by (simp add: word_less_nat_alt MAX_HASH_SIZE_def)
  have "unat (ucast (d_size d * 2) :: u32) = length (d_table d) * 2" "unat (ucast (d_size d) * 2 :: u32) = length (d_table d) * 2"
    using inv(5) u lt by (simp_all add: unsigned_ucast_eq unat_word_ariths take_bit_nat_eq_self)
  then show "ucast (d_size d * 2) = (ucast (d_size d) * 2 :: u32)" by (metis word_unat_eq_iff)
qed

lemma dict_make_room_spec:
  assumes ok: "dict_ok d" and at: "d_size d \<noteq> 0 \<Longrightarrow> slot_for de_hashValue (d_table d) hv i \<and> i < length (d_table d)"
  obtains room d' i' mem' where "dict_make_room d hv i mem = Some (room, d', i', mem')" "set mem' \<subseteq> set mem" "dict_ok d'"
    "\<exists>T s. d' = d\<lparr>d_table := T, d_size := s\<rparr>" "entries de_hashValue (d_table d') = entries de_hashValue (d_table d)"
    "room \<Longrightarrow> d_size d' \<noteq> 0 \<and> slot_for de_hashValue (d_table d') hv i' \<and> i' < length (d_table d') \<and>
       unat (d_nbElems d) + 1 \<le> length (d_table d') div 8 * 7"
    "\<not> room \<Longrightarrow> \<not> mem_ok mem \<or> dict_full d"
proof (cases "ucast (d_nbElems d + 1) > d_size d div 8 * 7")
  case False
  have "d_size d \<noteq> 0"
  proof
    assume "d_size d = 0"
    then show False using False ok by (simp add: dict_ok_def)
  qed
  note inv = dict_okD [OF ok this]
  have "unat (d_nbElems d) + 1 \<le> length (d_table d) div 8 * 7" using False dict_fill_limit [OF ok \<open>d_size d \<noteq> 0\<close>] by simp
  moreover have "dict_make_room d hv i mem = Some (True, d, i, mem)" using False by (simp add: dict_make_room_def)
  moreover have "\<exists>T s. d = d\<lparr>d_table := T, d_size := s\<rparr>" by (intro exI [of _ "d_table d"] exI [of _ "d_size d"]) simp
  ultimately show ?thesis using that [of True d i mem] ok at \<open>d_size d \<noteq> 0\<close> by simp
next
  case full: True
  show ?thesis
  proof (cases "d_size d \<noteq> 0 \<and> d_size d \<ge> ucast MAX_HASH_SIZE")
    case True
    note inv = dict_okD [OF ok conjunct1 [OF True]]
    have "length (d_table d) = 2147483648"
      using True inv(5) table_size_pos [OF inv(4)] by (simp add: word_le_nat_alt MAX_HASH_SIZE_def)
    then have "dict_full d" using full dict_fill_limit [OF ok conjunct1 [OF True]] inv(3) by (simp add: dict_full_def)
    moreover have "dict_make_room d hv i mem = Some (False, d, i, mem)" using full True by (simp add: dict_make_room_def)
    moreover have "\<exists>T s. d = d\<lparr>d_table := T, d_size := s\<rparr>" by (intro exI [of _ "d_table d"] exI [of _ "d_size d"]) simp
    ultimately show ?thesis using that [of False d i mem] ok by simp
  next
    case False
    let ?new = "if d_size d = 0 then MIN_HASH_SIZE else ucast (d_size d * 2)"
    have "d_size d = 0 \<and> ?new = MIN_HASH_SIZE \<or> d_size d \<noteq> 0 \<and> (ucast (d_size d) :: u32) < MAX_HASH_SIZE \<and> ?new = ucast (d_size d) * 2"
      using dict_new_size [OF ok] False by (cases "d_size d = 0") simp_all
    from xmlDictGrow_spec [OF ok this, of mem] obtain ret d' mem' where g: "xmlDictGrow d ?new mem = Some (ret, d', mem')" "set mem' \<subseteq> set mem"
      "ret \<noteq> 0 \<longrightarrow> d' = d \<and> \<not> mem_ok mem"
      "ret = 0 \<longrightarrow> dict_ok d' \<and> d_size d' \<noteq> 0 \<and> (\<exists>T. d' = d\<lparr>d_table := T, d_size := d_size d'\<rparr>) \<and>
        entries de_hashValue (d_table d') = entries de_hashValue (d_table d) \<and> unat (d_nbElems d) + 1 \<le> length (d_table d') div 8 * 7"
      by blast
    show ?thesis
    proof (cases "ret = 0")
      case True
      then have d': "dict_ok d'" "d_size d' \<noteq> 0" using g(4) by auto
      obtain i' where i': "find_entry de_hashValue (\<lambda>_. Some False) (d_table d') (ucast (d_size d')) hv hv = Some (False, i')"
        "i' < length (d_table d')" "slot_for de_hashValue (d_table d') hv i'"
        by (rule dict_entries.find_slot [OF dict_okD(1) [OF d']])
      have "dict_make_room d hv i mem = Some (True, d', i', mem')"
        using full False g(1) True i'(1) by (auto simp: dict_make_room_def Let_def simp del: if_split)
      moreover have "\<exists>T s. d' = d\<lparr>d_table := T, d_size := s\<rparr>" using g(4) True by blast
      ultimately show ?thesis using that [of True d' i' mem'] g(2,4) True i'(2,3) by simp
    next
      case err: False
      then have "dict_make_room d hv i mem = Some (False, d, i, mem')"
        using full False g(1,3) by (auto simp: dict_make_room_def Let_def simp del: if_split)
      moreover have "\<exists>T s. d = d\<lparr>d_table := T, d_size := s\<rparr>" by (intro exI [of _ "d_table d"] exI [of _ "d_size d"]) simp
      ultimately show ?thesis using that [of False d i mem'] g(2,3) err ok by simp
    qed
  qed
qed

section \<open>Adding an entry\<close>

text \<open>New strings in the pools leave the table as it is.\<close>

lemma dict_extend:
  assumes ok: "dict_ok d" and P: "pools_ok P" "extends (d_strings d) P"
  shows "dict_ok (d\<lparr>d_strings := P\<rparr>)" "dict_map (d\<lparr>d_strings := P\<rparr>) = dict_map d"
proof -
  let ?d = "d\<lparr>d_strings := P\<rparr>" and ?E = "entries de_hashValue (d_table d)"
  have same: "name_good P (de_name e) \<and> name_text P (de_name e) = name_text (d_strings d) (de_name e)" if "e \<in># ?E" for e
    using dict_entry_name(1) [OF ok that] P(2) by (simp add: extends_def)
  have keys: "image_mset (\<lambda>e. name_text P (de_name e)) ?E = image_mset (\<lambda>e. name_text (d_strings d) (de_name e)) ?E"
    by (rule image_mset_cong) (simp add: same)
  have "dict_inv ?d (ucast (d_size d)) (d_table d) (unat (d_nbElems d))" if "d_size d \<noteq> 0"
    using dict_okD(1) [OF ok that] same keys unfolding table_inv_def by simp
  then show "dict_ok ?d" using ok P(1) by (simp add: dict_ok_def)
  have "mset (dict_pairs ?d) = mset (dict_pairs d)" unfolding mset_dict_pairs by (simp, rule image_mset_cong) (simp add: same)
  then show "dict_map ?d = dict_map d" unfolding dict_map_def by (rule map_of_mset_eq) (rule distinct_dict_pairs [OF ok])
qed

lemma dict_insert:
  assumes ok: "dict_ok d" "d_size d \<noteq> 0" and i: "slot_for de_hashValue (d_table d) (dict_hash (d_seed d) t) i"
    and room: "unat (d_nbElems d) + 1 \<le> length (d_table d) div 8 * 7"
    and p: "name_good (d_strings d) (Some p)" "name_text (d_strings d) (Some p) = t" and new: "dict_map d t = None"
  defines "e \<equiv> \<lparr>de_hashValue = dict_hash (d_seed d) t, de_name = Some p\<rparr>"
  obtains T where "shift_right de_hashValue (d_table d) i = Some T" "dict_ok (d\<lparr>d_table := T[i := e], d_nbElems := d_nbElems d + 1\<rparr>)"
    "dict_map (d\<lparr>d_table := T[i := e], d_nbElems := d_nbElems d + 1\<rparr>) = (dict_map d)(t \<mapsto> p)"
proof -
  note inv = dict_okD [OF ok]
  have lt: "Suc (unat (d_nbElems d)) < length (d_table d)" using room inv(2) by linarith
  have notin: "t \<notin># image_mset (\<lambda>e. name_text (d_strings d) (de_name e)) (entries de_hashValue (d_table d))" using new dict_map_dom [of d t] by simp
  obtain T where T: "shift_right de_hashValue (d_table d) i = Some T" "dict_inv d (ucast (d_size d)) (T[i := e]) (Suc (unat (d_nbElems d)))"
    "entries de_hashValue (T[i := e]) = add_mset e (entries de_hashValue (d_table d))"
    by (rule dict_entries.insert [OF inv(1) lt i, where e = e]) (use p notin in \<open>simp_all add: e_def\<close>)
  let ?d = "d\<lparr>d_table := T[i := e], d_nbElems := d_nbElems d + 1\<rparr>"
  have len: "length (T[i := e]) = length (d_table d)"
  proof -
    have "table_size (ucast (d_size d)) (length (T[i := e]))" using T(2) by (simp add: table_inv_def)
    then show ?thesis using inv(4) by (auto simp: table_size_def)
  qed
  have "length (d_table d) \<le> 2147483648" using table_size_pos [OF inv(4)] by simp
  then have cnt: "unat (d_nbElems d + 1) = Suc (unat (d_nbElems d))" using lt by (simp add: unat_word_ariths)
  have ok': "dict_ok ?d" using ok T(2) inv(2) len room cnt by (simp add: dict_ok_def)
  have "mset (dict_pairs ?d) = mset ((t, p) # dict_pairs d)" unfolding mset_dict_pairs using T(3) p(2) by (simp add: mset_dict_pairs e_def)
  then have eq: "dict_map ?d = map_of ((t, p) # dict_pairs d)"
    unfolding dict_map_def
  proof (rule map_of_mset_eq)
    have "t \<notin> fst ` set (dict_pairs d)" using new by (simp add: dict_map_def map_of_eq_None_iff)
    then show "distinct (map fst ((t, p) # dict_pairs d))" using distinct_dict_pairs [OF ok(1)] by simp
  qed
  show ?thesis using that [OF T(1) ok'] eq by (simp add: dict_map_def)
qed

lemma dict_too_long_iff:
  assumes "dict_args prefix name maxLen" "dict_key seed prefix name maxLen = Some (hv, plen, len, klen)"
  shows "dict_too_long prefix plen len \<longleftrightarrow> length (dict_text prefix name maxLen) > 1073741823"
  using dict_key_text [OF assms(1), of seed] assms(2)
  by (cases prefix) (auto simp: dict_too_long_def dict_text_def INT_MAX_def)

lemma ctext_self: "cstring s \<Longrightarrow> ctext s = s"
  by (induction s) (auto simp: cstring_def)

text \<open>The key of the second call, with the length found by the first.\<close>

lemma dict_args_again:
  assumes "dict_args prefix name maxLen" "dict_key seed prefix name maxLen = Some (hv, plen, len, klen)"
  shows "dict_args prefix name len" "dict_text prefix name len = dict_text prefix name maxLen"
proof -
  have "dict_args prefix name len \<and> dict_text prefix name len = dict_text prefix name maxLen"
  proof (cases prefix)
    case None
    let ?t = "ctext (take maxLen name)"
    obtain r where r: "name = ?t @ r" using ctext_take_prefix by blast
    have "len = length ?t" using dict_key_text [OF assms(1), of seed] assms(2) None by (auto simp: dict_text_def)
    moreover have "take (length ?t) name = ?t" "length ?t \<le> length name"
      by (metis r append_eq_conv_conj) (metis r le_add1 length_append)
    ultimately show ?thesis using None ctext_self [OF ctext_texts [of "take maxLen name"]] by (simp add: dict_args_def dict_text_def)
  next
    case (Some p)
    then show ?thesis using assms(1) by (simp add: dict_args_def dict_text_def)
  qed
  then show "dict_args prefix name len" "dict_text prefix name len = dict_text prefix name maxLen" by simp_all
qed

lemma dict_sub_find_spec:
  assumes ok: "\<forall>d\<in>set subs. dict_ok d" and args: "dict_args prefix name maxLen" "dict_key seed prefix name maxLen = Some (hv, plen, len, klen)"
  defines "t \<equiv> dict_text prefix name maxLen"
  shows "\<exists>r. dict_sub_find subs prefix name len (length t) = Some r \<and>
    (case r of
       None \<Rightarrow> subs = [] \<or> dict_map (hd subs) t = None
     | Some (l, e) \<Rightarrow> subs \<noteq> [] \<and> l = 1 \<and> de_name e \<noteq> None \<and> dict_map (hd subs) t = de_name e \<and> de_hashValue e = dict_hash (d_seed (hd subs)) t)"
proof (cases subs)
  case Nil
  then show ?thesis by (simp add: dict_sub_find_def)
next
  case (Cons sub ds)
  note again = dict_args_again [OF args]
  have sub: "dict_ok sub" using ok Cons by simp
  show ?thesis
  proof (cases "d_size sub = 0")
    case True
    then have "dict_map sub t = None" using sub by (simp add: dict_ok_def dict_map_def dict_pairs_def)
    then show ?thesis using Cons True by (simp add: dict_sub_find_def)
  next
    case False
    obtain pl l where k: "dict_key (d_seed sub) prefix name len = Some (dict_hash (d_seed sub) t, pl, l, length t)"
      using dict_key_text [OF again(1), of "d_seed sub"] again(2) by (auto simp: t_def)
    show ?thesis
    proof (rule dict_find_spec [OF sub False again(1)])
      fix found i
      assume f: "xmlDictFindEntry sub prefix name (length (dict_text prefix name len)) (dict_hash (d_seed sub) (dict_text prefix name len)) = Some (found, i)"
        "i < length (d_table sub)" "found \<longleftrightarrow> dict_map sub (dict_text prefix name len) \<noteq> None"
        "found \<Longrightarrow> d_table sub ! i \<in># entries de_hashValue (d_table sub) \<and> name_text (d_strings sub) (de_name (d_table sub ! i)) = dict_text prefix name len"
      then have r: "dict_sub_find subs prefix name len (length t) = Some (if found then Some (1, d_table sub ! i) else None)"
        using Cons False k again(2) by (auto simp: dict_sub_find_def t_def slot_def word_neq_0_conv)
      show ?thesis
      proof (cases found)
        case True
        then have e: "d_table sub ! i \<in># entries de_hashValue (d_table sub)" "name_text (d_strings sub) (de_name (d_table sub ! i)) = t"
          using f(4) again(2) by (simp_all add: t_def)
        show ?thesis using r True Cons dict_map_entry [OF sub e(1)] dict_entry_name [OF sub e(1)] e(2) by auto
      next
        case False
        then have "dict_map sub t = None" using f(3) again(2) unfolding t_def by metis
        then show ?thesis using r False Cons by simp
      qed
    qed
  qed
qed

text \<open>Either routine adds the text of the call to the pools.\<close>

lemma dict_string_added:
  assumes ok: "dict_ok d" and args: "dict_args prefix name maxLen" "dict_key seed prefix name maxLen = Some (hv, plen, len, klen)"
  defines "t \<equiv> dict_text prefix name maxLen"
  assumes short: "length t \<le> 1073741823"
  shows "string_added d t mem (case prefix of None \<Rightarrow> xmlDictAddString d name len mem | Some p \<Rightarrow> xmlDictAddQString d p plen name len mem)"
proof -
  have pools: "pools_ok (d_strings d)" using ok by (simp add: dict_ok_def)
  show ?thesis
  proof (cases prefix)
    case None
    obtain r where r: "name = t @ r" using ctext_take_prefix [of name maxLen] None by (auto simp: t_def dict_text_def)
    have "len = length t" using dict_key_text [OF args(1), of seed] args(2) None by (auto simp: t_def)
    then show ?thesis using xmlDictAddString_spec [OF pools r _ short] None dict_text_cstring by (simp add: t_def)
  next
    case (Some p)
    have "terminated p" "terminated name" using args(1) Some by (simp_all add: dict_args_def)
    then obtain r1 r2 where r: "p = ctext p @ 0 # r1" "name = ctext name @ 0 # r2" using terminated_ctext by metis
    have t: "t = ctext p @ 0x3A # ctext name" using Some by (simp add: t_def dict_text_def)
    have len: "plen = length (ctext p)" "len = length (ctext name)"
      using dict_key_text [OF args(1), of seed] args(2) Some by (auto simp: dict_text_def)
    show ?thesis
      using xmlDictAddQString_spec [OF pools r ctext_texts ctext_texts, of mem] short Some by (simp add: t len)
  qed
qed

text \<open>The parts of a dictionary that lookups do not change.\<close>

definition same_owner :: "xmlDict \<Rightarrow> xmlDict \<Rightarrow> bool" where
  "same_owner d d' \<longleftrightarrow> d_seed d' = d_seed d \<and> d_limit d' = d_limit d \<and> d_ref_counter d' = d_ref_counter d \<and>
     extends (d_strings d) (d_strings d')"

lemma dict_add_spec:
  assumes ok: "dict_ok d" and args: "dict_args prefix name maxLen" "dict_key (d_seed d) prefix name maxLen = Some (hv, plen, len, klen)"
  defines "t \<equiv> dict_text prefix name maxLen"
  assumes short: "length t \<le> 1073741823" and new: "dict_map d t = None"
    and at: "d_size d \<noteq> 0 \<Longrightarrow> slot_for de_hashValue (d_table d) hv i \<and> i < length (d_table d)"
  shows "\<exists>e d' mem'. dict_add d prefix plen name len hv i mem = Some (e, d', mem') \<and> dict_ok d' \<and> same_owner d d' \<and>
    (case e of
       None \<Rightarrow> dict_map d' = dict_map d \<and> (\<not> mem_ok mem \<or> dict_full d \<or> d_limit d > 0)
     | Some e \<Rightarrow> \<exists>p. e = \<lparr>de_hashValue = dict_hash (d_seed d) t, de_name = Some p\<rparr> \<and> dict_map d' = (dict_map d)(t \<mapsto> p) \<and>
         \<not> name_good (d_strings d) (Some p))"
proof (rule dict_make_room_spec [of d hv i mem, OF ok at])
  fix room d1 i1 m1
  assume m: "dict_make_room d hv i mem = Some (room, d1, i1, m1)" "set m1 \<subseteq> set mem" "dict_ok d1" "\<exists>T s. d1 = d\<lparr>d_table := T, d_size := s\<rparr>"
      "entries de_hashValue (d_table d1) = entries de_hashValue (d_table d)"
    and room: "room \<Longrightarrow> d_size d1 \<noteq> 0 \<and> slot_for de_hashValue (d_table d1) hv i1 \<and> i1 < length (d_table d1) \<and>
       unat (d_nbElems d) + 1 \<le> length (d_table d1) div 8 * 7"
    and no_room: "\<not> room \<Longrightarrow> \<not> mem_ok mem \<or> dict_full d"
  have same: "d_strings d1 = d_strings d" "d_seed d1 = d_seed d" "d_limit d1 = d_limit d" "d_ref_counter d1 = d_ref_counter d" "d_nbElems d1 = d_nbElems d"
    using m(4) by auto
  have map1: "dict_map d1 = dict_map d" by (rule dict_map_same [OF ok m(5) same(1)])
  have hv: "hv = dict_hash (d_seed d) t" using dict_key_text [OF args(1), of "d_seed d"] args(2) by (auto simp: t_def)
  show ?thesis
  proof (cases room)
    case False
    then have "dict_add d prefix plen name len hv i mem = Some (None, d1, m1)" using m(1) by (simp add: dict_add_def)
    then show ?thesis using m(3) same map1 no_room [OF False] by (auto simp: same_owner_def)
  next
    case True
    note room = room [OF True]
    have "string_added d1 t m1 (case prefix of None \<Rightarrow> xmlDictAddString d1 name len m1 | Some p \<Rightarrow> xmlDictAddQString d1 p plen name len m1)"
      unfolding t_def by (rule dict_string_added [OF m(3) args]) (use short t_def in simp)
    then obtain ret P m2 where a: "(case prefix of None \<Rightarrow> xmlDictAddString d1 name len m1 | Some p \<Rightarrow> xmlDictAddQString d1 p plen name len m1) =
        Some (ret, d1\<lparr>d_strings := P\<rparr>, m2)" "pools_ok P" "extends (d_strings d1) P" "ret = None \<longrightarrow> \<not> mem_ok m1 \<or> d_limit d1 > 0"
      "\<forall>p. ret = Some p \<longrightarrow> name_good P (Some p) \<and> name_text P (Some p) = t \<and> \<not> name_good (d_strings d1) (Some p)"
      unfolding string_added_def by blast
    let ?d = "d1\<lparr>d_strings := P\<rparr>"
    note ext = dict_extend [OF m(3) a(2,3)]
    show ?thesis
    proof (cases ret)
      case None
      then have "dict_add d prefix plen name len hv i mem = Some (None, ?d, m2)" using m(1) True a(1) by (simp add: dict_add_def)
      moreover have "\<not> mem_ok mem \<or> d_limit d > 0" using a(4) None m(2) same by (auto simp: mem_ok_def)
      ultimately show ?thesis using ext map1 same a(3) by (auto simp: same_owner_def)
    next
      case (Some p)
      have p: "name_good P (Some p)" "name_text P (Some p) = t" "\<not> name_good (d_strings d) (Some p)" using a(5) Some same(1) by auto
      let ?e = "\<lparr>de_hashValue = dict_hash (d_seed d) t, de_name = Some p\<rparr>"
      obtain T where T: "shift_right de_hashValue (d_table d1) i1 = Some T" "dict_ok (?d\<lparr>d_table := T[i1 := ?e], d_nbElems := d_nbElems d1 + 1\<rparr>)"
          "dict_map (?d\<lparr>d_table := T[i1 := ?e], d_nbElems := d_nbElems d1 + 1\<rparr>) = (dict_map d)(t \<mapsto> p)"
        by (rule dict_insert [of ?d t i1 p, OF ext(1)]) (use room hv same p new ext(2) map1 in simp_all)
      have "dict_add d prefix plen name len hv i mem = Some (Some ?e, ?d\<lparr>d_table := T[i1 := ?e], d_nbElems := d_nbElems d1 + 1\<rparr>, m2)"
        using m(1) True a(1) Some T(1) hv by (simp add: dict_add_def Let_def)
      then show ?thesis using T(2,3) p(3) same a(3) by (auto simp: same_owner_def)
    qed
  qed
qed

section \<open>Lookups in a dictionary and its subdictionary\<close>

text \<open>The address of a text that is interned in the dictionary, else in its subdictionary.\<close>

definition interned :: "xmlDict list \<Rightarrow> u8 list \<rightharpoonup> str_ptr" where
  "interned dicts t =
     (case dicts of
        [] \<Rightarrow> None
      | d # subs \<Rightarrow>
          (case dict_map d t of
             Some p \<Rightarrow> Some (In_Dict 0 p)
           | None \<Rightarrow> (case subs of [] \<Rightarrow> None | s # _ \<Rightarrow> map_option (In_Dict 1) (dict_map s t))))"

definition chain_ok :: "xmlDict list \<Rightarrow> bool" where
  "chain_ok dicts \<longleftrightarrow> dicts \<noteq> [] \<and> (\<forall>d\<in>set dicts. dict_ok d)"

text \<open>What a lookup of \<open>t\<close> promises.\<close>

definition looked_up :: "xmlDict list \<Rightarrow> u8 list \<Rightarrow> bool \<Rightarrow> bool list \<Rightarrow> dict_entry \<Rightarrow> xmlDict list \<Rightarrow> bool" where
  "looked_up dicts t upd mem entry dicts' \<longleftrightarrow>
     chain_ok dicts' \<and> same_owner (hd dicts) (hd dicts') \<and> tl dicts' = tl dicts \<and>
     (case entry of
        None \<Rightarrow> dict_map (hd dicts') = dict_map (hd dicts) \<and>
          (length t > 1073741823 \<or> d_limit (hd dicts) > 0 \<or> interned dicts t = None \<and> (\<not> upd \<or> \<not> mem_ok mem \<or> dict_full (hd dicts)))
      | Some (l, e) \<Rightarrow> l < length dicts \<and> de_hashValue e = dict_hash (d_seed (dicts ! l)) t \<and>
          (\<exists>p. de_name e = Some p \<and>
             (interned dicts t = Some (In_Dict l p) \<and> dicts' = dicts \<or>
              interned dicts t = None \<and> upd \<and> l = 0 \<and> dict_map (hd dicts') = (dict_map (hd dicts))(t \<mapsto> p) \<and>
              \<not> name_good (d_strings (hd dicts)) (Some p))))"

lemma same_owner_refl [simp]: "same_owner d d"
  by (simp add: same_owner_def)

lemma xmlDictLookupInternal_spec:
  assumes ok: "chain_ok dicts" and args: "dict_args prefix name (lookup_len maybeLen)"
  shows "\<exists>entry dicts' mem'. xmlDictLookupInternal dicts prefix (Some name) maybeLen upd mem = Some (entry, dicts', mem') \<and>
    looked_up dicts (dict_text prefix name (lookup_len maybeLen)) upd mem entry dicts'"
proof -
  let ?m = "lookup_len maybeLen"
  let ?t = "dict_text prefix name ?m"
  obtain d subs where dicts: "dicts = d # subs" "dict_ok d" "\<forall>s\<in>set subs. dict_ok s" using ok by (cases dicts) (auto simp: chain_ok_def)
  obtain plen len where k: "dict_key (d_seed d) prefix name ?m = Some (dict_hash (d_seed d) ?t, plen, len, length ?t)"
    using dict_key_text [OF args, of "d_seed d"] by blast
  note long = dict_too_long_iff [OF args k]
  show ?thesis
  proof (cases "length ?t > 1073741823 \<or> d_limit d > 0 \<and> length ?t \<ge> d_limit d")
    case True
    then have "xmlDictLookupInternal dicts prefix (Some name) maybeLen upd mem = Some (None, dicts, mem)"
      using k long dicts(1) by (auto simp: xmlDictLookupInternal_def Let_def)
    then show ?thesis using True ok dicts(1) by (auto simp: looked_up_def)
  next
    case False
    then have short: "\<not> dict_too_long prefix plen len" "\<not> (d_limit d > 0 \<and> length ?t \<ge> d_limit d)" "length ?t \<le> 1073741823" using long by auto
    obtain found i where f: "(if d_size d > 0 then xmlDictFindEntry d prefix name (length ?t) (dict_hash (d_seed d) ?t) else Some (False, 0)) = Some (found, i)"
      "found \<longleftrightarrow> dict_map d ?t \<noteq> None"
      "found \<longrightarrow> i < length (d_table d) \<and> d_table d ! i \<in># entries de_hashValue (d_table d) \<and> name_text (d_strings d) (de_name (d_table d ! i)) = ?t"
      "\<not> found \<longrightarrow> d_size d \<noteq> 0 \<longrightarrow> slot_for de_hashValue (d_table d) (dict_hash (d_seed d) ?t) i \<and> i < length (d_table d)"
    proof (cases "d_size d = 0")
      case True
      then have "dict_map d ?t = None" using dicts(2) by (simp add: dict_ok_def dict_map_def dict_pairs_def)
      then show ?thesis using that [of False 0] True by simp
    next
      case False
      show ?thesis
        by (rule dict_find_spec [OF dicts(2) False args]) (rule that, use False in \<open>auto simp: word_neq_0_conv\<close>)
    qed
    obtain sub where s: "dict_sub_find subs prefix name len (length ?t) = Some sub"
      "case sub of None \<Rightarrow> subs = [] \<or> dict_map (hd subs) ?t = None
       | Some (l, e) \<Rightarrow> subs \<noteq> [] \<and> l = 1 \<and> de_name e \<noteq> None \<and> dict_map (hd subs) ?t = de_name e \<and> de_hashValue e = dict_hash (d_seed (hd subs)) ?t"
      using dict_sub_find_spec [OF dicts(3) args k] by blast
    have run: "xmlDictLookupInternal dicts prefix (Some name) maybeLen upd mem =
      (if found then Some (Some (0, d_table d ! i), dicts, mem) else if sub \<noteq> None then Some (sub, dicts, mem)
       else if \<not> upd then Some (None, dicts, mem)
       else do { (e, dict, mem) \<leftarrow> dict_add d prefix plen name len (dict_hash (d_seed d) ?t) i mem; Some (map_option (Pair 0) e, dict # subs, mem) })"
      using k short(1) f(1,3) s(1) by (simp add: xmlDictLookupInternal_def Let_def dicts(1) slot_def if_not_P [OF short(2)] del: not_gr_zero)
    have none: "interned dicts ?t = None \<and> dict_map d ?t = None" if "\<not> found" "sub = None"
    proof -
      have "dict_map d ?t = None" using f(2) that(1) by blast
      then show ?thesis using s(2) that(2) dicts(1) by (auto simp: interned_def split: list.splits)
    qed
    consider "found" | l e where "\<not> found" "sub = Some (l, e)" | "\<not> found" "sub = None" "\<not> upd" | "\<not> found" "sub = None" "upd"
      by (cases sub) auto
    then show ?thesis
    proof cases
      case 1
      then have e: "d_table d ! i \<in># entries de_hashValue (d_table d)" "name_text (d_strings d) (de_name (d_table d ! i)) = ?t" using f(3) by auto
      obtain p where "de_name (d_table d ! i) = Some p" using dict_entry_name(2) [OF dicts(2) e(1)] by blast
      then have "looked_up dicts ?t upd mem (Some (0, d_table d ! i)) dicts"
        using dict_map_entry [OF dicts(2) e(1)] dict_entry_name(3) [OF dicts(2) e(1)] e(2) ok dicts(1) by (simp add: looked_up_def interned_def)
      then show ?thesis using run 1 by simp
    next
      case 2
      obtain s0 ss where "subs = s0 # ss" using s(2) 2(2) by (cases subs) auto
      moreover have "dict_map d ?t = None" using f(2) 2(1) by blast
      ultimately have "looked_up dicts ?t upd mem (Some (l, e)) dicts"
        using s(2) 2 ok dicts(1) by (auto simp: looked_up_def interned_def)
      then show ?thesis using run 2 by simp
    next
      case 3
      then have "interned dicts ?t = None" using none by blast
      then show ?thesis using run 3 ok by (simp add: looked_up_def)
    next
      case 4
      then have none: "interned dicts ?t = None" "dict_map d ?t = None" using none by simp_all
      obtain e d' mem' where a: "dict_add d prefix plen name len (dict_hash (d_seed d) ?t) i mem = Some (e, d', mem')" "dict_ok d'" "same_owner d d'"
        "case e of None \<Rightarrow> dict_map d' = dict_map d \<and> (\<not> mem_ok mem \<or> dict_full d \<or> d_limit d > 0)
         | Some e \<Rightarrow> \<exists>p. e = \<lparr>de_hashValue = dict_hash (d_seed d) ?t, de_name = Some p\<rparr> \<and> dict_map d' = (dict_map d)(?t \<mapsto> p) \<and> \<not> name_good (d_strings d) (Some p)"
        using dict_add_spec [OF dicts(2) args k short(3) none(2), of i mem] f(4) 4(1) by blast
      have "chain_ok (d' # subs)" using a(2) dicts(3) by (simp add: chain_ok_def)
      then have "looked_up dicts ?t upd mem (map_option (Pair 0) e) (d' # subs)"
        using a(3,4) none(1) 4(3) dicts(1) by (auto simp: looked_up_def split: option.splits)
      then show ?thesis using run 4 a(1) by simp
    qed
  qed
qed

section \<open>The operations as an interner\<close>

datatype dict_op =
    Dict_Lookup xptr int "bool list"
  | Dict_LookupHashed xptr int "bool list"
  | Dict_QLookup xptr xptr "bool list"
  | Dict_Exists xptr int
  | Dict_SetLimit nat

datatype dict_result = Name "str_ptr option" | Hashed "str_ptr option" u32 | Old_Limit nat

fun dict_run :: "dict_op \<Rightarrow> xmlDict list \<Rightarrow> (dict_result \<times> xmlDict list) option" where
  "dict_run (Dict_Lookup name len mem) dict = do { (p, dict, _) \<leftarrow> xmlDictLookup dict name len mem; Some (Name p, dict) }"
| "dict_run (Dict_LookupHashed name len mem) dict =
     do { ((p, h), dict, _) \<leftarrow> xmlDictLookupHashed dict name len mem; Some (Hashed p h, dict) }"
| "dict_run (Dict_QLookup prefix name mem) dict = do { (p, dict, _) \<leftarrow> xmlDictQLookup dict prefix name mem; Some (Name p, dict) }"
| "dict_run (Dict_Exists name len) dict = do { p \<leftarrow> xmlDictExists dict name len; Some (Name p, dict) }"
| "dict_run (Dict_SetLimit limit) dict = (let (old, dict) = xmlDictSetLimit dict limit in Some (Old_Limit old, dict))"

text \<open>The text an operation looks up, and when its arguments can be read.\<close>

fun dict_op_text :: "dict_op \<Rightarrow> u8 list" where
  "dict_op_text (Dict_Lookup name len mem) = dict_text None (the name) (lookup_len len)"
| "dict_op_text (Dict_LookupHashed name len mem) = dict_text None (the name) (lookup_len len)"
| "dict_op_text (Dict_QLookup prefix name mem) = dict_text prefix (the name) (lookup_len (-1))"
| "dict_op_text (Dict_Exists name len) = dict_text None (the name) (lookup_len len)"
| "dict_op_text (Dict_SetLimit limit) = []"

fun dict_op_ok :: "dict_op \<Rightarrow> bool" where
  "dict_op_ok (Dict_Lookup name len mem) \<longleftrightarrow> name \<noteq> None \<and> dict_args None (the name) (lookup_len len)"
| "dict_op_ok (Dict_LookupHashed name len mem) \<longleftrightarrow> name \<noteq> None \<and> dict_args None (the name) (lookup_len len)"
| "dict_op_ok (Dict_QLookup prefix name mem) \<longleftrightarrow> name \<noteq> None \<and> dict_args prefix (the name) (lookup_len (-1))"
| "dict_op_ok (Dict_Exists name len) \<longleftrightarrow> name \<noteq> None \<and> dict_args None (the name) (lookup_len len)"
| "dict_op_ok (Dict_SetLimit limit) \<longleftrightarrow> True"

text \<open>
  The contract: the limit, the seeds of the dictionary and its subdictionaries, and the
  addresses of the interned texts.
\<close>

type_synonym interner = "nat \<times> u32 list \<times> (u8 list \<rightharpoonup> str_ptr)"

definition dict_view :: "xmlDict list \<Rightarrow> interner" where
  "dict_view dicts = (d_limit (hd dicts), map d_seed dicts, interned dicts)"

definition interns :: "interner \<Rightarrow> u8 list \<Rightarrow> bool \<Rightarrow> bool list \<Rightarrow> str_ptr option \<Rightarrow> interner \<Rightarrow> bool" where
  "interns v t upd mem r v' \<longleftrightarrow>
     (case v of
        (limit, seeds, m) \<Rightarrow>
          (case r of
             None \<Rightarrow> v' = v \<and>
               (length t > 1073741823 \<or> limit > 0 \<or>
                m t = None \<and> (\<not> upd \<or> \<not> mem_ok mem \<or> card {t. \<exists>p. m t = Some (In_Dict 0 p)} = 1879048192))
           | Some p \<Rightarrow> m t = Some p \<and> v' = v \<or> m t = None \<and> upd \<and> p \<notin> ran m \<and> v' = (limit, seeds, m(t \<mapsto> p))))"

fun level :: "str_ptr \<Rightarrow> nat" where
  "level (In_Dict l p) = l"
| "level Foreign = 0"

fun intern_spec :: "dict_op \<Rightarrow> interner \<Rightarrow> dict_result \<Rightarrow> interner \<Rightarrow> bool" where
  "intern_spec (Dict_Lookup name len mem) v r v' \<longleftrightarrow>
     (\<exists>p. r = Name p \<and> interns v (dict_op_text (Dict_Lookup name len mem)) True mem p v')"
| "intern_spec (Dict_LookupHashed name len mem) v r v' \<longleftrightarrow>
     (\<exists>p. interns v (dict_op_text (Dict_LookupHashed name len mem)) True mem p v' \<and>
        r = Hashed p (case p of None \<Rightarrow> 0 | Some q \<Rightarrow> dict_hash (fst (snd v) ! level q) (dict_op_text (Dict_LookupHashed name len mem))))"
| "intern_spec (Dict_QLookup prefix name mem) v r v' \<longleftrightarrow>
     (\<exists>p. r = Name p \<and> interns v (dict_op_text (Dict_QLookup prefix name mem)) True mem p v')"
| "intern_spec (Dict_Exists name len) v r v' \<longleftrightarrow>
     v' = v \<and> (\<exists>p. r = Name p \<and> interns v (dict_op_text (Dict_Exists name len)) False [] p v)"
| "intern_spec (Dict_SetLimit limit) v r v' \<longleftrightarrow> r = Old_Limit (fst v) \<and> v' = (limit, snd v)"

lemma dict_map_card: "dict_ok d \<Longrightarrow> card (dom (dict_map d)) = unat (d_nbElems d)"
proof -
  assume ok: "dict_ok d"
  have "card (dom (dict_map d)) = length (dict_pairs d)"
    using distinct_card [OF distinct_dict_pairs [OF ok]] by (simp add: dict_map_def dom_map_of_conv_image_fst)
  also have "\<dots> = size (mset (dict_pairs d))" by simp
  also have "\<dots> = unat (d_nbElems d)"
    unfolding mset_dict_pairs using ok dict_okD(1) [OF ok]
    by (cases "d_size d = 0") (simp_all add: table_inv_def dict_ok_def entries_def)
  finally show ?thesis .
qed

lemma interned_level0: "dicts \<noteq> [] \<Longrightarrow> interned dicts t = Some (In_Dict 0 p) \<longleftrightarrow> dict_map (hd dicts) t = Some p"
  by (cases dicts) (auto simp: interned_def split: option.splits list.splits)

lemma interned_update:
  assumes "dicts \<noteq> []" "dicts' \<noteq> []" "tl dicts' = tl dicts" "dict_map (hd dicts') = (dict_map (hd dicts))(t \<mapsto> p)"
  shows "interned dicts' = (interned dicts)(t \<mapsto> In_Dict 0 p)"
  using assms by (cases dicts; cases dicts') (auto simp: interned_def fun_eq_iff)

lemma interned_same:
  assumes "dicts \<noteq> []" "dicts' \<noteq> []" "tl dicts' = tl dicts" "dict_map (hd dicts') = dict_map (hd dicts)"
  shows "interned dicts' = interned dicts"
  using assms by (cases dicts; cases dicts') (auto simp: interned_def fun_eq_iff)

lemma looked_up_interns:
  assumes ok: "chain_ok dicts" and up: "looked_up dicts t upd mem entry dicts'"
  shows "interns (dict_view dicts) t upd mem (entry_name entry) (dict_view dicts')"
proof -
  have ne: "dicts \<noteq> []" "dicts' \<noteq> []" "tl dicts' = tl dicts" "dict_ok (hd dicts)" "same_owner (hd dicts) (hd dicts')"
    using ok up by (auto simp: chain_ok_def looked_up_def)
  then have rest: "d_limit (hd dicts') = d_limit (hd dicts)" "map d_seed dicts' = map d_seed dicts"
    by (cases dicts; cases dicts'; simp add: same_owner_def)+
  show ?thesis
  proof (cases entry)
    case None
    then have n: "dict_map (hd dicts') = dict_map (hd dicts)"
      "length t > 1073741823 \<or> d_limit (hd dicts) > 0 \<or> interned dicts t = None \<and> (\<not> upd \<or> \<not> mem_ok mem \<or> dict_full (hd dicts))"
      using up by (auto simp: looked_up_def)
    have "dict_full (hd dicts) \<Longrightarrow> card {t. \<exists>p. interned dicts t = Some (In_Dict 0 p)} = 1879048192"
      using dict_map_card [OF ne(4)] by (simp add: interned_level0 [OF ne(1)] dict_full_def dom_def)
    moreover have "dict_view dicts' = dict_view dicts" using rest interned_same [OF ne(1-3) n(1)] by (simp add: dict_view_def)
    ultimately show ?thesis using None n(2) by (auto simp: interns_def entry_name_def dict_view_def)
  next
    case (Some le)
    obtain l e where le: "entry = Some (l, e)" using Some by (cases le) auto
    then obtain p where p: "de_name e = Some p" "interned dicts t = Some (In_Dict l p) \<and> dicts' = dicts \<or>
        interned dicts t = None \<and> upd \<and> l = 0 \<and> dict_map (hd dicts') = (dict_map (hd dicts))(t \<mapsto> p) \<and> \<not> name_good (d_strings (hd dicts)) (Some p)"
      using up by (auto simp: looked_up_def)
    have name: "entry_name entry = Some (In_Dict l p)" using le p(1) by (simp add: entry_name_def)
    show ?thesis
    proof (cases "interned dicts t = None")
      case True
      then have new: "upd" "l = 0" "dict_map (hd dicts') = (dict_map (hd dicts))(t \<mapsto> p)" "\<not> name_good (d_strings (hd dicts)) (Some p)" using p(2) by auto
      have "In_Dict 0 p \<notin> ran (interned dicts)"
      proof
        assume "In_Dict 0 p \<in> ran (interned dicts)"
        then obtain u where "dict_map (hd dicts) u = Some p" using interned_level0 [OF ne(1)] by (auto simp: ran_def)
        then show False using dict_map_Some [OF ne(4)] new(4) by blast
      qed
      then show ?thesis
        using name True new rest interned_update [OF ne(1-3) new(3)] by (auto simp: interns_def dict_view_def)
    next
      case False
      then show ?thesis using name p(2) by (auto simp: interns_def dict_view_def)
    qed
  qed
qed

lemma lookup_step:
  assumes "chain_ok dicts" "dict_args prefix name (lookup_len len)"
  obtains entry dicts' mem' where "xmlDictLookupInternal dicts prefix (Some name) len upd mem = Some (entry, dicts', mem')" "chain_ok dicts'"
    "interns (dict_view dicts) (dict_text prefix name (lookup_len len)) upd mem (entry_name entry) (dict_view dicts')"
    "\<And>l e. entry = Some (l, e) \<Longrightarrow> de_hashValue e = dict_hash (map d_seed dicts ! l) (dict_text prefix name (lookup_len len)) \<and> (\<exists>p. de_name e = Some p)"
proof -
  obtain entry dicts' mem' where r: "xmlDictLookupInternal dicts prefix (Some name) len upd mem = Some (entry, dicts', mem')"
    "looked_up dicts (dict_text prefix name (lookup_len len)) upd mem entry dicts'"
    using xmlDictLookupInternal_spec [OF assms, of upd mem] by blast
  have "de_hashValue e = dict_hash (map d_seed dicts ! l) (dict_text prefix name (lookup_len len)) \<and> (\<exists>p. de_name e = Some p)"
    if "entry = Some (l, e)" for l e
    using r(2) that by (auto simp: looked_up_def)
  moreover have "chain_ok dicts'" using r(2) by (simp add: looked_up_def)
  ultimately show ?thesis using that [OF r(1) _ looked_up_interns [OF assms(1) r(2)]] by blast
qed

interpretation dict_ops: simulation dict_run chain_ok dict_op_ok dict_view intern_spec
proof
  fix dicts x
  assume ok: "chain_ok dicts" and x: "dict_op_ok x"
  show "\<exists>r dicts'. dict_run x dicts = Some (r, dicts') \<and> chain_ok dicts' \<and> intern_spec x (dict_view dicts) r (dict_view dicts')"
  proof (cases x)
    case (Dict_Lookup name len mem)
    then obtain n where n: "name = Some n" "dict_args None n (lookup_len len)" using x by auto
    show ?thesis by (rule lookup_step [OF ok n(2), of True mem]) (use Dict_Lookup n in \<open>auto simp: xmlDictLookup_def\<close>)
  next
    case (Dict_LookupHashed name len mem)
    then obtain n where n: "name = Some n" "dict_args None n (lookup_len len)" using x by auto
    show ?thesis
    proof (rule lookup_step [OF ok n(2), of True mem])
      fix entry dicts' mem'
      assume r: "xmlDictLookupInternal dicts None (Some n) len True mem = Some (entry, dicts', mem')" "chain_ok dicts'"
        "interns (dict_view dicts) (dict_text None n (lookup_len len)) True mem (entry_name entry) (dict_view dicts')"
        and h: "\<And>l e. entry = Some (l, e) \<Longrightarrow> de_hashValue e = dict_hash (map d_seed dicts ! l) (dict_text None n (lookup_len len)) \<and> (\<exists>p. de_name e = Some p)"
      show ?thesis
      proof (cases entry)
        case None
        then show ?thesis using r Dict_LookupHashed n by (auto simp: xmlDictLookupHashed_def entry_name_def)
      next
        case (Some le)
        then obtain l e p where le: "entry = Some (l, e)" "de_name e = Some p" using h by (cases le) auto
        then show ?thesis using r h [OF le(1)] Dict_LookupHashed n by (auto simp: xmlDictLookupHashed_def entry_name_def dict_view_def)
      qed
    qed
  next
    case (Dict_QLookup prefix name mem)
    then obtain n where n: "name = Some n" "dict_args prefix n (lookup_len (-1))" using x by auto
    show ?thesis by (rule lookup_step [OF ok n(2), of True mem]) (use Dict_QLookup n in \<open>auto simp: xmlDictQLookup_def\<close>)
  next
    case (Dict_Exists name len)
    then obtain n where n: "name = Some n" "dict_args None n (lookup_len len)" using x by auto
    show ?thesis
      by (rule lookup_step [OF ok n(2), of False "[]"]) (use Dict_Exists n ok in \<open>auto simp: xmlDictExists_def interns_def dict_view_def split: option.splits\<close>)
  next
    case (Dict_SetLimit limit)
    obtain d subs where "dicts = d # subs" using ok by (cases dicts) (auto simp: chain_ok_def)
    moreover from this have "chain_ok (d\<lparr>d_limit := limit\<rparr> # subs)" "dict_map (d\<lparr>d_limit := limit\<rparr>) = dict_map d"
      using ok by (simp_all add: chain_ok_def dict_ok_def dict_map_def dict_pairs_def)
    ultimately show ?thesis using Dict_SetLimit by (auto simp: xmlDictSetLimit_def dict_view_def interned_def fun_eq_iff)
  qed
qed

section \<open>Interned addresses\<close>

text \<open>The text at an address of the chain.\<close>

definition ptr_text :: "xmlDict list \<Rightarrow> str_ptr \<Rightarrow> u8 list" where
  "ptr_text dicts p = (case p of In_Dict l q \<Rightarrow> name_text (d_strings (dicts ! l)) (Some q) | Foreign \<Rightarrow> [])"

fun result_ptr :: "dict_result \<Rightarrow> str_ptr option" where
  "result_ptr (Name p) = p"
| "result_ptr (Hashed p h) = p"
| "result_ptr (Old_Limit n) = None"

lemma interns_step:
  assumes "interns v t upd mem r v'"
  shows "snd (snd v) \<subseteq>\<^sub>m snd (snd v')" "r = Some p \<Longrightarrow> snd (snd v') t = Some p"
  using assms by (auto simp: interns_def map_le_def split: option.splits prod.splits)

lemma intern_spec_step:
  assumes "intern_spec x v r v'"
  shows "snd (snd v) \<subseteq>\<^sub>m snd (snd v')" "result_ptr r = Some p \<Longrightarrow> snd (snd v') (dict_op_text x) = Some p"
  using assms by (cases x; auto dest: interns_step)+

lemma spec_ops_interned:
  "spec_ops intern_spec xs v rs v' \<Longrightarrow>
   snd (snd v) \<subseteq>\<^sub>m snd (snd v') \<and> length rs = length xs \<and>
   (\<forall>x r p. (x, r) \<in> set (zip xs rs) \<longrightarrow> result_ptr r = Some p \<longrightarrow> snd (snd v') (dict_op_text x) = Some p)"
proof (induction xs arbitrary: v rs)
  case (Cons x xs)
  then obtain r rs' b where 1: "rs = r # rs'" "intern_spec x v r b" "spec_ops intern_spec xs b rs' v'" by auto
  note IH = Cons.IH [OF 1(3)] and step = intern_spec_step [OF 1(2)]
  have le: "snd (snd v) \<subseteq>\<^sub>m snd (snd v')" using step(1) IH map_le_trans by blast
  have "snd (snd v') (dict_op_text x) = Some p" if "result_ptr r = Some p" for p
    using step(2) [OF that] IH by (metis domI map_le_def)
  then show ?case using 1(1) IH le by auto
qed simp

lemma pool_owns_good: "name_good P (Some p) \<Longrightarrow> pool_owns P p"
proof (induction P)
  case Nil
  then show ?case by (simp add: name_good_def name_bytes_def split: prod.splits)
next
  case (Cons pool P)
  obtain n off where p: "p = (n, off)" by (cases p)
  show ?case
  proof (cases "n = length P")
    case True
    then have "terminated (drop off (ps_array pool))" using Cons.prems p by (simp add: name_good_def name_bytes_def nth_append)
    then have "off \<le> length (ps_array pool)" by (cases "off \<le> length (ps_array pool)") auto
    then show ?thesis using p True by simp
  next
    case False
    then have "name_good P (Some p)" using Cons.prems p by (simp add: name_good_def name_bytes_def nth_append split: if_splits)
    then show ?thesis using Cons.IH p False by simp
  qed
qed

lemma dict_owns_level: "l < length ds \<Longrightarrow> pool_owns (d_strings (ds ! l)) p \<Longrightarrow> dict_owns ds lvl (In_Dict (lvl + l) p) = 1"
proof (induction ds arbitrary: l lvl)
  case (Cons d ds)
  then show ?case
  proof (cases l)
    case (Suc k)
    then show ?thesis using Cons.IH [of k "lvl + 1"] Cons.prems by simp
  qed simp
qed simp

lemma interned_valid:
  assumes ok: "chain_ok dicts" and p: "interned dicts t = Some p"
  shows "ptr_text dicts p = t" "xmlDictOwns dicts (Some p) = 1"
proof -
  obtain l q where q: "p = In_Dict l q" "l < length dicts" "dict_map (dicts ! l) t = Some q"
    using p by (cases dicts) (auto simp: interned_def split: option.splits list.splits)
  then have "name_good (d_strings (dicts ! l)) (Some q) \<and> name_text (d_strings (dicts ! l)) (Some q) = t"
    using ok dict_map_Some by (simp add: chain_ok_def)
  then show "ptr_text dicts p = t" "xmlDictOwns dicts (Some p) = 1"
    using q dict_owns_level [of l dicts q 0] pool_owns_good by (auto simp: ptr_text_def xmlDictOwns_def)
qed

text \<open>New dictionaries, with and without a subdictionary.\<close>

lemma dict_created:
  assumes "sub = [] \<or> chain_ok sub" "xmlDictCreateSub sub seed mem = (dicts, mem')"
  shows "dicts = [] \<and> \<not> mem_ok mem \<or> chain_ok dicts \<and> interned dicts = (case sub of [] \<Rightarrow> Map.empty | s # _ \<Rightarrow> map_option (In_Dict 1) \<circ> dict_map s)"
proof -
  obtain ok m where m: "malloc mem = (ok, m)" "set m \<subseteq> set mem" "\<not> ok \<longrightarrow> False \<in> set mem" by (rule malloc_cases)
  let ?d = "\<lambda>s. \<lparr>d_ref_counter = 1, d_table = [], d_size = 0, d_nbElems = 0, d_strings = [], d_seed = s, d_limit = 0\<rparr>"
  have d: "dict_ok (?d s)" "dict_map (?d s) = Map.empty" for s
    by (simp_all add: dict_ok_def pools_ok_def dict_map_def dict_pairs_def)
  show ?thesis
  proof (cases "ok \<and> sub \<noteq> []")
    case True
    then obtain s ss where s: "sub = s # ss" by (cases sub) auto
    let ?s = "s\<lparr>d_ref_counter := d_ref_counter s + 1\<rparr>"
    have "dicts = ?d (d_seed s) # ?s # ss" using assms(2) m(1) True s by (auto simp: xmlDictCreateSub_def xmlDictCreate_def xmlDictReference_def)
    moreover have "dict_ok ?s" "dict_map ?s = dict_map s" using assms(1) s by (simp_all add: chain_ok_def dict_ok_def dict_map_def dict_pairs_def)
    ultimately show ?thesis using assms(1) s d by (simp add: chain_ok_def interned_def fun_eq_iff)
  next
    case False
    then have "dicts = (if ok then [?d seed] else [])" using assms(2) m(1) by (cases ok; cases sub) (auto simp: xmlDictCreateSub_def xmlDictCreate_def)
    then show ?thesis using False d m(3) by (auto simp: chain_ok_def interned_def mem_ok_def)
  qed
qed

text \<open>Freeing a dictionary releases its reference to the subdictionary.\<close>

lemma dict_free_sub:
  assumes "\<forall>s\<in>set sub. d_ref_counter s \<ge> 1" "xmlDictCreateSub sub seed mem = (dicts, mem')" "dicts \<noteq> []"
  shows "xmlDictFree dicts = sub" "xmlDictFree (snd (xmlDictReference dicts)) = dicts"
proof -
  obtain ok m where "malloc mem = (ok, m)" by (cases "malloc mem")
  then show "xmlDictFree dicts = sub" "xmlDictFree (snd (xmlDictReference dicts)) = dicts"
    using assms by (auto simp: xmlDictCreateSub_def xmlDictCreate_def xmlDictReference_def split: list.splits if_splits)
qed

lemma dict_size: "dict_ok d \<Longrightarrow> xmlDictSize [d] = int (card (dom (dict_map d)))"
proof -
  assume ok: "dict_ok d"
  have "unat (d_nbElems d) < 2147483648"
  proof (cases "d_size d = 0")
    case True
    then show ?thesis using ok by (simp add: dict_ok_def)
  next
    case False
    note inv = dict_okD [OF ok False]
    show ?thesis using inv(1) table_size_pos [OF inv(4)] by (simp add: table_inv_def)
  qed
  moreover have "uint (d_nbElems d) = int (unat (d_nbElems d))" by simp
  ultimately have "uint (d_nbElems d) < 2147483648" by linarith
  then have "sint (d_nbElems d) = uint (d_nbElems d)" by (rule sint_small)
  then show ?thesis using dict_map_card [OF ok] by (simp add: xmlDictSize_def)
qed

lemma take_SIZE_MAX: "length xs \<le> 4294967295 \<Longrightarrow> take SIZE_MAX xs = xs"
  by (simp add: SIZE_MAX_def)

section \<open>Properties\<close>





text \<open>
  With an empty prefix the comparison fails on the colon of every name, so that
  \<open>xmlDictQLookup\<close> never finds what it has added before.
\<close>

lemma dict_empty_prefix: "name_bytes P (de_name e) = Some (0x3A # s) \<Longrightarrow> dict_matches P (Some (0 # r)) name len e = Some False"
  by (simp add: dict_matches_def xmlStrQEqual_def)

end
