(* ===== verification/Spec2Isabelle.thy ===== *)
theory Spec2Isabelle
  imports Lscov_Main Lscov_Instr Lscov_Clang Afl_Alias Xml_List Xml_Uri_Roundtrip Xml_Dict
begin

text \<open>
  A verification development for the logic state coverage tool (\<open>src/lscov\<close>) and for the parts
  of its test bed (\<open>src/testbed\<close>) that are self-contained: the coverage bitmaps and the queue of
  AFL++, the fuzzer that drives the measured program, and base modules of libxml2, the library
  that is fuzzed.

  \<^bold>\<open>The program.\<close>  A program is compiled by the wrapper \<open>lscov-clang\<close>, which runs clang with the
  pass \<open>lscov-llvm-pass.so\<close> and links the runtime \<open>lscov-llvm-rt.a\<close>.  The pass gives every basic
  block an index into a shared map, and the code it inserts marks the block (or counts its
  executions) there.  The bytes of the map after one execution are its \<^emph>\<open>logic state\<close>.  The daemon
  \<open>lscov-daemon\<close> reads a logic state after each execution, in a handshake with the runtime over two
  semaphores and the first byte of the map, buckets the counts, adds the state to a Bloom filter
  and reports from time to time the estimated number of different states.

  \<^bold>\<open>Theories of the tool.\<close>
  \<^item> \<open>Prelude\<close>: fixed-width integers, little-endian loads and stores, population counts, C
    division, and the locales \<open>codec\<close>, \<open>stream_codec\<close> and \<open>simulation\<close>.
  \<^item> \<open>Lscov_Bloom\<close> (\<open>lscov-daemon.c\<close>, \<open>bfilter_*\<close>): the daemon's state is the record
    \<open>daemon\<close>; MurmurHash3, setting bits, the count of ones and the estimate.  The locale
    \<open>bloom_filter\<close> states what adding promises and is interpreted on the model.  Shown: the hash is
    the published function, the filter holds exactly the bits of what was added, and the
    estimate inverts the expected occupancy.
  \<^item> \<open>Lscov_Hcount\<close> (\<open>hcount_*\<close>): bucketing by 16-bit lookups equals bucketing every byte.
  \<^item> \<open>Lscov_Tally\<close> (\<open>tally_*\<close>, \<open>out_*\<close>, \<open>lscov_report\<close>, \<open>lscov_stop\<close>, the body of the loop): the
    clock, the rows and the report threads as steps that interleave with the loop.
  \<^item> \<open>Lscov_Instr\<close> (\<open>lscov-llvm-pass.so.cc\<close>): which blocks are instrumented and what the inserted
    code does to the map.
  \<^item> \<open>Lscov_Protocol\<close> (\<open>lscov-llvm-rt.a.c\<close> and \<open>lscov_wait\<close>, \<open>lscov_loop\<close> of the daemon): the
    handshake as the step relation \<open>hs_step\<close>, one step per access to the map or a semaphore, with
    crashes as faults.  Invariants are shown by rule induction over \<open>hs_reach\<close>: exclusion, every
    finished execution read exactly once and in order, the state read is that of one
    execution, progress; and the deadlocks and the race on the first byte that the code has.
  \<^item> \<open>Lscov_Main\<close> (\<open>arg_parse\<close>, \<open>main\<close>): start-up with the system calls as parameters, and the
    theorem that ties the parts together (\<open>lscov_measures_states\<close>).
  \<^item> \<open>Lscov_Clang\<close> (\<open>lscov-clang.cc\<close>): the command line the wrapper builds.

  \<^bold>\<open>Theories of the test bed.\<close>
  \<^item> \<open>Afl_Bitmap\<close> (\<open>aflpp/src/afl-fuzz-bitmap.c\<close>, \<open>aflpp/include/coverage-64.h\<close>): classification,
    comparison with the virgin maps and counting, in words and byte by byte.
  \<^item> \<open>Afl_Queue\<close> (\<open>aflpp/src/afl-fuzz-queue.c\<close>): the queue of inputs as the record \<open>queue_state\<close>, with
    entries as indices of its buffer; adding, rating (\<open>update_bitmap_score\<close>) and culling (\<open>cull_queue\<close>).  The
    invariant \<open>queue_inv\<close> is kept by every sequence of operations; the favored entries hit all that was hit.
  \<^item> \<open>Afl_Alias\<close> (the same file): \<open>calculate_score\<close>, \<open>compute_weight\<close>, \<open>create_alias_table\<close> with its two stacks
    in arrays, and \<open>select_next_queue_entry\<close>: the table is exact, and the bounds of the score.
  \<^item> \<open>Xml_String\<close> (\<open>xmlstring.c\<close>): strings and UTF-8 on byte lists; the locale \<open>stream_codec\<close> is
    interpreted on the UTF-8 decoder.
  \<^item> \<open>Xml_List\<close> (\<open>list.c\<close>): circular lists in an explicit heap of links; the locale
    \<open>ordered_container\<close> is interpreted on \<open>xmlListInsert\<close>.
  \<^item> \<open>Xml_Uri\<close>, \<open>Xml_Uri_Save\<close>, \<open>Xml_Path\<close>, \<open>Xml_Uri_Build\<close>, \<open>Xml_Uri_Roundtrip\<close> (\<open>uri.c\<close>): the
    parser, the serialiser over its growing buffer, path normalisation in place, resolution and
    escaping, and that parsing what was printed gives the structure back (\<open>codec\<close> interpreted).
  \<^item> \<open>Xml_Robin\<close>, \<open>Xml_Hash\<close>, \<open>Xml_Dict\<close> (\<open>hash.c\<close>, \<open>dict.c\<close>): Robin Hood open addressing, the
    locale \<open>keyed_table\<close> with the laws of search, insertion, growth and removal, interpreted on the
    entries of hash tables and of dictionaries.  Tables refine finite maps and dictionaries
    refine an interner (\<open>simulation\<close> interpreted on both).

  \<^bold>\<open>How C is modelled.\<close>  Integers have their width (\<open>u8\<close>, \<open>u16\<close>, \<open>u32\<close>, \<open>u64\<close> are words) and wrap; \<open>size_t\<close> and
  \<open>int\<close> values that the code keeps in range are natural numbers and integers, with the limits
  \<open>SIZE_MAX\<close> and \<open>INT_MAX\<close> and any wrap-around written out where the code can reach them.  The build is the
  64-bit Linux one.  A memory block is the list of its bytes, and a pointer into it is the rest of
  the list or an index.  A read or write outside a block is the outer result \<open>None\<close> of the routines
  of libxml2, so that a theorem that a call is \<open>Some\<close> is memory safety; results of the C code, error codes and
  \<open>NULL\<close> are values inside it.  Allocation takes its outcomes from a list of booleans
  (\<open>malloc\<close>; \<open>mem_ok\<close> when none fails), so that theorems cover every pattern of failures.  Mutexes,
  time and system calls are parameters or steps.  The doubles of the daemon's estimate and of the scores and
  weights of AFL++ are real numbers; there a value that is not a real number (a division by 0, the logarithm
  of 0) or not in the range of the integer it is converted to is \<open>None\<close>.

  \<^bold>\<open>Loops.\<close>  Loops over a buffer are structural recursions or have a measure; loops whose end depends on an
  invariant of the data (probing a table, walking a circular list, the in-place loops of path
  normalisation) are \<open>partial_function (option)\<close>, for which \<open>None\<close> is also non-termination; the theorems show
  that they return \<open>Some\<close>.  No definition has a fuel parameter.

  \<^bold>\<open>Limits of the models.\<close>  The report threads of the daemon run atomically.  Strings handed to libxml2 are shorter than
  \<open>INT_MAX\<close> where a theorem says so.  A dictionary and its subdictionaries form a chain that is only used
  through its head.  Hash tables have no dictionary, and a scan callback may remove entries but not add any.
  The theorems on the queue of AFL++ are for inputs whose trace and time do not change, for a map whose size is a
  multiple of 8 and for less than \<open>2 ^ 31\<close> entries (the alias table) or \<open>2 ^ 32\<close> operations; allocations succeed.

  \<^bold>\<open>Not modelled.\<close>  The messages of lscov (\<open>stuff.h\<close>, \<open>emoji.h\<close>) and the plotting script; \<open>xmlPrintURI\<close>,
  \<open>xmlFreeURI\<close> and the printf wrappers of \<open>xmlstring.c\<close>, which only write to streams, free or format; tables created by
  \<open>xmlHashCreateDict\<close>; start-up, mutexes and seeding of \<open>dict.c\<close>; \<open>save_if_interesting\<close>, \<open>describe_op\<close> and the vector
  variants of \<open>skim\<close> in AFL++, and of its queue the names and marker files, \<open>check_if_text\<close> and the cache of test cases; LLVM and clang themselves; the rest of AFL++ (processes, files, mutation, user
  interface) and of libxml2 (the parsers, trees, validators, XPath).
\<close>

end
